(* ===== verification/Prelude.thy ===== *)
theory Prelude
  imports Main "HOL-Library.Word" "HOL-Library.Signed_Division"
begin

section \<open>Prelude: results, errors and the lemmas every component shares\<close>

text \<open>
  The C++ code fails in a few ways: a failed \<open>assert\<close>, a standard exception, a call of
  \<open>abort\<close> (\<open>LOG_FATAL\<close>, \<open>LOG_SYSFATAL\<close>), or undefined behaviour. Each is a value of
  \<open>cpp_error\<close>; an operation that can fail returns a \<open>res\<close>. The combinators \<open>rbind\<close> and
  \<open>cassert\<close> sequence such operations the way the statements of the source are sequenced.
\<close>

datatype cpp_error =
    AssertFail          \<comment> \<open>a failed \<open>assert\<close>\<close>
  | UndefinedBehaviour  \<comment> \<open>the C++ standard gives the program no meaning from here on\<close>
  | OutOfRange          \<comment> \<open>\<open>std::out_of_range\<close>\<close>
  | InvalidArgument     \<comment> \<open>\<open>std::invalid_argument\<close>\<close>
  | OverflowError       \<comment> \<open>\<open>std::overflow_error\<close>\<close>
  | LogicError          \<comment> \<open>\<open>std::logic_error\<close>\<close>
  | Abort               \<comment> \<open>\<open>LOG_FATAL\<close>, \<open>LOG_SYSFATAL\<close>, \<open>abort\<close>\<close>

type_synonym 'a res = "cpp_error + 'a"

type_synonym byte = char
type_synonym bytes = "char list"

definition rbind :: "'a res \<Rightarrow> ('a \<Rightarrow> 'b res) \<Rightarrow> 'b res" where
  "rbind m f = (case m of Inl e \<Rightarrow> Inl e | Inr x \<Rightarrow> f x)"

definition cassert :: "bool \<Rightarrow> 'a res \<Rightarrow> 'a res" where
  "cassert b k = (if b then k else Inl AssertFail)"

definition is_ok :: "'a res \<Rightarrow> bool" where
  "is_ok m = (case m of Inl _ \<Rightarrow> False | Inr _ \<Rightarrow> True)"

named_theorems inv_intros \<open>operations preserve the invariant of their component\<close>
named_theorems abs_simps \<open>operations commute with the abstraction of their component\<close>

lemma rbind_simps [simp]:
  "rbind (Inl e) f = Inl e"
  "rbind (Inr x) f = f x"
  by (simp_all add: rbind_def)

lemma cassert_simps [simp]:
  "cassert True k = k"
  "cassert False k = Inl AssertFail"
  by (simp_all add: cassert_def)

lemma rbind_eq_Inr [simp]: "rbind m f = Inr y \<longleftrightarrow> (\<exists>x. m = Inr x \<and> f x = Inr y)"
  by (cases m) auto

lemma cassert_eq_Inr [simp]: "cassert b k = Inr y \<longleftrightarrow> b \<and> k = Inr y"
  by (cases b) auto

lemma is_ok_simps [simp]: "is_ok (Inr x)" "\<not> is_ok (Inl e)"
  by (simp_all add: is_ok_def)

lemma is_ok_iff: "is_ok m \<longleftrightarrow> (\<exists>x. m = Inr x)"
  by (cases m) auto

lemma rbind_assoc: "rbind (rbind m f) g = rbind m (\<lambda>x. rbind (f x) g)"
  by (cases m) auto


text \<open>C++ division rounds toward zero; on non-negative numbers it is division in HOL.\<close>

lemma sdiv_nonneg: "0 \<le> a \<Longrightarrow> 0 < b \<Longrightarrow> (a :: int) sdiv b = a div b"
  by (cases "a = 0") (simp_all add: signed_divide_int_def)

lemma smod_nonneg: "0 \<le> a \<Longrightarrow> 0 < b \<Longrightarrow> (a :: int) smod b = a mod b"
  by (cases "a = 0") (simp_all add: signed_modulo_int_def)


subsection \<open>Lists: windows, searching, overwriting\<close>

text \<open>\<open>window xs i j\<close> is the half-open range \<open>[i, j)\<close> of an array, as the pair of pointers
  \<open>begin + i\<close>, \<open>begin + j\<close> denotes it in the source.\<close>

definition window :: "'a list \<Rightarrow> nat \<Rightarrow> nat \<Rightarrow> 'a list" where
  "window xs i j = drop i (take j xs)"

text \<open>\<open>overwrite xs i ys\<close> is the array after \<open>std::copy(ys.begin(), ys.end(), begin + i)\<close>.\<close>

definition overwrite :: "'a list \<Rightarrow> nat \<Rightarrow> 'a list \<Rightarrow> 'a list" where
  "overwrite xs i ys = take i xs @ ys @ drop (i + length ys) xs"

lemma length_window [simp]: "j \<le> length xs \<Longrightarrow> length (window xs i j) = j - i"
  by (simp add: window_def)

lemma window_empty [simp]: "j \<le> i \<Longrightarrow> window xs i j = []"
  by (simp add: window_def)

lemma length_overwrite [simp]:
  "i + length ys \<le> length xs \<Longrightarrow> length (overwrite xs i ys) = length xs"
  by (simp add: overwrite_def)

lemma window_Nil_iff: "i \<le> j \<Longrightarrow> j \<le> length xs \<Longrightarrow> window xs i j = [] \<longleftrightarrow> i = j"
  by (auto simp: window_def)

lemma take_window: "take n (window xs i j) = window xs i (min j (i + n))"
  by (simp add: window_def take_drop min_def add.commute)

lemma drop_window: "drop n (window xs i j) = window xs (i + n) j"
  by (simp add: window_def add.commute)

lemma window_split: "i \<le> k \<Longrightarrow> k \<le> j \<Longrightarrow> window xs i j = window xs i k @ window xs k j"
proof -
  assume "i \<le> k" "k \<le> j"
  then have "window xs i k = take (k - i) (window xs i j)"
    and "window xs k j = drop (k - i) (window xs i j)"
    by (simp_all add: take_window drop_window)
  then show ?thesis by simp
qed

lemma window_overwrite_hit [simp]:
  "i + length ys \<le> length xs \<Longrightarrow> window (overwrite xs i ys) i (i + length ys) = ys"
  by (simp add: window_def overwrite_def)

lemma window_overwrite_before:
  "j \<le> i \<Longrightarrow> i + length ys \<le> length xs \<Longrightarrow> window (overwrite xs i ys) k j = window xs k j"
  by (simp add: window_def overwrite_def)

lemma window_overwrite_after:
  assumes "i + length ys \<le> k" and "i + length ys \<le> length xs"
  shows "window (overwrite xs i ys) k j = window xs k j"
proof -
  have "drop k (overwrite xs i ys) = drop k xs"
    using assms by (simp add: overwrite_def)
  then show ?thesis by (simp add: window_def drop_take)
qed

lemma window_append_left: "j \<le> length xs \<Longrightarrow> window (xs @ zs) i j = window xs i j"
  by (simp add: window_def)

lemma window_whole [simp]: "window xs 0 (length xs) = xs"
  by (simp add: window_def)

text \<open>\<open>std::find\<close> on a range: the index of the first element that satisfies the predicate,
  the length of the range when there is none.\<close>

fun find_idx :: "('a \<Rightarrow> bool) \<Rightarrow> 'a list \<Rightarrow> nat" where
  "find_idx p [] = 0"
| "find_idx p (x # xs) = (if p x then 0 else Suc (find_idx p xs))"

lemma find_idx_le [simp]: "find_idx p xs \<le> length xs"
  by (induction xs) auto

lemma find_idx_less_iff: "find_idx p xs < length xs \<longleftrightarrow> (\<exists>x \<in> set xs. p x)"
  by (induction xs) auto

lemma find_idx_nth: "find_idx p xs < length xs \<Longrightarrow> p (xs ! find_idx p xs)"
  by (induction xs) auto

lemma find_idx_before: "i < find_idx p xs \<Longrightarrow> \<not> p (xs ! i)"
proof (induction xs arbitrary: i)
  case (Cons x xs)
  then show ?case by (cases i) (auto split: if_splits)
qed simp

lemma find_idx_append:
  "\<forall>x \<in> set xs. \<not> p x \<Longrightarrow> find_idx p (xs @ ys) = length xs + find_idx p ys"
  by (induction xs) auto

lemma find_idx_stop: "\<forall>x \<in> set xs. \<not> p x \<Longrightarrow> p y \<Longrightarrow> find_idx p (xs @ y # ys) = length xs"
  by (simp add: find_idx_append)

lemma take_find_idx: "x \<in> set (take (find_idx p xs) xs) \<Longrightarrow> \<not> p x"
  by (induction xs) (auto split: if_splits)

text \<open>\<open>std::search\<close>: the index of the first occurrence of a needle, if there is one.\<close>

fun is_prefix_of :: "'a list \<Rightarrow> 'a list \<Rightarrow> bool" where
  "is_prefix_of [] ys = True"
| "is_prefix_of (x # xs) [] = False"
| "is_prefix_of (x # xs) (y # ys) = (x = y \<and> is_prefix_of xs ys)"

fun search_idx :: "'a list \<Rightarrow> 'a list \<Rightarrow> nat option" where
  "search_idx pat [] = (if pat = [] then Some 0 else None)"
| "search_idx pat (y # ys) =
     (if is_prefix_of pat (y # ys) then Some 0 else map_option Suc (search_idx pat ys))"

lemma is_prefix_of_append: "is_prefix_of xs ys \<longleftrightarrow> (\<exists>zs. ys = xs @ zs)"
  by (induction xs ys rule: is_prefix_of.induct) auto

lemma search_idx_Some:
  "search_idx pat ys = Some i \<Longrightarrow> \<exists>zs. ys = take i ys @ pat @ zs \<and> i + length pat \<le> length ys"
proof (induction ys arbitrary: i)
  case Nil
  then show ?case by (auto split: if_splits)
next
  case (Cons y ys)
  show ?case
  proof (cases "is_prefix_of pat (y # ys)")
    case True
    with Cons.prems have "i = 0" by simp
    moreover from True obtain zs where zs: "y # ys = pat @ zs" by (auto simp: is_prefix_of_append)
    moreover from zs have "length pat \<le> length (y # ys)" by simp
    ultimately show ?thesis by auto
  next
    case False
    with Cons.prems obtain j where "search_idx pat ys = Some j" "i = Suc j" by auto
    with Cons.IH show ?thesis by fastforce
  qed
qed

lemma search_idx_None: "search_idx pat ys = None \<Longrightarrow> ys \<noteq> us @ pat @ vs"
proof (induction ys arbitrary: us)
  case Nil
  then show ?case by (auto split: if_splits)
next
  case (Cons y ys)
  then have np: "\<not> is_prefix_of pat (y # ys)" and none: "search_idx pat ys = None"
    by (auto split: if_splits)
  show ?case
  proof (cases us)
    case Nil
    with np show ?thesis by (auto simp: is_prefix_of_append)
  next
    case (Cons u us')
    with Cons.IH [OF none, of us'] show ?thesis by auto
  qed
qed

lemma search_idx_first:
  "search_idx pat ys = Some i \<Longrightarrow> j < i \<Longrightarrow> \<not> is_prefix_of pat (drop j ys)"
proof (induction ys arbitrary: i j)
  case Nil
  then show ?case by (auto split: if_splits)
next
  case (Cons y ys)
  show ?case
  proof (cases "is_prefix_of pat (y # ys)")
    case True
    with Cons.prems show ?thesis by simp
  next
    case False
    with Cons.prems obtain k where k: "search_idx pat ys = Some k" "i = Suc k" by auto
    show ?thesis
    proof (cases j)
      case 0
      with False show ?thesis by simp
    next
      case (Suc j')
      with k Cons.prems Cons.IH show ?thesis by simp
    qed
  qed
qed

end
