(* ===== verification/Endian.thy ===== *)
theory Endian
  imports Prelude
begin

section \<open>Byte order (\<open>master/net/Endian.h\<close>)\<close>

text \<open>
  The wrappers of \<open>Endian.h\<close> call \<open>htobe16/32/64\<close> and \<open>be16/32/64toh\<close> and their callers copy
  the result to or from memory with \<open>memcpy\<close>. The model is a little-endian host: \<open>store\<close> is the
  memory image of a word, \<open>load\<close> reads one back, and the conversions swap the bytes. What the
  callers rely on is that the memory image of a converted word is the big-endian image of the
  word, and that converting back is the inverse.
\<close>

fun le_bytes :: "nat \<Rightarrow> nat \<Rightarrow> bytes" where
  "le_bytes 0 v = []"
| "le_bytes (Suc n) v = char_of (v mod 256) # le_bytes n (v div 256)"

fun le_val :: "bytes \<Rightarrow> nat" where
  "le_val [] = 0"
| "le_val (c # cs) = of_char c + 256 * le_val cs"

definition store :: "'a::len word \<Rightarrow> bytes" where
  "store w = le_bytes (LENGTH('a) div 8) (unat w)"

definition load :: "bytes \<Rightarrow> 'a::len word" where
  "load bs = of_nat (le_val bs)"

definition hostToNetwork64 :: "64 word \<Rightarrow> 64 word" where
  "hostToNetwork64 x = load (rev (store x))"

definition hostToNetwork32 :: "32 word \<Rightarrow> 32 word" where
  "hostToNetwork32 x = load (rev (store x))"

definition hostToNetwork16 :: "16 word \<Rightarrow> 16 word" where
  "hostToNetwork16 x = load (rev (store x))"

definition networkToHost64 :: "64 word \<Rightarrow> 64 word" where
  "networkToHost64 x = load (rev (store x))"

definition networkToHost32 :: "32 word \<Rightarrow> 32 word" where
  "networkToHost32 x = load (rev (store x))"

definition networkToHost16 :: "16 word \<Rightarrow> 16 word" where
  "networkToHost16 x = load (rev (store x))"

lemma length_le_bytes [simp]: "length (le_bytes n v) = n"
  by (induction n arbitrary: v) auto

lemma of_char_less_256 [simp]: "(of_char c :: nat) < 256"
  by (metis of_char_mod_256 mod_less_divisor zero_less_numeral)

lemma le_val_le_bytes: "le_val (le_bytes n v) = v mod 256 ^ n"
proof (induction n arbitrary: v)
  case (Suc n)
  have "le_val (le_bytes (Suc n) v) = v mod 256 + 256 * (v div 256 mod 256 ^ n)"
    by (simp add: Suc)
  also have "\<dots> = v mod (256 * 256 ^ n)"
    by (simp add: mod_mult2_eq)
  finally show ?case by simp
qed simp

lemma le_bytes_le_val: "le_bytes (length bs) (le_val bs) = bs"
  by (induction bs) auto

lemma le_val_bound: "le_val bs < 256 ^ length bs"
proof (induction bs)
  case (Cons c cs)
  have "le_val (c # cs) < 256 + 256 * le_val cs"
    by simp
  also have "\<dots> = 256 * Suc (le_val cs)" by simp
  also have "\<dots> \<le> 256 * 256 ^ length cs"
    using Cons by (simp only: Suc_le_eq mult_le_cancel1) simp
  finally show ?case by simp
qed simp

lemma length_store [simp]: "length (store (w :: 'a::len word)) = LENGTH('a) div 8"
  by (simp add: store_def)

lemma pow256_bits:
  assumes "8 dvd LENGTH('a::len)"
  shows "(256::nat) ^ (LENGTH('a) div 8) = 2 ^ LENGTH('a)"
proof -
  have "(256::nat) ^ (LENGTH('a) div 8) = (2 ^ 8) ^ (LENGTH('a) div 8)" by simp
  also have "\<dots> = 2 ^ LENGTH('a)"
    using assms by (simp only: power_mult [symmetric]) simp
  finally show ?thesis .
qed

lemma load_store:
  assumes "8 dvd LENGTH('a::len)"
  shows "load (store (w :: 'a word)) = w"
  using assms by (simp add: load_def store_def le_val_le_bytes pow256_bits)

lemma store_load:
  assumes "8 dvd LENGTH('a::len)" and "length bs = LENGTH('a) div 8"
  shows "store (load bs :: 'a word) = bs"
proof -
  have "le_val bs < 2 ^ LENGTH('a)"
    using le_val_bound [of bs] assms by (simp add: pow256_bits)
  then have "unat (load bs :: 'a word) = le_val bs"
    by (simp add: load_def unat_of_nat)
  then show ?thesis
    using le_bytes_le_val [of bs] assms(2) by (simp add: store_def)
qed

text \<open>The memory image after conversion is the big-endian image, and the conversions cancel.\<close>

lemma store_hton [simp]:
  "store (hostToNetwork64 x) = rev (store x)"
  "store (hostToNetwork32 y) = rev (store y)"
  "store (hostToNetwork16 z) = rev (store z)"
  by (simp_all add: hostToNetwork64_def hostToNetwork32_def hostToNetwork16_def store_load)

lemma ntoh_load [simp]:
  "length bs = 8 \<Longrightarrow> networkToHost64 (load bs) = load (rev bs)"
  "length bs = 4 \<Longrightarrow> networkToHost32 (load bs) = load (rev bs)"
  "length bs = 2 \<Longrightarrow> networkToHost16 (load bs) = load (rev bs)"
  by (simp_all add: networkToHost64_def networkToHost32_def networkToHost16_def store_load)

lemma ntoh_hton:
  "networkToHost64 (hostToNetwork64 x) = x"
  "networkToHost32 (hostToNetwork32 y) = y"
  "networkToHost16 (hostToNetwork16 z) = z"
  by (simp_all add: networkToHost64_def networkToHost32_def networkToHost16_def load_store)

end
