(* ===== verification/Buffer.thy ===== *)
theory Buffer
  imports Endian
begin

section \<open>The network buffer (\<open>master/net/Buffer.h\<close>, \<open>Buffer.cc\<close>)\<close>

text \<open>
  \<open>Buffer\<close> is a \<open>std::vector<char>\<close> with two indices. Everything between \<open>readerIndex\<close> and
  \<open>writerIndex\<close> is readable; what is before can be prepended to, what is after can be written
  to. Pointers into the vector are indices. Sizes are \<open>nat\<close>: a vector is never as large as
  \<open>2 ^ 64\<close> bytes, so the additions of \<open>size_t\<close> do not wrap, and every subtraction of the source is
  guarded by the class invariant. Assertions are kept as in a debug build.
\<close>

record buffer =
  buf_data :: bytes
  readerIndex :: nat
  writerIndex :: nat

definition kCheapPrepend :: nat where "kCheapPrepend = 8"
definition kInitialSize :: nat where "kInitialSize = 1024"
definition kCRLF :: bytes where "kCRLF = [CHR 0x0D, CHR 0x0A]"

definition readableBytes :: "buffer \<Rightarrow> nat" where
  "readableBytes b = writerIndex b - readerIndex b"

definition writableBytes :: "buffer \<Rightarrow> nat" where
  "writableBytes b = length (buf_data b) - writerIndex b"

definition prependableBytes :: "buffer \<Rightarrow> nat" where
  "prependableBytes b = readerIndex b"

definition Buffer_new :: "nat \<Rightarrow> buffer res" where
  "Buffer_new initialSize =
     (let b = \<lparr>buf_data = replicate (kCheapPrepend + initialSize) (CHR 0x00),
               readerIndex = kCheapPrepend, writerIndex = kCheapPrepend\<rparr>
      in cassert (readableBytes b = 0)
           (cassert (writableBytes b = initialSize)
             (cassert (prependableBytes b = kCheapPrepend) (Inr b))))"

definition buf_swap :: "buffer \<Rightarrow> buffer \<Rightarrow> buffer \<times> buffer" where
  "buf_swap b rhs =
     (b\<lparr>buf_data := buf_data rhs, readerIndex := readerIndex rhs, writerIndex := writerIndex rhs\<rparr>,
      rhs\<lparr>buf_data := buf_data b, readerIndex := readerIndex b, writerIndex := writerIndex b\<rparr>)"

definition peek :: "buffer \<Rightarrow> nat" where
  "peek b = readerIndex b"

definition beginWrite :: "buffer \<Rightarrow> nat" where
  "beginWrite b = writerIndex b"

definition findCRLF_from :: "nat \<Rightarrow> buffer \<Rightarrow> nat option res" where
  "findCRLF_from start b =
     cassert (peek b \<le> start)
       (cassert (start \<le> beginWrite b)
         (Inr (map_option (\<lambda>i. start + i) (search_idx kCRLF (window (buf_data b) start (beginWrite b))))))"

definition findCRLF :: "buffer \<Rightarrow> nat option" where
  "findCRLF b =
     map_option (\<lambda>i. peek b + i) (search_idx kCRLF (window (buf_data b) (peek b) (beginWrite b)))"

definition memchr :: "char \<Rightarrow> bytes \<Rightarrow> nat option" where
  "memchr c xs = (let i = find_idx (\<lambda>x. x = c) xs in if i < length xs then Some i else None)"

definition findEOL :: "buffer \<Rightarrow> nat option" where
  "findEOL b =
     map_option (\<lambda>i. peek b + i) (memchr (CHR 0x0A) (window (buf_data b) (peek b) (peek b + readableBytes b)))"

definition findEOL_from :: "nat \<Rightarrow> buffer \<Rightarrow> nat option res" where
  "findEOL_from start b =
     cassert (peek b \<le> start)
       (cassert (start \<le> beginWrite b)
         (Inr (map_option (\<lambda>i. start + i) (memchr (CHR 0x0A) (window (buf_data b) start (beginWrite b))))))"

definition retrieveAll :: "buffer \<Rightarrow> buffer" where
  "retrieveAll b = b\<lparr>readerIndex := kCheapPrepend, writerIndex := kCheapPrepend\<rparr>"

definition retrieve :: "nat \<Rightarrow> buffer \<Rightarrow> buffer res" where
  "retrieve len b =
     cassert (len \<le> readableBytes b)
       (Inr (if len < readableBytes b then b\<lparr>readerIndex := readerIndex b + len\<rparr> else retrieveAll b))"

definition retrieveUntil :: "nat \<Rightarrow> buffer \<Rightarrow> buffer res" where
  "retrieveUntil endp b =
     cassert (peek b \<le> endp) (cassert (endp \<le> beginWrite b) (retrieve (endp - peek b) b))"

definition retrieveInt64 :: "buffer \<Rightarrow> buffer res" where "retrieveInt64 b = retrieve 8 b"
definition retrieveInt32 :: "buffer \<Rightarrow> buffer res" where "retrieveInt32 b = retrieve 4 b"
definition retrieveInt16 :: "buffer \<Rightarrow> buffer res" where "retrieveInt16 b = retrieve 2 b"
definition retrieveInt8 :: "buffer \<Rightarrow> buffer res" where "retrieveInt8 b = retrieve 1 b"

definition retrieveAsString :: "nat \<Rightarrow> buffer \<Rightarrow> (bytes \<times> buffer) res" where
  "retrieveAsString len b =
     cassert (len \<le> readableBytes b)
       (let result = window (buf_data b) (peek b) (peek b + len)
        in rbind (retrieve len b) (\<lambda>b'. Inr (result, b')))"

definition retrieveAllAsString :: "buffer \<Rightarrow> (bytes \<times> buffer) res" where
  "retrieveAllAsString b = retrieveAsString (readableBytes b) b"

definition toStringPiece :: "buffer \<Rightarrow> bytes" where
  "toStringPiece b = window (buf_data b) (peek b) (peek b + readableBytes b)"

definition vec_resize :: "bytes \<Rightarrow> nat \<Rightarrow> bytes" where
  "vec_resize xs n = take n xs @ replicate (n - length xs) (CHR 0x00)"

definition makeSpace :: "nat \<Rightarrow> buffer \<Rightarrow> buffer res" where
  "makeSpace len b =
     (if writableBytes b + prependableBytes b < len + kCheapPrepend
      then Inr (b\<lparr>buf_data := vec_resize (buf_data b) (writerIndex b + len)\<rparr>)
      else cassert (kCheapPrepend < readerIndex b)
        (let readable = readableBytes b;
             b' = b\<lparr>buf_data := overwrite (buf_data b) kCheapPrepend
                                  (window (buf_data b) (readerIndex b) (writerIndex b)),
                    readerIndex := kCheapPrepend, writerIndex := kCheapPrepend + readable\<rparr>
         in cassert (readable = readableBytes b') (Inr b')))"

definition ensureWritableBytes :: "nat \<Rightarrow> buffer \<Rightarrow> buffer res" where
  "ensureWritableBytes len b =
     rbind (if writableBytes b < len then makeSpace len b else Inr b)
       (\<lambda>b'. cassert (len \<le> writableBytes b') (Inr b'))"

definition hasWritten :: "nat \<Rightarrow> buffer \<Rightarrow> buffer res" where
  "hasWritten len b = cassert (len \<le> writableBytes b) (Inr (b\<lparr>writerIndex := writerIndex b + len\<rparr>))"

definition unwrite :: "nat \<Rightarrow> buffer \<Rightarrow> buffer res" where
  "unwrite len b = cassert (len \<le> readableBytes b) (Inr (b\<lparr>writerIndex := writerIndex b - len\<rparr>))"

definition append_buf :: "bytes \<Rightarrow> buffer \<Rightarrow> buffer res" where
  "append_buf data b =
     rbind (ensureWritableBytes (length data) b)
       (\<lambda>b'. hasWritten (length data) (b'\<lparr>buf_data := overwrite (buf_data b') (beginWrite b') data\<rparr>))"

definition appendInt64 :: "64 word \<Rightarrow> buffer \<Rightarrow> buffer res" where
  "appendInt64 x b = append_buf (store (hostToNetwork64 x)) b"

definition appendInt32 :: "32 word \<Rightarrow> buffer \<Rightarrow> buffer res" where
  "appendInt32 x b = append_buf (store (hostToNetwork32 x)) b"

definition appendInt16 :: "16 word \<Rightarrow> buffer \<Rightarrow> buffer res" where
  "appendInt16 x b = append_buf (store (hostToNetwork16 x)) b"

definition appendInt8 :: "8 word \<Rightarrow> buffer \<Rightarrow> buffer res" where
  "appendInt8 x b = append_buf (store x) b"

definition peekInt64 :: "buffer \<Rightarrow> 64 word res" where
  "peekInt64 b = cassert (8 \<le> readableBytes b)
     (Inr (networkToHost64 (load (window (buf_data b) (peek b) (peek b + 8)))))"

definition peekInt32 :: "buffer \<Rightarrow> 32 word res" where
  "peekInt32 b = cassert (4 \<le> readableBytes b)
     (Inr (networkToHost32 (load (window (buf_data b) (peek b) (peek b + 4)))))"

definition peekInt16 :: "buffer \<Rightarrow> 16 word res" where
  "peekInt16 b = cassert (2 \<le> readableBytes b)
     (Inr (networkToHost16 (load (window (buf_data b) (peek b) (peek b + 2)))))"

definition peekInt8 :: "buffer \<Rightarrow> 8 word res" where
  "peekInt8 b = cassert (1 \<le> readableBytes b) (Inr (load (window (buf_data b) (peek b) (peek b + 1))))"

definition readInt64 :: "buffer \<Rightarrow> (64 word \<times> buffer) res" where
  "readInt64 b = rbind (peekInt64 b) (\<lambda>r. rbind (retrieveInt64 b) (\<lambda>b'. Inr (r, b')))"

definition readInt32 :: "buffer \<Rightarrow> (32 word \<times> buffer) res" where
  "readInt32 b = rbind (peekInt32 b) (\<lambda>r. rbind (retrieveInt32 b) (\<lambda>b'. Inr (r, b')))"

definition readInt16 :: "buffer \<Rightarrow> (16 word \<times> buffer) res" where
  "readInt16 b = rbind (peekInt16 b) (\<lambda>r. rbind (retrieveInt16 b) (\<lambda>b'. Inr (r, b')))"

definition readInt8 :: "buffer \<Rightarrow> (8 word \<times> buffer) res" where
  "readInt8 b = rbind (peekInt8 b) (\<lambda>r. rbind (retrieveInt8 b) (\<lambda>b'. Inr (r, b')))"

definition prepend :: "bytes \<Rightarrow> buffer \<Rightarrow> buffer res" where
  "prepend data b = cassert (length data \<le> prependableBytes b)
     (let r = readerIndex b - length data
      in Inr (b\<lparr>readerIndex := r, buf_data := overwrite (buf_data b) r data\<rparr>))"

definition prependInt64 :: "64 word \<Rightarrow> buffer \<Rightarrow> buffer res" where
  "prependInt64 x b = prepend (store (hostToNetwork64 x)) b"

definition prependInt32 :: "32 word \<Rightarrow> buffer \<Rightarrow> buffer res" where
  "prependInt32 x b = prepend (store (hostToNetwork32 x)) b"

definition prependInt16 :: "16 word \<Rightarrow> buffer \<Rightarrow> buffer res" where
  "prependInt16 x b = prepend (store (hostToNetwork16 x)) b"

definition prependInt8 :: "8 word \<Rightarrow> buffer \<Rightarrow> buffer res" where
  "prependInt8 x b = prepend (store x) b"

definition shrink :: "nat \<Rightarrow> buffer \<Rightarrow> buffer res" where
  "shrink reserve b =
     rbind (Buffer_new kInitialSize) (\<lambda>other.
     rbind (ensureWritableBytes (readableBytes b + reserve) other) (\<lambda>other.
     rbind (append_buf (toStringPiece b) other) (\<lambda>other.
     Inr (fst (buf_swap b other)))))"

text \<open>
  \<open>readFd\<close> reads with \<open>readv\<close> into the writable space and, when that is small, into a 64 KiB
  stack buffer. The system call is a parameter: its answer is an error number or the bytes the
  kernel scattered over the two areas.
\<close>

datatype sys_read = ReadError int | ReadData bytes

definition readFd :: "sys_read \<Rightarrow> buffer \<Rightarrow> (int \<times> int \<times> buffer) res" where
  "readFd answer b =
     (case answer of
        ReadError err \<Rightarrow> Inr (-1, err, b)
      | ReadData bs \<Rightarrow>
          (let writable = writableBytes b;
               n = length bs;
               filled = b\<lparr>buf_data := overwrite (buf_data b) (writerIndex b) (take writable bs)\<rparr>
           in if n \<le> writable
              then Inr (int n, 0, filled\<lparr>writerIndex := writerIndex b + n\<rparr>)
              else rbind (append_buf (drop writable bs) (filled\<lparr>writerIndex := length (buf_data b)\<rparr>))
                     (\<lambda>b'. Inr (int n, 0, b'))))"


subsection \<open>Invariant and abstraction\<close>

text \<open>The class invariant drawn in the header comment, and the readable bytes as the abstraction.\<close>

definition buffer_inv :: "buffer \<Rightarrow> bool" where
  "buffer_inv b \<longleftrightarrow>
     readerIndex b \<le> writerIndex b \<and> writerIndex b \<le> length (buf_data b) \<and>
     kCheapPrepend \<le> length (buf_data b)"

definition content :: "buffer \<Rightarrow> bytes" where
  "content b = window (buf_data b) (readerIndex b) (writerIndex b)"

lemmas buffer_defs = readableBytes_def writableBytes_def prependableBytes_def peek_def
  beginWrite_def content_def buffer_inv_def kCheapPrepend_def kInitialSize_def

lemma length_content [simp]: "buffer_inv b \<Longrightarrow> length (content b) = readableBytes b"
  by (simp add: buffer_defs)

lemma toStringPiece_content: "buffer_inv b \<Longrightarrow> toStringPiece b = content b"
  by (simp add: toStringPiece_def buffer_defs)

lemma peek_window: "buffer_inv b \<Longrightarrow> n \<le> readableBytes b \<Longrightarrow>
  window (buf_data b) (peek b) (peek b + n) = take n (content b)"
  by (auto simp: buffer_defs take_window min_def intro: arg_cong [where f = "window (buf_data b) (readerIndex b)"])

definition empty_buffer :: "nat \<Rightarrow> buffer" where
  "empty_buffer n = \<lparr>buf_data = replicate (kCheapPrepend + n) (CHR 0x00),
     readerIndex = kCheapPrepend, writerIndex = kCheapPrepend\<rparr>"

lemma Buffer_new_ok [simp]: "Buffer_new n = Inr (empty_buffer n)"
  by (simp add: Buffer_new_def empty_buffer_def buffer_defs Let_def)

lemma empty_buffer_facts [simp]:
  "buffer_inv (empty_buffer n)" "content (empty_buffer n) = []"
  "writableBytes (empty_buffer n) = n" "prependableBytes (empty_buffer n) = kCheapPrepend"
  "readableBytes (empty_buffer n) = 0"
  by (simp_all add: empty_buffer_def buffer_defs)


subsection \<open>Making room, writing and reading\<close>

lemma makeSpace_ok:
  assumes inv: "buffer_inv b" and less: "writableBytes b < len"
  shows "\<exists>b'. makeSpace len b = Inr b' \<and> buffer_inv b' \<and> content b' = content b \<and>
    len \<le> writableBytes b' \<and> (kCheapPrepend \<le> prependableBytes b \<longrightarrow> kCheapPrepend \<le> prependableBytes b')"
proof (cases "writableBytes b + prependableBytes b < len + kCheapPrepend")
  case True
  then show ?thesis
    using inv less
    by (auto simp: makeSpace_def vec_resize_def buffer_defs window_append_left)
next
  case False
  let ?c = "window (buf_data b) (readerIndex b) (writerIndex b)"
  have len: "length ?c = writerIndex b - readerIndex b"
    using inv by (simp add: buffer_defs)
  have fits: "8 + length ?c \<le> length (buf_data b)"
    using False inv less len by (simp add: buffer_defs)
  have "window (overwrite (buf_data b) 8 ?c) 8 (8 + length ?c) = ?c"
    using fits by (rule window_overwrite_hit)
  with False inv less len fits show ?thesis
    by (auto simp: makeSpace_def buffer_defs Let_def)
qed

lemma ensureWritableBytes_ok:
  assumes "buffer_inv b"
  shows "\<exists>b'. ensureWritableBytes len b = Inr b' \<and> buffer_inv b' \<and> content b' = content b \<and>
    len \<le> writableBytes b'"
  using makeSpace_ok [OF assms, of len] assms by (auto simp: ensureWritableBytes_def)

lemma write_at_end:
  assumes "buffer_inv b" and "length d \<le> writableBytes b"
  defines "b' \<equiv> b\<lparr>buf_data := overwrite (buf_data b) (writerIndex b) d,
                 writerIndex := writerIndex b + length d\<rparr>"
  shows "buffer_inv b'" and "content b' = content b @ d"
    and "prependableBytes b' = prependableBytes b"
proof -
  let ?xs = "overwrite (buf_data b) (writerIndex b) d"
  have fits: "writerIndex b + length d \<le> length (buf_data b)"
    using assms(1,2) by (auto simp: buffer_defs)
  show "buffer_inv b'"
    using assms(1) fits by (simp add: b'_def buffer_defs)
  show "prependableBytes b' = prependableBytes b"
    by (simp add: b'_def buffer_defs)
  have "content b' = window ?xs (readerIndex b) (writerIndex b) @ window ?xs (writerIndex b) (writerIndex b + length d)"
    using assms(1) by (simp add: b'_def content_def buffer_inv_def window_split [symmetric])
  also have "\<dots> = content b @ d"
    using fits by (simp add: content_def window_overwrite_before)
  finally show "content b' = content b @ d" .
qed

lemma append_buf_ok:
  assumes "buffer_inv b"
  shows "\<exists>b'. append_buf d b = Inr b' \<and> buffer_inv b' \<and> content b' = content b @ d"
proof -
  obtain c where c: "ensureWritableBytes (length d) b = Inr c" "buffer_inv c"
    "content c = content b" "length d \<le> writableBytes c"
    using ensureWritableBytes_ok [OF assms] by blast
  let ?c = "c\<lparr>buf_data := overwrite (buf_data c) (writerIndex c) d\<rparr>"
  have "writerIndex c + length d \<le> length (buf_data c)"
    using c(2,4) by (auto simp: buffer_defs)
  then have "writableBytes ?c = writableBytes c"
    by (simp add: buffer_defs)
  then have "append_buf d b =
      Inr (c\<lparr>buf_data := overwrite (buf_data c) (writerIndex c) d, writerIndex := writerIndex c + length d\<rparr>)"
    using c by (simp add: append_buf_def hasWritten_def beginWrite_def)
  then show ?thesis
    using write_at_end [OF c(2,4)] c(3) by simp
qed

lemma append_buf_headroom:
  assumes "buffer_inv b" and "kCheapPrepend \<le> prependableBytes b" and "append_buf d b = Inr b'"
  shows "kCheapPrepend \<le> prependableBytes b'"
proof (cases "writableBytes b < length d")
  case True
  with makeSpace_ok [OF assms(1) True] assms show ?thesis
    by (auto simp: append_buf_def ensureWritableBytes_def hasWritten_def buffer_defs)
next
  case False
  with assms show ?thesis
    by (auto simp: append_buf_def ensureWritableBytes_def hasWritten_def buffer_defs)
qed

lemma retrieve_ok:
  assumes "buffer_inv b" and "n \<le> length (content b)"
  shows "\<exists>b'. retrieve n b = Inr b' \<and> buffer_inv b' \<and> content b' = drop n (content b)"
  using assms by (auto simp: retrieve_def retrieveAll_def buffer_defs drop_window)

lemma retrieve_fail: "buffer_inv b \<Longrightarrow> length (content b) < n \<Longrightarrow> retrieve n b = Inl AssertFail"
  by (simp add: retrieve_def)

lemma prepend_ok:
  assumes "buffer_inv b" and "length d \<le> prependableBytes b"
  shows "\<exists>b'. prepend d b = Inr b' \<and> buffer_inv b' \<and> content b' = d @ content b \<and>
    prependableBytes b' = prependableBytes b - length d"
proof -
  let ?r = "readerIndex b - length d" and ?w = "writerIndex b"
  let ?xs = "overwrite (buf_data b) ?r d"
  have r: "?r + length d = readerIndex b" and fits: "?r + length d \<le> length (buf_data b)"
    using assms by (simp_all add: buffer_defs)
  have "window ?xs ?r ?w = window ?xs ?r (?r + length d) @ window ?xs (readerIndex b) ?w"
    using assms r window_split [of ?r "readerIndex b" ?w ?xs] by (simp add: buffer_inv_def)
  also have "\<dots> = d @ content b"
    using window_overwrite_hit [OF fits] fits r by (simp add: content_def window_overwrite_after)
  finally show ?thesis
    using assms fits by (auto simp: prepend_def buffer_defs Let_def)
qed

lemma unwrite_ok:
  assumes "buffer_inv b" and "n \<le> length (content b)"
  shows "\<exists>b'. unwrite n b = Inr b' \<and> buffer_inv b' \<and> content b' = take (length (content b) - n) (content b)"
proof -
  have "readerIndex b + (writerIndex b - readerIndex b - n) = writerIndex b - n"
    using assms by (auto simp: buffer_defs)
  with assms show ?thesis
    by (auto simp: unwrite_def buffer_defs take_window min_def
        intro: arg_cong [where f = "window (buf_data b) (readerIndex b)"])
qed

lemma shrink_ok:
  assumes "buffer_inv b"
  shows "\<exists>b'. shrink n b = Inr b' \<and> buffer_inv b' \<and> content b' = content b"
proof -
  obtain c where c: "ensureWritableBytes (readableBytes b + n) (empty_buffer kInitialSize) = Inr c"
    "buffer_inv c" "content c = []"
    using ensureWritableBytes_ok [of "empty_buffer kInitialSize" "readableBytes b + n"] by auto
  obtain d where d: "append_buf (toStringPiece b) c = Inr d" "buffer_inv d" "content d = content b"
    using append_buf_ok [OF c(2), of "toStringPiece b"] c(3) assms by (auto simp: toStringPiece_content)
  have "shrink n b = Inr (fst (buf_swap b d))"
    by (simp add: shrink_def c d)
  with d(2,3) show ?thesis
    by (simp add: buf_swap_def buffer_inv_def content_def)
qed

lemma readFd_ok:
  assumes "buffer_inv b"
  shows "\<exists>b'. readFd (ReadData bs) b = Inr (int (length bs), 0, b') \<and> buffer_inv b' \<and>
    content b' = content b @ bs"
proof (cases "length bs \<le> writableBytes b")
  case True
  then show ?thesis
    using write_at_end [OF assms True] by (simp add: readFd_def Let_def)
next
  case False
  let ?d = "take (writableBytes b) bs"
  let ?c = "b\<lparr>buf_data := overwrite (buf_data b) (writerIndex b) ?d, writerIndex := length (buf_data b)\<rparr>"
  have len: "length ?d = writableBytes b" using False by simp
  then have eq: "writerIndex b + length ?d = length (buf_data b)"
    using assms by (simp add: buffer_defs)
  have c: "buffer_inv ?c" "content ?c = content b @ ?d"
    using write_at_end(1,2) [OF assms, of ?d] len eq by simp_all
  obtain e where "append_buf (drop (writableBytes b) bs) ?c = Inr e" "buffer_inv e"
    "content e = content ?c @ drop (writableBytes b) bs"
    using append_buf_ok [OF c(1)] by blast
  with False c(2) show ?thesis
    by (simp add: readFd_def Let_def)
qed


subsection \<open>The byte-queue contract\<close>

text \<open>
  What the clients of a buffer (a connection's output, the parsers, the codecs) rely on: bytes
  put in come out in order, and reading more than there is trips an assertion. The contract is
  a locale over the operations; its lemmas hold for every sequence of calls.
\<close>

datatype fifo_op = Put bytes | Get nat

fun fifo_run :: "(bytes \<Rightarrow> 'b \<Rightarrow> 'b res) \<Rightarrow> (nat \<Rightarrow> 'b \<Rightarrow> 'b res) \<Rightarrow> fifo_op list \<Rightarrow> 'b \<Rightarrow> 'b res" where
  "fifo_run put get [] b = Inr b"
| "fifo_run put get (Put d # ops) b = rbind (put d b) (fifo_run put get ops)"
| "fifo_run put get (Get n # ops) b = rbind (get n b) (fifo_run put get ops)"

fun fifo_spec :: "fifo_op list \<Rightarrow> bytes \<Rightarrow> bytes option" where
  "fifo_spec [] q = Some q"
| "fifo_spec (Put d # ops) q = fifo_spec ops (q @ d)"
| "fifo_spec (Get n # ops) q = (if n \<le> length q then fifo_spec ops (drop n q) else None)"

locale byte_queue =
  fixes qinv :: "'b \<Rightarrow> bool"
    and qbytes :: "'b \<Rightarrow> bytes"
    and qput :: "bytes \<Rightarrow> 'b \<Rightarrow> 'b res"
    and qget :: "nat \<Rightarrow> 'b \<Rightarrow> 'b res"
  assumes put_law: "qinv b \<Longrightarrow> \<exists>b'. qput d b = Inr b' \<and> qinv b' \<and> qbytes b' = qbytes b @ d"
    and get_law: "qinv b \<Longrightarrow> n \<le> length (qbytes b) \<Longrightarrow>
      \<exists>b'. qget n b = Inr b' \<and> qinv b' \<and> qbytes b' = drop n (qbytes b)"
    and get_too_much: "qinv b \<Longrightarrow> length (qbytes b) < n \<Longrightarrow> qget n b = Inl AssertFail"
begin

lemma putE:
  assumes "qinv b"
  obtains b' where "qput d b = Inr b'" "qinv b'" "qbytes b' = qbytes b @ d"
  using put_law [OF assms] by blast

lemma getE:
  assumes "qinv b" and "n \<le> length (qbytes b)"
  obtains b' where "qget n b = Inr b'" "qinv b'" "qbytes b' = drop n (qbytes b)"
  using get_law [OF assms] by blast

lemma run_refines:
  assumes "qinv b"
  shows "case fifo_spec ops (qbytes b) of
      Some q \<Rightarrow> \<exists>b'. fifo_run qput qget ops b = Inr b' \<and> qinv b' \<and> qbytes b' = q
    | None \<Rightarrow> fifo_run qput qget ops b = Inl AssertFail"
  using assms
proof (induction ops arbitrary: b)
  case (Cons op ops)
  show ?case
  proof (cases op)
    case (Put d)
    obtain b' where "qput d b = Inr b'" "qinv b'" "qbytes b' = qbytes b @ d"
      using putE [OF Cons.prems] .
    with Cons.IH [of b'] Put show ?thesis by (simp split: option.splits)
  next
    case (Get n)
    show ?thesis
    proof (cases "n \<le> length (qbytes b)")
      case True
      then obtain b' where "qget n b = Inr b'" "qinv b'" "qbytes b' = drop n (qbytes b)"
        using getE [OF Cons.prems] by blast
      with Cons.IH [of b'] Get True show ?thesis by (simp split: option.splits)
    next
      case False
      with Get get_too_much [OF Cons.prems] show ?thesis by simp
    qed
  qed
qed simp

lemma put_get_cancel:
  assumes "qinv b" and "qbytes b = []"
  shows "\<exists>b' b''. qput d b = Inr b' \<and> qget (length d) b' = Inr b'' \<and> qbytes b'' = []"
  using put_law [OF assms(1), of d] get_law assms(2) by fastforce

end

interpretation outq: byte_queue buffer_inv content append_buf retrieve
  by unfold_locales (use append_buf_ok retrieve_ok retrieve_fail in auto)

text \<open>C1: Whatever sequence of \<open>append\<close> and \<open>retrieve\<close> calls a client makes on a well-formed
  buffer, with all the reallocation, compaction and index resetting the code does underneath, the
  buffer behaves as a plain queue of bytes: it ends well-formed with exactly the queue's bytes
  readable, and it stops at an assertion exactly when the client asks for more bytes than there are.\<close>

theorem buffer_refines_byte_queue:
  assumes "buffer_inv b"
  shows "case fifo_spec ops (content b) of
      Some q \<Rightarrow> \<exists>b'. fifo_run append_buf retrieve ops b = Inr b' \<and> buffer_inv b' \<and> content b' = q
    | None \<Rightarrow> fifo_run append_buf retrieve ops b = Inl AssertFail"
  by (rule outq.run_refines [OF assms])

theorem buffer_refines_byte_queue_witness:
  "buffer_inv (empty_buffer 2) \<and>
   (\<exists>b'. fifo_run append_buf retrieve [Put ''abc'', Get 2, Put ''de''] (empty_buffer 2) = Inr b' \<and>
     buffer_inv b' \<and> content b' = ''cde'')"
  using buffer_refines_byte_queue [of "empty_buffer 2" "[Put ''abc'', Get 2, Put ''de'']"] by simp


subsection \<open>Integers in network byte order\<close>

lemma peek_prefix:
  assumes "buffer_inv b" and "content b = d @ rest"
  shows "length d \<le> readableBytes b"
    and "window (buf_data b) (peek b) (peek b + length d) = d"
proof -
  show l: "length d \<le> readableBytes b"
    using assms by (simp flip: length_content)
  show "window (buf_data b) (peek b) (peek b + length d) = d"
    using peek_window [OF assms(1) l] assms(2) by simp
qed

lemma retrieve_prefix:
  assumes "buffer_inv b" and "content b = d @ rest" and "length d = n"
  shows "\<exists>b'. retrieve n b = Inr b' \<and> buffer_inv b' \<and> content b' = rest"
  using retrieve_ok [OF assms(1), of n] assms by (auto simp flip: length_content)

lemma readInt64_be:
  assumes "buffer_inv b" and "content b = rev (store x) @ rest"
  shows "\<exists>b'. readInt64 b = Inr (x, b') \<and> buffer_inv b' \<and> content b' = rest"
  using peek_prefix [OF assms] retrieve_prefix [OF assms]
  by (auto simp: readInt64_def peekInt64_def retrieveInt64_def load_store)

lemma readInt32_be:
  assumes "buffer_inv b" and "content b = rev (store x) @ rest"
  shows "\<exists>b'. readInt32 b = Inr (x, b') \<and> buffer_inv b' \<and> content b' = rest"
  using peek_prefix [OF assms] retrieve_prefix [OF assms]
  by (auto simp: readInt32_def peekInt32_def retrieveInt32_def load_store)

lemma readInt16_be:
  assumes "buffer_inv b" and "content b = rev (store x) @ rest"
  shows "\<exists>b'. readInt16 b = Inr (x, b') \<and> buffer_inv b' \<and> content b' = rest"
  using peek_prefix [OF assms] retrieve_prefix [OF assms]
  by (auto simp: readInt16_def peekInt16_def retrieveInt16_def load_store)

lemma readInt8_be:
  assumes "buffer_inv b" and "content b = store x @ rest"
  shows "\<exists>b'. readInt8 b = Inr (x, b') \<and> buffer_inv b' \<and> content b' = rest"
  using peek_prefix [OF assms] retrieve_prefix [OF assms]
  by (auto simp: readInt8_def peekInt8_def retrieveInt8_def load_store)

lemma peekInt32_be:
  "buffer_inv b \<Longrightarrow> content b = rev (store x) @ rest \<Longrightarrow> peekInt32 b = Inr x"
  using peek_prefix [of b "rev (store x)" rest] by (simp add: peekInt32_def load_store)

text \<open>Integers survive the trip over the wire at every width: appending a 64-, 32-, 16- and
  8-bit integer to a buffer that is empty and reading them back in that order returns the four
  integers and leaves the buffer empty; on the way their bytes are in big-endian order.\<close>

theorem int_append_read_roundtrip:
  assumes "buffer_inv b" and "content b = []"
  shows "\<exists>b4 c1 c2 c3 c4.
    rbind (appendInt64 w64 b) (\<lambda>b. rbind (appendInt32 w32 b) (\<lambda>b.
      rbind (appendInt16 w16 b) (appendInt8 w8))) = Inr b4 \<and>
    content b4 = rev (store w64) @ rev (store w32) @ rev (store w16) @ store w8 \<and>
    readInt64 b4 = Inr (w64, c1) \<and> readInt32 c1 = Inr (w32, c2) \<and>
    readInt16 c2 = Inr (w16, c3) \<and> readInt8 c3 = Inr (w8, c4) \<and> buffer_inv c4 \<and> content c4 = []"
proof -
  obtain b1 where b1: "appendInt64 w64 b = Inr b1" "buffer_inv b1" "content b1 = rev (store w64)"
    using outq.putE [OF assms(1)] assms(2) by (metis append_Nil appendInt64_def store_hton(1))
  obtain b2 where b2: "appendInt32 w32 b1 = Inr b2" "buffer_inv b2" "content b2 = content b1 @ rev (store w32)"
    using outq.putE [OF b1(2)] by (metis appendInt32_def store_hton(2))
  obtain b3 where b3: "appendInt16 w16 b2 = Inr b3" "buffer_inv b3" "content b3 = content b2 @ rev (store w16)"
    using outq.putE [OF b2(2)] by (metis appendInt16_def store_hton(3))
  obtain b4 where b4: "appendInt8 w8 b3 = Inr b4" "buffer_inv b4" "content b4 = content b3 @ store w8"
    using outq.putE [OF b3(2)] by (metis appendInt8_def)
  have all: "content b4 = rev (store w64) @ rev (store w32) @ rev (store w16) @ store w8 @ []"
    by (simp add: b1 b2 b3 b4)
  obtain c1 where c1: "readInt64 b4 = Inr (w64, c1)" "buffer_inv c1"
    "content c1 = rev (store w32) @ rev (store w16) @ store w8 @ []"
    using readInt64_be [OF b4(2) all] by blast
  obtain c2 where c2: "readInt32 c1 = Inr (w32, c2)" "buffer_inv c2"
    "content c2 = rev (store w16) @ store w8 @ []"
    using readInt32_be [OF c1(2,3)] by blast
  obtain c3 where c3: "readInt16 c2 = Inr (w16, c3)" "buffer_inv c3" "content c3 = store w8 @ []"
    using readInt16_be [OF c2(2,3)] by blast
  obtain c4 where c4: "readInt8 c3 = Inr (w8, c4)" "buffer_inv c4" "content c4 = []"
    using readInt8_be [OF c3(2,3)] by blast
  show ?thesis
    using all by (simp add: b1 b2 b3 b4 c1 c2 c3 c4)
qed

theorem int_append_read_roundtrip_witness:
  "buffer_inv (empty_buffer 0) \<and> content (empty_buffer 0) = [] \<and>
   (\<exists>b4 c1. rbind (appendInt64 1 (empty_buffer 0)) (\<lambda>b. rbind (appendInt32 2 b) (\<lambda>b.
      rbind (appendInt16 3 b) (appendInt8 255))) = Inr b4 \<and> readInt64 b4 = Inr (1, c1))"
  using int_append_read_roundtrip [of "empty_buffer 0" 1 2 3 255] by auto

text \<open>\<open>findCRLF\<close> is exact. When it returns a pointer, the pointer lies in the readable range
  and is the first occurrence of CR LF there; when it returns NULL, CR LF occurs nowhere in the
  readable bytes.\<close>

theorem findCRLF_exact:
  assumes "buffer_inv b"
  shows "case findCRLF b of
      Some p \<Rightarrow> (\<exists>rest. content b = take (p - peek b) (content b) @ kCRLF @ rest) \<and>
        peek b \<le> p \<and> p + 2 \<le> beginWrite b \<and>
        (\<forall>j < p - peek b. \<not> is_prefix_of kCRLF (drop j (content b)))
    | None \<Rightarrow> (\<forall>us vs. content b \<noteq> us @ kCRLF @ vs)"
proof (cases "search_idx kCRLF (content b)")
  case None
  then have "\<forall>us vs. content b \<noteq> us @ kCRLF @ vs"
    using search_idx_None by blast
  with None show ?thesis by (simp add: findCRLF_def content_def peek_def beginWrite_def)
next
  case (Some i)
  from search_idx_Some [OF Some] have "\<exists>rest. content b = take i (content b) @ kCRLF @ rest"
    and "i + 2 \<le> readableBytes b"
    using assms by (auto simp: kCRLF_def)
  with Some search_idx_first [OF Some] assms show ?thesis
    by (auto simp: findCRLF_def content_def peek_def beginWrite_def readableBytes_def buffer_inv_def)
qed

theorem findCRLF_exact_witness:
  "buffer_inv \<lparr>buf_data = replicate 8 CHR ''x'' @ ''ab'' @ [CHR 0x0D, CHR 0x0A], readerIndex = 8, writerIndex = 12\<rparr> \<and>
   (case findCRLF \<lparr>buf_data = replicate 8 CHR ''x'' @ ''ab'' @ [CHR 0x0D, CHR 0x0A], readerIndex = 8, writerIndex = 12\<rparr> of
      Some p \<Rightarrow> p = 10 | None \<Rightarrow> False)"
proof -
  let ?b = "\<lparr>buf_data = replicate 8 CHR ''x'' @ ''ab'' @ [CHR 0x0D, CHR 0x0A], readerIndex = 8, writerIndex = 12\<rparr>"
  have inv: "buffer_inv ?b" by (simp add: buffer_inv_def kCheapPrepend_def)
  have eq: "findCRLF ?b = Some 10"
    by (simp add: findCRLF_def peek_def beginWrite_def window_def kCRLF_def eval_nat_numeral)
  from findCRLF_exact [OF inv] eq have "peek ?b \<le> 10" by simp
  with inv eq show ?thesis by simp
qed

text \<open>\<open>readFd\<close> loses nothing: whatever number of bytes the kernel delivered over the two
  areas, also when the second one had to be appended, the readable bytes grow by exactly the bytes
  delivered, the returned count is their number and the buffer is well-formed.\<close>

theorem readFd_delivers:
  assumes "buffer_inv b"
  shows "\<exists>b'. readFd (ReadData bs) b = Inr (int (length bs), 0, b') \<and> buffer_inv b' \<and>
    content b' = content b @ bs"
  by (rule readFd_ok [OF assms])

theorem readFd_delivers_witness:
  "\<exists>b'. readFd (ReadData ''hello'') (empty_buffer 2) = Inr (5, 0, b') \<and> content b' = ''hello''"
  using readFd_delivers [of "empty_buffer 2" "''hello''"] by auto

end
