(* ===== verification/Text.thy ===== *)
theory Text
  imports Prelude
begin

section \<open>Text: what the sources use of the C and C++ string libraries\<close>

text \<open>
  \<open>std::string::substr\<close> and \<open>std::stoi\<close> with the exceptions they throw, character classes, and
  the integer conversions of \<open>printf\<close>. \<open>show_nat\<close> is the reference for decimal text: the
  conversions of \<open>LogStream.cc\<close> are proved equal to it, and \<open>stoi\<close> is its inverse.
\<close>

definition isspace :: "char \<Rightarrow> bool" where
  "isspace c \<longleftrightarrow> c \<in> {CHR '' '', CHR 0x09, CHR 0x0A, CHR 0x0B, CHR 0x0C, CHR 0x0D}"

definition isdigit :: "char \<Rightarrow> bool" where
  "isdigit c \<longleftrightarrow> 48 \<le> (of_char c :: nat) \<and> (of_char c :: nat) \<le> 57"

definition digit_char :: "nat \<Rightarrow> char" where
  "digit_char d = char_of (48 + d)"

definition digit_val :: "char \<Rightarrow> nat" where
  "digit_val c = of_char c - 48"

fun show_nat :: "nat \<Rightarrow> string" where
  "show_nat n = (if n < 10 then [digit_char n] else show_nat (n div 10) @ [digit_char (n mod 10)])"

declare show_nat.simps [simp del]

definition show_int :: "int \<Rightarrow> string" where
  "show_int i = (if i < 0 then CHR ''-'' # show_nat (nat (- i)) else show_nat (nat i))"

definition digits_val :: "string \<Rightarrow> nat" where
  "digits_val ds = foldl (\<lambda>a c. 10 * a + digit_val c) 0 ds"

definition substr :: "nat \<Rightarrow> nat \<Rightarrow> string \<Rightarrow> string res" where
  "substr pos n s = (if length s < pos then Inl OutOfRange else Inr (take n (drop pos s)))"

definition int_min :: int where "int_min = - (2 ^ 31)"
definition int_max :: int where "int_max = 2 ^ 31 - 1"

definition fits_int :: "int \<Rightarrow> bool" where
  "fits_int i \<longleftrightarrow> int_min \<le> i \<and> i \<le> int_max"

fun split_sign :: "string \<Rightarrow> bool \<times> string" where
  "split_sign [] = (False, [])"
| "split_sign (c # cs) =
     (if c = CHR ''-'' then (True, cs) else if c = CHR ''+'' then (False, cs) else (False, c # cs))"

definition stoi :: "string \<Rightarrow> int res" where
  "stoi s =
     (let (neg, u) = split_sign (dropWhile isspace s);
          ds = takeWhile isdigit u;
          v = (if neg then - int (digits_val ds) else int (digits_val ds))
      in if ds = [] then Inl InvalidArgument
         else if fits_int v then Inr v else Inl OutOfRange)"

text \<open>\<open>%0wd\<close> and \<open>%wd\<close> of \<open>printf\<close>, and what \<open>snprintf\<close> leaves in a buffer of a given size.\<close>

definition pad_left :: "char \<Rightarrow> nat \<Rightarrow> string \<Rightarrow> string" where
  "pad_left c w s = replicate (w - length s) c @ s"

definition fmt_0d :: "nat \<Rightarrow> int \<Rightarrow> string" where
  "fmt_0d w i =
     (if i < 0 then CHR ''-'' # pad_left (CHR ''0'') (w - 1) (show_nat (nat (- i)))
      else pad_left (CHR ''0'') w (show_nat (nat i)))"

definition fmt_d :: "nat \<Rightarrow> int \<Rightarrow> string" where
  "fmt_d w i = pad_left (CHR '' '') w (show_int i)"

definition snprintf :: "nat \<Rightarrow> string \<Rightarrow> string" where
  "snprintf bufsize s = take (bufsize - 1) s"


subsection \<open>Decimal text\<close>

lemma of_char_digit_char [simp]: "d < 10 \<Longrightarrow> of_char (digit_char d) = 48 + d"
  by (simp add: digit_char_def)

lemma digit_chars:
  "digit_char 0 = CHR ''0''"
  "digit_char (Suc 0) = CHR ''1''"
  "digit_char 2 = CHR ''2''"
  "digit_char 3 = CHR ''3''"
  "digit_char 4 = CHR ''4''"
  "digit_char 5 = CHR ''5''"
  "digit_char 6 = CHR ''6''"
  "digit_char 7 = CHR ''7''"
  "digit_char 8 = CHR ''8''"
  "digit_char 9 = CHR ''9''"
  by code_simp+

lemma isdigit_digit_char [simp]: "d < 10 \<Longrightarrow> isdigit (digit_char d)"
  by (simp add: isdigit_def)

lemma digit_val_digit_char [simp]: "d < 10 \<Longrightarrow> digit_val (digit_char d) = d"
  by (simp add: digit_val_def)

lemma digits_val_snoc [simp]: "digits_val (ds @ [c]) = 10 * digits_val ds + digit_val c"
  by (simp add: digits_val_def)

lemma digits_val_Nil [simp]: "digits_val [] = 0"
  by (simp add: digits_val_def)

lemma digits_val_single [simp]: "digits_val [c] = digit_val c"
  by (simp add: digits_val_def)

lemma show_nat_ne [simp]: "show_nat n \<noteq> []"
  by (subst show_nat.simps) simp

lemma show_nat_digits: "c \<in> set (show_nat n) \<Longrightarrow> isdigit c"
proof (induction n rule: show_nat.induct)
  case (1 n)
  then show ?case by (auto simp: show_nat.simps [of n] split: if_splits)
qed

lemma digits_val_show_nat [simp]: "digits_val (show_nat n) = n"
proof (induction n rule: show_nat.induct)
  case (1 n)
  show ?case
  proof (cases "n < 10")
    case True
    then show ?thesis by (simp add: show_nat.simps [of n])
  next
    case False
    with 1 show ?thesis by (simp add: show_nat.simps [of n])
  qed
qed

lemma length_show_nat: "n < 10 ^ k \<Longrightarrow> 0 < k \<Longrightarrow> length (show_nat n) \<le> k"
proof (induction n arbitrary: k rule: show_nat.induct)
  case (1 n)
  show ?case
  proof (cases "n < 10")
    case True
    with 1 show ?thesis by (simp add: show_nat.simps [of n])
  next
    case False
    with 1 have "1 < k" by (cases "k = 1") auto
    then obtain j where j: "k = Suc j" "0 < j" by (cases k) auto
    with 1 have "n div 10 < 10 ^ j" by (simp add: less_mult_imp_div_less mult.commute)
    with 1 False j have "length (show_nat (n div 10)) \<le> j" by simp
    with False j show ?thesis by (simp add: show_nat.simps [of n])
  qed
qed

lemma takeWhile_all [simp]: "\<forall>c \<in> set ds. p c \<Longrightarrow> takeWhile p ds = ds"
  by (induction ds) auto

lemma isdigit_not_special:
  "isdigit c \<Longrightarrow> \<not> isspace c" "isdigit c \<Longrightarrow> c \<noteq> CHR ''-''" "isdigit c \<Longrightarrow> c \<noteq> CHR ''+''"
  by (auto simp: isdigit_def isspace_def)

lemma foldl_digits:
  "foldl (\<lambda>a c. 10 * a + digit_val c) a ds = a * 10 ^ length ds + digits_val ds"
proof (induction ds rule: rev_induct)
  case (snoc c ds)
  then show ?case by (simp add: algebra_simps)
qed simp

lemma digits_val_append: "digits_val (xs @ ys) = digits_val xs * 10 ^ length ys + digits_val ys"
proof -
  have "digits_val (xs @ ys) = foldl (\<lambda>a c. 10 * a + digit_val c) (digits_val xs) ys"
    by (simp add: digits_val_def)
  then show ?thesis by (simp only: foldl_digits)
qed

lemma digits_val_zeros [simp]: "digits_val (replicate n (CHR ''0'') @ ds) = digits_val ds"
proof -
  have "digits_val (replicate n (CHR ''0'')) = 0"
    by (induction n) (simp_all add: digits_val_def digit_val_def)
  then show ?thesis by (simp add: digits_val_append)
qed

lemma stoi_digits:
  assumes "ds \<noteq> []" and "\<forall>c \<in> set ds. isdigit c" and "digits_val ds < 2 ^ 31"
  shows "stoi ds = Inr (int (digits_val ds))"
proof -
  obtain c cs where c: "ds = c # cs" using assms(1) by (cases ds) auto
  then have "dropWhile isspace ds = ds" and "split_sign ds = (False, ds)"
    using assms(2) by (auto simp: isdigit_not_special)
  moreover have "fits_int (int (digits_val ds))"
    using assms(3) by (simp add: fits_int_def int_min_def int_max_def)
  ultimately show ?thesis using assms by (simp add: stoi_def)
qed

lemma stoi_pad0:
  assumes "n < 2 ^ 31"
  shows "stoi (fmt_0d w (int n)) = Inr (int n)"
proof -
  have "stoi (pad_left (CHR ''0'') w (show_nat n)) = Inr (int (digits_val (pad_left (CHR ''0'') w (show_nat n))))"
    by (rule stoi_digits) (use assms in \<open>auto simp: pad_left_def show_nat_digits isdigit_def [of "CHR ''0''"]\<close>)
  then show ?thesis by (simp add: fmt_0d_def pad_left_def)
qed

lemma length_fmt_0d: "n < 10 ^ w \<Longrightarrow> 0 < w \<Longrightarrow> length (fmt_0d w (int n)) = w"
  using length_show_nat [of n w] by (simp add: fmt_0d_def pad_left_def)

lemma substr_exact:
  "length a = p \<Longrightarrow> length b = n \<Longrightarrow> substr p n (a @ b @ c) = Inr b"
  by (simp add: substr_def)

lemma substr_0 [simp]: "substr 0 n s = Inr (take n s)"
  by (simp add: substr_def)

end
