(* ===== verification/LruCache.thy ===== *)
theory LruCache
  imports Text
begin

section \<open>The LRU key-value stores (\<open>server/Db.cc\<close>, \<open>server/lruMap.cc\<close>)\<close>

text \<open>
  Both classes keep a \<open>std::list\<close> of keys, most recently used first, and an \<open>unordered_map\<close>
  whose values hold iterators into the list (and, in \<open>Db\<close>, into a \<open>multimap\<close> from slots to keys).
  Iterators are node addresses, so that erasing through a dangling iterator is visible as
  undefined behaviour: a container of nodes is a list of pairs of an address and its payload.
  \<open>next_node\<close> is the allocator: the address of the next node it hands out. A \<open>bitset\<close> of 16384
  slots is a \<open>16384 word\<close>.
\<close>

type_synonym node = nat
type_synonym slots = "16384 word"

definition SLOTS_NUM :: nat where "SLOTS_NUM = 16384"

text \<open>\<open>list::erase(it)\<close>, \<open>multimap::erase(it)\<close>, and the dereference of the result of \<open>find\<close>.\<close>

definition erase_node :: "node \<Rightarrow> (node \<times> 'a) list \<Rightarrow> (node \<times> 'a) list res" where
  "erase_node it xs =
     (if it \<in> fst ` set xs then Inr (filter (\<lambda>(n, _). n \<noteq> it) xs) else Inl UndefinedBehaviour)"

definition deref :: "'a option \<Rightarrow> 'a res" where
  "deref it = (case it of None \<Rightarrow> Inl UndefinedBehaviour | Some x \<Rightarrow> Inr x)"

definition map_find :: "(string \<rightharpoonup> 'v) \<Rightarrow> string \<Rightarrow> (string \<times> 'v) option" where
  "map_find m key = map_option (\<lambda>v. (key, v)) (m key)"

text \<open>\<open>multimap::insert\<close> puts the new element after every element with the same key.\<close>

fun multimap_insert :: "node \<Rightarrow> int \<Rightarrow> string \<Rightarrow> (node \<times> int \<times> string) list \<Rightarrow> (node \<times> int \<times> string) list" where
  "multimap_insert n slot key [] = [(n, slot, key)]"
| "multimap_insert n slot key ((n', s', k') # xs) =
     (if slot < s' then (n, slot, key) # (n', s', k') # xs
      else (n', s', k') # multimap_insert n slot key xs)"


subsection \<open>\<open>Db\<close>\<close>

record db =
  slots_num :: int
  scaleUp :: bool
  slots_of :: slots
  maxSize :: int
  lruList :: "(node \<times> string) list"
  db_map :: "string \<rightharpoonup> (node \<times> node) \<times> string"
  slotToKey :: "(node \<times> int \<times> string) list"
  next_node :: node

text \<open>\<open>size() >= maxSize_\<close> compares a \<open>size_t\<close> with an \<open>int\<close>, which is converted to \<open>size_t\<close>.\<close>

definition isOverSize :: "db \<Rightarrow> bool" where
  "isOverSize d \<longleftrightarrow> maxSize d mod 2 ^ 64 \<le> int (length (lruList d))"

definition Contain :: "string \<Rightarrow> db \<Rightarrow> bool" where
  "Contain key d = (case map_find (db_map d) key of None \<Rightarrow> False | Some _ \<Rightarrow> True)"

definition getKV :: "string \<Rightarrow> db \<Rightarrow> (string option \<times> db) res" where
  "getKV key d =
     (case map_find (db_map d) key of
        None \<Rightarrow> Inr (None, d)
      | Some (k, ((li, mi), v)) \<Rightarrow>
          rbind (erase_node li (lruList d)) (\<lambda>l.
          let n = next_node d in
          Inr (Some v, d\<lparr>lruList := (n, k) # l, db_map := (db_map d)(k \<mapsto> ((n, mi), v)),
                         next_node := n + 1\<rparr>)))"

definition delKV :: "string \<Rightarrow> db \<Rightarrow> (bool \<times> db) res" where
  "delKV key d =
     (case map_find (db_map d) key of
        None \<Rightarrow> Inr (False, d)
      | Some (k, ((listItor, multimapItor), v)) \<Rightarrow>
          (let m = (db_map d)(k := None) in
           rbind (erase_node listItor (lruList d)) (\<lambda>l.
           rbind (erase_node multimapItor (slotToKey d)) (\<lambda>s.
           Inr (True, d\<lparr>db_map := m, lruList := l, slotToKey := s\<rparr>)))))"

definition db_evict :: "db \<Rightarrow> db res" where
  "db_evict d =
     (if lruList d = [] then Inl UndefinedBehaviour
      else let back = snd (last (lruList d)) in
        (case db_map d back of
           None \<Rightarrow> Inl UndefinedBehaviour
         | Some ((_, multimapItor), _) \<Rightarrow>
             rbind (erase_node multimapItor (slotToKey d)) (\<lambda>s.
             Inr (d\<lparr>db_map := (db_map d)(back := None), slotToKey := s,
                    lruList := butlast (lruList d)\<rparr>))))"

definition setKV :: "string \<Rightarrow> string \<Rightarrow> int \<Rightarrow> db \<Rightarrow> (bool \<times> db) res" where
  "setKV key value slot d =
     (let mapItor = map_find (db_map d) key in
      case mapItor of
        Some (k, ((li, mi), _)) \<Rightarrow>
          rbind (erase_node li (lruList d)) (\<lambda>l.
          let n = next_node d in
          Inr (True, d\<lparr>lruList := (n, k) # l, db_map := (db_map d)(k \<mapsto> ((n, mi), value)),
                       next_node := n + 1\<rparr>))
      | None \<Rightarrow>
          rbind (if isOverSize d then db_evict d else Inr d) (\<lambda>d.
          rbind (deref mapItor) (\<lambda>(k, _).
          let n = next_node d; l = (n, k) # lruList d;
              s = multimap_insert (n + 1) slot key (slotToKey d)
          in Inr (True, d\<lparr>lruList := l, slotToKey := s,
                          db_map := (db_map d)(key \<mapsto> ((n, n + 1), value)), next_node := n + 2\<rparr>))))"

definition getSlotsNum :: "db \<Rightarrow> int" where
  "getSlotsNum d = slots_num d"

definition setSlotNum :: "db \<Rightarrow> db" where
  "setSlotNum d = d\<lparr>slots_num := int SLOTS_NUM\<rparr>"

definition addSlots :: "slots \<Rightarrow> db \<Rightarrow> db" where
  "addSlots newSlots d = d\<lparr>slots_of := newSlots\<rparr>"

unbundle bit_operations_syntax

definition delSlots :: "slots \<Rightarrow> db \<Rightarrow> slots \<times> db" where
  "delSlots newSlots d =
     (let swapped = slots_of d; d' = d\<lparr>slots_of := newSlots\<rparr>
      in (swapped XOR slots_of d', d'))"

definition bitset_test :: "slots \<Rightarrow> int \<Rightarrow> bool res" where
  "bitset_test b pos = (if 0 \<le> pos \<and> pos < int SLOTS_NUM then Inr (bit b (nat pos)) else Inl OutOfRange)"

definition testSlot :: "int \<Rightarrow> db \<Rightarrow> bool res" where
  "testSlot slot d = bitset_test (slots_of d) slot"

text \<open>What \<open>map<int, Db>::operator[]\<close> inserts: a value-initialised \<open>Db\<close>.\<close>

definition Db_default :: db where
  "Db_default = \<lparr>slots_num = 0, scaleUp = False, slots_of = 0, maxSize = 0, lruList = [],
     db_map = Map.empty, slotToKey = [], next_node = 0\<rparr>"


subsection \<open>\<open>lruMap\<close>\<close>

record lrumap =
  lm_maxSize :: int
  lm_list :: "(node \<times> string) list"
  lm_map :: "string \<rightharpoonup> node \<times> string"
  lm_next :: node

definition lm_isOverSize :: "lrumap \<Rightarrow> bool" where
  "lm_isOverSize d \<longleftrightarrow> lm_maxSize d mod 2 ^ 64 \<le> int (length (lm_list d))"

definition lm_Contain :: "string \<Rightarrow> lrumap \<Rightarrow> bool" where
  "lm_Contain key d = (case map_find (lm_map d) key of None \<Rightarrow> False | Some _ \<Rightarrow> True)"

definition lm_Get :: "string \<Rightarrow> lrumap \<Rightarrow> (string option \<times> lrumap) res" where
  "lm_Get key d =
     (case map_find (lm_map d) key of
        None \<Rightarrow> Inr (None, d)
      | Some (k, (li, v)) \<Rightarrow>
          rbind (erase_node li (lm_list d)) (\<lambda>l.
          let n = lm_next d in
          Inr (Some v, d\<lparr>lm_list := (n, k) # l, lm_map := (lm_map d)(k \<mapsto> (n, v)), lm_next := n + 1\<rparr>)))"

definition lm_Del :: "string \<Rightarrow> lrumap \<Rightarrow> (bool \<times> lrumap) res" where
  "lm_Del key d =
     (case map_find (lm_map d) key of
        None \<Rightarrow> Inr (False, d)
      | Some (k, (listItor, v)) \<Rightarrow>
          (let m = (lm_map d)(k := None) in
           rbind (erase_node listItor (lm_list d)) (\<lambda>l. Inr (True, d\<lparr>lm_map := m, lm_list := l\<rparr>))))"

text \<open>
  The test at the head of \<open>Set\<close> is \<open>mapItor == map_.end()\<close>, so the update branch runs for absent
  keys and the insertion branch for present ones. In the latter the iterator may have been
  invalidated by the eviction just before it is used.
\<close>

definition lm_Set :: "string \<Rightarrow> string \<Rightarrow> lrumap \<Rightarrow> (bool \<times> lrumap) res" where
  "lm_Set key value d =
     (let mapItor = map_find (lm_map d) key in
      if mapItor = None
      then rbind (deref mapItor) (\<lambda>(k, (li, _)).
           rbind (erase_node li (lm_list d)) (\<lambda>l.
           let n = lm_next d in
           Inr (True, d\<lparr>lm_list := (n, k) # l, lm_map := (lm_map d)(k \<mapsto> (n, value)), lm_next := n + 1\<rparr>)))
      else
        rbind (if lm_isOverSize d
               then (if lm_list d = [] then Inl UndefinedBehaviour
                     else Inr (d\<lparr>lm_map := (lm_map d)(snd (last (lm_list d)) := None),
                                 lm_list := butlast (lm_list d)\<rparr>))
               else Inr d) (\<lambda>d.
        rbind (deref (map_find (lm_map d) key)) (\<lambda>(k, _).
        let n = lm_next d in
        Inr (True, d\<lparr>lm_list := (n, k) # lm_list d, lm_map := (lm_map d)(key \<mapsto> (n, value)),
                     lm_next := n + 1\<rparr>))))"


subsection \<open>Node containers and the maps that point into them\<close>

text \<open>
  \<open>nodes_inv xs m\<close>: every key of \<open>m\<close> points at its own node of \<open>xs\<close> and every node is pointed
  at. The list and the multimap of \<open>Db\<close> and the list of \<open>lruMap\<close> are three instances.
\<close>

definition nodes_inv :: "(node \<times> string) list \<Rightarrow> (string \<rightharpoonup> node) \<Rightarrow> bool" where
  "nodes_inv xs m \<longleftrightarrow> distinct (map fst xs) \<and> distinct (map snd xs) \<and>
     (\<forall>n k. (n, k) \<in> set xs \<longleftrightarrow> m k = Some n)"

lemma nodes_inv_mem: "nodes_inv xs m \<Longrightarrow> (n, k) \<in> set xs \<longleftrightarrow> m k = Some n"
  by (simp add: nodes_inv_def)

lemma nodes_inv_filter:
  assumes "nodes_inv xs m" and "m k = Some n"
  shows "filter (\<lambda>(n', _). n' \<noteq> n) xs = filter (\<lambda>(_, k'). k' \<noteq> k) xs"
proof (rule filter_cong [OF refl], clarsimp)
  fix n' k' assume mem: "(n', k') \<in> set xs"
  then have "m k' = Some n'" using assms(1) by (simp add: nodes_inv_mem)
  moreover have "(n, k) \<in> set xs" using assms by (simp add: nodes_inv_mem)
  ultimately show "(n' = n) = (k' = k)"
    using mem assms by (auto simp: nodes_inv_def dest: eq_key_imp_eq_value)
qed

lemma erase_node_inv:
  assumes "nodes_inv xs m" and "m k = Some n"
  shows "erase_node n xs = Inr (filter (\<lambda>(_, k'). k' \<noteq> k) xs)"
    and "nodes_inv (filter (\<lambda>(_, k'). k' \<noteq> k) xs) (m(k := None))"
proof -
  have "(n, k) \<in> set xs" using assms by (simp add: nodes_inv_mem)
  then have "n \<in> fst ` set xs" by force
  then show "erase_node n xs = Inr (filter (\<lambda>(_, k'). k' \<noteq> k) xs)"
    by (simp add: erase_node_def nodes_inv_filter [OF assms])
  show "nodes_inv (filter (\<lambda>(_, k'). k' \<noteq> k) xs) (m(k := None))"
    using assms(1) by (auto simp: nodes_inv_def distinct_map_filter)
qed

lemma nodes_inv_push:
  assumes "nodes_inv xs m" and "m k = None" and "n \<notin> fst ` set xs"
  shows "nodes_inv ((n, k) # xs) (m(k \<mapsto> n))"
  using assms by (force simp: nodes_inv_def)

lemma nodes_inv_keys: "nodes_inv xs m \<Longrightarrow> k \<in> snd ` set xs \<longleftrightarrow> m k \<noteq> None"
  by (force simp: nodes_inv_def)

lemma nodes_inv_touch:
  assumes "nodes_inv xs m" and "m k = Some n" and "\<forall>x \<in> fst ` set xs. x < n'"
  shows "nodes_inv ((n', k) # filter (\<lambda>(_, k'). k' \<noteq> k) xs) (m(k \<mapsto> n'))"
proof -
  have "n' \<notin> fst ` set (filter (\<lambda>(_, k'). k' \<noteq> k) xs)"
    using assms(3) by auto
  from nodes_inv_push [OF erase_node_inv(2) [OF assms(1,2)] _ this, of k]
  show ?thesis by simp
qed

text \<open>Recency order of the key-value pairs: the abstract state of a store.\<close>

definition lru_remove :: "string \<Rightarrow> (string \<times> string) list \<Rightarrow> (string \<times> string) list" where
  "lru_remove key kvs = filter (\<lambda>(k, _). k \<noteq> key) kvs"

definition lru_touch :: "string \<Rightarrow> (string \<times> string) list \<Rightarrow> (string \<times> string) list" where
  "lru_touch key kvs = (case map_of kvs key of None \<Rightarrow> kvs | Some v \<Rightarrow> (key, v) # lru_remove key kvs)"

definition kvs_of :: "(node \<times> string) list \<Rightarrow> (string \<rightharpoonup> string) \<Rightarrow> (string \<times> string) list" where
  "kvs_of xs val = map (\<lambda>(n, k). (k, the (val k))) xs"

lemma map_of_kvs_of:
  "map_of (kvs_of xs val) key = (if key \<in> snd ` set xs then Some (the (val key)) else None)"
  by (induction xs) (auto simp: kvs_of_def)

lemma kvs_of_filter:
  "lru_remove key (kvs_of xs val) = kvs_of (filter (\<lambda>(_, k). k \<noteq> key) xs) val"
  by (induction xs) (auto simp: kvs_of_def lru_remove_def)

lemma kvs_of_cong: "(\<And>k. k \<in> snd ` set xs \<Longrightarrow> val k = val' k) \<Longrightarrow> kvs_of xs val = kvs_of xs val'"
  by (force simp: kvs_of_def)

lemma keys_kvs_of [simp]: "map fst (kvs_of xs val) = map snd xs"
  by (simp add: kvs_of_def o_def case_prod_unfold)

lemma map_of_lru_remove: "map_of (lru_remove key kvs) = (map_of kvs)(key := None)"
  by (induction kvs) (auto simp: lru_remove_def fun_eq_iff)

lemma map_of_lru_touch [simp]: "map_of (lru_touch key kvs) = map_of kvs"
  by (auto simp: lru_touch_def map_of_lru_remove fun_eq_iff split: option.splits)


subsection \<open>The store contract\<close>

text \<open>What the request handler relies on: lookups and deletions act on the bindings as on a finite
  map and lookups only reorder by recency.\<close>

datatype kv_op = OpGet string | OpDel string
datatype kv_reply = RGet "string option" | RDel bool

fun kv_run ::
  "(string \<Rightarrow> 's \<Rightarrow> (string option \<times> 's) res) \<Rightarrow> (string \<Rightarrow> 's \<Rightarrow> (bool \<times> 's) res) \<Rightarrow>
   kv_op list \<Rightarrow> 's \<Rightarrow> (kv_reply list \<times> 's) res" where
  "kv_run get del [] s = Inr ([], s)"
| "kv_run get del (OpGet k # ops) s =
     rbind (get k s) (\<lambda>(r, s). rbind (kv_run get del ops s) (\<lambda>(rs, s). Inr (RGet r # rs, s)))"
| "kv_run get del (OpDel k # ops) s =
     rbind (del k s) (\<lambda>(r, s). rbind (kv_run get del ops s) (\<lambda>(rs, s). Inr (RDel r # rs, s)))"

fun kv_spec :: "kv_op list \<Rightarrow> (string \<rightharpoonup> string) \<Rightarrow> kv_reply list \<times> (string \<rightharpoonup> string)" where
  "kv_spec [] m = ([], m)"
| "kv_spec (OpGet k # ops) m = (let (rs, m') = kv_spec ops m in (RGet (m k) # rs, m'))"
| "kv_spec (OpDel k # ops) m = (let (rs, m') = kv_spec ops (m(k := None)) in (RDel (m k \<noteq> None) # rs, m'))"

locale kv_store =
  fixes sinv :: "'s \<Rightarrow> bool"
    and skvs :: "'s \<Rightarrow> (string \<times> string) list"
    and sget :: "string \<Rightarrow> 's \<Rightarrow> (string option \<times> 's) res"
    and sdel :: "string \<Rightarrow> 's \<Rightarrow> (bool \<times> 's) res"
  assumes keys_law: "sinv s \<Longrightarrow> distinct (map fst (skvs s))"
    and get_law: "sinv s \<Longrightarrow>
      \<exists>s'. sget k s = Inr (map_of (skvs s) k, s') \<and> sinv s' \<and> skvs s' = lru_touch k (skvs s)"
    and del_law: "sinv s \<Longrightarrow>
      \<exists>s'. sdel k s = Inr (map_of (skvs s) k \<noteq> None, s') \<and> sinv s' \<and> skvs s' = lru_remove k (skvs s)"
begin

lemma getE:
  assumes "sinv s"
  obtains s' where "sget k s = Inr (map_of (skvs s) k, s')" "sinv s'" "skvs s' = lru_touch k (skvs s)"
  using get_law [OF assms] by blast

lemma delE:
  assumes "sinv s"
  obtains s' where "sdel k s = Inr (map_of (skvs s) k \<noteq> None, s')" "sinv s'"
    "skvs s' = lru_remove k (skvs s)"
  using del_law [OF assms] by blast

lemma run_law:
  assumes "sinv s" and "kv_spec ops (map_of (skvs s)) = (rs, m)"
  shows "\<exists>s'. kv_run sget sdel ops s = Inr (rs, s') \<and> sinv s' \<and> map_of (skvs s') = m"
  using assms
proof (induction ops arbitrary: s rs m)
  case Nil
  then show ?case by auto
next
  case (Cons op ops)
  show ?case
  proof (cases op)
    case (OpGet k)
    obtain s' where s': "sget k s = Inr (map_of (skvs s) k, s')" "sinv s'" "skvs s' = lru_touch k (skvs s)"
      using getE [OF Cons.prems(1)] .
    obtain rs' where rs': "kv_spec ops (map_of (skvs s')) = (rs', m)" "rs = RGet (map_of (skvs s) k) # rs'"
      using Cons.prems(2) OpGet s'(3) by (auto split: prod.splits)
    from Cons.IH [OF s'(2) rs'(1)] show ?thesis
      using OpGet s'(1) rs'(2) by auto
  next
    case (OpDel k)
    obtain s' where s': "sdel k s = Inr (map_of (skvs s) k \<noteq> None, s')" "sinv s'" "skvs s' = lru_remove k (skvs s)"
      using delE [OF Cons.prems(1)] .
    obtain rs' where rs': "kv_spec ops (map_of (skvs s')) = (rs', m)" "rs = RDel (map_of (skvs s) k \<noteq> None) # rs'"
      using Cons.prems(2) OpDel s'(3) by (auto simp: map_of_lru_remove split: prod.splits)
    from Cons.IH [OF s'(2) rs'(1)] show ?thesis
      using OpDel s'(1) rs'(2) by auto
  qed
qed

end


subsection \<open>\<open>Db\<close> keeps its containers consistent\<close>

definition list_ptr :: "db \<Rightarrow> string \<rightharpoonup> node" where
  "list_ptr d k = map_option (\<lambda>((li, _), _). li) (db_map d k)"

definition slot_ptr :: "db \<Rightarrow> string \<rightharpoonup> node" where
  "slot_ptr d k = map_option (\<lambda>((_, mi), _). mi) (db_map d k)"

definition db_val :: "db \<Rightarrow> string \<rightharpoonup> string" where
  "db_val d k = map_option snd (db_map d k)"

definition db_kvs :: "db \<Rightarrow> (string \<times> string) list" where
  "db_kvs d = kvs_of (lruList d) (db_val d)"

definition db_inv :: "db \<Rightarrow> bool" where
  "db_inv d \<longleftrightarrow> nodes_inv (lruList d) (list_ptr d) \<and>
     nodes_inv (map (apsnd snd) (slotToKey d)) (slot_ptr d) \<and>
     (\<forall>x \<in> set (lruList d). fst x < next_node d) \<and> (\<forall>x \<in> set (slotToKey d). fst x < next_node d)"

lemmas db_simps = list_ptr_def slot_ptr_def db_val_def db_kvs_def map_find_def

lemma erase_node_map:
  "erase_node it (map (apsnd f) xs) =
     (case erase_node it xs of Inl e \<Rightarrow> Inl e | Inr ys \<Rightarrow> Inr (map (apsnd f) ys))"
proof -
  have "fst ` set (map (apsnd f) xs) = fst ` set xs"
    by (force simp: image_iff)
  moreover have "filter (\<lambda>(n, _). n \<noteq> it) (map (apsnd f) xs) = map (apsnd f) (filter (\<lambda>(n, _). n \<noteq> it) xs)"
    by (induction xs) auto
  ultimately show ?thesis by (simp add: erase_node_def)
qed

lemma db_slot_erase:
  assumes "db_inv d" and "db_map d k = Some ((li, mi), v)"
  obtains s where "erase_node mi (slotToKey d) = Inr s"
    and "nodes_inv (map (apsnd snd) s) ((slot_ptr d)(k := None))" and "set s \<subseteq> set (slotToKey d)"
proof -
  have ptr: "slot_ptr d k = Some mi" using assms(2) by (simp add: slot_ptr_def)
  have inv: "nodes_inv (map (apsnd snd) (slotToKey d)) (slot_ptr d)" using assms(1) by (simp add: db_inv_def)
  obtain s where s: "erase_node mi (slotToKey d) = Inr s"
      "map (apsnd snd) s = filter (\<lambda>(_, k'). k' \<noteq> k) (map (apsnd snd) (slotToKey d))"
    using erase_node_inv(1) [OF inv ptr] by (auto simp: erase_node_map split: sum.splits)
  moreover have "set s \<subseteq> set (slotToKey d)"
    using s(1) by (auto simp: erase_node_def split: if_splits)
  ultimately show ?thesis
    using that erase_node_inv(2) [OF inv ptr] by simp
qed

lemma db_kvs_lookup:
  assumes "db_inv d"
  shows "map_of (db_kvs d) key = db_val d key"
proof -
  have "key \<in> snd ` set (lruList d) \<longleftrightarrow> db_map d key \<noteq> None"
    using assms nodes_inv_keys [of "lruList d" "list_ptr d" key] by (simp add: db_inv_def list_ptr_def)
  then show ?thesis by (auto simp: db_kvs_def map_of_kvs_of db_val_def)
qed

text \<open>Moving a present key to the front with a new value: shared by \<open>getKV\<close> and \<open>setKV\<close>.\<close>

lemma db_touch:
  fixes w :: string
  assumes inv: "db_inv d" and key: "db_map d k = Some ((li, mi), v)"
  defines "d' \<equiv> d\<lparr>lruList := (next_node d, k) # filter (\<lambda>(_, k'). k' \<noteq> k) (lruList d),
                 db_map := (db_map d)(k \<mapsto> ((next_node d, mi), w)), next_node := next_node d + 1\<rparr>"
  shows "erase_node li (lruList d) = Inr (filter (\<lambda>(_, k'). k' \<noteq> k) (lruList d))"
    and "db_inv d'" and "db_kvs d' = (k, w) # lru_remove k (db_kvs d)"
proof -
  have ptr: "list_ptr d k = Some li" using key by (simp add: list_ptr_def)
  have ninv: "nodes_inv (lruList d) (list_ptr d)" and fresh: "\<forall>n \<in> fst ` set (lruList d). n < next_node d"
    using inv by (auto simp: db_inv_def)
  show "erase_node li (lruList d) = Inr (filter (\<lambda>(_, k'). k' \<noteq> k) (lruList d))"
    by (rule erase_node_inv(1) [OF ninv ptr])
  have l: "list_ptr d' = (list_ptr d)(k \<mapsto> next_node d)" and m: "slot_ptr d' = slot_ptr d"
    using key by (auto simp: d'_def list_ptr_def slot_ptr_def fun_eq_iff)
  show "db_inv d'"
    using nodes_inv_touch [OF ninv ptr fresh] inv
    unfolding db_inv_def l m by (simp add: d'_def less_Suc_eq)
  have "kvs_of (filter (\<lambda>(_, k'). k' \<noteq> k) (lruList d)) (db_val d') =
      kvs_of (filter (\<lambda>(_, k'). k' \<noteq> k) (lruList d)) (db_val d)"
    by (rule kvs_of_cong) (auto simp: d'_def db_val_def)
  then show "db_kvs d' = (k, w) # lru_remove k (db_kvs d)"
    unfolding db_kvs_def kvs_of_filter by (simp add: d'_def kvs_of_def db_val_def)
qed

lemma getKV_ok:
  assumes "db_inv d"
  shows "\<exists>d'. getKV key d = Inr (map_of (db_kvs d) key, d') \<and> db_inv d' \<and> db_kvs d' = lru_touch key (db_kvs d)"
proof (cases "db_map d key")
  case None
  with assms show ?thesis
    by (auto simp: getKV_def map_find_def lru_touch_def db_kvs_lookup db_val_def)
next
  case (Some e)
  then obtain li mi v where e: "db_map d key = Some ((li, mi), v)" by (cases e) auto
  with assms db_touch(1) [OF assms e] db_touch(2,3) [OF assms e, where w = v] show ?thesis
    by (auto simp: getKV_def map_find_def lru_touch_def db_kvs_lookup db_val_def Let_def)
qed

lemma delKV_ok:
  assumes "db_inv d"
  shows "\<exists>d'. delKV key d = Inr (map_of (db_kvs d) key \<noteq> None, d') \<and> db_inv d' \<and> db_kvs d' = lru_remove key (db_kvs d)"
proof (cases "db_map d key")
  case None
  then have "key \<notin> fst ` set (db_kvs d)"
    using assms by (metis db_kvs_lookup db_val_def map_of_eq_None_iff option.map_disc_iff)
  then have "lru_remove key (db_kvs d) = db_kvs d"
    by (force simp: lru_remove_def filter_id_conv)
  with None assms show ?thesis
    by (auto simp: delKV_def map_find_def db_kvs_lookup db_val_def)
next
  case (Some e)
  then obtain li mi v where e: "db_map d key = Some ((li, mi), v)" by (cases e) auto
  obtain s where s: "erase_node mi (slotToKey d) = Inr s"
      "nodes_inv (map (apsnd snd) s) ((slot_ptr d)(key := None))" "set s \<subseteq> set (slotToKey d)"
    using db_slot_erase [OF assms e] .
  let ?l = "filter (\<lambda>(_, k'). k' \<noteq> key) (lruList d)"
  let ?d = "d\<lparr>db_map := (db_map d)(key := None), lruList := ?l, slotToKey := s\<rparr>"
  have ninv: "nodes_inv (lruList d) (list_ptr d)" and ptr: "list_ptr d key = Some li"
    using assms e by (auto simp: db_inv_def list_ptr_def)
  have ptrs: "list_ptr ?d = (list_ptr d)(key := None)" "slot_ptr ?d = (slot_ptr d)(key := None)"
    by (auto simp: list_ptr_def slot_ptr_def)
  have "db_inv ?d"
    using erase_node_inv(2) [OF ninv ptr] s(2,3) assms by (auto simp: db_inv_def ptrs)
  moreover have "db_kvs ?d = lru_remove key (db_kvs d)"
    unfolding db_kvs_def kvs_of_filter by (simp, rule kvs_of_cong) (auto simp: db_val_def)
  moreover have "delKV key d = Inr (True, ?d)"
    using erase_node_inv(1) [OF ninv ptr] s(1) e by (simp add: delKV_def map_find_def Let_def)
  ultimately show ?thesis
    using assms e by (auto simp: db_kvs_lookup db_val_def)
qed

lemma setKV_absent:
  assumes "db_map d key = None"
  shows "setKV key v slot d = Inl UndefinedBehaviour"
proof -
  have "db_evict d = Inl UndefinedBehaviour \<or> (\<exists>d'. db_evict d = Inr d')"
    by (auto simp: db_evict_def erase_node_def Let_def split: option.splits)
  with assms show ?thesis by (auto simp: setKV_def map_find_def deref_def)
qed

lemma setKV_present:
  assumes "db_inv d" and "db_val d key \<noteq> None"
  shows "\<exists>d'. setKV key v slot d = Inr (True, d') \<and> db_inv d' \<and>
    db_kvs d' = (key, v) # lru_remove key (db_kvs d) \<and> slotToKey d' = slotToKey d"
proof -
  from assms(2) obtain li mi w where e: "db_map d key = Some ((li, mi), w)"
    by (auto simp: db_val_def)
  show ?thesis
    using db_touch(1) [OF assms(1) e] db_touch(2,3) [OF assms(1) e, where w = v] e
    by (simp add: setKV_def map_find_def Let_def)
qed

lemma db_evict_ok:
  assumes "db_inv d" and "lruList d \<noteq> []"
  shows "\<exists>d'. db_evict d = Inr d' \<and> db_inv d' \<and> db_kvs d' = butlast (db_kvs d)"
proof -
  obtain xs n k where xs: "lruList d = xs @ [(n, k)]"
    using assms(2) by (cases "lruList d" rule: rev_cases) auto
  have ninv: "nodes_inv (lruList d) (list_ptr d)" using assms(1) by (simp add: db_inv_def)
  then have ptr: "list_ptr d k = Some n" using xs by (auto simp: nodes_inv_def)
  then obtain mi v where e: "db_map d k = Some ((n, mi), v)" by (auto simp: list_ptr_def)
  obtain s where s: "erase_node mi (slotToKey d) = Inr s"
      "nodes_inv (map (apsnd snd) s) ((slot_ptr d)(k := None))" "set s \<subseteq> set (slotToKey d)"
    using db_slot_erase [OF assms(1) e] .
  let ?d = "d\<lparr>db_map := (db_map d)(k := None), slotToKey := s, lruList := xs\<rparr>"
  have notin: "k \<notin> snd ` set xs" using ninv xs by (simp add: nodes_inv_def)
  have flt: "filter (\<lambda>(_, k'). k' \<noteq> k) (lruList d) = xs"
    using notin unfolding xs by (force simp: filter_id_conv)
  have ptrs: "list_ptr ?d = (list_ptr d)(k := None)" "slot_ptr ?d = (slot_ptr d)(k := None)"
    by (auto simp: list_ptr_def slot_ptr_def)
  have "db_inv ?d"
    using erase_node_inv(2) [OF ninv ptr] s(2,3) assms(1) xs flt by (auto simp: db_inv_def ptrs)
  moreover have "kvs_of xs (db_val ?d) = kvs_of xs (db_val d)"
    by (rule kvs_of_cong) (use notin in \<open>auto simp: db_val_def\<close>)
  then have "db_kvs ?d = butlast (db_kvs d)"
    by (simp add: db_kvs_def xs kvs_of_def)
  moreover have "db_evict d = Inr ?d"
    using s(1) e by (simp add: db_evict_def xs Let_def)
  ultimately show ?thesis by blast
qed

lemma setKV_undefined_iff:
  "db_inv d \<Longrightarrow> setKV key v slot d = Inl UndefinedBehaviour \<longleftrightarrow> db_val d key = None"
  using setKV_present [of d key v slot] setKV_absent [of d key v slot]
  by (cases "db_map d key") (auto simp: db_val_def)

lemma db_keys_distinct: "db_inv d \<Longrightarrow> distinct (map fst (db_kvs d))"
  by (simp add: db_kvs_def db_inv_def nodes_inv_def)

interpretation dbs: kv_store db_inv db_kvs getKV delKV
  by unfold_locales (rule db_keys_distinct getKV_ok delKV_ok, assumption)+


text \<open>C2: On a consistent \<open>Db\<close>, any sequence of \<open>getKV\<close> and \<open>delKV\<close> calls answers exactly as a
  finite map from keys to values would, never dereferences a dangling list or multimap iterator, and
  leaves the list, the hash map and the slot index consistent with each other.\<close>

theorem db_get_del_refine_map:
  assumes "db_inv d" and "kv_spec ops (db_val d) = (rs, m)"
  shows "\<exists>d'. kv_run getKV delKV ops d = Inr (rs, d') \<and> db_inv d' \<and> db_val d' = m"
proof -
  have "map_of (db_kvs d) = db_val d" using assms(1) by (auto simp: db_kvs_lookup)
  with dbs.run_law [OF assms(1)] assms(2) obtain d' where
    "kv_run getKV delKV ops d = Inr (rs, d')" "db_inv d'" "map_of (db_kvs d') = m" by metis
  then show ?thesis by (auto simp: db_kvs_lookup fun_eq_iff)
qed

text \<open>A small store, used by the witnesses.\<close>

definition sample_db :: db where
  "sample_db = \<lparr>slots_num = 0, scaleUp = False, slots_of = 6, maxSize = 2,
     lruList = [(2, ''b''), (0, ''a'')],
     db_map = [''a'' \<mapsto> ((0, 1), ''x''), ''b'' \<mapsto> ((2, 3), ''y'')],
     slotToKey = [(1, 1, ''a''), (3, 2, ''b'')], next_node = 4\<rparr>"

lemma sample_db_inv: "db_inv sample_db"
  by (auto simp: db_inv_def nodes_inv_def list_ptr_def slot_ptr_def sample_db_def)

lemma sample_db_kvs: "db_kvs sample_db = [(''b'', ''y''), (''a'', ''x'')]"
  by (simp add: db_kvs_def kvs_of_def db_val_def sample_db_def)

lemma sample_db_val: "db_val sample_db = [''a'' \<mapsto> ''x'', ''b'' \<mapsto> ''y'']"
  by (auto simp: db_val_def sample_db_def fun_eq_iff)

theorem db_get_del_refine_map_witness:
  "\<exists>d'. kv_run getKV delKV [OpGet ''a'', OpDel ''a'', OpGet ''a''] sample_db =
      Inr ([RGet (Some ''x''), RDel True, RGet None], d') \<and> db_inv d'"
proof -
  have "kv_spec [OpGet ''a'', OpDel ''a'', OpGet ''a''] (db_val sample_db) =
      ([RGet (Some ''x''), RDel True, RGet None], (db_val sample_db)(''a'' := None))"
    by (simp add: sample_db_val)
  from db_get_del_refine_map [OF sample_db_inv this] show ?thesis by blast
qed

text \<open>A hit is recorded: \<open>getKV\<close> of a present key returns its value and makes it the most
  recently used one, keeping the order of the others; a miss changes nothing.\<close>

theorem getKV_moves_to_front:
  assumes "db_inv d"
  shows "\<exists>d'. getKV key d = Inr (db_val d key, d') \<and> db_inv d' \<and>
    db_kvs d' = (case db_val d key of None \<Rightarrow> db_kvs d | Some v \<Rightarrow> (key, v) # lru_remove key (db_kvs d))"
  using getKV_ok [OF assms, of key] by (simp add: db_kvs_lookup [OF assms] lru_touch_def)

theorem getKV_moves_to_front_witness:
  "\<exists>d'. getKV ''a'' sample_db = Inr (Some ''x'', d') \<and> db_kvs d' = [(''a'', ''x''), (''b'', ''y'')]"
  using getKV_moves_to_front [OF sample_db_inv, of "''a''"]
  by (auto simp: sample_db_val sample_db_kvs lru_remove_def)

text \<open>\<open>setKV\<close> on a key that is already stored replaces the value, makes the key the most
  recently used one, keeps every other binding and the consistency of the containers, and never
  evicts anything, whatever the size limit.\<close>

theorem setKV_update:
  assumes "db_inv d" and "db_val d key \<noteq> None"
  shows "\<exists>d'. setKV key value slot d = Inr (True, d') \<and> db_inv d' \<and>
    db_kvs d' = (key, value) # lru_remove key (db_kvs d) \<and> slotToKey d' = slotToKey d"
  using assms by (rule setKV_present)

theorem setKV_update_witness:
  "\<exists>d'. setKV ''a'' ''z'' 1 sample_db = Inr (True, d') \<and> db_inv d'"
  using setKV_update [OF sample_db_inv, of "''a''" "''z''" 1] by (auto simp: sample_db_val)

text \<open>C15: \<open>setKV\<close> cannot add a key. On every state, a call with a key that is not stored runs into
  undefined behaviour: after the optional eviction it dereferences the \<open>end()\<close> iterator of the lookup
  that has just failed (\<open>push_front(mapItor->first)\<close>), or it already failed in the eviction.\<close>

theorem setKV_absent_undefined:
  assumes "db_val d key = None"
  shows "setKV key value slot d = Inl UndefinedBehaviour"
  using assms by (intro setKV_absent) (simp add: db_val_def)

theorem setKV_absent_undefined_witness:
  "db_val Db_default ''k'' = None \<and> setKV ''k'' ''v'' 7 Db_default = Inl UndefinedBehaviour"
proof -
  have none: "db_val Db_default ''k'' = None" by (simp add: db_val_def Db_default_def)
  then show ?thesis using setKV_absent_undefined [OF none] by simp
qed

text \<open>C16: The eviction step of \<open>setKV\<close> on a non-empty consistent store removes exactly the least
  recently used pair, from the list, the hash map and the slot index alike.\<close>

theorem evict_least_recent:
  assumes "db_inv d" and "lruList d \<noteq> []"
  shows "\<exists>d'. db_evict d = Inr d' \<and> db_inv d' \<and> db_kvs d' = butlast (db_kvs d)"
  using assms by (rule db_evict_ok)

theorem evict_least_recent_witness:
  "\<exists>d'. db_evict sample_db = Inr d' \<and> db_kvs d' = [(''b'', ''y'')]"
proof -
  have "lruList sample_db \<noteq> []" by (simp add: sample_db_def)
  from evict_least_recent [OF sample_db_inv this] show ?thesis by (auto simp: sample_db_kvs)
qed

text \<open>Any sequence of the public calls of a database.\<close>

datatype db_call = CallGet string | CallDel string | CallSet string string int
  | CallAddSlots slots | CallDelSlots slots | CallSetSlotNum

fun call_db :: "db_call \<Rightarrow> db \<Rightarrow> db res" where
  "call_db (CallGet key) d = rbind (getKV key d) (\<lambda>(_, d). Inr d)"
| "call_db (CallDel key) d = rbind (delKV key d) (\<lambda>(_, d). Inr d)"
| "call_db (CallSet key v slot) d = rbind (setKV key v slot d) (\<lambda>(_, d). Inr d)"
| "call_db (CallAddSlots ns) d = Inr (addSlots ns d)"
| "call_db (CallDelSlots ns) d = Inr (snd (delSlots ns d))"
| "call_db CallSetSlotNum d = Inr (setSlotNum d)"

fun call_dbs :: "db_call list \<Rightarrow> db \<Rightarrow> db res" where
  "call_dbs [] d = Inr d"
| "call_dbs (c # cs) d = rbind (call_db c d) (call_dbs cs)"

lemma db_inv_slots: "db_inv (d\<lparr>slots_of := ns\<rparr>) = db_inv d" "db_inv (d\<lparr>slots_num := n\<rparr>) = db_inv d"
  by (simp_all add: db_inv_def list_ptr_def [abs_def] slot_ptr_def [abs_def])

lemma call_db_ok:
  assumes "db_inv d"
  shows "(\<exists>d'. call_db c d = Inr d' \<and> db_inv d') \<or>
    (\<exists>key v slot. c = CallSet key v slot \<and> db_val d key = None \<and> call_db c d = Inl UndefinedBehaviour)"
proof (cases c)
  case (CallGet key)
  then show ?thesis using getKV_ok [OF assms, of key] by auto
next
  case (CallDel key)
  then show ?thesis using delKV_ok [OF assms, of key] by auto
next
  case (CallSet key v slot)
  then show ?thesis
    using setKV_present [OF assms, of key v slot] setKV_absent [of d key v slot]
    by (cases "db_val d key = None") (auto simp: db_val_def)
qed (use assms in \<open>simp_all add: addSlots_def delSlots_def setSlotNum_def db_inv_slots Let_def\<close>)

text \<open>C3: Well-formedness of the database as a type invariant, with progress. From a consistent database, any
  sequence of calls either returns and leaves list, hash map and slot index consistent with each other, or it
  reaches a \<open>setKV\<close> of a key that is not stored at that moment, the only call that can fail.\<close>

theorem db_well_formed:
  assumes "db_inv d"
  shows "(\<exists>d'. call_dbs cs d = Inr d' \<and> db_inv d') \<or>
    (\<exists>pre key v slot post d1. cs = pre @ CallSet key v slot # post \<and> call_dbs pre d = Inr d1 \<and> db_inv d1 \<and>
       db_val d1 key = None \<and> call_dbs cs d = Inl UndefinedBehaviour)"
  using assms
proof (induction cs arbitrary: d)
  case (Cons c cs)
  from call_db_ok [OF Cons.prems, of c] show ?case
  proof (elim disjE exE conjE)
    fix d' assume d': "call_db c d = Inr d'" "db_inv d'"
    from Cons.IH [OF d'(2)] show ?case
    proof (elim disjE exE conjE)
      fix pre key v slot post d1
      assume "cs = pre @ CallSet key v slot # post" "call_dbs pre d' = Inr d1" "db_inv d1" "db_val d1 key = None"
        "call_dbs cs d' = Inl UndefinedBehaviour"
      with d' show ?case
        by (intro disjI2 exI [of _ "c # pre"] exI [of _ key] exI [of _ v] exI [of _ slot] exI [of _ post] exI [of _ d1]) simp
    qed (use d' in auto)
  next
    fix key v slot
    assume "c = CallSet key v slot" "db_val d key = None" "call_db c d = Inl UndefinedBehaviour"
    with Cons.prems show ?case
      by (intro disjI2 exI [of _ "[]"] exI [of _ key] exI [of _ v] exI [of _ slot] exI [of _ cs] exI [of _ d]) simp
  qed
qed simp

theorem db_well_formed_witness:
  "(\<exists>d'. call_dbs [CallGet ''a'', CallDelSlots 2] sample_db = Inr d' \<and> db_inv d')"
  using db_well_formed [OF sample_db_inv, of "[CallGet ''a'', CallDelSlots 2]"] by (auto simp: Cons_eq_append_conv)

text \<open>Scaling out: when the new slot set is part of the old one, \<open>delSlots\<close> leaves the new set in
  the database and hands back exactly the slots that were given up (the old ones that are not in the
  new set).\<close>

theorem delSlots_returns_given_up:
  assumes "newSlots AND slots_of d = newSlots"
  shows "slots_of (snd (delSlots newSlots d)) = newSlots \<and>
    (\<forall>i. bit (fst (delSlots newSlots d)) i \<longleftrightarrow> bit (slots_of d) i \<and> \<not> bit newSlots i)"
proof -
  have sub: "bit newSlots i \<Longrightarrow> bit (slots_of d) i" for i
    using arg_cong [OF assms, of "\<lambda>w. bit w i"] by (simp only: bit_and_iff) blast
  show ?thesis by (auto simp: delSlots_def Let_def bit_xor_iff dest: sub)
qed

theorem delSlots_returns_given_up_witness:
  "fst (delSlots 2 sample_db) = 4 \<and> bit (fst (delSlots 2 sample_db)) 2"
  using delSlots_returns_given_up [of 2 sample_db] by (simp add: delSlots_def sample_db_def)


subsection \<open>\<open>lruMap\<close>\<close>

definition lm_ptr :: "lrumap \<Rightarrow> string \<rightharpoonup> node" where
  "lm_ptr d k = map_option fst (lm_map d k)"

definition lm_val :: "lrumap \<Rightarrow> string \<rightharpoonup> string" where
  "lm_val d k = map_option snd (lm_map d k)"

definition lm_kvs :: "lrumap \<Rightarrow> (string \<times> string) list" where
  "lm_kvs d = kvs_of (lm_list d) (lm_val d)"

definition lm_inv :: "lrumap \<Rightarrow> bool" where
  "lm_inv d \<longleftrightarrow> nodes_inv (lm_list d) (lm_ptr d) \<and> (\<forall>x \<in> set (lm_list d). fst x < lm_next d)"

lemma lm_kvs_lookup:
  assumes "lm_inv d"
  shows "map_of (lm_kvs d) key = lm_val d key"
proof -
  have "key \<in> snd ` set (lm_list d) \<longleftrightarrow> lm_map d key \<noteq> None"
    using assms nodes_inv_keys [of "lm_list d" "lm_ptr d" key] by (simp add: lm_inv_def lm_ptr_def)
  then show ?thesis by (auto simp: lm_kvs_def map_of_kvs_of lm_val_def)
qed

lemma lm_Get_ok:
  assumes "lm_inv d"
  shows "\<exists>d'. lm_Get key d = Inr (map_of (lm_kvs d) key, d') \<and> lm_inv d' \<and> lm_kvs d' = lru_touch key (lm_kvs d)"
proof (cases "lm_map d key")
  case None
  with assms show ?thesis
    by (auto simp: lm_Get_def map_find_def lru_touch_def lm_kvs_lookup lm_val_def)
next
  case (Some e)
  then obtain li v where e: "lm_map d key = Some (li, v)" by (cases e) auto
  have ninv: "nodes_inv (lm_list d) (lm_ptr d)" and ptr: "lm_ptr d key = Some li"
    and fresh: "\<forall>n \<in> fst ` set (lm_list d). n < lm_next d"
    using assms e by (auto simp: lm_inv_def lm_ptr_def)
  let ?l = "filter (\<lambda>(_, k'). k' \<noteq> key) (lm_list d)"
  let ?d = "d\<lparr>lm_list := (lm_next d, key) # ?l, lm_map := (lm_map d)(key \<mapsto> (lm_next d, v)), lm_next := lm_next d + 1\<rparr>"
  have p: "lm_ptr ?d = (lm_ptr d)(key \<mapsto> lm_next d)" by (auto simp: lm_ptr_def)
  have "lm_inv ?d"
    using nodes_inv_touch [OF ninv ptr fresh] assms unfolding lm_inv_def p by (simp add: less_Suc_eq)
  moreover have "kvs_of ?l (lm_val ?d) = kvs_of ?l (lm_val d)"
    by (rule kvs_of_cong) (auto simp: lm_val_def)
  then have "lm_kvs ?d = (key, v) # lru_remove key (lm_kvs d)"
    unfolding lm_kvs_def kvs_of_filter by (simp add: kvs_of_def lm_val_def)
  moreover have "lm_Get key d = Inr (Some v, ?d)"
    using erase_node_inv(1) [OF ninv ptr] e by (simp add: lm_Get_def map_find_def Let_def)
  ultimately show ?thesis
    using assms e by (auto simp: lru_touch_def lm_kvs_lookup lm_val_def)
qed

lemma lm_Del_ok:
  assumes "lm_inv d"
  shows "\<exists>d'. lm_Del key d = Inr (map_of (lm_kvs d) key \<noteq> None, d') \<and> lm_inv d' \<and> lm_kvs d' = lru_remove key (lm_kvs d)"
proof (cases "lm_map d key")
  case None
  then have "key \<notin> fst ` set (lm_kvs d)"
    using assms by (metis lm_kvs_lookup lm_val_def map_of_eq_None_iff option.map_disc_iff)
  then have "lru_remove key (lm_kvs d) = lm_kvs d"
    by (force simp: lru_remove_def filter_id_conv)
  with None assms show ?thesis
    by (auto simp: lm_Del_def map_find_def lm_kvs_lookup lm_val_def)
next
  case (Some e)
  then obtain li v where e: "lm_map d key = Some (li, v)" by (cases e) auto
  have ninv: "nodes_inv (lm_list d) (lm_ptr d)" and ptr: "lm_ptr d key = Some li"
    using assms e by (auto simp: lm_inv_def lm_ptr_def)
  let ?l = "filter (\<lambda>(_, k'). k' \<noteq> key) (lm_list d)"
  let ?d = "d\<lparr>lm_map := (lm_map d)(key := None), lm_list := ?l\<rparr>"
  have p: "lm_ptr ?d = (lm_ptr d)(key := None)" by (auto simp: lm_ptr_def)
  have "lm_inv ?d"
    using erase_node_inv(2) [OF ninv ptr] assms by (auto simp: lm_inv_def p)
  moreover have "lm_kvs ?d = lru_remove key (lm_kvs d)"
    unfolding lm_kvs_def kvs_of_filter by (simp, rule kvs_of_cong) (auto simp: lm_val_def)
  moreover have "lm_Del key d = Inr (True, ?d)"
    using erase_node_inv(1) [OF ninv ptr] e by (simp add: lm_Del_def map_find_def Let_def)
  ultimately show ?thesis
    using assms e by (auto simp: lm_kvs_lookup lm_val_def)
qed

lemma lm_keys_distinct: "lm_inv d \<Longrightarrow> distinct (map fst (lm_kvs d))"
  by (simp add: lm_kvs_def lm_inv_def nodes_inv_def)

interpretation lms: kv_store lm_inv lm_kvs lm_Get lm_Del
  by unfold_locales (rule lm_keys_distinct lm_Get_ok lm_Del_ok, assumption)+

text \<open>\<open>lruMap::Set\<close> never does its job, because its test for a present key is inverted. For an
  absent key it dereferences the \<open>end()\<close> iterator. For a present key of a cache that is not full it
  takes the insertion branch and the key list ends up with the key twice, so that the list and the hash
  map no longer agree.\<close>

theorem lruMap_Set_broken:
  assumes "lm_inv d"
  shows "case lm_val d key of
      None \<Rightarrow> lm_Set key value d = Inl UndefinedBehaviour
    | Some _ \<Rightarrow> lm_isOverSize d \<or>
        (\<exists>d'. lm_Set key value d = Inr (True, d') \<and> \<not> lm_inv d' \<and>
          filter (\<lambda>k. k = key) (map snd (lm_list d')) = [key, key])"
proof (cases "lm_map d key")
  case None
  then show ?thesis
    by (simp add: lm_Set_def lm_val_def map_find_def deref_def)
next
  case (Some e)
  let ?d = "d\<lparr>lm_list := (lm_next d, key) # lm_list d, lm_map := (lm_map d)(key \<mapsto> (lm_next d, value)),
             lm_next := lm_next d + 1\<rparr>"
  have set: "\<not> lm_isOverSize d \<Longrightarrow> lm_Set key value d = Inr (True, ?d)"
    using Some by (simp add: lm_Set_def map_find_def deref_def Let_def)
  have mem: "key \<in> set (map snd (lm_list d))" and dist: "distinct (map snd (lm_list d))"
    using assms Some nodes_inv_keys [of "lm_list d" "lm_ptr d" key]
    by (auto simp: lm_inv_def lm_ptr_def nodes_inv_def)
  from split_list [OF mem] obtain us vs where uv: "map snd (lm_list d) = us @ key # vs" by blast
  with dist have "key \<notin> set us" "key \<notin> set vs" by auto
  then have "filter (\<lambda>k. k = key) us = []" "filter (\<lambda>k. k = key) vs = []"
    by (auto simp: filter_empty_conv)
  with uv have "filter (\<lambda>k. k = key) (map snd (lm_list d)) = [key]" by simp
  moreover have "\<not> lm_inv ?d" using mem by (auto simp: lm_inv_def nodes_inv_def)
  ultimately show ?thesis
    using Some set by (cases "lm_isOverSize d") (auto simp: lm_val_def)
qed

definition sample_lrumap :: lrumap where
  "sample_lrumap = \<lparr>lm_maxSize = 4, lm_list = [(0, ''a'')], lm_map = [''a'' \<mapsto> (0, ''x'')], lm_next = 1\<rparr>"

theorem lruMap_Set_broken_witness:
  "lm_Set ''b'' ''y'' sample_lrumap = Inl UndefinedBehaviour \<and>
   (\<exists>d'. lm_Set ''a'' ''y'' sample_lrumap = Inr (True, d') \<and> \<not> lm_inv d')"
proof -
  have inv: "lm_inv sample_lrumap"
    by (auto simp: lm_inv_def nodes_inv_def lm_ptr_def sample_lrumap_def)
  have "lm_val sample_lrumap ''b'' = None" "lm_val sample_lrumap ''a'' = Some ''x''"
    "\<not> lm_isOverSize sample_lrumap"
    by (simp_all add: lm_val_def lm_isOverSize_def sample_lrumap_def)
  with lruMap_Set_broken [OF inv, of "''b''" "''y''"] lruMap_Set_broken [OF inv, of "''a''" "''y''"]
  show ?thesis by auto
qed

end
