(* ===== verification/DbServer.thy ===== *)
theory DbServer
  imports LruCache
begin

section \<open>The cache server's request handler (\<open>server/DbServer.cc\<close>)\<close>

text \<open>
  A server keeps one \<open>Db\<close> per server id it hosts (its own and the ones it backs up). A request is a
  string of fixed-width fields: server id (2), slot (5), command (3), key (8), value (8). The handler
  returns the reply or throws; the state it leaves behind is returned in both cases, because
  \<open>map::operator[]\<close> inserts a default \<open>Db\<close> before \<open>bitset::test\<close> may throw. The mutex makes the
  body atomic, so a sequence of requests is a sequence of calls.
\<close>

record dbserver =
  serverId :: int
  ids_of :: "int list"
  idToDb :: "int \<rightharpoonup> db"

text \<open>\<open>map<int, Db>::operator[]\<close>: the element, and the map with a default element inserted if absent.\<close>

definition map_index :: "int \<Rightarrow> (int \<rightharpoonup> db) \<Rightarrow> db \<times> (int \<rightharpoonup> db)" where
  "map_index i m = (case m i of Some d \<Rightarrow> (d, m) | None \<Rightarrow> (Db_default, m(i \<mapsto> Db_default)))"

definition isRightId :: "int \<Rightarrow> dbserver \<Rightarrow> bool" where
  "isRightId i s = list_ex (\<lambda>x. i = x) (ids_of s)"

definition isRightSlot :: "int \<Rightarrow> int \<Rightarrow> dbserver \<Rightarrow> bool res \<times> dbserver" where
  "isRightSlot i slot s =
     (let (d, m) = map_index i (idToDb s) in (testSlot slot d, s\<lparr>idToDb := m\<rparr>))"

definition isThisServer :: "int \<Rightarrow> dbserver \<Rightarrow> bool" where
  "isThisServer i s = (i = serverId s)"

text \<open>Running an operation of \<open>Db\<close> on the element \<open>idToDb_[i]\<close>. The operations of \<open>Db\<close> fail only with
  undefined behaviour, after which the state has no meaning.\<close>

definition on_db :: "int \<Rightarrow> (db \<Rightarrow> ('a \<times> db) res) \<Rightarrow> ('a \<Rightarrow> string) \<Rightarrow> dbserver \<Rightarrow> string res \<times> dbserver" where
  "on_db i f reply s =
     (let (d, m) = map_index i (idToDb s) in
      case f d of
        Inl e \<Rightarrow> (Inl e, s\<lparr>idToDb := m\<rparr>)
      | Inr (x, d') \<Rightarrow> (Inr (reply x), s\<lparr>idToDb := m(i \<mapsto> d')\<rparr>))"

definition run_cmd :: "int \<Rightarrow> int \<Rightarrow> string \<Rightarrow> string \<Rightarrow> string \<Rightarrow> dbserver \<Rightarrow> string res \<times> dbserver" where
  "run_cmd i slot cmd key mes s =
     (if cmd = ''GET'' then
        on_db i (getKV key) (\<lambda>r. case r of Some v \<Rightarrow> v | None \<Rightarrow> ''GETKeyNotFound'') s
      else if cmd = ''DEL'' then
        on_db i (delKV key) (\<lambda>b. if b then ''DELDown'' else ''DELKeyNotFound'') s
      else if cmd = ''SET'' then
        (if \<not> isThisServer slot s then (Inr ''Moved'', s)
         else case substr 18 8 mes of
           Inl e \<Rightarrow> (Inl e, s)
         | Inr v \<Rightarrow> on_db (serverId s) (setKV key v slot) (\<lambda>_. ''SETDONE'') s)
      else (Inl UndefinedBehaviour, s))"

text \<open>The fields of a request in the order the handler extracts them, once the id is accepted.\<close>

definition parse_fields :: "string \<Rightarrow> (int \<times> string \<times> string) res" where
  "parse_fields mes =
     rbind (substr 2 5 mes) (\<lambda>slotStr.
     rbind (substr 7 3 mes) (\<lambda>cmd.
     rbind (substr 10 8 mes) (\<lambda>key.
     rbind (stoi slotStr) (\<lambda>slot. Inr (slot, cmd, key)))))"

definition handle_client_request :: "string \<Rightarrow> dbserver \<Rightarrow> string res \<times> dbserver" where
  "handle_client_request mes s =
     (case rbind (substr 0 2 mes) stoi of
        Inl e \<Rightarrow> (Inl e, s)
      | Inr i \<Rightarrow>
          if \<not> isRightId i s then (Inr ''WrongServerId'', s)
          else case parse_fields mes of
            Inl e \<Rightarrow> (Inl e, s)
          | Inr (slot, cmd, key) \<Rightarrow>
              (case isRightSlot i slot s of
                 (Inl e, s) \<Rightarrow> (Inl e, s)
               | (Inr ok, s) \<Rightarrow> if \<not> ok then (Inr ''WrongSlot'', s) else run_cmd i slot cmd key mes s))"

fun handle_all :: "string list \<Rightarrow> dbserver \<Rightarrow> string res list \<times> dbserver" where
  "handle_all [] s = ([], s)"
| "handle_all (mes # rest) s =
     (let (r, s) = handle_client_request mes s; (rs, s) = handle_all rest s in (r # rs, s))"

text \<open>A well-formed request.\<close>

definition mk_request :: "int \<Rightarrow> int \<Rightarrow> string \<Rightarrow> string \<Rightarrow> string \<Rightarrow> string" where
  "mk_request i slot cmd key value = fmt_0d 2 i @ fmt_0d 5 slot @ cmd @ key @ value"

definition srv_inv :: "dbserver \<Rightarrow> bool" where
  "srv_inv s \<longleftrightarrow> (\<forall>i d. idToDb s i = Some d \<longrightarrow> db_inv d)"


subsection \<open>Parsing\<close>

lemma fmt_0d_field:
  assumes "0 \<le> i" and "i < 10 ^ w" and "0 < w" and "w \<le> 5"
  shows "length (fmt_0d w i) = w" and "stoi (fmt_0d w i) = Inr i"
proof -
  have n: "nat i < 10 ^ w" using assms(1,2) by (simp add: nat_less_iff)
  with assms(1,3) show "length (fmt_0d w i) = w" using length_fmt_0d [of "nat i" w] by simp
  have "(10::nat) ^ w \<le> 10 ^ 5" using assms(4) by (intro power_increasing) auto
  with n have "nat i < 10 ^ 5" by (rule less_le_trans)
  then have "nat i < 2 ^ 31" by simp
  then show "stoi (fmt_0d w i) = Inr i" using stoi_pad0 [of "nat i" w] assms(1) by simp
qed

lemma parse_request:
  assumes "0 \<le> i" "i < 100" "0 \<le> slot" "slot < 100000" "length cmd = 3" "length key = 8"
  shows "rbind (substr 0 2 (mk_request i slot cmd key v)) stoi = Inr i"
    and "parse_fields (mk_request i slot cmd key v) = Inr (slot, cmd, key)"
proof -
  have i: "length (fmt_0d 2 i) = 2" "stoi (fmt_0d 2 i) = Inr i"
    using fmt_0d_field [of i 2] assms by simp_all
  have sl: "length (fmt_0d 5 slot) = 5" "stoi (fmt_0d 5 slot) = Inr slot"
    using fmt_0d_field [of slot 5] assms by simp_all
  show "rbind (substr 0 2 (mk_request i slot cmd key v)) stoi = Inr i"
    using i by (simp add: mk_request_def)
  show "parse_fields (mk_request i slot cmd key v) = Inr (slot, cmd, key)"
    using i sl assms by (simp add: parse_fields_def mk_request_def substr_def)
qed

lemma value_field:
  assumes "0 \<le> i" "i < 100" "0 \<le> slot" "slot < 100000" "length cmd = 3" "length key = 8" "length v = 8"
  shows "substr 18 8 (mk_request i slot cmd key v) = Inr v"
  using assms fmt_0d_field(1) [of i 2] fmt_0d_field(1) [of slot 5]
  by (simp add: mk_request_def substr_def)


subsection \<open>Invariant\<close>

lemma db_inv_default: "db_inv Db_default"
  by (simp add: db_inv_def nodes_inv_def list_ptr_def slot_ptr_def Db_default_def)

lemma map_index_inv:
  assumes "srv_inv s" and "map_index i (idToDb s) = (d, m)"
  shows "db_inv d" and "srv_inv (s\<lparr>idToDb := m\<rparr>)" and "m i = Some d"
  using assms db_inv_default by (auto simp: map_index_def srv_inv_def split: option.splits if_splits)

lemma isRightSlot_inv: "srv_inv s \<Longrightarrow> srv_inv (snd (isRightSlot i slot s))"
  by (auto simp: isRightSlot_def map_index_inv split: prod.splits)

lemma setKV_inv:
  assumes "db_inv d" and "setKV key v slot d = Inr (b, d')"
  shows "db_inv d'"
  using setKV_present [OF assms(1), of key v slot] setKV_undefined_iff [OF assms(1), of key v slot] assms(2)
  by (cases "db_val d key") auto

lemma on_db_inv:
  assumes "srv_inv s" and "\<And>d x d'. db_inv d \<Longrightarrow> f d = Inr (x, d') \<Longrightarrow> db_inv d'"
  shows "srv_inv (snd (on_db i f reply s))"
proof -
  obtain d m where m: "map_index i (idToDb s) = (d, m)" by fastforce
  note inv = map_index_inv [OF assms(1) m]
  show ?thesis
    using inv assms(2) [OF inv(1)] by (auto simp: on_db_def m srv_inv_def split: sum.splits)
qed

lemma run_cmd_inv: "srv_inv s \<Longrightarrow> srv_inv (snd (run_cmd i slot cmd key mes s))"
proof -
  assume inv: "srv_inv s"
  have get: "srv_inv (snd (on_db i (getKV key) r s))" for r
    by (rule on_db_inv [OF inv]) (use getKV_ok [of _ key] in fastforce)
  have del: "srv_inv (snd (on_db i (delKV key) r s))" for r
    by (rule on_db_inv [OF inv]) (use delKV_ok [of _ key] in fastforce)
  have set: "srv_inv (snd (on_db j (setKV key v slot) r s))" for j v r
    by (rule on_db_inv [OF inv setKV_inv])
  show ?thesis
    by (cases "substr 18 8 mes") (simp_all add: run_cmd_def get del set inv)
qed

lemma handle_client_request_inv: "srv_inv s \<Longrightarrow> srv_inv (snd (handle_client_request mes s))"
  using isRightSlot_inv run_cmd_inv
  by (auto simp: handle_client_request_def split: sum.splits prod.splits) (metis snd_conv)+

lemma handle_client_request_ids:
  "serverId (snd (handle_client_request mes s)) = serverId s \<and> ids_of (snd (handle_client_request mes s)) = ids_of s"
  by (auto simp: handle_client_request_def run_cmd_def on_db_def isRightSlot_def Let_def
      split: sum.splits prod.splits)


subsection \<open>What the handler answers\<close>

lemma isRightId_iff [simp]: "isRightId i s \<longleftrightarrow> i \<in> set (ids_of s)"
  by (auto simp: isRightId_def list_ex_iff)

lemma bitset_test_ok: "0 \<le> p \<Longrightarrow> p < int SLOTS_NUM \<Longrightarrow> bitset_test b p = Inr (bit b (nat p))"
  by (simp add: bitset_test_def)

lemma handle_hosted:
  assumes "rbind (substr 0 2 mes) stoi = Inr i" and "i \<in> set (ids_of s)"
    and "parse_fields mes = Inr (slot, cmd, key)" and "idToDb s i = Some d"
    and "0 \<le> slot" and "slot < int SLOTS_NUM"
  shows "handle_client_request mes s =
    (if bit (slots_of d) (nat slot) then run_cmd i slot cmd key mes s else (Inr ''WrongSlot'', s))"
  using assms by (simp add: handle_client_request_def isRightSlot_def map_index_def testSlot_def bitset_test_ok)

text \<open>The reply to a lookup or deletion, and the bindings after it, by the bindings before it.\<close>

definition served_reply :: "string \<Rightarrow> int \<Rightarrow> string \<Rightarrow> db \<Rightarrow> string" where
  "served_reply cmd slot key d =
     (if \<not> bit (slots_of d) (nat slot) then ''WrongSlot''
      else if cmd = ''GET'' then (case db_val d key of Some v \<Rightarrow> v | None \<Rightarrow> ''GETKeyNotFound'')
      else if db_val d key = None then ''DELKeyNotFound'' else ''DELDown'')"

definition served_bindings :: "string \<Rightarrow> int \<Rightarrow> string \<Rightarrow> db \<Rightarrow> string \<rightharpoonup> string" where
  "served_bindings cmd slot key d =
     (if bit (slots_of d) (nat slot) \<and> cmd = ''DEL'' then (db_val d)(key := None) else db_val d)"

lemma getKV_val:
  assumes "db_inv d"
  obtains d' where "getKV key d = Inr (db_val d key, d')" "db_inv d'" "db_val d' = db_val d" "slots_of d' = slots_of d"
proof -
  obtain d' where d': "getKV key d = Inr (map_of (db_kvs d) key, d')" "db_inv d'"
      "db_kvs d' = lru_touch key (db_kvs d)"
    using getKV_ok [OF assms] by blast
  have "db_val d' = db_val d"
    using d'(2,3) assms by (metis (no_types) db_kvs_lookup ext map_of_lru_touch)
  moreover have "slots_of d' = slots_of d"
    using d'(1) by (auto simp: getKV_def Let_def split: option.splits)
  ultimately show ?thesis using that d' assms by (simp add: db_kvs_lookup)
qed

lemma delKV_val:
  assumes "db_inv d"
  obtains d' where "delKV key d = Inr (db_val d key \<noteq> None, d')" "db_inv d'"
    "db_val d' = (db_val d)(key := None)" "slots_of d' = slots_of d"
proof -
  obtain d' where d': "delKV key d = Inr (map_of (db_kvs d) key \<noteq> None, d')" "db_inv d'"
      "db_kvs d' = lru_remove key (db_kvs d)"
    using delKV_ok [OF assms] by blast
  have "db_val d' = (db_val d)(key := None)"
    by (rule ext) (simp add: db_kvs_lookup [OF d'(2), symmetric] db_kvs_lookup [OF assms, symmetric] d'(3) map_of_lru_remove)
  moreover have "slots_of d' = slots_of d"
    using d'(1) by (auto simp: delKV_def Let_def split: option.splits)
  ultimately show ?thesis using that d' assms by (auto simp: db_kvs_lookup)
qed

lemma get_del_step:
  assumes inv: "srv_inv s" and i: "0 \<le> i" "i < 100" "i \<in> set (ids_of s)" and d: "idToDb s i = Some d"
    and slot: "0 \<le> slot" "slot < int SLOTS_NUM" and cmd: "cmd \<in> {''GET'', ''DEL''}" and key: "length key = 8"
  shows "\<exists>d'. handle_client_request (mk_request i slot cmd key v) s =
      (Inr (served_reply cmd slot key d), s\<lparr>idToDb := (idToDb s)(i \<mapsto> d')\<rparr>) \<and>
      db_inv d' \<and> db_val d' = served_bindings cmd slot key d \<and> slots_of d' = slots_of d"
proof -
  have dinv: "db_inv d" using inv d by (simp add: srv_inv_def)
  have h: "handle_client_request (mk_request i slot cmd key v) s =
      (if bit (slots_of d) (nat slot) then run_cmd i slot cmd key (mk_request i slot cmd key v) s
       else (Inr ''WrongSlot'', s))"
    using parse_request [of i slot cmd key v] assms by (intro handle_hosted) (auto simp: SLOTS_NUM_def)
  obtain g where g: "getKV key d = Inr (db_val d key, g)" "db_inv g" "db_val g = db_val d" "slots_of g = slots_of d"
    using getKV_val [OF dinv] .
  obtain r where r: "delKV key d = Inr (db_val d key \<noteq> None, r)" "db_inv r"
      "db_val r = (db_val d)(key := None)" "slots_of r = slots_of d"
    using delKV_val [OF dinv] .
  have same: "s\<lparr>idToDb := (idToDb s)(i \<mapsto> d)\<rparr> = s" using d by (simp add: fun_upd_idem)
  consider "\<not> bit (slots_of d) (nat slot)" | "bit (slots_of d) (nat slot)" "cmd = ''GET''"
    | "bit (slots_of d) (nat slot)" "cmd = ''DEL''"
    using cmd by blast
  then show ?thesis
  proof cases
    case 1
    with dinv same show ?thesis
      by (intro exI [of _ d]) (simp add: h served_reply_def served_bindings_def)
  next
    case 2
    with d g h show ?thesis
      by (intro exI [of _ g])
        (simp add: run_cmd_def on_db_def map_index_def served_reply_def served_bindings_def)
  next
    case 3
    with d r h show ?thesis
      by (intro exI [of _ r])
        (simp add: run_cmd_def on_db_def map_index_def served_reply_def served_bindings_def)
  qed
qed

lemma srv_inv_upd: "srv_inv s \<Longrightarrow> db_inv d \<Longrightarrow> srv_inv (s\<lparr>idToDb := (idToDb s)(i \<mapsto> d)\<rparr>)"
  by (simp add: srv_inv_def)


text \<open>C13: A well-formed GET or DEL for a hosted id is answered from the bindings of that id's database
  alone (the value or a not-found reply, ``WrongSlot'' when the slot is not one of the database's),
  removes exactly the deleted key, changes no other database, and keeps every database consistent.\<close>

theorem get_del_request_spec:
  assumes "srv_inv s" and "0 \<le> i" "i < 100" "i \<in> set (ids_of s)" and "idToDb s i = Some d"
    and "0 \<le> slot" "slot < int SLOTS_NUM" and "cmd \<in> {''GET'', ''DEL''}" and "length key = 8"
  shows "\<exists>s' d'. handle_client_request (mk_request i slot cmd key v) s = (Inr (served_reply cmd slot key d), s') \<and>
    srv_inv s' \<and> idToDb s' = (idToDb s)(i \<mapsto> d') \<and> db_val d' = served_bindings cmd slot key d \<and>
    slots_of d' = slots_of d"
proof -
  obtain d' where "handle_client_request (mk_request i slot cmd key v) s =
      (Inr (served_reply cmd slot key d), s\<lparr>idToDb := (idToDb s)(i \<mapsto> d')\<rparr>)"
      "db_inv d'" "db_val d' = served_bindings cmd slot key d" "slots_of d' = slots_of d"
    using get_del_step [OF assms, of v] by blast
  with srv_inv_upd [OF assms(1), of d' i] show ?thesis
    by (intro exI [of _ "s\<lparr>idToDb := (idToDb s)(i \<mapsto> d')\<rparr>"] exI [of _ d']) simp
qed

text \<open>A server that hosts the ids 1 and 2, with one key in the database of id 1.\<close>

definition sample_server_db :: db where
  "sample_server_db = \<lparr>slots_num = 0, scaleUp = False, slots_of = 6, maxSize = 2, lruList = [(0, ''key-aaaa'')],
     db_map = [''key-aaaa'' \<mapsto> ((0, 1), ''val-aaaa'')], slotToKey = [(1, 1, ''key-aaaa'')], next_node = 2\<rparr>"

definition sample_server :: dbserver where
  "sample_server = \<lparr>serverId = 1, ids_of = [1, 2], idToDb = [1 \<mapsto> sample_server_db]\<rparr>"

lemma sample_server_simps:
  "srv_inv sample_server" "idToDb sample_server 1 = Some sample_server_db" "ids_of sample_server = [1, 2]"
  "serverId sample_server = 1" "db_val sample_server_db = [''key-aaaa'' \<mapsto> ''val-aaaa'']"
  "slots_of sample_server_db = 6"
proof -
  have "db_inv sample_server_db"
    by (auto simp: db_inv_def nodes_inv_def list_ptr_def slot_ptr_def sample_server_db_def)
  then show "srv_inv sample_server" by (simp add: srv_inv_def sample_server_def)
qed (auto simp: sample_server_def sample_server_db_def db_val_def fun_eq_iff)

theorem get_del_request_spec_witness:
  "fst (handle_client_request ''0100001GETkey-aaaaval-bbbb'' sample_server) = Inr ''val-aaaa''"
proof -
  have "mk_request 1 1 ''GET'' ''key-aaaa'' ''val-bbbb'' = ''0100001GETkey-aaaaval-bbbb''"
    by code_simp
  moreover have "served_reply ''GET'' 1 ''key-aaaa'' sample_server_db = ''val-aaaa''"
    by (simp add: served_reply_def sample_server_simps)
  ultimately show ?thesis
    using get_del_request_spec [OF sample_server_simps(1), of 1 sample_server_db 1 "''GET''" "''key-aaaa''" "''val-bbbb''"]
    by (auto simp: sample_server_simps SLOTS_NUM_def)
qed


text \<open>A deletion is visible to the next request: after a DEL of a key, whatever it replied, a GET of
  the same key from the same hosted id and slot finds nothing.\<close>

theorem del_then_get:
  assumes "srv_inv s" and "0 \<le> i" "i < 100" "i \<in> set (ids_of s)" and "idToDb s i = Some d"
    and "0 \<le> slot" "slot < int SLOTS_NUM" "bit (slots_of d) (nat slot)" and "length key = 8"
  shows "\<exists>s'. handle_all [mk_request i slot ''DEL'' key v, mk_request i slot ''GET'' key w] s =
    ([Inr (if db_val d key = None then ''DELKeyNotFound'' else ''DELDown''), Inr ''GETKeyNotFound''], s')"
proof -
  obtain d1 where d1: "handle_client_request (mk_request i slot ''DEL'' key v) s =
      (Inr (served_reply ''DEL'' slot key d), s\<lparr>idToDb := (idToDb s)(i \<mapsto> d1)\<rparr>)"
      "db_inv d1" "db_val d1 = served_bindings ''DEL'' slot key d" "slots_of d1 = slots_of d"
    using get_del_step [of s i d slot "''DEL''" key v] assms by auto
  have "srv_inv (s\<lparr>idToDb := (idToDb s)(i \<mapsto> d1)\<rparr>)"
    using assms(1) d1(2) by (rule srv_inv_upd)
  then obtain d2 where "handle_client_request (mk_request i slot ''GET'' key w) (s\<lparr>idToDb := (idToDb s)(i \<mapsto> d1)\<rparr>) =
      (Inr (served_reply ''GET'' slot key d1), s\<lparr>idToDb := (idToDb s)(i \<mapsto> d1, i \<mapsto> d2)\<rparr>)"
    using get_del_step [of "s\<lparr>idToDb := (idToDb s)(i \<mapsto> d1)\<rparr>" i d1 slot "''GET''" key w] assms by auto
  then show ?thesis
    using assms(8) d1 by (simp add: served_reply_def served_bindings_def)
qed

theorem del_then_get_witness:
  "fst (handle_all [mk_request 1 1 ''DEL'' ''key-aaaa'' [], mk_request 1 1 ''GET'' ''key-aaaa'' []] sample_server) =
     [Inr ''DELDown'', Inr ''GETKeyNotFound'']"
proof -
  have "bit (slots_of sample_server_db) (nat 1)" by (simp add: sample_server_simps)
  with del_then_get [OF sample_server_simps(1), of 1 sample_server_db 1 "''key-aaaa''" "[]" "[]"] show ?thesis
    by (auto simp: sample_server_simps SLOTS_NUM_def)
qed

text \<open>Which database a SET goes to is decided by comparing the slot, not the id, with the server's
  own id (\<open>isThisServer(slot)\<close>): every well-formed SET for a hosted id whose slot differs from the server's
  id is answered ``Moved'' and stores nothing, even when it is addressed to this very server.\<close>

theorem set_request_moved:
  assumes "0 \<le> i" "i < 100" "i \<in> set (ids_of s)" and "idToDb s i = Some d"
    and "0 \<le> slot" "slot < int SLOTS_NUM" "bit (slots_of d) (nat slot)"
    and "length key = 8" and "slot \<noteq> serverId s"
  shows "handle_client_request (mk_request i slot ''SET'' key v) s = (Inr ''Moved'', s)"
proof -
  have "handle_client_request (mk_request i slot ''SET'' key v) s =
      run_cmd i slot ''SET'' key (mk_request i slot ''SET'' key v) s"
    using parse_request [of i slot "''SET''" key v] handle_hosted assms by (simp add: SLOTS_NUM_def)
  with assms(9) show ?thesis by (simp add: run_cmd_def isThisServer_def)
qed

theorem set_request_moved_witness:
  "handle_client_request (mk_request 1 2 ''SET'' ''key-aaaa'' ''val-cccc'') sample_server = (Inr ''Moved'', sample_server)"
proof -
  have "bit (slots_of sample_server_db) (nat 2)" by (simp add: sample_server_simps)
  with set_request_moved [of 1 sample_server sample_server_db 2 "''key-aaaa''" "''val-cccc''"] show ?thesis
    by (simp add: sample_server_simps SLOTS_NUM_def)
qed

lemma on_db_undefined:
  assumes "srv_inv s" and "map_index i (idToDb s) = (d, m)"
  shows "fst (on_db i (getKV key) r s) \<noteq> Inl UndefinedBehaviour"
    and "fst (on_db i (delKV key) q s) \<noteq> Inl UndefinedBehaviour"
    and "fst (on_db i (setKV key v slot) t s) = Inl UndefinedBehaviour \<longleftrightarrow> db_val d key = None"
proof -
  have dinv: "db_inv d" using map_index_inv [OF assms] by blast
  show "fst (on_db i (getKV key) r s) \<noteq> Inl UndefinedBehaviour"
    using getKV_ok [OF dinv, of key] by (auto simp: on_db_def assms(2))
  show "fst (on_db i (delKV key) q s) \<noteq> Inl UndefinedBehaviour"
    using delKV_ok [OF dinv, of key] by (auto simp: on_db_def assms(2))
  show "fst (on_db i (setKV key v slot) t s) = Inl UndefinedBehaviour \<longleftrightarrow> db_val d key = None"
    using setKV_undefined_iff [OF dinv, of key v slot] by (auto simp: on_db_def assms(2) split: sum.splits)
qed

text \<open>The requests that reach the command dispatch.\<close>

definition dispatched :: "string \<Rightarrow> dbserver \<Rightarrow> int \<Rightarrow> int \<Rightarrow> string \<Rightarrow> string \<Rightarrow> bool" where
  "dispatched mes s i slot cmd key \<longleftrightarrow>
     rbind (substr 0 2 mes) stoi = Inr i \<and> i \<in> set (ids_of s) \<and> parse_fields mes = Inr (slot, cmd, key) \<and>
     testSlot slot (fst (map_index i (idToDb s))) = Inr True"

lemma stoi_not_undefined: "stoi t \<noteq> Inl UndefinedBehaviour"
  by (simp add: stoi_def Let_def split: prod.splits)

lemma parse_not_undefined:
  "rbind (substr 0 2 mes) stoi \<noteq> Inl UndefinedBehaviour" "parse_fields mes \<noteq> Inl UndefinedBehaviour"
  using stoi_not_undefined
  by (auto simp: parse_fields_def substr_def stoi_not_undefined rbind_def split: sum.splits)

lemma handle_cases:
  "(\<exists>i slot cmd key. dispatched mes s i slot cmd key \<and>
      handle_client_request mes s = run_cmd i slot cmd key mes (snd (isRightSlot i slot s))) \<or>
   ((\<nexists>i slot cmd key. dispatched mes s i slot cmd key) \<and>
      fst (handle_client_request mes s) \<noteq> Inl UndefinedBehaviour)"
  using parse_not_undefined [of mes]
  by (auto simp: handle_client_request_def dispatched_def isRightSlot_def testSlot_def bitset_test_def
      split: sum.splits prod.splits if_splits)


lemma map_index_idem: "map_index i (snd (map_index i m)) = map_index i m"
  by (auto simp: map_index_def split: option.splits)

lemma undefined_iff:
  assumes "srv_inv s"
  shows "fst (handle_client_request mes s) = Inl UndefinedBehaviour \<longleftrightarrow>
    (\<exists>i slot cmd key. dispatched mes s i slot cmd key \<and>
      (cmd \<notin> {''GET'', ''DEL'', ''SET''} \<or>
       cmd = ''SET'' \<and> slot = serverId s \<and> 18 \<le> length mes \<and>
       db_val (fst (map_index (serverId s) (idToDb s))) key = None))"
proof (cases "\<exists>i slot cmd key. dispatched mes s i slot cmd key")
  case True
  then obtain i slot cmd key where d: "dispatched mes s i slot cmd key"
    and h: "handle_client_request mes s = run_cmd i slot cmd key mes (snd (isRightSlot i slot s))"
    using handle_cases [of mes s] by blast
  have uniq: "dispatched mes s i' slot' cmd' key' \<longleftrightarrow> i' = i \<and> slot' = slot \<and> cmd' = cmd \<and> key' = key"
    for i' slot' cmd' key' using d by (auto simp: dispatched_def)
  define t where "t = snd (isRightSlot i slot s)"
  have inv: "srv_inv t" using assms unfolding t_def by (rule isRightSlot_inv)
  have me: "serverId t = serverId s" by (simp add: t_def isRightSlot_def split: prod.splits)
  obtain dd m where dd: "map_index (serverId s) (idToDb t) = (dd, m)" by fastforce
  have "dd = fst (map_index (serverId s) (idToDb s))"
    using dd by (auto simp: t_def isRightSlot_def map_index_def split: option.splits prod.splits if_splits)
  moreover obtain e n where "map_index i (idToDb t) = (e, n)" by fastforce
  note und = on_db_undefined(1,2) [OF inv this] on_db_undefined(3) [OF inv dd]
  have "fst (run_cmd i slot cmd key mes t) = Inl UndefinedBehaviour \<longleftrightarrow>
      (cmd \<notin> {''GET'', ''DEL'', ''SET''} \<or>
       cmd = ''SET'' \<and> slot = serverId s \<and> 18 \<le> length mes \<and> db_val dd key = None)"
    by (auto simp: run_cmd_def isThisServer_def me substr_def und)
  ultimately show ?thesis by (simp add: h uniq t_def)
next
  case False
  with handle_cases [of mes s] show ?thesis by blast
qed

text \<open>The exceptions of the handler.\<close>

lemma parse_errors:
  "rbind (substr 0 2 mes) stoi = Inl e \<Longrightarrow> e \<in> {OutOfRange, InvalidArgument}"
  "parse_fields mes = Inl e \<Longrightarrow> e \<in> {OutOfRange, InvalidArgument}"
proof -
  have stoi: "stoi t = Inl e \<Longrightarrow> e \<in> {OutOfRange, InvalidArgument}" for t
    by (auto simp: stoi_def Let_def split: prod.splits if_splits)
  show "rbind (substr 0 2 mes) stoi = Inl e \<Longrightarrow> e \<in> {OutOfRange, InvalidArgument}"
    using stoi by (auto simp: substr_def)
  show "parse_fields mes = Inl e \<Longrightarrow> e \<in> {OutOfRange, InvalidArgument}"
    using stoi [of "take 5 (drop 2 mes)"]
    by (cases "stoi (take 5 (drop 2 mes))") (auto simp: parse_fields_def substr_def split: if_splits)
qed

lemma run_cmd_errors:
  assumes "srv_inv s" and "fst (run_cmd i slot cmd key mes s) = Inl e"
  shows "e \<in> {UndefinedBehaviour, OutOfRange}"
proof -
  obtain d m where d: "map_index i (idToDb s) = (d, m)" by fastforce
  obtain d' m' where d': "map_index (serverId s) (idToDb s) = (d', m')" by fastforce
  note inv = map_index_inv(1) [OF assms(1) d] and inv' = map_index_inv(1) [OF assms(1) d']
  have set: "setKV key v slot d' = Inl x \<Longrightarrow> x = UndefinedBehaviour" for v x
    using setKV_present [OF inv', of key v slot] setKV_absent [of d' key v slot] by (cases "db_map d' key") (auto simp: db_val_def)
  show ?thesis
    using assms(2) getKV_ok [OF inv, of key] delKV_ok [OF inv, of key] set
    by (auto simp: run_cmd_def on_db_def d d' substr_def split: if_splits sum.splits)
qed

lemma handler_errors:
  assumes "srv_inv s" and "fst (handle_client_request mes s) = Inl e"
  shows "e \<in> {UndefinedBehaviour, OutOfRange, InvalidArgument}"
proof (cases "rbind (substr 0 2 mes) stoi")
  case (Inl e')
  with assms(2) parse_errors(1) [of mes] show ?thesis by (simp add: handle_client_request_def)
next
  case (Inr i)
  show ?thesis
  proof (cases "parse_fields mes")
    case (Inl e')
    with \<open>rbind (substr 0 2 mes) stoi = Inr i\<close> assms(2) parse_errors(2) [of mes] show ?thesis
      by (simp add: handle_client_request_def split: if_splits)
  next
    case f: (Inr p)
    obtain slot cmd key where p: "p = (slot, cmd, key)" by (cases p)
    obtain ok t where t: "isRightSlot i slot s = (ok, t)" by force
    have inv: "srv_inv t" using isRightSlot_inv [OF assms(1), of i slot] t by simp
    have "ok = Inl x \<Longrightarrow> x = OutOfRange" for x
      using t by (auto simp: isRightSlot_def testSlot_def bitset_test_def split: prod.splits if_splits)
    with Inr f p t assms(2) run_cmd_errors [OF inv, of i slot cmd key mes e] show ?thesis
      by (auto simp: handle_client_request_def split: if_splits sum.splits)
  qed
qed

text \<open>C14: The complete list of requests with undefined behaviour. On a server whose databases are
  consistent, the handler has undefined behaviour exactly when the request reaches the dispatch and its
  command is none of GET, DEL and SET (the function ends without a return), or is a SET that carries a
  value, passes the slot comparison, and names a key the server's own database does not hold. Every
  other request is answered or throws \<open>std::out_of_range\<close> or \<open>std::invalid_argument\<close>.\<close>

theorem handler_undefined_iff:
  assumes "srv_inv s"
  shows "(fst (handle_client_request mes s) = Inl UndefinedBehaviour \<longleftrightarrow>
    (\<exists>i slot cmd key. dispatched mes s i slot cmd key \<and>
      (cmd \<notin> {''GET'', ''DEL'', ''SET''} \<or>
       cmd = ''SET'' \<and> slot = serverId s \<and> 18 \<le> length mes \<and>
       db_val (fst (map_index (serverId s) (idToDb s))) key = None))) \<and>
    (fst (handle_client_request mes s) \<noteq> Inl UndefinedBehaviour \<longrightarrow>
      (\<exists>reply. fst (handle_client_request mes s) = Inr reply) \<or>
      fst (handle_client_request mes s) \<in> {Inl OutOfRange, Inl InvalidArgument})"
proof (intro conjI impI undefined_iff [OF assms])
  assume "fst (handle_client_request mes s) \<noteq> Inl UndefinedBehaviour"
  with handler_errors [OF assms, of mes] show "(\<exists>reply. fst (handle_client_request mes s) = Inr reply) \<or>
      fst (handle_client_request mes s) \<in> {Inl OutOfRange, Inl InvalidArgument}"
    by (cases "fst (handle_client_request mes s)") auto
qed

theorem handler_undefined_iff_witness:
  "fst (handle_client_request (mk_request 1 1 ''PUT'' ''key-aaaa'' ''val-aaaa'') sample_server) = Inl UndefinedBehaviour \<and>
   fst (handle_client_request (mk_request 1 1 ''SET'' ''key-bbbb'' ''val-bbbb'') sample_server) = Inl UndefinedBehaviour"
proof -
  have slot: "testSlot 1 (fst (map_index 1 (idToDb sample_server))) = Inr True"
    by (simp add: map_index_def testSlot_def bitset_test_ok sample_server_simps SLOTS_NUM_def)
  have put: "dispatched (mk_request 1 1 ''PUT'' ''key-aaaa'' ''val-aaaa'') sample_server 1 1 ''PUT'' ''key-aaaa''"
    using parse_request [of 1 1 "''PUT''" "''key-aaaa''" "''val-aaaa''"] slot
    by (simp add: dispatched_def sample_server_simps)
  have set: "dispatched (mk_request 1 1 ''SET'' ''key-bbbb'' ''val-bbbb'') sample_server 1 1 ''SET'' ''key-bbbb''"
    using parse_request [of 1 1 "''SET''" "''key-bbbb''" "''val-bbbb''"] slot
    by (simp add: dispatched_def sample_server_simps)
  have len: "18 \<le> length (mk_request 1 1 ''SET'' ''key-bbbb'' ''val-bbbb'')" by code_simp
  have none: "db_val (fst (map_index 1 (idToDb sample_server))) ''key-bbbb'' = None"
    by (simp add: map_index_def sample_server_simps)
  have "fst (handle_client_request (mk_request 1 1 ''PUT'' ''key-aaaa'' ''val-aaaa'') sample_server) = Inl UndefinedBehaviour"
    unfolding conjunct1 [OF handler_undefined_iff [OF sample_server_simps(1)]] using put by (intro exI conjI) auto
  moreover have "fst (handle_client_request (mk_request 1 1 ''SET'' ''key-bbbb'' ''val-bbbb'') sample_server) = Inl UndefinedBehaviour"
    unfolding conjunct1 [OF handler_undefined_iff [OF sample_server_simps(1)]] using set len none
    by (intro exI conjI) (auto simp: sample_server_simps)
  ultimately show ?thesis ..
qed

end
