(* ===== verification/Sockets.thy ===== *)
theory Sockets
  imports Endian Text
begin

section \<open>Addresses and socket wrappers (\<open>net/InetAddress.cc\<close>, \<open>net/SocketsOps.cc\<close>)\<close>

text \<open>
  \<open>InetAddress\<close> is a union of \<open>sockaddr_in\<close> and \<open>sockaddr_in6\<close>; the record has the fields of the
  28 bytes the two share: family and port at the same offsets, \<open>sin_addr\<close> and \<open>sin6_flowinfo\<close> in one
  word, \<open>sin_zero\<close> in the first half of \<open>sin6_addr\<close>. The constructors receive the memory they run in,
  since \<open>memZero\<close> of an IPv4 address clears only the first 16 bytes. The conversions of the C library
  between IPv4 addresses and dotted text are modelled; the ones for IPv6 are parameters. The kernel's
  answers to system calls are parameters too.
\<close>

datatype errno = EAGAIN | ECONNABORTED | EINTR | EPROTO | EPERM | EMFILE | EBADF | EFAULT | EINVAL
  | ENFILE | ENOBUFS | ENOMEM | ENOTSOCK | EOPNOTSUPP | EPIPE | ECONNRESET | EINPROGRESS | EISCONN
  | EADDRINUSE | EADDRNOTAVAIL | ECONNREFUSED | ENETUNREACH | EACCES | EAFNOSUPPORT | EALREADY
  | EOTHER nat

datatype sysret = SysOk int | SysErr errno

definition AF_INET :: "16 word" where "AF_INET = 2"
definition AF_INET6 :: "16 word" where "AF_INET6 = 10"
definition INET_ADDRSTRLEN :: nat where "INET_ADDRSTRLEN = 16"
definition INET6_ADDRSTRLEN :: nat where "INET6_ADDRSTRLEN = 46"

record inetaddress =
  sin_family :: "16 word"
  sin_port :: "16 word"
  sin_addr :: "32 word"
  sin6_addr :: bytes
  sin6_scope_id :: "32 word"

definition NUL :: char where "NUL = CHR 0x00"

definition memZero_in :: "inetaddress \<Rightarrow> inetaddress" where
  "memZero_in raw = raw\<lparr>sin_family := 0, sin_port := 0, sin_addr := 0,
     sin6_addr := replicate 8 NUL @ drop 8 (sin6_addr raw)\<rparr>"

definition memZero_in6 :: "inetaddress \<Rightarrow> inetaddress" where
  "memZero_in6 raw = \<lparr>sin_family = 0, sin_port = 0, sin_addr = 0, sin6_addr = replicate 16 NUL, sin6_scope_id = 0\<rparr>"

definition in6addr_any :: bytes where "in6addr_any = replicate 16 NUL"
definition in6addr_loopback :: bytes where "in6addr_loopback = replicate 15 NUL @ [CHR 0x01]"
definition kInaddrAny :: "32 word" where "kInaddrAny = 0"
definition kInaddrLoopback :: "32 word" where "kInaddrLoopback = 0x7f000001"

definition InetAddress_port :: "inetaddress \<Rightarrow> 16 word \<Rightarrow> bool \<Rightarrow> bool \<Rightarrow> inetaddress" where
  "InetAddress_port raw port loopbackOnly ipv6 =
     (if ipv6
      then (memZero_in6 raw)\<lparr>sin_family := AF_INET6,
             sin6_addr := (if loopbackOnly then in6addr_loopback else in6addr_any),
             sin_port := hostToNetwork16 port\<rparr>
      else (memZero_in raw)\<lparr>sin_family := AF_INET,
             sin_addr := hostToNetwork32 (if loopbackOnly then kInaddrLoopback else kInaddrAny),
             sin_port := hostToNetwork16 port\<rparr>)"

text \<open>\<open>inet_ntop\<close> and \<open>inet_pton\<close> for IPv4: four decimal octets without leading zeros.\<close>

definition octet :: "char \<Rightarrow> string" where
  "octet c = show_nat (of_char c)"

fun join_with :: "string \<Rightarrow> string list \<Rightarrow> string" where
  "join_with sep [] = []"
| "join_with sep [s] = s"
| "join_with sep (s # t # ts) = s @ sep @ join_with sep (t # ts)"

fun split_at :: "char \<Rightarrow> string \<Rightarrow> string list" where
  "split_at sep [] = [[]]"
| "split_at sep (c # cs) =
     (if c = sep then [] # split_at sep cs
      else case split_at sep cs of [] \<Rightarrow> [[c]] | w # ws \<Rightarrow> (c # w) # ws)"

definition inet_ntop4 :: "bytes \<Rightarrow> string" where
  "inet_ntop4 bs = join_with ''.'' (map octet bs)"

definition parse_octet :: "string \<Rightarrow> char option" where
  "parse_octet s =
     (if s \<noteq> [] \<and> list_all isdigit s \<and> (length s = 1 \<or> hd s \<noteq> CHR ''0'') \<and> digits_val s \<le> 255
      then Some (char_of (digits_val s)) else None)"

definition inet_pton4 :: "string \<Rightarrow> bytes option" where
  "inet_pton4 s =
     (let os = map parse_octet (split_at (CHR ''.'') s)
      in if length os = 4 \<and> list_all (\<lambda>p. p \<noteq> None) os then Some (map the os) else None)"

definition toIp :: "(bytes \<Rightarrow> string) \<Rightarrow> nat \<Rightarrow> inetaddress \<Rightarrow> string res" where
  "toIp ntop6 sz a =
     (if sin_family a = AF_INET
      then cassert (INET_ADDRSTRLEN \<le> sz) (Inr (inet_ntop4 (store (sin_addr a))))
      else if sin_family a = AF_INET6
      then cassert (INET6_ADDRSTRLEN \<le> sz) (Inr (ntop6 (sin6_addr a)))
      else Inr [])"

definition toIpPort :: "(bytes \<Rightarrow> string) \<Rightarrow> nat \<Rightarrow> inetaddress \<Rightarrow> string res" where
  "toIpPort ntop6 sz a =
     rbind (toIp ntop6 sz a) (\<lambda>buf.
     let en = length buf; port = networkToHost16 (sin_port a) in
     cassert (en < sz) (Inr (buf @ snprintf (sz - en) (CHR '':'' # show_nat (unat port)))))"

definition fromIpPort :: "string \<Rightarrow> 16 word \<Rightarrow> inetaddress \<Rightarrow> inetaddress" where
  "fromIpPort ip port a =
     (let a = a\<lparr>sin_family := AF_INET, sin_port := hostToNetwork16 port\<rparr> in
      case inet_pton4 ip of None \<Rightarrow> a | Some bs \<Rightarrow> a\<lparr>sin_addr := load bs\<rparr>)"

definition fromIpPort6 :: "(string \<Rightarrow> bytes option) \<Rightarrow> string \<Rightarrow> 16 word \<Rightarrow> inetaddress \<Rightarrow> inetaddress" where
  "fromIpPort6 pton6 ip port a =
     (let a = a\<lparr>sin_family := AF_INET6, sin_port := hostToNetwork16 port\<rparr> in
      case pton6 ip of None \<Rightarrow> a | Some bs \<Rightarrow> a\<lparr>sin6_addr := bs\<rparr>)"

definition InetAddress_ip :: "(string \<Rightarrow> bytes option) \<Rightarrow> inetaddress \<Rightarrow> string \<Rightarrow> 16 word \<Rightarrow> bool \<Rightarrow> inetaddress" where
  "InetAddress_ip pton6 raw ip port ipv6 =
     (if ipv6 then fromIpPort6 pton6 ip port (memZero_in6 raw) else fromIpPort ip port (memZero_in raw))"

definition addr_toIpPort :: "(bytes \<Rightarrow> string) \<Rightarrow> inetaddress \<Rightarrow> string res" where
  "addr_toIpPort ntop6 a = toIpPort ntop6 64 a"

definition addr_toIp :: "(bytes \<Rightarrow> string) \<Rightarrow> inetaddress \<Rightarrow> string res" where
  "addr_toIp ntop6 a = toIp ntop6 64 a"

definition ipNetEndian :: "inetaddress \<Rightarrow> 32 word res" where
  "ipNetEndian a = cassert (sin_family a = AF_INET) (Inr (sin_addr a))"

definition toPort :: "inetaddress \<Rightarrow> 16 word" where
  "toPort a = networkToHost16 (sin_port a)"

text \<open>\<open>gethostbyname_r\<close> answers with the address type, the length and the bytes of the first address.\<close>

definition resolve :: "(string \<Rightarrow> (16 word \<times> nat \<times> bytes) option) \<Rightarrow> string \<Rightarrow> inetaddress \<Rightarrow> (bool \<times> inetaddress) res" where
  "resolve gethostbyname hostname a =
     (case gethostbyname hostname of
        Some (h_addrtype, h_length, h_addr) \<Rightarrow>
          cassert (h_addrtype = AF_INET \<and> h_length = 4) (Inr (True, a\<lparr>sin_addr := load (take 4 h_addr)\<rparr>))
      | None \<Rightarrow> Inr (False, a))"


subsection \<open>System call wrappers\<close>

definition createNonblockingOrDie :: "sysret \<Rightarrow> int res" where
  "createNonblockingOrDie r = (case r of SysOk fd \<Rightarrow> Inr fd | SysErr _ \<Rightarrow> Inl Abort)"

definition bindOrDie :: "sysret \<Rightarrow> unit res" where
  "bindOrDie r = (case r of SysOk _ \<Rightarrow> Inr () | SysErr _ \<Rightarrow> Inl Abort)"

definition listenOrDie :: "sysret \<Rightarrow> unit res" where
  "listenOrDie r = (case r of SysOk _ \<Rightarrow> Inr () | SysErr _ \<Rightarrow> Inl Abort)"

text \<open>The descriptor, or \<open>-1\<close> with \<open>errno\<close> preserved, or the end of the process.\<close>

definition accept_expected :: "errno list" where
  "accept_expected = [EAGAIN, ECONNABORTED, EINTR, EPROTO, EPERM, EMFILE]"

definition sockets_accept :: "sysret \<Rightarrow> (int \<times> errno option) res" where
  "sockets_accept r =
     (case r of
        SysOk connfd \<Rightarrow> Inr (connfd, None)
      | SysErr savedErrno \<Rightarrow>
          if savedErrno \<in> set accept_expected then Inr (-1, Some savedErrno) else Inl Abort)"

definition Socket_accept :: "sysret \<Rightarrow> inetaddress \<Rightarrow> inetaddress \<Rightarrow> (int \<times> errno option \<times> inetaddress) res" where
  "Socket_accept r addr peeraddr =
     rbind (sockets_accept r) (\<lambda>(connfd, e). Inr (connfd, e, if 0 \<le> connfd then addr else peeraddr))"

definition isSelfConnect :: "inetaddress \<Rightarrow> inetaddress \<Rightarrow> bool" where
  "isSelfConnect localaddr peeraddr =
     (if sin_family localaddr = AF_INET
      then sin_port localaddr = sin_port peeraddr \<and> sin_addr localaddr = sin_addr peeraddr
      else if sin_family localaddr = AF_INET6
      then sin_port localaddr = sin_port peeraddr \<and> sin6_addr localaddr = sin6_addr peeraddr
      else False)"


subsection \<open>Dotted text\<close>

lemma split_at_no_sep: "sep \<notin> set s \<Longrightarrow> split_at sep s = [s]"
  by (induction s) auto

lemma split_at_append: "sep \<notin> set s \<Longrightarrow> split_at sep (s @ sep # t) = s # split_at sep t"
  by (induction s) auto

lemma split_join:
  "ss \<noteq> [] \<Longrightarrow> \<forall>s \<in> set ss. sep \<notin> set s \<Longrightarrow> split_at sep (join_with [sep] ss) = ss"
proof (induction "[sep]" ss rule: join_with.induct)
  case (3 s t ts)
  then show ?case by (simp add: split_at_append)
qed (auto simp: split_at_no_sep)

lemma hd_show_nat: "0 < n \<Longrightarrow> hd (show_nat n) \<noteq> CHR ''0''"
proof (induction n rule: show_nat.induct)
  case (1 n)
  show ?case
  proof (cases "n < 10")
    case True
    have "of_char (digit_char n) \<noteq> (48 :: nat)" using True 1(2) by simp
    then have "digit_char n \<noteq> CHR ''0''" by auto
    with True show ?thesis by (simp add: show_nat.simps [of n])
  next
    case False
    with 1 show ?thesis by (simp add: show_nat.simps [of n] hd_append)
  qed
qed

lemma octet_no_dot: "CHR ''.'' \<notin> set (octet c)"
  using show_nat_digits [of "CHR ''.''" "of_char c"] by (auto simp: octet_def isdigit_def)

lemma parse_octet_octet [simp]: "parse_octet (octet c) = Some c"
proof -
  have "of_char c \<le> (255 :: nat)" using of_char_less_256 [of c] by linarith
  moreover have "length (show_nat (of_char c)) = 1 \<or> hd (show_nat (of_char c)) \<noteq> CHR ''0''"
    using hd_show_nat [of "of_char c"] by (cases "of_char c = (0 :: nat)") (simp_all add: show_nat.simps [of 0])
  ultimately show ?thesis
    by (simp add: parse_octet_def octet_def list_all_iff show_nat_digits)
qed

lemma inet_pton_ntop: "length bs = 4 \<Longrightarrow> inet_pton4 (inet_ntop4 bs) = Some bs"
proof -
  assume len: "length bs = 4"
  have "split_at (CHR ''.'') (inet_ntop4 bs) = map octet bs"
    unfolding inet_ntop4_def by (rule split_join) (use len in \<open>auto simp: octet_no_dot\<close>)
  with len show ?thesis by (simp add: inet_pton4_def o_def list_all_iff)
qed

lemma length_octet: "length (octet c) \<le> 3"
proof -
  have "of_char c < (10 :: nat) ^ 3" using of_char_less_256 [of c] by (simp del: of_char_less_256)
  then show ?thesis unfolding octet_def by (rule length_show_nat) simp
qed

lemma length_ntop4: "length bs = 4 \<Longrightarrow> length (inet_ntop4 bs) \<le> 15"
proof -
  assume "length bs = 4"
  then obtain a b c d where "bs = [a, b, c, d]"
    by (auto simp: length_Suc_conv eval_nat_numeral)
  then show ?thesis
    using length_octet [of a] length_octet [of b] length_octet [of c] length_octet [of d]
    by (simp add: inet_ntop4_def)
qed

lemma length_port: "length (show_nat (unat (p :: 16 word))) \<le> 5"
proof -
  have "unat p < 2 ^ LENGTH(16)" by (rule unsigned_less)
  then show ?thesis by (intro length_show_nat) simp_all
qed

lemma toIpPort4:
  assumes "sin_family a = AF_INET"
  shows "addr_toIpPort ntop6 a = Inr (inet_ntop4 (store (sin_addr a)) @ CHR '':'' # show_nat (unat (toPort a)))"
proof -
  have len: "length (inet_ntop4 (store (sin_addr a))) \<le> 15"
    by (rule length_ntop4) simp
  then show ?thesis
    using assms length_port [of "toPort a"]
    by (simp add: addr_toIpPort_def toIpPort_def toIp_def INET_ADDRSTRLEN_def snprintf_def toPort_def Let_def)
qed

text \<open>Addresses survive their text form. For an IPv4 address, \<open>toIpPort\<close> is the dotted address, a
  colon and the port, never cut by the 64-byte buffer, and the constructor from the text of \<open>toIp\<close> and the
  port of \<open>toPort\<close> gives back the same family, port and address.\<close>

theorem ip_text_roundtrip:
  assumes "sin_family a = AF_INET"
  shows "\<exists>ip. addr_toIp ntop6 a = Inr ip \<and>
    addr_toIpPort ntop6 a = Inr (ip @ CHR '':'' # show_nat (unat (toPort a))) \<and>
    (let b = InetAddress_ip pton6 raw ip (toPort a) False in
       sin_family b = sin_family a \<and> sin_port b = sin_port a \<and> sin_addr b = sin_addr a)"
proof -
  have "addr_toIp ntop6 a = Inr (inet_ntop4 (store (sin_addr a)))"
    using assms by (simp add: addr_toIp_def toIp_def INET_ADDRSTRLEN_def)
  moreover have "hostToNetwork16 (toPort a) = sin_port a"
    by (simp add: toPort_def hostToNetwork16_def networkToHost16_def store_load load_store)
  ultimately show ?thesis
    using assms toIpPort4 [OF assms]
    by (simp add: InetAddress_ip_def fromIpPort_def inet_pton_ntop load_store memZero_in_def)
qed

definition sample_addr :: inetaddress where
  "sample_addr = \<lparr>sin_family = AF_INET, sin_port = hostToNetwork16 8080, sin_addr = load [CHR 0x0A, CHR 0x00, CHR 0x0C, CHR 0xFF],
     sin6_addr = replicate 16 NUL, sin6_scope_id = 0\<rparr>"

theorem ip_text_roundtrip_witness:
  "addr_toIpPort (\<lambda>_. []) sample_addr = Inr ''10.0.12.255:8080''"
proof -
  have fam: "sin_family sample_addr = AF_INET" by (simp add: sample_addr_def)
  have "inet_ntop4 [CHR 0x0A, CHR 0x00, CHR 0x0C, CHR 0xFF] = ''10.0.12.255''" by code_simp
  then have ip: "addr_toIp (\<lambda>_. []) sample_addr = Inr ''10.0.12.255''"
    by (simp add: addr_toIp_def toIp_def sample_addr_def store_load INET_ADDRSTRLEN_def)
  have "show_nat 8080 = ''8080''" by (simp add: show_nat.simps digit_chars)
  then have port: "show_nat (unat (toPort sample_addr)) = ''8080''"
    by (simp add: toPort_def sample_addr_def ntoh_hton)
  from ip_text_roundtrip [OF fam, of "\<lambda>_. []" "\<lambda>_. None" sample_addr] show ?thesis
    using ip port by auto
qed

end
