(* ===== verification/PpMaster.thy ===== *)
theory PpMaster
  imports Sockets LruCache
begin

section \<open>The master (\<open>master/PpMaster.cc\<close>)\<close>

text \<open>
  The master maps every slot to the id of the server that owns it, ids to addresses, and ids to slot
  sets. Clients ask it for the address of a slot's owner; the slot sets are changed a range at a time.
  The shifts of \<open>rangeSetSlots\<close> are done in 32-bit \<open>int\<close> and those of \<open>resetSlots\<close> in 64-bit unsigned
  arithmetic, with the definedness rules of C++17: a shift count outside the width, a left shift whose
  value does not fit the unsigned type, and signed overflow are undefined behaviour.
\<close>

unbundle bit_operations_syntax

record ppmaster =
  idToAddr :: "int \<rightharpoonup> inetaddress"
  idToSlots :: "int \<rightharpoonup> slots"
  slotsToId :: "int list"

definition addr_index :: "inetaddress \<Rightarrow> int \<Rightarrow> (int \<rightharpoonup> inetaddress) \<Rightarrow> inetaddress \<times> (int \<rightharpoonup> inetaddress)" where
  "addr_index raw i m =
     (case m i of Some a \<Rightarrow> (a, m)
      | None \<Rightarrow> (InetAddress_port raw 0 False False, m(i \<mapsto> InetAddress_port raw 0 False False)))"

definition master_handle_client_request ::
  "(bytes \<Rightarrow> string) \<Rightarrow> inetaddress \<Rightarrow> string \<Rightarrow> ppmaster \<Rightarrow> string res \<times> ppmaster" where
  "master_handle_client_request ntop6 raw mes s =
     (case rbind (substr 0 5 mes) stoi of
        Inl e \<Rightarrow> (Inl e, s)
      | Inr slot \<Rightarrow>
          if slot < 0 \<or> int (length (slotsToId s)) \<le> slot then (Inl UndefinedBehaviour, s)
          else let i = slotsToId s ! nat slot; (a, m) = addr_index raw i (idToAddr s)
               in (addr_toIpPort ntop6 a, s\<lparr>idToAddr := m\<rparr>))"

text \<open>\<open>int\<close> arithmetic of the host.\<close>

definition int_sub :: "int \<Rightarrow> int \<Rightarrow> int res" where
  "int_sub a b = (if fits_int (a - b) then Inr (a - b) else Inl UndefinedBehaviour)"

definition int_shl :: "int \<Rightarrow> int \<Rightarrow> int res" where
  "int_shl a k =
     (if 0 \<le> k \<and> k < 32 \<and> 0 \<le> a \<and> a * 2 ^ nat k < 2 ^ 32
      then Inr (if a * 2 ^ nat k < 2 ^ 31 then a * 2 ^ nat k else a * 2 ^ nat k - 2 ^ 32)
      else Inl UndefinedBehaviour)"

definition slots_index :: "int \<Rightarrow> (int \<rightharpoonup> slots) \<Rightarrow> slots" where
  "slots_index i m = (case m i of Some b \<Rightarrow> b | None \<Rightarrow> 0)"

text \<open>The \<open>int\<close> is converted to \<open>unsigned long long\<close> by the constructor of \<open>bitset\<close>.\<close>

definition rangeSetSlots :: "int \<Rightarrow> int \<Rightarrow> int \<Rightarrow> ppmaster \<Rightarrow> ppmaster res" where
  "rangeSetSlots srv start en s =
     rbind (int_sub en start) (\<lambda>k.
     rbind (int_shl 1 k) (\<lambda>p.
     rbind (int_sub p 1) (\<lambda>q.
     rbind (int_shl q start) (\<lambda>v.
     let msk = (ucast (of_int v :: 64 word) :: slots)
     in Inr (s\<lparr>idToSlots := (idToSlots s)(srv \<mapsto> slots_index srv (idToSlots s) OR msk)\<rparr>)))))"


subsection \<open>\<open>resetSlots\<close>\<close>

definition shl64 :: "64 word \<Rightarrow> int \<Rightarrow> 64 word res" where
  "shl64 w k = (if 0 \<le> k \<and> k < 64 then Inr (push_bit (nat k) w) else Inl UndefinedBehaviour)"

definition shr64 :: "64 word \<Rightarrow> int \<Rightarrow> 64 word res" where
  "shr64 w k = (if 0 \<le> k \<and> k < 64 then Inr (drop_bit (nat k) w) else Inl UndefinedBehaviour)"

definition to_ullong :: "slots \<Rightarrow> 64 word res" where
  "to_ullong b = (if drop_bit 64 b = 0 then Inr (ucast b) else Inl OverflowError)"

definition ctzll :: "64 word \<Rightarrow> nat" where
  "ctzll w = length (takeWhile (\<lambda>i. \<not> bit w i) [0..<64])"

text \<open>The \<open>while\<close> loop over one block; the first argument counts down \<open>block_size - count_i\<close>.\<close>

fun reset_block :: "nat \<Rightarrow> int \<Rightarrow> int \<Rightarrow> 64 word \<Rightarrow> int \<Rightarrow> int list \<times> int" where
  "reset_block 0 i n blk count = ([], count)"
| "reset_block (Suc r) i n blk count =
     (if blk = 0 then ([], count)
      else let pos = i * 64 + int (ctzll blk); blk = blk AND (blk - 1); count = count + 1
           in if count = n then ([pos], count)
              else let (ps, count) = reset_block r i n blk count in (pos # ps, count))"

text \<open>The \<open>for\<close> loop over the positions found: \<open>ret.set(pos)\<close> and the mask update.\<close>

fun reset_mark :: "int list \<Rightarrow> slots \<Rightarrow> 64 word \<Rightarrow> (slots \<times> 64 word) res" where
  "reset_mark [] ret msk = Inr (ret, msk)"
| "reset_mark (pos # ps) ret msk =
     (if pos < 0 \<or> int SLOTS_NUM \<le> pos then Inl OutOfRange
      else rbind (shl64 1 pos) (\<lambda>b. reset_mark ps (set_bit (nat pos) ret) (msk AND NOT b)))"

fun reset_loop :: "nat \<Rightarrow> int \<Rightarrow> int \<Rightarrow> int \<Rightarrow> int \<Rightarrow> slots \<Rightarrow> ppmaster \<Rightarrow> (slots \<times> ppmaster) res" where
  "reset_loop 0 i srv n count ret s = Inr (ret, s)"
| "reset_loop (Suc blocks) i srv n count ret s =
     (if \<not> count < n then Inr (ret, s)
      else
        let cur = slots_index srv (idToSlots s) in
        rbind (to_ullong cur) (\<lambda>u.
        rbind (shr64 u (i * 64)) (\<lambda>blk.
        rbind (shl64 1 64) (\<lambda>top.
        let (ps, count) = reset_block 64 i n blk count in
        rbind (reset_mark ps ret (top - 1)) (\<lambda>(ret, msk).
        rbind (shl64 msk (i * 64)) (\<lambda>sh.
        let s = s\<lparr>idToSlots := (idToSlots s)(srv \<mapsto> cur AND ucast (NOT sh))\<rparr>
        in reset_loop blocks (i + 1) srv n count ret s))))))"

definition resetSlots :: "int \<Rightarrow> int \<Rightarrow> ppmaster \<Rightarrow> (slots \<times> ppmaster) res" where
  "resetSlots srv n s = reset_loop (16384 div 64) 0 srv n 0 0 s"


subsection \<open>\<open>set_vector_bits\<close>\<close>

text \<open>The function is defined twice with the same parameters. The first definition collects the positions of
  the set bits of a block and writes to the vector at each of them.\<close>

fun bits_block :: "nat \<Rightarrow> int \<Rightarrow> 64 word \<Rightarrow> int list" where
  "bits_block 0 i blk = []"
| "bits_block (Suc r) i blk =
     (if blk = 0 then [] else (i * 64 + int (ctzll blk)) # bits_block r i (blk AND (blk - 1)))"

fun write_twos :: "int list \<Rightarrow> int list \<Rightarrow> int list res" where
  "write_twos [] vec = Inr vec"
| "write_twos (pos # ps) vec =
     (if pos < 0 \<or> int (length vec) \<le> pos then Inl UndefinedBehaviour else write_twos ps (vec[nat pos := 2]))"

fun vector_bits_loop :: "nat \<Rightarrow> int \<Rightarrow> slots \<Rightarrow> int list \<Rightarrow> int list res" where
  "vector_bits_loop 0 i reset_bits vec = Inr vec"
| "vector_bits_loop (Suc blocks) i reset_bits vec =
     rbind (to_ullong reset_bits) (\<lambda>u.
     rbind (shr64 u (i * 64)) (\<lambda>blk.
     rbind (write_twos (bits_block 64 i blk) vec) (vector_bits_loop blocks (i + 1) reset_bits)))"

definition set_vector_bits :: "slots \<Rightarrow> slots \<Rightarrow> int list \<Rightarrow> (slots \<times> int list) res" where
  "set_vector_bits bits reset_bits vec =
     rbind (vector_bits_loop (16384 div 64) 0 reset_bits vec) (\<lambda>vec. Inr (bits, vec))"

text \<open>The second walks over the 64 elements of the vector that belong to a block, and at the end makes the bit
  set anew from the vector; \<open>bitset_of\<close> is that constructor of the library.\<close>

fun mark_block :: "nat \<Rightarrow> nat \<Rightarrow> 64 word \<Rightarrow> int list \<Rightarrow> int list" where
  "mark_block 0 j block vec = vec"
| "mark_block (Suc r) j block vec =
     mark_block r (j + 1) (drop_bit 1 block) (if bit block 0 then vec[j := 2] else vec)"

fun mark_loop :: "nat \<Rightarrow> nat \<Rightarrow> slots \<Rightarrow> int list \<Rightarrow> int list res" where
  "mark_loop 0 i reset_bits vec = Inr vec"
| "mark_loop (Suc blocks) i reset_bits vec =
     rbind (to_ullong reset_bits) (\<lambda>u.
     rbind (shr64 u (int i * 64)) (\<lambda>block.
     if length vec < (i + 1) * 64 then Inl UndefinedBehaviour
     else mark_loop blocks (i + 1) reset_bits (mark_block 64 (i * 64) block vec)))"

definition set_vector_bits2 ::
  "(int list \<Rightarrow> slots res) \<Rightarrow> slots \<Rightarrow> slots \<Rightarrow> int list \<Rightarrow> (slots \<times> int list) res" where
  "set_vector_bits2 bitset_of bits reset_bits vec =
     rbind (mark_loop (16384 div 64) 0 reset_bits vec) (\<lambda>vec.
     rbind (bitset_of vec) (\<lambda>bits. Inr (bits, vec)))"


subsection \<open>Routing\<close>

lemma default_text: "addr_toIpPort ntop6 (InetAddress_port raw 0 False False) = Inr ''0.0.0.0:0''"
proof -
  let ?a = "InetAddress_port raw 0 False False"
  have "sin_family ?a = AF_INET" by (simp add: InetAddress_port_def)
  note printed = toIpPort4 [OF this]
  have "inet_ntop4 (store (hostToNetwork32 kInaddrAny)) @ CHR '':'' # show_nat (unat (networkToHost16 (hostToNetwork16 0))) = ''0.0.0.0:0''"
    by code_simp
  then show ?thesis unfolding printed by (simp add: InetAddress_port_def toPort_def)
qed

text \<open>C17: What the master answers to a request that starts with a five-digit slot, when the addresses it has registered are IPv4
  addresses. For a slot in range whose owner is registered it is the dotted address and port of that owner, and the lookup changes
  nothing. If the owner is not registered, the answer is \<open>0.0.0.0:0\<close> and the lookup enters a default address under the owner's id, although
  the handler holds its lock only in shared mode. A slot out of range is undefined behaviour.\<close>

theorem master_routes:
  assumes "slot < 100000" and "\<forall>i a. idToAddr s i = Some a \<longrightarrow> sin_family a = AF_INET"
  shows "master_handle_client_request ntop6 raw (fmt_0d 5 (int slot) @ rest) s =
    (if length (slotsToId s) \<le> slot then (Inl UndefinedBehaviour, s)
     else case idToAddr s (slotsToId s ! slot) of
         Some a \<Rightarrow> (Inr (inet_ntop4 (store (sin_addr a)) @ CHR '':'' # show_nat (unat (toPort a))), s)
       | None \<Rightarrow> (Inr ''0.0.0.0:0'', s\<lparr>idToAddr := (idToAddr s)(slotsToId s ! slot \<mapsto> InetAddress_port raw 0 False False)\<rparr>))"
proof -
  have "length (fmt_0d 5 (int slot)) = 5" "stoi (fmt_0d 5 (int slot)) = Inr (int slot)"
    using length_fmt_0d [of slot 5] stoi_pad0 [of slot 5] assms(1) by simp_all
  then show ?thesis
    using assms(2) toIpPort4 default_text
    by (auto simp: master_handle_client_request_def addr_index_def Let_def split: option.splits)
qed

definition sample_master :: ppmaster where
  "sample_master = \<lparr>idToAddr = [7 \<mapsto> sample_addr], idToSlots = [7 \<mapsto> 1], slotsToId = [7, 7, 8]\<rparr>"

theorem master_routes_witness:
  "master_handle_client_request (\<lambda>_. []) sample_addr ''00001GETk'' sample_master =
    (Inr (inet_ntop4 (store (sin_addr sample_addr)) @ CHR '':'' # show_nat (unat (toPort sample_addr))), sample_master) \<and>
   fst (master_handle_client_request (\<lambda>_. []) sample_addr ''00002GETk'' sample_master) = Inr ''0.0.0.0:0''"
proof -
  have "fmt_0d 5 (int 1) = ''00001''" "fmt_0d 5 (int 2) = ''00002''" by code_simp+
  moreover have "\<forall>i a. idToAddr sample_master i = Some a \<longrightarrow> sin_family a = AF_INET"
    by (simp add: sample_master_def sample_addr_def)
  ultimately show ?thesis
    using master_routes [of 1 sample_master "\<lambda>_. []" sample_addr "''GETk''"] master_routes [of 2 sample_master "\<lambda>_. []" sample_addr "''GETk''"]
    by (simp add: sample_master_def)
qed


subsection \<open>Slot ranges\<close>

lemma range_word:
  "bit (of_int ((2 ^ k - 1) * 2 ^ m) :: 64 word) i \<longleftrightarrow> m \<le> i \<and> i < m + k \<and> i < 64"
proof -
  have "(2 ^ k - 1) * 2 ^ m = push_bit m (mask k :: int)"
    by (simp add: push_bit_eq_mult mask_eq_exp_minus_1)
  then have "bit (of_int ((2 ^ k - 1) * 2 ^ m) :: 64 word) i \<longleftrightarrow> bit (push_bit m (mask k :: int)) i \<and> i < 64"
    by (simp add: bit_of_int_iff conj_commute)
  then show ?thesis by (auto simp: bit_push_bit_iff bit_mask_iff)
qed

lemma slots_bit: "bit (ucast (w :: 64 word) :: slots) i \<longleftrightarrow> bit w i"
  by (auto simp: bit_ucast_iff dest: bit_imp_le_length)

lemma pow_diff_fits: "k \<le> 30 \<Longrightarrow> fits_int (2 ^ k - 1)"
proof -
  assume "k \<le> 30"
  then have "(2::int) ^ k \<le> 2 ^ 30" by (intro power_increasing) auto
  moreover have "- (2147483648::int) < 2 ^ k" by (rule less_trans [of _ 0]) simp_all
  ultimately show ?thesis unfolding fits_int_def int_min_def int_max_def by simp
qed

lemma range_mask_ok:
  assumes "0 \<le> start" "start \<le> en" "en \<le> 31" "en - start \<le> 30"
  shows "rangeSetSlots srv start en s = Inr (s\<lparr>idToSlots := (idToSlots s)(srv \<mapsto>
    slots_index srv (idToSlots s) OR ucast (of_int ((2 ^ nat (en - start) - 1) * 2 ^ nat start) :: 64 word))\<rparr>)"
proof -
  define k where "k = nat (en - start)"
  have k: "en - start = int k" "k \<le> 30" using assms by (auto simp: k_def)
  have "nat start + k \<le> 31" using assms by (simp add: k_def)
  then have "(2::int) ^ (nat start + k) \<le> 2 ^ 31" by (intro power_increasing) auto
  moreover have "(2 ^ k - 1) * 2 ^ nat start < (2::int) ^ (nat start + k)"
    by (simp add: power_add algebra_simps)
  ultimately have v: "(2 ^ k - 1) * 2 ^ nat start < (2::int) ^ 31" by linarith
  have "(2::int) ^ k \<le> 2 ^ 30" using k(2) by (intro power_increasing) auto
  then have p: "int_shl 1 (int k) = Inr (2 ^ k)" using k(2) by (simp add: int_shl_def)
  have q: "int_shl (2 ^ k - 1) start = Inr ((2 ^ k - 1) * 2 ^ nat start)"
    using v assms by (simp add: int_shl_def)
  have "int_sub en start = Inr (int k)"
    using k assms by (simp add: int_sub_def fits_int_def int_min_def int_max_def)
  then show ?thesis
    using p q pow_diff_fits [OF k(2)] by (simp add: rangeSetSlots_def int_sub_def k_def)
qed

lemma int_shl_Inl: "int_shl a k = Inl e \<Longrightarrow> e = UndefinedBehaviour"
  by (simp add: int_shl_def split: if_splits)

lemma range_mask_undefined:
  assumes "0 \<le> start" "start < en" "en \<le> 2 ^ 31 - 1" "32 < en \<or> 30 < en - start"
  shows "rangeSetSlots srv start en s = Inl UndefinedBehaviour"
proof -
  have sub: "int_sub en start = Inr (en - start)"
    using assms by (simp add: int_sub_def fits_int_def int_min_def int_max_def)
  consider "31 < en - start" | "en - start = 31" | "en - start \<le> 30" "32 < en" using assms by linarith
  then show ?thesis
  proof cases
    case 1
    then show ?thesis by (simp add: rangeSetSlots_def sub int_shl_def [of 1])
  next
    case 2
    then have "int_shl 1 (en - start) = Inr (- (2 ^ 31))" by (simp add: int_shl_def)
    then show ?thesis by (simp add: rangeSetSlots_def sub int_sub_def fits_int_def int_min_def)
  next
    case 3
    define k where "k = nat (en - start)"
    have k: "en - start = int k" "k \<le> 30" "0 < k" using assms 3 by (auto simp: k_def)
    have le: "(2::int) ^ k \<le> 2 ^ 30" using k(2) by (intro power_increasing) auto
    then have p: "int_shl 1 (int k) = Inr (2 ^ k)" using k(2) by (simp add: int_shl_def)
    have "2 ^ k \<ge> (2::int) ^ 1" using k(3) by (intro power_increasing) auto
    then have half: "(2::int) ^ k \<le> 2 * (2 ^ k - 1)" by simp
    have "int_shl (2 ^ k - 1) start = Inl UndefinedBehaviour"
    proof (cases "start < 32")
      case True
      have "33 \<le> k + nat start" using 3 k(1) assms(1) by linarith
      then have "(2::int) ^ 33 \<le> 2 ^ (k + nat start)" by (intro power_increasing) auto
      also have "\<dots> = 2 ^ k * 2 ^ nat start" by (rule power_add)
      also have "\<dots> \<le> 2 * (2 ^ k - 1) * 2 ^ nat start" using half by (intro mult_right_mono) auto
      finally have "(2::int) ^ 33 \<le> 2 * ((2 ^ k - 1) * 2 ^ nat start)" by (simp only: mult.assoc)
      then have "2 * (2::int) ^ 32 \<le> 2 * ((2 ^ k - 1) * 2 ^ nat start)" by simp
      then have "(2::int) ^ 32 \<le> (2 ^ k - 1) * 2 ^ nat start" by (simp only: mult_le_cancel_left_pos zero_less_numeral)
      then show ?thesis by (simp add: int_shl_def)
    qed (simp add: int_shl_def)
    then show ?thesis
      using p pow_diff_fits [OF k(2)] by (simp add: rangeSetSlots_def sub k(1) int_sub_def)
  qed
qed

text \<open>What \<open>rangeSetSlots\<close> is good for. For a non-empty range inside the first 31 slots and of at
  most 30 slots, exactly the slots \<open>start .. end - 1\<close> are added to the server's set; for every range that
  is longer or ends after slot 32, the 32-bit shifts are undefined, so most of the 16384 slots can never be
  assigned.\<close>

theorem rangeSetSlots_range:
  assumes "0 \<le> start" and "start < en" and "en \<le> int SLOTS_NUM" and "en \<noteq> 32"
  shows "case rangeSetSlots srv start en s of
      Inl e \<Rightarrow> e = UndefinedBehaviour \<and> (32 < en \<or> 30 < en - start)
    | Inr s' \<Rightarrow> en \<le> 31 \<and> en - start \<le> 30 \<and>
        (\<exists>b. idToSlots s' = (idToSlots s)(srv \<mapsto> b) \<and>
          (\<forall>i. bit b i \<longleftrightarrow> bit (slots_index srv (idToSlots s)) i \<or> start \<le> int i \<and> int i < en))"
proof (cases "en \<le> 31 \<and> en - start \<le> 30")
  case True
  let ?b = "slots_index srv (idToSlots s) OR ucast (of_int ((2 ^ nat (en - start) - 1) * 2 ^ nat start) :: 64 word)"
  have "bit ?b i \<longleftrightarrow> bit (slots_index srv (idToSlots s)) i \<or> start \<le> int i \<and> int i < en" for i
    unfolding bit_or_iff slots_bit range_word using assms(1,2) True by auto
  with True assms(1,2) show ?thesis
    using range_mask_ok [of start en srv s] by (simp del: bit_or_iff of_int_mult of_int_diff) blast
next
  case False
  with assms have "32 < en \<or> 30 < en - start" by linarith
  with assms range_mask_undefined [of start en srv s] show ?thesis by (simp add: SLOTS_NUM_def)
qed

theorem rangeSetSlots_range_witness:
  "(\<exists>s'. rangeSetSlots 7 3 5 sample_master = Inr s') \<and>
   rangeSetSlots 7 0 5461 sample_master = Inl UndefinedBehaviour"
  using rangeSetSlots_range [where start = 3 and en = 5 and srv = 7 and s = sample_master]
    rangeSetSlots_range [where start = 0 and en = 5461 and srv = 7 and s = sample_master]
  by (auto simp: SLOTS_NUM_def split: sum.splits)

text \<open>The second block of either \<open>set_vector_bits\<close> shifts a 64-bit word by 64.\<close>

lemma write_twos_Inl: "write_twos ps vec = Inl e \<Longrightarrow> e = UndefinedBehaviour"
  by (induction ps vec rule: write_twos.induct) (auto split: if_splits)

lemma vector_bits_loop_fails:
  "vector_bits_loop (Suc (Suc k)) 0 r vec = Inl (if drop_bit 64 r = 0 then UndefinedBehaviour else OverflowError)"
  by (cases "write_twos (bits_block 64 0 (ucast r)) vec") (auto simp: to_ullong_def shr64_def dest: write_twos_Inl)

lemma set_vector_bits_fails:
  "set_vector_bits bits r vec = Inl (if drop_bit 64 r = 0 then UndefinedBehaviour else OverflowError)"
  using vector_bits_loop_fails [of 254 r vec] by (simp add: set_vector_bits_def)

lemma mark_loop_fails:
  "mark_loop (Suc (Suc k)) 0 r vec = Inl (if drop_bit 64 r = 0 then UndefinedBehaviour else OverflowError)"
  by (simp add: to_ullong_def shr64_def)

lemma set_vector_bits2_fails:
  "set_vector_bits2 bitset_of bits r vec = Inl (if drop_bit 64 r = 0 then UndefinedBehaviour else OverflowError)"
  using mark_loop_fails [of 254 r vec] by (simp add: set_vector_bits2_def)

text \<open>C39: The slots of a server cannot be given away: \<open>resetSlots\<close>, asked for at least one slot, fails in its
  first block, with \<open>overflow_error\<close> when the server owns a slot above 63 and otherwise in the shift of a
  64-bit one by 64; both definitions of \<open>set_vector_bits\<close>, which should enter the reset slots into the
  table of owners, fail on every input in the same two ways.\<close>

theorem resetSlots_fails:
  assumes "0 < n"
  shows "resetSlots srv n s =
      Inl (if drop_bit 64 (slots_index srv (idToSlots s)) = 0 then UndefinedBehaviour else OverflowError) \<and>
    set_vector_bits bits r vec = Inl (if drop_bit 64 r = 0 then UndefinedBehaviour else OverflowError) \<and>
    set_vector_bits2 bitset_of bits r vec = Inl (if drop_bit 64 r = 0 then UndefinedBehaviour else OverflowError)"
proof -
  have blocks: "(16384 :: nat) div 64 = Suc 255" by simp
  from assms have "resetSlots srv n s =
      Inl (if drop_bit 64 (slots_index srv (idToSlots s)) = 0 then UndefinedBehaviour else OverflowError)"
    unfolding resetSlots_def blocks
    by (simp only: reset_loop.simps) (simp add: to_ullong_def shr64_def shl64_def Let_def)
  then show ?thesis using set_vector_bits_fails set_vector_bits2_fails by blast
qed

theorem resetSlots_fails_witness: "\<exists>e. resetSlots 7 1 sample_master = Inl e"
  using resetSlots_fails [of 1 7 sample_master] by auto

end
