(* ===== verification/RWLock.thy ===== *)
theory RWLock
  imports Prelude
begin

section \<open>The master's reader-writer lock (\<open>master/RWLock.h\<close>)\<close>

text \<open>
  \<open>RWLock\<close> wraps \<open>std::shared_mutex\<close> with a mutex \<open>m\<close> and a flag that makes new readers wait while a
  writer is at work. Threads interleave at the points where a call can block: acquiring \<open>m\<close>, waiting on
  \<open>cv_readers\<close>, and acquiring the shared mutex. A thread blocked in \<open>shared_mutex::lock\<close> still holds
  \<open>m\<close>, since the \<open>unique_lock\<close> is released when the function returns. A thread waiting on the condition
  variable may be woken at any time, by \<open>notify_all\<close> or spuriously, and then looks at the flag again.
\<close>

type_synonym tid = nat

datatype rw_pc = Idle
  | LockW      \<comment> \<open>in \<open>lock()\<close>, before \<open>m\<close>\<close>
  | LockW_sm   \<comment> \<open>in \<open>lock()\<close>, holds \<open>m\<close>, before the shared mutex\<close>
  | Writing
  | UnlockW    \<comment> \<open>in \<open>unlock()\<close>, before \<open>m\<close>\<close>
  | LockR      \<comment> \<open>in \<open>lock_shared()\<close>, before \<open>m\<close>\<close>
  | WaitR      \<comment> \<open>waiting on \<open>cv_readers\<close>\<close>
  | LockR_sm   \<comment> \<open>in \<open>lock_shared()\<close>, holds \<open>m\<close>, before the shared mutex\<close>
  | Reading

record rwlock =
  mtx :: "tid option"
  has_writer :: bool
  sm_writer :: "tid option"
  sm_readers :: "tid set"
  rw_pcs :: "tid \<Rightarrow> rw_pc"

definition rw_init :: rwlock where
  "rw_init = \<lparr>mtx = None, has_writer = False, sm_writer = None, sm_readers = {}, rw_pcs = (\<lambda>_. Idle)\<rparr>"

definition goto :: "tid \<Rightarrow> rw_pc \<Rightarrow> rwlock \<Rightarrow> rwlock" where
  "goto t p s = s\<lparr>rw_pcs := (rw_pcs s)(t := p)\<rparr>"

inductive rw_step :: "rwlock \<Rightarrow> rwlock \<Rightarrow> bool" where
  lock_call: "rw_pcs s t = Idle \<Longrightarrow> rw_step s (goto t LockW s)"
| lock_m: "rw_pcs s t = LockW \<Longrightarrow> mtx s = None \<Longrightarrow>
    rw_step s (goto t LockW_sm (s\<lparr>mtx := Some t, has_writer := True\<rparr>))"
| lock_sm: "rw_pcs s t = LockW_sm \<Longrightarrow> sm_writer s = None \<Longrightarrow> sm_readers s = {} \<Longrightarrow>
    rw_step s (goto t Writing (s\<lparr>sm_writer := Some t, mtx := None\<rparr>))"
| unlock_call: "rw_pcs s t = Writing \<Longrightarrow> rw_step s (goto t UnlockW s)"
| unlock_m: "rw_pcs s t = UnlockW \<Longrightarrow> mtx s = None \<Longrightarrow>
    rw_step s (goto t Idle (s\<lparr>has_writer := False, sm_writer := None\<rparr>))"
| lock_shared_call: "rw_pcs s t = Idle \<Longrightarrow> rw_step s (goto t LockR s)"
| lock_shared_wait: "rw_pcs s t \<in> {LockR, WaitR} \<Longrightarrow> mtx s = None \<Longrightarrow> has_writer s \<Longrightarrow>
    rw_step s (goto t WaitR s)"
| lock_shared_m: "rw_pcs s t \<in> {LockR, WaitR} \<Longrightarrow> mtx s = None \<Longrightarrow> \<not> has_writer s \<Longrightarrow>
    rw_step s (goto t LockR_sm (s\<lparr>mtx := Some t\<rparr>))"
| lock_shared_sm: "rw_pcs s t = LockR_sm \<Longrightarrow> sm_writer s = None \<Longrightarrow>
    rw_step s (goto t Reading (s\<lparr>sm_readers := insert t (sm_readers s), mtx := None\<rparr>))"
| unlock_shared: "rw_pcs s t = Reading \<Longrightarrow>
    rw_step s (goto t Idle (s\<lparr>sm_readers := sm_readers s - {t}\<rparr>))"

inductive rw_steps :: "rwlock \<Rightarrow> rwlock \<Rightarrow> bool" where
  rw_refl: "rw_steps s s"
| rw_more: "rw_steps s s' \<Longrightarrow> rw_step s' s'' \<Longrightarrow> rw_steps s s''"

lemmas rw_step_intros = rw_step.intros

definition rw_inv :: "rwlock \<Rightarrow> bool" where
  "rw_inv s \<longleftrightarrow>
     (\<forall>t. sm_writer s = Some t \<longleftrightarrow> rw_pcs s t \<in> {Writing, UnlockW}) \<and>
     (\<forall>t. t \<in> sm_readers s \<longleftrightarrow> rw_pcs s t = Reading) \<and>
     (\<forall>t. mtx s = Some t \<longleftrightarrow> rw_pcs s t \<in> {LockW_sm, LockR_sm}) \<and>
     (sm_writer s \<noteq> None \<longrightarrow> sm_readers s = {})"

lemma rw_inv_init: "rw_inv rw_init"
  by (simp add: rw_inv_def rw_init_def)

lemma rw_inv_step: "rw_step s s' \<Longrightarrow> rw_inv s \<Longrightarrow> rw_inv s'"
proof (induction rule: rw_step.induct)
  case (lock_sm s t)
  then show ?case unfolding rw_inv_def goto_def by (simp, metis rw_pc.distinct option.inject)
next
  case (unlock_m s t)
  then show ?case unfolding rw_inv_def goto_def by (simp, metis rw_pc.distinct option.inject)
next
  case (lock_shared_sm s t)
  then show ?case unfolding rw_inv_def goto_def by (simp, metis rw_pc.distinct option.inject)
qed (force simp: rw_inv_def goto_def)+

lemma rw_inv_steps: "rw_steps s s' \<Longrightarrow> rw_inv s \<Longrightarrow> rw_inv s'"
  by (induction rule: rw_steps.induct) (auto intro: rw_inv_step)

lemma rw_reachable_inv: "rw_steps rw_init s \<Longrightarrow> rw_inv s"
  using rw_inv_steps rw_inv_init by blast

text \<open>Mutual exclusion: in every state that any number of threads can reach by calling \<open>lock\<close>,
  \<open>unlock\<close>, \<open>lock_shared\<close> and \<open>unlock_shared\<close> in any interleaving, while one thread is writing no other
  thread is writing or reading.\<close>

theorem rwlock_exclusion:
  assumes "rw_steps rw_init s" and "rw_pcs s t = Writing" and "u \<noteq> t"
  shows "rw_pcs s u \<notin> {Writing, Reading}"
proof -
  have inv: "rw_inv s" using assms(1) by (rule rw_reachable_inv)
  with assms(2) have "sm_writer s = Some t" by (simp add: rw_inv_def)
  with inv assms(3) show ?thesis by (auto simp: rw_inv_def)
qed

text \<open>A state with one writer at work, and the one in which a second writer has called \<open>lock\<close>.\<close>

definition one_writer :: rwlock where
  "one_writer = goto 0 Writing (goto 0 LockW_sm (goto 0 LockW rw_init)\<lparr>mtx := None, has_writer := True, sm_writer := Some 0\<rparr>)"

definition two_writers :: rwlock where
  "two_writers = goto 1 LockW_sm ((goto 1 LockW one_writer)\<lparr>mtx := Some 1, has_writer := True\<rparr>)"

lemma one_writer_reachable: "rw_steps rw_init one_writer"
proof -
  let ?a = "goto 0 LockW rw_init"
  let ?b = "goto 0 LockW_sm (?a\<lparr>mtx := Some 0, has_writer := True\<rparr>)"
  have a: "rw_step rw_init ?a" by (rule lock_call) (simp add: rw_init_def)
  have b: "rw_step ?a ?b" by (rule lock_m) (simp_all add: rw_init_def goto_def)
  have "rw_step ?b (goto 0 Writing (?b\<lparr>sm_writer := Some 0, mtx := None\<rparr>))"
    by (rule lock_sm) (simp_all add: rw_init_def goto_def)
  moreover have "goto 0 Writing (?b\<lparr>sm_writer := Some 0, mtx := None\<rparr>) = one_writer"
    by (simp add: one_writer_def goto_def rw_init_def)
  ultimately show ?thesis
    using rw_more [OF rw_more [OF rw_more [OF rw_refl a] b]] by simp
qed

lemma two_writers_reachable: "rw_steps rw_init two_writers"
proof -
  let ?a = "goto 1 LockW one_writer"
  have a: "rw_step one_writer ?a" by (rule lock_call) (simp add: one_writer_def goto_def rw_init_def)
  have b: "rw_step ?a two_writers"
    unfolding two_writers_def by (rule lock_m) (simp_all add: one_writer_def goto_def rw_init_def)
  show ?thesis by (rule rw_more [OF rw_more [OF one_writer_reachable a] b])
qed

theorem rwlock_exclusion_witness: "rw_pcs one_writer 1 \<notin> {Writing, Reading}"
  by (rule rwlock_exclusion [OF one_writer_reachable, of 0]) (simp_all add: one_writer_def goto_def)

lemma writer_deadlock_step:
  assumes "rw_step s s'" and "rw_inv s" and "rw_pcs s t \<in> {Writing, UnlockW}" and "rw_pcs s u = LockW_sm"
  shows "rw_pcs s' t \<in> {Writing, UnlockW} \<and> rw_pcs s' u = LockW_sm"
proof -
  have "sm_writer s = Some t" "mtx s = Some u" using assms(2-4) by (auto simp: rw_inv_def)
  with assms(1,3,4) show ?thesis
    by (cases rule: rw_step.cases) (auto simp: goto_def)
qed

text \<open>C40: Two writers deadlock. \<open>lock\<close> keeps the inner mutex while it waits for the shared mutex, and
  \<open>unlock\<close> needs that mutex: once a second writer is waiting inside \<open>lock\<close> while the first one holds the
  lock, the first never gets out of \<open>unlock\<close> and the second never gets the lock, whatever any thread does
  from then on.\<close>

theorem two_writers_deadlock:
  assumes "rw_steps rw_init s" and "rw_pcs s t \<in> {Writing, UnlockW}" and "rw_pcs s u = LockW_sm"
    and "rw_steps s s'"
  shows "rw_pcs s' t \<in> {Writing, UnlockW} \<and> rw_pcs s' u = LockW_sm"
  using assms(4,1,2,3)
proof (induction rule: rw_steps.induct)
  case (rw_more s s' s'')
  then have "rw_inv s'" using rw_inv_steps rw_reachable_inv by blast
  with rw_more show ?case using writer_deadlock_step by blast
qed simp

theorem two_writers_deadlock_witness:
  "rw_steps rw_init two_writers \<and> rw_pcs (goto 0 UnlockW two_writers) 1 = LockW_sm"
proof -
  have step: "rw_step two_writers (goto 0 UnlockW two_writers)"
    by (rule unlock_call) (simp add: two_writers_def one_writer_def goto_def)
  have "rw_pcs (goto 0 UnlockW two_writers) 0 \<in> {Writing, UnlockW} \<and> rw_pcs (goto 0 UnlockW two_writers) 1 = LockW_sm"
    by (rule two_writers_deadlock [OF two_writers_reachable _ _ rw_more [OF rw_refl step]])
      (simp_all add: two_writers_def one_writer_def goto_def)
  with two_writers_reachable show ?thesis by blast
qed

end
