(* ===== verification/Channel.thy ===== *)
theory Channel
  imports Text
begin

section \<open>Channels (\<open>net/Channel.cc\<close>, \<open>net/Channel.h\<close>)\<close>

text \<open>
  A channel couples a descriptor with the events it is interested in and with the callbacks of its
  owner. Channels are shared by pointer between their owner and the poller, so the channels of a loop
  are a store from pointers (\<open>cid\<close>) to records. The owner's callbacks are names here: what
  \<open>handleEvent\<close> does is the sequence of callbacks it invokes.
\<close>

type_synonym cid = nat
type_synonym events = "32 word"

unbundle bit_operations_syntax

definition POLLIN :: events where "POLLIN = 0x001"
definition POLLPRI :: events where "POLLPRI = 0x002"
definition POLLOUT :: events where "POLLOUT = 0x004"
definition POLLERR :: events where "POLLERR = 0x008"
definition POLLHUP :: events where "POLLHUP = 0x010"
definition POLLNVAL :: events where "POLLNVAL = 0x020"
definition POLLRDHUP :: events where "POLLRDHUP = 0x2000"

lemmas poll_bits = POLLIN_def POLLPRI_def POLLOUT_def POLLERR_def POLLHUP_def POLLNVAL_def POLLRDHUP_def

definition kNoneEvent :: events where "kNoneEvent = 0"
definition kReadEvent :: events where "kReadEvent = POLLIN OR POLLPRI"
definition kWriteEvent :: events where "kWriteEvent = POLLOUT"

datatype callback = ReadCallback | WriteCallback | CloseCallback | ErrorCallback

record channel =
  ch_fd :: int
  ch_events :: events
  ch_revents :: events
  ch_index :: int
  logHup :: bool
  tied :: bool
  eventHandling :: bool
  addedToLoop :: bool
  callbacks :: "callback list"   \<comment> \<open>the callbacks that are set\<close>

definition Channel_new :: "int \<Rightarrow> channel" where
  "Channel_new fd = \<lparr>ch_fd = fd, ch_events = 0, ch_revents = 0, ch_index = -1, logHup = True,
     tied = False, eventHandling = False, addedToLoop = False, callbacks = []\<rparr>"

definition tie :: "channel \<Rightarrow> channel" where
  "tie c = c\<lparr>tied := True\<rparr>"

definition set_revents :: "events \<Rightarrow> channel \<Rightarrow> channel" where
  "set_revents r c = c\<lparr>ch_revents := r\<rparr>"

definition isNoneEvent :: "channel \<Rightarrow> bool" where
  "isNoneEvent c \<longleftrightarrow> ch_events c = kNoneEvent"

definition isWriting :: "channel \<Rightarrow> bool" where
  "isWriting c \<longleftrightarrow> ch_events c AND kWriteEvent \<noteq> 0"

definition isReading :: "channel \<Rightarrow> bool" where
  "isReading c \<longleftrightarrow> ch_events c AND kReadEvent \<noteq> 0"

text \<open>The five interest changes; each is followed by \<open>update()\<close>, modelled with the pollers.\<close>

datatype interest = EnableReading | DisableReading | EnableWriting | DisableWriting | DisableAll

fun change_events :: "interest \<Rightarrow> events \<Rightarrow> events" where
  "change_events EnableReading e = e OR kReadEvent"
| "change_events DisableReading e = e AND NOT kReadEvent"
| "change_events EnableWriting e = e OR kWriteEvent"
| "change_events DisableWriting e = e AND NOT kWriteEvent"
| "change_events DisableAll e = kNoneEvent"

definition has_ev :: "events \<Rightarrow> events \<Rightarrow> bool" where
  "has_ev r m \<longleftrightarrow> r AND m \<noteq> 0"

lemma has_ev_or: "has_ev r (a OR b) \<longleftrightarrow> has_ev r a \<or> has_ev r b"
  by (auto simp: has_ev_def bit_eq_iff bit_simps)

definition fire :: "callback \<Rightarrow> channel \<Rightarrow> callback list" where
  "fire cb c = (if cb \<in> set (callbacks c) then [cb] else [])"

definition handleEventWithGuard :: "channel \<Rightarrow> callback list" where
  "handleEventWithGuard c =
     (let r = ch_revents c in
      (if has_ev r POLLHUP \<and> \<not> has_ev r POLLIN then fire CloseCallback c else []) @
      (if has_ev r (POLLERR OR POLLNVAL) then fire ErrorCallback c else []) @
      (if has_ev r (POLLIN OR POLLPRI OR POLLRDHUP) then fire ReadCallback c else []) @
      (if has_ev r POLLOUT then fire WriteCallback c else []))"

text \<open>\<open>alive\<close> tells whether the owner a channel is tied to still exists (\<open>tie_.lock()\<close>).\<close>

definition handleEvent :: "bool \<Rightarrow> channel \<Rightarrow> callback list" where
  "handleEvent alive c =
     (if tied c then (if alive then handleEventWithGuard c else []) else handleEventWithGuard c)"

definition eventsToString :: "int \<Rightarrow> events \<Rightarrow> string" where
  "eventsToString fd ev =
     show_int fd @ '': '' @
     (if has_ev ev POLLIN then ''IN '' else []) @ (if has_ev ev POLLPRI then ''PRI '' else []) @
     (if has_ev ev POLLOUT then ''OUT '' else []) @ (if has_ev ev POLLHUP then ''HUP '' else []) @
     (if has_ev ev POLLRDHUP then ''RDHUP '' else []) @ (if has_ev ev POLLERR then ''ERR '' else []) @
     (if has_ev ev POLLNVAL then ''NVAL '' else [])"

text \<open>The masks a channel can have: any combination of reading and writing.\<close>

definition ev_masks :: "events list" where
  "ev_masks = [0, 3, 4, 7]"

lemma change_events_masks: "e \<in> set ev_masks \<Longrightarrow> change_events i e \<in> set ev_masks"
  by (cases i) (auto simp: ev_masks_def kReadEvent_def kWriteEvent_def kNoneEvent_def poll_bits)

lemma change_events_effect:
  assumes "e \<in> set ev_masks"
  shows "change_events i e AND kReadEvent \<noteq> 0 \<longleftrightarrow>
      (case i of EnableReading \<Rightarrow> True | DisableReading \<Rightarrow> False | DisableAll \<Rightarrow> False
       | _ \<Rightarrow> e AND kReadEvent \<noteq> 0)"
    and "change_events i e AND kWriteEvent \<noteq> 0 \<longleftrightarrow>
      (case i of EnableWriting \<Rightarrow> True | DisableWriting \<Rightarrow> False | DisableAll \<Rightarrow> False
       | _ \<Rightarrow> e AND kWriteEvent \<noteq> 0)"
  using assms
  by (cases i; auto simp: ev_masks_def kReadEvent_def kWriteEvent_def kNoneEvent_def poll_bits)+

text \<open>A channel whose owner is gone is never called back, and without error conditions the callbacks
  are exactly those of the requested directions.\<close>

lemma handleEvent_dead [simp]: "tied c \<Longrightarrow> handleEvent False c = []"
  by (simp add: handleEvent_def)

lemma handleEvent_order:
  "handleEvent alive c = filter (\<lambda>cb. cb \<in> set (handleEvent alive c)) [CloseCallback, ErrorCallback, ReadCallback, WriteCallback]"
  by (simp add: handleEvent_def handleEventWithGuard_def fire_def Let_def)

end
