(* ===== verification/Poller.thy ===== *)
theory Poller
  imports Channel
begin

section \<open>The pollers (\<open>net/Poller.cc\<close>, \<open>net/poller/EPollPoller.cc\<close>, \<open>net/poller/PollPoller.cc\<close>)\<close>

text \<open>
  A poller keeps a map from descriptors to channels and tells the kernel which events to watch. The
  state an operation acts on is the loop's channel store together with the poller. The interest list of
  an epoll instance follows \<open>epoll_ctl(2)\<close>: adding a present descriptor and changing or deleting an
  absent one fail. \<open>poll(2)\<close> ignores the entries with a negative descriptor. What both pollers promise
  to a channel is the locale \<open>poller\<close>; both are instances.
\<close>

type_synonym chstore = "cid \<Rightarrow> channel"
type_synonym 'p pstate = "chstore \<times> 'p"

unbundle bit_operations_syntax

definition set_index :: "cid \<Rightarrow> int \<Rightarrow> chstore \<Rightarrow> chstore" where
  "set_index c i st = st(c := (st c)\<lparr>ch_index := i\<rparr>)"

lemma set_index_simps [simp]:
  "ch_fd (set_index c i st d) = ch_fd (st d)"
  "ch_events (set_index c i st d) = ch_events (st d)"
  "ch_index (set_index c i st d) = (if d = c then i else ch_index (st d))"
  by (simp_all add: set_index_def)

definition same_but_index :: "chstore \<Rightarrow> chstore \<Rightarrow> bool" where
  "same_but_index st st' \<longleftrightarrow> (\<forall>c. \<exists>i. st' c = (st c)\<lparr>ch_index := i\<rparr>)"

lemma channel_same_index: "(c :: channel) = c\<lparr>ch_index := ch_index c\<rparr>"
  by simp

lemma same_but_index_refl [simp]: "same_but_index st st"
  unfolding same_but_index_def using channel_same_index by blast

lemma same_but_index_set [simp]: "same_but_index st (set_index c i st)"
  unfolding same_but_index_def set_index_def by (metis channel_same_index fun_upd_apply)

lemma same_but_indexD:
  assumes "same_but_index st st'"
  shows "ch_fd (st' c) = ch_fd (st c)" and "ch_events (st' c) = ch_events (st c)"
proof -
  obtain i where "st' c = (st c)\<lparr>ch_index := i\<rparr>" using assms unfolding same_but_index_def by blast
  then show "ch_fd (st' c) = ch_fd (st c)" and "ch_events (st' c) = ch_events (st c)" by simp_all
qed


subsection \<open>\<open>EPollPoller\<close>\<close>

definition kNew :: int where "kNew = -1"
definition kAdded :: int where "kAdded = 1"
definition kDeleted :: int where "kDeleted = 2"
definition kInitEventListSize :: nat where "kInitEventListSize = 16"

lemmas k_defs = kNew_def kAdded_def kDeleted_def

datatype epoll_op = EPOLL_CTL_ADD | EPOLL_CTL_MOD | EPOLL_CTL_DEL

fun operationToString :: "epoll_op \<Rightarrow> string" where
  "operationToString EPOLL_CTL_ADD = ''ADD''"
| "operationToString EPOLL_CTL_DEL = ''DEL''"
| "operationToString EPOLL_CTL_MOD = ''MOD''"

record epollpoller =
  ep_channels :: "int \<rightharpoonup> cid"
  ep_interest :: "int \<rightharpoonup> events \<times> cid"   \<comment> \<open>the kernel's interest list\<close>
  ep_size :: nat                          \<comment> \<open>\<open>events_.size()\<close>\<close>

definition EPollPoller_new :: epollpoller where
  "EPollPoller_new = \<lparr>ep_channels = Map.empty, ep_interest = Map.empty, ep_size = kInitEventListSize\<rparr>"

fun epoll_ctl :: "epoll_op \<Rightarrow> int \<Rightarrow> events \<times> cid \<Rightarrow> (int \<rightharpoonup> events \<times> cid) \<Rightarrow> (int \<rightharpoonup> events \<times> cid) option" where
  "epoll_ctl EPOLL_CTL_ADD fd ev m = (if m fd = None then Some (m(fd \<mapsto> ev)) else None)"
| "epoll_ctl EPOLL_CTL_MOD fd ev m = (if m fd = None then None else Some (m(fd \<mapsto> ev)))"
| "epoll_ctl EPOLL_CTL_DEL fd ev m = (if m fd = None then None else Some (m(fd := None)))"

definition ep_update :: "epoll_op \<Rightarrow> cid \<Rightarrow> epollpoller pstate \<Rightarrow> epollpoller pstate res" where
  "ep_update operation c s =
     (let (st, p) = s in
      case epoll_ctl operation (ch_fd (st c)) (ch_events (st c), c) (ep_interest p) of
        Some m \<Rightarrow> Inr (st, p\<lparr>ep_interest := m\<rparr>)
      | None \<Rightarrow> if operation = EPOLL_CTL_DEL then Inr s else Inl Abort)"

definition ep_updateChannel :: "cid \<Rightarrow> epollpoller pstate \<Rightarrow> epollpoller pstate res" where
  "ep_updateChannel c s =
     (let (st, p) = s; index = ch_index (st c); fd = ch_fd (st c) in
      if index = kNew \<or> index = kDeleted
      then rbind (if index = kNew
                  then cassert (ep_channels p fd = None) (Inr (p\<lparr>ep_channels := (ep_channels p)(fd \<mapsto> c)\<rparr>))
                  else cassert (ep_channels p fd = Some c) (Inr p)) (\<lambda>p.
           ep_update EPOLL_CTL_ADD c (set_index c kAdded st, p))
      else cassert (ep_channels p fd = Some c) (cassert (index = kAdded)
           (if isNoneEvent (st c)
            then rbind (ep_update EPOLL_CTL_DEL c (st, p)) (\<lambda>(st, p). Inr (set_index c kDeleted st, p))
            else ep_update EPOLL_CTL_MOD c (st, p))))"

definition ep_removeChannel :: "cid \<Rightarrow> epollpoller pstate \<Rightarrow> epollpoller pstate res" where
  "ep_removeChannel c s =
     (let (st, p) = s; fd = ch_fd (st c); index = ch_index (st c) in
      cassert (ep_channels p fd = Some c) (cassert (isNoneEvent (st c))
      (cassert (index = kAdded \<or> index = kDeleted)
      (let p = p\<lparr>ep_channels := (ep_channels p)(fd := None)\<rparr> in
       rbind (if index = kAdded then ep_update EPOLL_CTL_DEL c (st, p) else Inr (st, p)) (\<lambda>(st, p).
       Inr (set_index c kNew st, p))))))"

definition ep_hasChannel :: "cid \<Rightarrow> epollpoller pstate \<Rightarrow> bool" where
  "ep_hasChannel c s = (let (st, p) = s in ep_channels p (ch_fd (st c)) = Some c)"

text \<open>\<open>epoll_wait\<close> answers with the reported events, or fails.\<close>

definition ep_report :: "epollpoller \<Rightarrow> events \<times> cid \<Rightarrow> chstore \<times> cid list \<Rightarrow> (chstore \<times> cid list) res" where
  "ep_report p ec sa =
     (let (ev, c) = ec; (st, active) = sa in
      cassert (ep_channels p (ch_fd (st c)) \<noteq> None) (cassert (ep_channels p (ch_fd (st c)) = Some c)
      (Inr (st(c := set_revents ev (st c)), active @ [c]))))"

fun ep_fill :: "epollpoller \<Rightarrow> (events \<times> cid) list \<Rightarrow> chstore \<times> cid list \<Rightarrow> (chstore \<times> cid list) res" where
  "ep_fill p [] sa = Inr sa"
| "ep_fill p (ec # ecs) sa = rbind (ep_report p ec sa) (ep_fill p ecs)"

definition ep_fillActiveChannels ::
  "(events \<times> cid) list \<Rightarrow> epollpoller pstate \<Rightarrow> (chstore \<times> cid list) res" where
  "ep_fillActiveChannels evs s =
     (let (st, p) = s in cassert (length evs \<le> ep_size p) (ep_fill p evs (st, [])))"

definition ep_poll :: "(events \<times> cid) list option \<Rightarrow> epollpoller pstate \<Rightarrow> (cid list \<times> epollpoller pstate) res" where
  "ep_poll wait s =
     (let (st, p) = s in
      case wait of
        None \<Rightarrow> Inr ([], st, p)
      | Some evs \<Rightarrow>
          if evs = [] then Inr ([], st, p)
          else rbind (ep_fillActiveChannels evs (st, p)) (\<lambda>(st, active).
               Inr (active, st, if length evs = ep_size p then p\<lparr>ep_size := ep_size p * 2\<rparr> else p)))"


subsection \<open>\<open>PollPoller\<close>\<close>

record pollfd =
  pfd_fd :: int
  pfd_events :: "16 word"
  pfd_revents :: "16 word"

record pollpoller =
  pp_channels :: "int \<rightharpoonup> cid"
  pollfds :: "pollfd list"

definition PollPoller_new :: pollpoller where
  "PollPoller_new = \<lparr>pp_channels = Map.empty, pollfds = []\<rparr>"

definition pp_updateChannel :: "cid \<Rightarrow> pollpoller pstate \<Rightarrow> pollpoller pstate res" where
  "pp_updateChannel c s =
     (let (st, p) = s; fd = ch_fd (st c) in
      if ch_index (st c) < 0
      then cassert (pp_channels p fd = None)
        (let pfd = \<lparr>pfd_fd = fd, pfd_events = ucast (ch_events (st c)), pfd_revents = 0\<rparr>;
             pfds = pollfds p @ [pfd]; idx = int (length pfds) - 1
         in Inr (set_index c idx st, p\<lparr>pollfds := pfds, pp_channels := (pp_channels p)(fd \<mapsto> c)\<rparr>))
      else cassert (pp_channels p fd = Some c)
        (let idx = ch_index (st c) in
         cassert (0 \<le> idx \<and> idx < int (length (pollfds p)))
        (let pfd = pollfds p ! nat idx in
         cassert (pfd_fd pfd = fd \<or> pfd_fd pfd = - fd - 1)
        (let pfd = \<lparr>pfd_fd = fd, pfd_events = ucast (ch_events (st c)), pfd_revents = 0\<rparr>;
             pfd = (if isNoneEvent (st c) then pfd\<lparr>pfd_fd := - fd - 1\<rparr> else pfd)
         in Inr (st, p\<lparr>pollfds := (pollfds p)[nat idx := pfd]\<rparr>)))))"

definition pp_removeChannel :: "cid \<Rightarrow> pollpoller pstate \<Rightarrow> pollpoller pstate res" where
  "pp_removeChannel c s =
     (let (st, p) = s; fd = ch_fd (st c); idx = ch_index (st c) in
      cassert (pp_channels p fd = Some c) (cassert (isNoneEvent (st c))
      (cassert (0 \<le> idx \<and> idx < int (length (pollfds p)))
      (let pfd = pollfds p ! nat idx in
       cassert (pfd_fd pfd = - fd - 1 \<and> sint (pfd_events pfd) = sint (ch_events (st c)))
      (let p = p\<lparr>pp_channels := (pp_channels p)(fd := None)\<rparr> in
       if nat idx = length (pollfds p) - 1
       then Inr (st, p\<lparr>pollfds := butlast (pollfds p)\<rparr>)
       else let channelAtEnd = pfd_fd (last (pollfds p));
                swapped = (pollfds p)[nat idx := last (pollfds p), length (pollfds p) - 1 := pfd];
                channelAtEnd = (if channelAtEnd < 0 then - channelAtEnd - 1 else channelAtEnd)
            in case pp_channels p channelAtEnd of
                 None \<Rightarrow> Inl UndefinedBehaviour
               | Some e \<Rightarrow> Inr (set_index e idx st, p\<lparr>pollfds := butlast swapped\<rparr>))))))"

text \<open>\<open>poll(2)\<close> writes a \<open>revents\<close> into every entry and returns the number of those that are not zero.\<close>

fun pp_fill :: "(int \<rightharpoonup> cid) \<Rightarrow> nat \<Rightarrow> pollfd list \<Rightarrow> chstore \<times> cid list \<Rightarrow> (chstore \<times> cid list) res" where
  "pp_fill chans n [] sa = Inr sa"
| "pp_fill chans n (pfd # pfds) (st, active) =
     (if n = 0 then Inr (st, active)
      else if 0 < sint (pfd_revents pfd)
      then (case chans (pfd_fd pfd) of
              None \<Rightarrow> Inl AssertFail
            | Some c \<Rightarrow> cassert (ch_fd (st c) = pfd_fd pfd)
                (pp_fill chans (n - 1) pfds (st(c := set_revents (scast (pfd_revents pfd)) (st c)), active @ [c])))
      else pp_fill chans n pfds (st, active))"

definition pp_poll :: "16 word list option \<Rightarrow> pollpoller pstate \<Rightarrow> (cid list \<times> pollpoller pstate) res" where
  "pp_poll revs s =
     (let (st, p) = s in
      case revs of
        None \<Rightarrow> Inr ([], st, p)
      | Some rs \<Rightarrow>
          let pfds = map2 (\<lambda>pfd r. pfd\<lparr>pfd_revents := r\<rparr>) (pollfds p) rs;
              p = p\<lparr>pollfds := pfds\<rparr>; numEvents = length (filter (\<lambda>r. r \<noteq> 0) rs)
          in if numEvents = 0 then Inr ([], st, p)
             else rbind (pp_fill (pp_channels p) numEvents pfds (st, [])) (\<lambda>(st, active). Inr (active, st, p)))"



subsection \<open>The contract\<close>

definition store_fds_same :: "chstore \<Rightarrow> chstore \<Rightarrow> bool" where
  "store_fds_same st st' \<longleftrightarrow> (\<forall>c. ch_fd (st' c) = ch_fd (st c) \<and> ch_index (st' c) = ch_index (st c))"

text \<open>
  \<open>regd\<close> is the descriptor map and \<open>watched\<close> what the kernel watches. \<open>updateChannel\<close> accepts a
  channel that is registered, or a fresh one whose descriptor is free, and makes the kernel watch the
  channel's events; when the channel had been watched and has no events left, the kernel stops watching
  it. \<open>removeChannel\<close> accepts a registered channel that the kernel no longer watches. (A removed
  channel may not be registered again: \<open>PollPoller\<close> leaves its old index in it.)
\<close>

definition others_keep_index :: "('p \<Rightarrow> int \<rightharpoonup> cid) \<Rightarrow> cid \<Rightarrow> 'p pstate \<Rightarrow> chstore \<Rightarrow> bool" where
  "others_keep_index regd c s st' \<longleftrightarrow>
     (\<forall>d. d \<noteq> c \<and> regd (snd s) (ch_fd (fst s d)) \<noteq> Some d \<longrightarrow> ch_index (st' d) = ch_index (fst s d))"

locale poller =
  fixes pinv :: "'p pstate \<Rightarrow> bool"
    and upd :: "cid \<Rightarrow> 'p pstate \<Rightarrow> 'p pstate res"
    and rem :: "cid \<Rightarrow> 'p pstate \<Rightarrow> 'p pstate res"
    and regd :: "'p \<Rightarrow> int \<rightharpoonup> cid"
    and watched :: "'p \<Rightarrow> int \<rightharpoonup> events"
  assumes pinv_local: "pinv (st, p) \<Longrightarrow> store_fds_same st st' \<Longrightarrow> pinv (st', p)"
    and upd_law: "pinv (st, p) \<Longrightarrow>
      regd p (ch_fd (st c)) = Some c \<or> regd p (ch_fd (st c)) = None \<and> ch_index (st c) = -1 \<Longrightarrow>
      0 \<le> ch_fd (st c) \<Longrightarrow> ch_events (st c) \<in> set ev_masks \<Longrightarrow>
      \<exists>st' p' w. upd c (st, p) = Inr (st', p') \<and> pinv (st', p') \<and> same_but_index st st' \<and>
        others_keep_index regd c (st, p) st' \<and>
        regd p' = (regd p)(ch_fd (st c) \<mapsto> c) \<and> watched p' = (watched p)(ch_fd (st c) := w) \<and>
        (ch_events (st c) \<noteq> 0 \<longrightarrow> w = Some (ch_events (st c))) \<and>
        (ch_events (st c) = 0 \<longrightarrow> w \<in> {None, Some 0}) \<and>
        (ch_events (st c) = 0 \<and> watched p (ch_fd (st c)) \<noteq> None \<longrightarrow> w = None)"
    and rem_law: "pinv (st, p) \<Longrightarrow> regd p (ch_fd (st c)) = Some c \<Longrightarrow>
      ch_events (st c) = 0 \<Longrightarrow> watched p (ch_fd (st c)) = None \<Longrightarrow>
      \<exists>st' p'. rem c (st, p) = Inr (st', p') \<and> pinv (st', p') \<and> same_but_index st st' \<and>
        others_keep_index regd c (st, p) st' \<and>
        regd p' = (regd p)(ch_fd (st c) := None) \<and> watched p' = watched p"

text \<open>What the owner of a channel does with it: an interest change followed by \<open>update()\<close>, or \<open>remove()\<close>.\<close>

datatype ch_op = Interest cid interest | Remove cid

definition ch_update :: "(cid \<Rightarrow> 'p pstate \<Rightarrow> 'p pstate res) \<Rightarrow> cid \<Rightarrow> interest \<Rightarrow> 'p pstate \<Rightarrow> 'p pstate res" where
  "ch_update upd c i s =
     (let (st, p) = s
      in upd c (st(c := (st c)\<lparr>ch_events := change_events i (ch_events (st c)), addedToLoop := True\<rparr>), p))"

definition ch_remove :: "(cid \<Rightarrow> 'p pstate \<Rightarrow> 'p pstate res) \<Rightarrow> cid \<Rightarrow> 'p pstate \<Rightarrow> 'p pstate res" where
  "ch_remove rem c s =
     (let (st, p) = s in cassert (isNoneEvent (st c)) (rem c (st(c := (st c)\<lparr>addedToLoop := False\<rparr>), p)))"

fun ch_run ::
  "(cid \<Rightarrow> 'p pstate \<Rightarrow> 'p pstate res) \<Rightarrow> (cid \<Rightarrow> 'p pstate \<Rightarrow> 'p pstate res) \<Rightarrow>
   ch_op list \<Rightarrow> 'p pstate \<Rightarrow> 'p pstate res" where
  "ch_run upd rem [] s = Inr s"
| "ch_run upd rem (Interest c i # ops) s = rbind (ch_update upd c i s) (ch_run upd rem ops)"
| "ch_run upd rem (Remove c # ops) s = rbind (ch_remove rem c s) (ch_run upd rem ops)"

text \<open>
  The specification of a sequence: a channel is fresh, registered with a mask, or removed. The flag of a
  registered one says that its last change took it from a non-empty mask to the empty one, which is when
  it may be removed.
\<close>

datatype ch_status = Fresh | Registered events bool | Removed

fun status_mask :: "ch_status \<Rightarrow> events" where
  "status_mask (Registered e q) = e"
| "status_mask _ = 0"

definition is_registered :: "ch_status \<Rightarrow> bool" where
  "is_registered x = (case x of Registered _ _ \<Rightarrow> True | _ \<Rightarrow> False)"

fun spec_run :: "ch_op list \<Rightarrow> (cid \<Rightarrow> ch_status) \<Rightarrow> (cid \<Rightarrow> ch_status) option" where
  "spec_run [] sp = Some sp"
| "spec_run (Interest c i # ops) sp =
     (if sp c = Removed then None
      else let e = status_mask (sp c); e' = change_events i e
           in spec_run ops (sp(c := Registered e' (e \<noteq> 0 \<and> e' = 0))))"
| "spec_run (Remove c # ops) sp =
     (if sp c = Registered 0 True then spec_run ops (sp(c := Removed)) else None)"

definition tracks :: "('p \<Rightarrow> int \<rightharpoonup> cid) \<Rightarrow> ('p \<Rightarrow> int \<rightharpoonup> events) \<Rightarrow> (cid \<Rightarrow> ch_status) \<Rightarrow> 'p pstate \<Rightarrow> bool" where
  "tracks regd watched sp s \<longleftrightarrow>
     inj (\<lambda>c. ch_fd (fst s c)) \<and>
     (\<forall>c. let fd = ch_fd (fst s c); e = status_mask (sp c); w = watched (snd s) fd in
       0 \<le> fd \<and> ch_events (fst s c) = e \<and> e \<in> set ev_masks \<and>
       regd (snd s) fd = (if is_registered (sp c) then Some c else None) \<and>
       (sp c = Fresh \<longrightarrow> ch_index (fst s c) = -1) \<and>
       (e \<noteq> 0 \<longrightarrow> w = Some e) \<and> (e = 0 \<longrightarrow> w \<in> {None, Some 0}) \<and>
       (sp c = Registered 0 True \<longrightarrow> w = None))"

context poller
begin

lemma tracks_update:
  fixes c :: cid and i :: interest
  assumes inv: "pinv s" and tr: "tracks regd watched sp s" and ok: "sp c \<noteq> Removed"
  defines "e \<equiv> status_mask (sp c)" and "e' \<equiv> change_events i (status_mask (sp c))"
  shows "\<exists>s'. ch_update upd c i s = Inr s' \<and> pinv s' \<and>
    tracks regd watched (sp(c := Registered e' (e \<noteq> 0 \<and> e' = 0))) s'"
proof -
  obtain st p where s: "s = (st, p)" by fastforce
  let ?st = "st(c := (st c)\<lparr>ch_events := e', addedToLoop := True\<rparr>)"
  have t: "inj (\<lambda>c. ch_fd (st c))" "0 \<le> ch_fd (st x)" "ch_events (st x) = status_mask (sp x)"
    "status_mask (sp x) \<in> set ev_masks" "regd p (ch_fd (st x)) = (if is_registered (sp x) then Some x else None)"
    "sp x = Fresh \<Longrightarrow> ch_index (st x) = -1"
    "status_mask (sp x) \<noteq> 0 \<Longrightarrow> watched p (ch_fd (st x)) = Some (status_mask (sp x))"
    "status_mask (sp x) = 0 \<Longrightarrow> watched p (ch_fd (st x)) \<in> {None, Some 0}"
    "sp x = Registered 0 True \<Longrightarrow> watched p (ch_fd (st x)) = None" for x
    using tr by (auto simp: tracks_def s Let_def)
  have mask: "e' \<in> set ev_masks" using t(4) unfolding e'_def by (rule change_events_masks)
  have inv': "pinv (?st, p)"
    using inv unfolding s by (rule pinv_local) (simp add: store_fds_same_def)
  obtain st' p' w where u: "upd c (?st, p) = Inr (st', p')" "pinv (st', p')" "same_but_index ?st st'"
      "others_keep_index regd c (?st, p) st'"
      "regd p' = (regd p)(ch_fd (st c) \<mapsto> c)" "watched p' = (watched p)(ch_fd (st c) := w)"
      "e' \<noteq> 0 \<Longrightarrow> w = Some e'" "e' = 0 \<Longrightarrow> w \<in> {None, Some 0}"
      "e' = 0 \<Longrightarrow> watched p (ch_fd (st c)) \<noteq> None \<Longrightarrow> w = None"
    using upd_law [OF inv', of c] t(2) [of c] t(5) [of c] t(6) [of c] ok mask
    by (cases "sp c") (auto simp: is_registered_def)
  have inj: "ch_fd (st x) = ch_fd (st c) \<longleftrightarrow> x = c" for x using t(1) by (auto dest: injD)
  have upd: "ch_update upd c i s = Inr (st', p')"
    using u(1) t(3) [of c] by (simp add: ch_update_def s e'_def)
  have fds: "ch_fd (st' x) = ch_fd (st x)" "ch_events (st' x) = (if x = c then e' else ch_events (st x))" for x
    using same_but_indexD [OF u(3), of x] by auto
  have idx: "ch_index (st' x) = -1" if "sp x = Fresh" "x \<noteq> c" for x
    using u(4) t(5) [of x] t(6) [of x] that by (simp add: others_keep_index_def is_registered_def)
  have "tracks regd watched (sp(c := Registered e' (e \<noteq> 0 \<and> e' = 0))) (st', p')"
    unfolding tracks_def Let_def
    using t u(7,8,9) mask idx by (auto simp: fds u(5,6) inj is_registered_def e_def split: if_splits)
  with upd u(2) show ?thesis by blast
qed

lemma tracks_remove:
  assumes inv: "pinv s" and tr: "tracks regd watched sp s" and ok: "sp c = Registered 0 True"
  shows "\<exists>s'. ch_remove rem c s = Inr s' \<and> pinv s' \<and> tracks regd watched (sp(c := Removed)) s'"
proof -
  obtain st p where s: "s = (st, p)" by fastforce
  let ?st = "st(c := (st c)\<lparr>addedToLoop := False\<rparr>)"
  have t: "inj (\<lambda>c. ch_fd (st c))" "ch_events (st c) = 0" "regd p (ch_fd (st c)) = Some c"
    "watched p (ch_fd (st c)) = None"
    using tr ok by (auto simp: tracks_def s Let_def is_registered_def dest!: spec [of _ c])
  have t': "regd p (ch_fd (st x)) = (if is_registered (sp x) then Some x else None)"
    "sp x = Fresh \<Longrightarrow> ch_index (st x) = -1" for x
    using tr by (auto simp: tracks_def s Let_def)
  have inv': "pinv (?st, p)"
    using inv unfolding s by (rule pinv_local) (simp add: store_fds_same_def)
  obtain st' p' where r: "rem c (?st, p) = Inr (st', p')" "pinv (st', p')" "same_but_index ?st st'"
      "others_keep_index regd c (?st, p) st'"
      "regd p' = (regd p)(ch_fd (st c) := None)" "watched p' = watched p"
    using rem_law [OF inv', of c] t by auto
  have inj: "ch_fd (st x) = ch_fd (st c) \<longleftrightarrow> x = c" for x using t(1) by (auto dest: injD)
  have rm: "ch_remove rem c s = Inr (st', p')"
    using r(1) t(2) by (simp add: ch_remove_def s isNoneEvent_def kNoneEvent_def)
  have fds: "ch_fd (st' x) = ch_fd (st x)" "ch_events (st' x) = ch_events (st x)" for x
    using same_but_indexD [OF r(3), of x] by auto
  have idx: "ch_index (st' x) = -1" if "sp x = Fresh" "x \<noteq> c" for x
    using r(4) t' [of x] that by (simp add: others_keep_index_def is_registered_def)
  have "tracks regd watched (sp(c := Removed)) (st', p')"
    using tr t idx unfolding tracks_def s Let_def
    by (auto simp: fds r(5,6) inj is_registered_def ev_masks_def)
  with rm r(2) show ?thesis by blast
qed

lemma run_law:
  assumes "pinv s" and "tracks regd watched sp s" and "spec_run ops sp = Some sp'"
  shows "\<exists>s'. ch_run upd rem ops s = Inr s' \<and> pinv s' \<and> tracks regd watched sp' s'"
  using assms
proof (induction ops arbitrary: s sp)
  case Nil
  then show ?case by simp
next
  case (Cons op ops)
  show ?case
  proof (cases op)
    case (Interest c i)
    then have "sp c \<noteq> Removed" using Cons.prems(3) by auto
    from tracks_update [OF Cons.prems(1,2) this, of i] obtain s' where
      "ch_update upd c i s = Inr s'" "pinv s'"
      "tracks regd watched (sp(c := Registered (change_events i (status_mask (sp c)))
         (status_mask (sp c) \<noteq> 0 \<and> change_events i (status_mask (sp c)) = 0))) s'" by blast
    with Cons.IH [of s'] Cons.prems(3) Interest \<open>sp c \<noteq> Removed\<close> show ?thesis by (simp add: Let_def)
  next
    case (Remove c)
    then have "sp c = Registered 0 True" using Cons.prems(3) by (auto split: if_splits)
    from tracks_remove [OF Cons.prems(1,2) this] obtain s' where
      "ch_remove rem c s = Inr s'" "pinv s'" "tracks regd watched (sp(c := Removed)) s'" by blast
    with Cons.IH [of s'] Cons.prems(3) Remove show ?thesis by (auto split: if_splits)
  qed
qed

end

end
