(* ===== verification/EPollPoller.thy ===== *)
theory EPollPoller
  imports Poller
begin

section \<open>Both pollers keep the contract\<close>

text \<open>The invariants of \<open>EPollPoller\<close> and \<open>PollPoller\<close>, the proofs that they are pollers, and what this
  gives for the owners of channels.\<close>

subsection \<open>\<open>EPollPoller\<close>\<close>

definition ep_inv :: "epollpoller pstate \<Rightarrow> bool" where
  "ep_inv s \<longleftrightarrow> (let (st, p) = s in
     (\<forall>c. ch_index (st c) \<in> {kNew, kAdded, kDeleted}) \<and>
     (\<forall>c. ch_index (st c) \<noteq> kNew \<longleftrightarrow> ep_channels p (ch_fd (st c)) = Some c) \<and>
     (\<forall>fd c. ep_channels p fd = Some c \<longrightarrow> ch_fd (st c) = fd) \<and>
     (\<forall>c. ch_index (st c) = kAdded \<longrightarrow> (\<exists>ev. ep_interest p (ch_fd (st c)) = Some (ev, c))) \<and>
     (\<forall>fd ev c. ep_interest p fd = Some (ev, c) \<longrightarrow> ep_channels p fd = Some c \<and> ch_index (st c) = kAdded))"

definition ep_watched :: "epollpoller \<Rightarrow> int \<rightharpoonup> events" where
  "ep_watched p fd = map_option fst (ep_interest p fd)"

lemma ep_inv_local: "ep_inv (st, p) \<Longrightarrow> store_fds_same st st' \<Longrightarrow> ep_inv (st', p)"
  by (simp add: ep_inv_def store_fds_same_def)

lemma ep_invD:
  assumes "ep_inv (st, p)"
  shows "ch_index (st c) = kNew \<or> ch_index (st c) = kAdded \<or> ch_index (st c) = kDeleted"
    and "ch_index (st c) \<noteq> kNew \<longleftrightarrow> ep_channels p (ch_fd (st c)) = Some c"
    and "ep_channels p fd = Some c \<Longrightarrow> ch_fd (st c) = fd"
    and "ch_index (st c) = kAdded \<Longrightarrow> \<exists>ev. ep_interest p (ch_fd (st c)) = Some (ev, c)"
    and "ep_interest p fd = Some (ev, c) \<Longrightarrow> ep_channels p fd = Some c \<and> ch_index (st c) = kAdded"
  using assms by (auto simp: ep_inv_def)

lemma ep_invI:
  assumes "\<And>d. ch_index (st d) \<in> {kNew, kAdded, kDeleted}"
    and "\<And>d. ch_index (st d) \<noteq> kNew \<longleftrightarrow> ep_channels p (ch_fd (st d)) = Some d"
    and "\<And>d fd. ep_channels p fd = Some d \<Longrightarrow> ch_fd (st d) = fd"
    and "\<And>d. ch_index (st d) = kAdded \<Longrightarrow> \<exists>ev. ep_interest p (ch_fd (st d)) = Some (ev, d)"
    and "\<And>d fd ev. ep_interest p fd = Some (ev, d) \<Longrightarrow> ep_channels p fd = Some d"
    and "\<And>d fd ev. ep_interest p fd = Some (ev, d) \<Longrightarrow> ch_index (st d) = kAdded"
  shows "ep_inv (st, p)"
  unfolding ep_inv_def Let_def prod.case using assms by blast

lemma ep_interest_None:
  assumes "ep_inv (st, p)" and "ch_index (st c) \<noteq> kAdded"
    and "ep_channels p (ch_fd (st c)) = Some c \<or> ep_channels p (ch_fd (st c)) = None"
  shows "ep_interest p (ch_fd (st c)) = None"
proof (rule ccontr)
  assume "ep_interest p (ch_fd (st c)) \<noteq> None"
  then obtain ev d where "ep_interest p (ch_fd (st c)) = Some (ev, d)" by auto
  with ep_invD(5) [OF assms(1)] assms(2,3) show False by fastforce
qed

lemma ep_update_law:
  assumes inv: "ep_inv (st, p)"
    and reg: "ep_channels p (ch_fd (st c)) = Some c \<or> ep_channels p (ch_fd (st c)) = None \<and> ch_index (st c) = -1"
  shows "\<exists>st' p' w. ep_updateChannel c (st, p) = Inr (st', p') \<and> ep_inv (st', p') \<and> same_but_index st st' \<and>
    others_keep_index ep_channels c (st, p) st' \<and>
    ep_channels p' = (ep_channels p)(ch_fd (st c) \<mapsto> c) \<and> ep_watched p' = (ep_watched p)(ch_fd (st c) := w) \<and>
    (ch_events (st c) \<noteq> 0 \<longrightarrow> w = Some (ch_events (st c))) \<and>
    (ch_events (st c) = 0 \<longrightarrow> w \<in> {None, Some 0}) \<and>
    (ch_events (st c) = 0 \<and> ep_watched p (ch_fd (st c)) \<noteq> None \<longrightarrow> w = None)"
proof -
  let ?fd = "ch_fd (st c)"
  consider (add) "ch_index (st c) = kNew \<or> ch_index (st c) = kDeleted" | (mod) "ch_index (st c) = kAdded"
    using ep_invD(1) [OF inv] by blast
  then show ?thesis
  proof cases
    case add
    let ?st = "set_index c kAdded st"
    let ?p = "p\<lparr>ep_channels := (ep_channels p)(?fd \<mapsto> c), ep_interest := (ep_interest p)(?fd \<mapsto> (ch_events (st c), c))\<rparr>"
    have none: "ep_interest p ?fd = None"
      by (rule ep_interest_None [OF inv]) (use add reg in \<open>auto simp: k_defs\<close>)
    have chan: "ep_channels p ?fd = (if ch_index (st c) = kNew then None else Some c)"
      using add reg ep_invD(2) [OF inv, of c] by (auto simp: k_defs)
    have run: "ep_updateChannel c (st, p) = Inr (?st, ?p)"
      using add none chan
      by (auto simp: ep_updateChannel_def ep_update_def Let_def fun_upd_idem k_defs)
    have other: "ep_channels p (ch_fd (st d)) = Some d \<Longrightarrow> d \<noteq> c \<Longrightarrow> ch_fd (st d) \<noteq> ?fd" for d
      using chan by (auto split: if_splits)
    have inv': "ep_inv (?st, ?p)"
    proof (rule ep_invI)
      fix d
      show "ch_index (?st d) \<in> {kNew, kAdded, kDeleted}" using ep_invD(1) [OF inv, of d] by simp
      show "ch_index (?st d) \<noteq> kNew \<longleftrightarrow> ep_channels ?p (ch_fd (?st d)) = Some d"
        using ep_invD(2) [OF inv, of d] other [of d] by (auto simp: k_defs)
      show "ch_fd (?st d) = fd" if "ep_channels ?p fd = Some d" for fd
        using that ep_invD(3) [OF inv, of fd d] by (simp split: if_splits)
      show "\<exists>ev. ep_interest ?p (ch_fd (?st d)) = Some (ev, d)" if "ch_index (?st d) = kAdded"
        using that ep_invD(2,4) [OF inv, of d] other [of d] by (auto simp: k_defs split: if_splits)
      show "ep_channels ?p fd = Some d" "ch_index (?st d) = kAdded" if "ep_interest ?p fd = Some (ev, d)" for fd ev
        using that ep_invD(5) [OF inv, of fd ev d] by (auto split: if_splits)
    qed
    show ?thesis
      by (intro exI [of _ ?st] exI [of _ ?p] exI [of _ "Some (ch_events (st c))"])
        (auto simp: run inv' others_keep_index_def ep_watched_def none)
  next
    case mod
    then obtain ev where ev: "ep_interest p ?fd = Some (ev, c)" using ep_invD(4) [OF inv] by blast
    have chan: "ep_channels p ?fd = Some c" using ep_invD(5) [OF inv ev] by blast
    show ?thesis
    proof (cases "ch_events (st c) = 0")
      case True
      let ?st = "set_index c kDeleted st" and ?p = "p\<lparr>ep_interest := (ep_interest p)(?fd := None)\<rparr>"
      have run: "ep_updateChannel c (st, p) = Inr (?st, ?p)"
        using mod chan ev True
        by (simp add: ep_updateChannel_def ep_update_def isNoneEvent_def kNoneEvent_def Let_def k_defs)
      have uniq: "ep_channels p (ch_fd (st d)) = Some d \<Longrightarrow> ch_fd (st d) = ?fd \<Longrightarrow> d = c" for d
        using chan by simp
      have inv': "ep_inv (?st, ?p)"
      proof (rule ep_invI)
        fix d
        show "ch_index (?st d) \<in> {kNew, kAdded, kDeleted}" using ep_invD(1) [OF inv, of d] by simp
        show "ch_index (?st d) \<noteq> kNew \<longleftrightarrow> ep_channels ?p (ch_fd (?st d)) = Some d"
          using ep_invD(2) [OF inv, of d] chan by (auto simp: k_defs)
        show "ch_fd (?st d) = fd" if "ep_channels ?p fd = Some d" for fd
          using that ep_invD(3) [OF inv, of fd d] by simp
        show "\<exists>ev. ep_interest ?p (ch_fd (?st d)) = Some (ev, d)" if "ch_index (?st d) = kAdded"
          using that ep_invD(2,4) [OF inv, of d] uniq [of d] by (auto simp: k_defs split: if_splits)
        show "ep_channels ?p fd = Some d" "ch_index (?st d) = kAdded" if "ep_interest ?p fd = Some (ev, d)" for fd ev
          using that ep_invD(5) [OF inv, of fd ev d] ep_invD(3) [OF inv, of fd d] by (auto split: if_splits)
      qed
      show ?thesis
        by (intro exI [of _ ?st] exI [of _ ?p] exI [of _ None])
          (auto simp: run inv' others_keep_index_def ep_watched_def chan True fun_upd_idem)
    next
      case False
      let ?p = "p\<lparr>ep_interest := (ep_interest p)(?fd \<mapsto> (ch_events (st c), c))\<rparr>"
      have run: "ep_updateChannel c (st, p) = Inr (st, ?p)"
        using mod chan ev False
        by (simp add: ep_updateChannel_def ep_update_def isNoneEvent_def kNoneEvent_def Let_def k_defs)
      have inv': "ep_inv (st, ?p)"
      proof (rule ep_invI)
        fix d
        show "ch_index (st d) \<in> {kNew, kAdded, kDeleted}" using ep_invD(1) [OF inv, of d] by simp
        show "ch_index (st d) \<noteq> kNew \<longleftrightarrow> ep_channels ?p (ch_fd (st d)) = Some d"
          using ep_invD(2) [OF inv, of d] by simp
        show "ch_fd (st d) = fd" if "ep_channels ?p fd = Some d" for fd
          using that ep_invD(3) [OF inv, of fd d] by simp
        show "\<exists>ev. ep_interest ?p (ch_fd (st d)) = Some (ev, d)" if "ch_index (st d) = kAdded"
        proof (cases "ch_fd (st d) = ?fd")
          case True
          have "ch_index (st d) \<noteq> kNew" using that by (simp add: k_defs)
          then have "ep_channels p (ch_fd (st d)) = Some d" using ep_invD(2) [OF inv] by blast
          with chan True have "d = c" by (metis option.inject)
          then show ?thesis by simp
        next
          case False
          with ep_invD(4) [OF inv that] show ?thesis by simp
        qed
        show "ep_channels ?p fd = Some d" "ch_index (st d) = kAdded" if "ep_interest ?p fd = Some (ev, d)" for fd ev
          using that ep_invD(5) [OF inv, of fd ev d] mod chan by (auto split: if_splits)
      qed
      show ?thesis
        by (intro exI [of _ st] exI [of _ ?p] exI [of _ "Some (ch_events (st c))"])
          (auto simp: run inv' others_keep_index_def ep_watched_def chan False fun_upd_idem)
    qed
  qed
qed

lemma ep_remove_law:
  assumes inv: "ep_inv (st, p)" and reg: "ep_channels p (ch_fd (st c)) = Some c"
    and ev: "ch_events (st c) = 0"
  shows "\<exists>st' p'. ep_removeChannel c (st, p) = Inr (st', p') \<and> ep_inv (st', p') \<and> same_but_index st st' \<and>
    others_keep_index ep_channels c (st, p) st' \<and>
    ep_channels p' = (ep_channels p)(ch_fd (st c) := None) \<and> ep_watched p' = (ep_watched p)(ch_fd (st c) := None)"
proof -
  let ?fd = "ch_fd (st c)"
  let ?st = "set_index c kNew st"
  let ?p = "p\<lparr>ep_channels := (ep_channels p)(?fd := None), ep_interest := (ep_interest p)(?fd := None)\<rparr>"
  have idx: "ch_index (st c) = kAdded \<or> ch_index (st c) = kDeleted"
    using ep_invD(1,2) [OF inv, of c] reg by auto
  have add: "\<exists>e. ep_interest p ?fd = Some (e, c)" if "ch_index (st c) = kAdded"
    using ep_invD(4) [OF inv that] .
  have del: "ep_interest p ?fd = None" if "ch_index (st c) = kDeleted"
    by (rule ep_interest_None [OF inv]) (use that reg in \<open>auto simp: k_defs\<close>)
  have run: "ep_removeChannel c (st, p) = Inr (?st, ?p)"
    using idx add del reg ev
    by (auto simp: ep_removeChannel_def ep_update_def isNoneEvent_def kNoneEvent_def Let_def k_defs fun_upd_idem)
  have uniq: "ep_channels p (ch_fd (st d)) = Some d \<Longrightarrow> ch_fd (st d) = ?fd \<Longrightarrow> d = c" for d
    using reg by simp
  have inv': "ep_inv (?st, ?p)"
  proof (rule ep_invI)
    fix d
    show "ch_index (?st d) \<in> {kNew, kAdded, kDeleted}" using ep_invD(1) [OF inv, of d] by simp
    show "ch_index (?st d) \<noteq> kNew \<longleftrightarrow> ep_channels ?p (ch_fd (?st d)) = Some d"
      using ep_invD(2) [OF inv, of d] reg uniq [of d] by (auto simp: k_defs)
    show "ch_fd (?st d) = fd" if "ep_channels ?p fd = Some d" for fd
      using that ep_invD(3) [OF inv, of fd d] by (simp split: if_splits)
    show "\<exists>ev. ep_interest ?p (ch_fd (?st d)) = Some (ev, d)" if "ch_index (?st d) = kAdded"
      using that ep_invD(2,4) [OF inv, of d] uniq [of d] by (auto simp: k_defs split: if_splits)
    show "ep_channels ?p fd = Some d" "ch_index (?st d) = kAdded" if "ep_interest ?p fd = Some (ev, d)" for fd ev
      using that ep_invD(5) [OF inv, of fd ev d] ep_invD(3) [OF inv, of fd d] by (auto split: if_splits)
  qed
  show ?thesis
    by (intro exI [of _ ?st] exI [of _ ?p]) (auto simp: run inv' others_keep_index_def ep_watched_def)
qed

interpretation epp: poller ep_inv ep_updateChannel ep_removeChannel ep_channels ep_watched
proof
  show "ep_inv (st', p)" if "ep_inv (st, p)" "store_fds_same st st'" for st st' p
    using that by (rule ep_inv_local)
next
  fix st p c
  assume "ep_inv (st, p)" and "ep_channels p (ch_fd (st c)) = Some c" and "ch_events (st c) = 0"
    and "ep_watched p (ch_fd (st c)) = None"
  with ep_remove_law [of st p c] show "\<exists>st' p'. ep_removeChannel c (st, p) = Inr (st', p') \<and> ep_inv (st', p') \<and>
    same_but_index st st' \<and> others_keep_index ep_channels c (st, p) st' \<and>
    ep_channels p' = (ep_channels p)(ch_fd (st c) := None) \<and> ep_watched p' = ep_watched p"
    by (simp add: fun_upd_idem)
qed (rule ep_update_law)



subsection \<open>\<open>poll\<close>\<close>

lemma ep_fill_ok:
  assumes "\<forall>(ev, c) \<in> set evs. ep_channels p (ch_fd (st c)) = Some c" and "distinct (map snd evs)"
  shows "\<exists>st'. ep_fill p evs (st, acc) = Inr (st', acc @ map snd evs) \<and>
    (\<forall>c. st' c = (case map_of (map prod.swap evs) c of None \<Rightarrow> st c | Some ev \<Rightarrow> set_revents ev (st c)))"
  using assms
proof (induction evs arbitrary: st acc)
  case Nil
  then show ?case by simp
next
  case (Cons ec evs)
  obtain ev c where ec: "ec = (ev, c)" by fastforce
  let ?st = "st(c := set_revents ev (st c))"
  have fd: "ch_fd (?st d) = ch_fd (st d)" for d by (simp add: set_revents_def)
  have "\<exists>st'. ep_fill p evs (?st, acc @ [c]) = Inr (st', (acc @ [c]) @ map snd evs) \<and>
      (\<forall>d. st' d = (case map_of (map prod.swap evs) d of None \<Rightarrow> ?st d | Some e \<Rightarrow> set_revents e (?st d)))"
    by (rule Cons.IH) (use Cons.prems fd in auto)
  then obtain st' where st': "ep_fill p evs (?st, acc @ [c]) = Inr (st', (acc @ [c]) @ map snd evs)"
      "\<forall>d. st' d = (case map_of (map prod.swap evs) d of None \<Rightarrow> ?st d | Some e \<Rightarrow> set_revents e (?st d))"
    by blast
  have "map_of (map prod.swap evs) c = None"
    using Cons.prems(2) by (auto simp: ec map_of_eq_None_iff image_iff)
  moreover have "ep_report p (ev, c) (st, acc) = Inr (?st, acc @ [c])"
    using Cons.prems(1) by (simp add: ep_report_def ec)
  ultimately have "ep_fill p (ec # evs) (st, acc) = Inr (st', acc @ map snd (ec # evs))"
    using st'(1) by (simp add: ec)
  moreover have "st' d = (case map_of (map prod.swap (ec # evs)) d of None \<Rightarrow> st d | Some e \<Rightarrow> set_revents e (st d))" for d
    using st'(2) [rule_format, of d] \<open>map_of (map prod.swap evs) c = None\<close>
    by (cases "d = c") (simp_all add: ec split: option.splits)
  ultimately show ?case by blast
qed

text \<open>One round of \<open>EPollPoller::poll\<close>. When \<open>epoll_wait\<close> reports at most as many events as the
  event list holds, each for a registered descriptor and none twice, then every reported channel, and no
  other, becomes active, in the order reported, with exactly the reported events; registration is
  unchanged; and the event list is doubled when it was full, so that the next round has room to spare.\<close>

theorem ep_poll_delivers:
  assumes "ep_inv (st, p)" and "\<forall>(ev, c) \<in> set evs. ep_watched p (ch_fd (st c)) \<noteq> None \<and> ep_channels p (ch_fd (st c)) = Some c"
    and "distinct (map snd evs)" and "length evs \<le> ep_size p" and "0 < ep_size p"
  shows "\<exists>st' p'. ep_poll (Some evs) (st, p) = Inr (map snd evs, st', p') \<and> ep_inv (st', p') \<and>
    (\<forall>c. st' c = (case map_of (map prod.swap evs) c of None \<Rightarrow> st c | Some ev \<Rightarrow> set_revents ev (st c))) \<and>
    ep_channels p' = ep_channels p \<and> ep_interest p' = ep_interest p \<and> length evs < ep_size p'"
proof (cases "evs = []")
  case True
  with assms show ?thesis by (simp add: ep_poll_def)
next
  case False
  obtain st' where st': "ep_fill p evs (st, []) = Inr (st', map snd evs)"
      "\<forall>c. st' c = (case map_of (map prod.swap evs) c of None \<Rightarrow> st c | Some ev \<Rightarrow> set_revents ev (st c))"
    using ep_fill_ok [of evs p st "[]"] assms(2,3) by auto
  let ?p = "if length evs = ep_size p then p\<lparr>ep_size := ep_size p * 2\<rparr> else p"
  have "store_fds_same st st'"
    unfolding store_fds_same_def by (simp add: st'(2) set_revents_def split: option.splits)
  then have "ep_inv (st', p)" using assms(1) ep_inv_local by blast
  then have "ep_inv (st', ?p)" by (simp add: ep_inv_def)
  moreover have "ep_poll (Some evs) (st, p) = Inr (map snd evs, st', ?p)"
    using False st'(1) assms(4) by (simp add: ep_poll_def ep_fillActiveChannels_def)
  moreover have "length evs < ep_size ?p" using assms(4,5) False by auto
  ultimately show ?thesis using st'(2) by (intro exI [of _ st'] exI [of _ ?p]) auto
qed

theorem ep_poll_delivers_witness:
  "\<exists>s'. ep_poll (Some [(POLLIN, 3)]) ((\<lambda>c. (Channel_new (int c))\<lparr>ch_events := 3, ch_index := if c = 3 then kAdded else kNew\<rparr>),
     \<lparr>ep_channels = [3 \<mapsto> 3], ep_interest = [3 \<mapsto> (3, 3)], ep_size = 1\<rparr>) = Inr ([3], s') \<and> ep_size (snd s') = 2"
proof -
  let ?st = "\<lambda>c. (Channel_new (int c))\<lparr>ch_events := 3, ch_index := if c = 3 then kAdded else kNew\<rparr>"
  let ?p = "\<lparr>ep_channels = [3 \<mapsto> 3], ep_interest = [3 \<mapsto> (3, 3)], ep_size = 1\<rparr>"
  have inv: "ep_inv (?st, ?p)" by (auto simp: ep_inv_def Channel_new_def k_defs)
  have run: "\<exists>st' p'. ep_poll (Some [(POLLIN, 3)]) (?st, ?p) = Inr (map snd [(POLLIN, 3)], st', p')"
    using ep_poll_delivers [OF inv, of "[(POLLIN, 3)]"] by (auto simp: ep_watched_def Channel_new_def)
  then obtain st' p' where r: "ep_poll (Some [(POLLIN, 3)]) (?st, ?p) = Inr ([3], st', p')" by auto
  then have "ep_size p' = 2" by (auto simp: ep_poll_def ep_fillActiveChannels_def)
  with r show ?thesis by (intro exI [of _ "(st', p')"]) simp
qed

end
