(* ===== verification/PollPoller.thy ===== *)
theory PollPoller
  imports EPollPoller
begin

subsection \<open>\<open>PollPoller\<close>\<close>

text \<open>
  \<open>PollPoller\<close> stores the position of a channel's entry in the channel, hides an entry from the kernel
  by the descriptor \<open>-fd - 1\<close>, and removes an entry by swapping it with the last one.
\<close>

definition hidden_fd :: "int \<Rightarrow> int" where
  "hidden_fd f = (if f < 0 then - f - 1 else f)"

lemma hidden_fd_simps [simp]: "0 \<le> f \<Longrightarrow> hidden_fd f = f" "0 \<le> f \<Longrightarrow> hidden_fd (- f - 1) = f"
  by (simp_all add: hidden_fd_def)

definition entry_ok :: "int \<Rightarrow> pollfd \<Rightarrow> bool" where
  "entry_ok fd pfd \<longleftrightarrow> hidden_fd (pfd_fd pfd) = fd \<and> (pfd_fd pfd < 0 \<longrightarrow> pfd_events pfd = 0)"

definition pp_inv :: "pollpoller pstate \<Rightarrow> bool" where
  "pp_inv s \<longleftrightarrow> (let (st, p) = s in
     (\<forall>fd c. pp_channels p fd = Some c \<longrightarrow>
        ch_fd (st c) = fd \<and> 0 \<le> fd \<and> 0 \<le> ch_index (st c) \<and> ch_index (st c) < int (length (pollfds p)) \<and>
        entry_ok fd (pollfds p ! nat (ch_index (st c)))) \<and>
     (\<forall>i < length (pollfds p). \<exists>c. pp_channels p (ch_fd (st c)) = Some c \<and> ch_index (st c) = int i))"

definition pp_watched :: "pollpoller \<Rightarrow> int \<rightharpoonup> events" where
  "pp_watched p fd =
     (if 0 \<le> fd then map_option (\<lambda>pfd. ucast (pfd_events pfd)) (find (\<lambda>pfd. pfd_fd pfd = fd) (pollfds p))
      else None)"

lemma pp_invI:
  assumes "\<And>fd c. pp_channels p fd = Some c \<Longrightarrow>
      ch_fd (st c) = fd \<and> 0 \<le> fd \<and> 0 \<le> ch_index (st c) \<and> ch_index (st c) < int (length (pollfds p)) \<and>
      entry_ok fd (pollfds p ! nat (ch_index (st c)))"
    and "\<And>i. i < length (pollfds p) \<Longrightarrow> \<exists>c. pp_channels p (ch_fd (st c)) = Some c \<and> ch_index (st c) = int i"
  shows "pp_inv (st, p)"
  using assms by (simp add: pp_inv_def)

lemma pp_invD:
  assumes "pp_inv (st, p)" and "pp_channels p fd = Some c"
  shows "ch_fd (st c) = fd" and "0 \<le> fd" and "0 \<le> ch_index (st c)"
    and "nat (ch_index (st c)) < length (pollfds p)" and "entry_ok fd (pollfds p ! nat (ch_index (st c)))"
proof -
  have "ch_fd (st c) = fd \<and> 0 \<le> fd \<and> 0 \<le> ch_index (st c) \<and> ch_index (st c) < int (length (pollfds p)) \<and>
      entry_ok fd (pollfds p ! nat (ch_index (st c)))"
    using assms by (simp add: pp_inv_def)
  then show "ch_fd (st c) = fd" and "0 \<le> fd" and "0 \<le> ch_index (st c)"
    and "nat (ch_index (st c)) < length (pollfds p)" and "entry_ok fd (pollfds p ! nat (ch_index (st c)))"
    by auto
qed

lemma pp_invE:
  assumes "pp_inv (st, p)" and "i < length (pollfds p)"
  obtains c where "pp_channels p (ch_fd (st c)) = Some c" and "ch_index (st c) = int i"
  using assms by (auto simp: pp_inv_def)

lemma pp_inv_local: "pp_inv (st, p) \<Longrightarrow> store_fds_same st st' \<Longrightarrow> pp_inv (st', p)"
  by (simp add: pp_inv_def store_fds_same_def)

text \<open>The position of a registered channel's entry is the only one that carries its descriptor.\<close>

lemma pp_position:
  assumes inv: "pp_inv (st, p)" and reg: "pp_channels p fd = Some c" and i: "i < length (pollfds p)"
  shows "hidden_fd (pfd_fd (pollfds p ! i)) = fd \<longleftrightarrow> i = nat (ch_index (st c))"
proof
  assume h: "hidden_fd (pfd_fd (pollfds p ! i)) = fd"
  obtain d where d: "pp_channels p (ch_fd (st d)) = Some d" "ch_index (st d) = int i"
    using pp_invE [OF inv i] .
  then have "hidden_fd (pfd_fd (pollfds p ! i)) = ch_fd (st d)"
    using pp_invD(5) [OF inv d(1)] by (simp add: entry_ok_def)
  with h d reg have "d = c" by simp
  with d show "i = nat (ch_index (st c))" by simp
qed (use pp_invD(5) [OF inv reg] in \<open>simp add: entry_ok_def\<close>)

lemma pp_index_inj:
  assumes inv: "pp_inv (st, p)" and c: "pp_channels p fd = Some c" and d: "pp_channels p g = Some d"
    and idx: "nat (ch_index (st d)) = nat (ch_index (st c))"
  shows "d = c"
proof -
  have "g = fd" using pp_invD(5) [OF inv c] pp_invD(5) [OF inv d] idx by (simp add: entry_ok_def)
  with c d show ?thesis by simp
qed

lemma pp_unregistered:
  assumes inv: "pp_inv (st, p)" and "pp_channels p fd = None" and i: "i < length (pollfds p)"
  shows "hidden_fd (pfd_fd (pollfds p ! i)) \<noteq> fd"
proof -
  obtain d where d: "pp_channels p (ch_fd (st d)) = Some d" "ch_index (st d) = int i"
    using pp_invE [OF inv i] .
  then have "hidden_fd (pfd_fd (pollfds p ! i)) = ch_fd (st d)"
    using pp_invD(5) [OF inv d(1)] by (simp add: entry_ok_def)
  with d assms(2) show ?thesis by auto
qed

lemma find_update_miss: "\<not> P (xs ! i) \<Longrightarrow> \<not> P y \<Longrightarrow> i < length xs \<Longrightarrow> find P (xs[i := y]) = find P xs"
proof (induction xs arbitrary: i)
  case (Cons x xs)
  then show ?case by (cases i) auto
qed simp

lemma find_single: "i < length xs \<Longrightarrow> P (xs ! i) \<Longrightarrow> (\<And>j. j < length xs \<Longrightarrow> P (xs ! j) \<Longrightarrow> j = i) \<Longrightarrow> find P xs = Some (xs ! i)"
  unfolding find_Some_iff by (intro exI [of _ i]) (metis less_trans less_irrefl)

lemma find_none: "(\<And>j. j < length xs \<Longrightarrow> \<not> P (xs ! j)) \<Longrightarrow> find P xs = None"
  by (auto simp: find_None_iff in_set_conv_nth)

lemma find_snoc: "find P (xs @ [x]) = (case find P xs of None \<Rightarrow> if P x then Some x else None | Some y \<Rightarrow> Some y)"
  by (induction xs) auto

lemma mask_ucast: "e \<in> set ev_masks \<Longrightarrow> ucast (ucast (e :: events) :: 16 word) = e"
  by (auto simp: ev_masks_def)

lemma pp_watched_eq: "0 \<le> fd \<Longrightarrow> pp_watched p fd = map_option (\<lambda>pfd. ucast (pfd_events pfd)) (find (\<lambda>pfd. pfd_fd pfd = fd) (pollfds p))"
  by (simp add: pp_watched_def)

subsubsection \<open>\<open>updateChannel\<close>\<close>

definition new_entry :: "channel \<Rightarrow> pollfd" where
  "new_entry ch = \<lparr>pfd_fd = ch_fd ch, pfd_events = ucast (ch_events ch), pfd_revents = 0\<rparr>"

definition upd_entry :: "channel \<Rightarrow> pollfd" where
  "upd_entry ch = (if ch_events ch = 0 then (new_entry ch)\<lparr>pfd_fd := - ch_fd ch - 1\<rparr> else new_entry ch)"

lemma entry_ok_new: "0 \<le> ch_fd ch \<Longrightarrow> entry_ok (ch_fd ch) (new_entry ch)" "0 \<le> ch_fd ch \<Longrightarrow> entry_ok (ch_fd ch) (upd_entry ch)"
  by (auto simp: entry_ok_def new_entry_def upd_entry_def)

lemma pp_register_law:
  assumes inv: "pp_inv (st, p)" and reg: "pp_channels p (ch_fd (st c)) = None" "ch_index (st c) = -1"
    and fd: "0 \<le> ch_fd (st c)" and mask: "ch_events (st c) \<in> set ev_masks"
  defines "st' \<equiv> set_index c (int (length (pollfds p))) st"
    and "p' \<equiv> p\<lparr>pollfds := pollfds p @ [new_entry (st c)], pp_channels := (pp_channels p)(ch_fd (st c) \<mapsto> c)\<rparr>"
  shows "pp_updateChannel c (st, p) = Inr (st', p')" and "pp_inv (st', p')"
    and "pp_watched p' = (pp_watched p)(ch_fd (st c) \<mapsto> ch_events (st c))"
proof -
  show "pp_updateChannel c (st, p) = Inr (st', p')"
    using reg by (simp add: pp_updateChannel_def st'_def p'_def new_entry_def Let_def)
  have ne: "pp_channels p g = Some d \<Longrightarrow> d \<noteq> c" for g d
    using pp_invD(1) [OF inv, of g d] reg(1) by auto
  show "pp_inv (st', p')"
  proof (rule pp_invI)
    fix g d assume "pp_channels p' g = Some d"
    then consider "d = c" "g = ch_fd (st c)" | "pp_channels p g = Some d"
      by (cases "g = ch_fd (st c)") (simp_all add: p'_def)
    then show "ch_fd (st' d) = g \<and> 0 \<le> g \<and> 0 \<le> ch_index (st' d) \<and> ch_index (st' d) < int (length (pollfds p')) \<and>
        entry_ok g (pollfds p' ! nat (ch_index (st' d)))"
    proof cases
      case 1
      then show ?thesis using fd entry_ok_new(1) by (simp add: st'_def p'_def)
    next
      case 2
      then show ?thesis using pp_invD [OF inv 2] ne [OF 2] by (auto simp: st'_def p'_def nth_append)
    qed
  next
    fix i assume i: "i < length (pollfds p')"
    show "\<exists>d. pp_channels p' (ch_fd (st' d)) = Some d \<and> ch_index (st' d) = int i"
    proof (cases "i = length (pollfds p)")
      case True
      then show ?thesis by (intro exI [of _ c]) (simp add: st'_def p'_def)
    next
      case False
      with i have "i < length (pollfds p)" by (simp add: p'_def)
      then obtain d where d: "pp_channels p (ch_fd (st d)) = Some d" "ch_index (st d) = int i"
        using pp_invE [OF inv] by blast
      with ne [OF d(1)] reg(1) show ?thesis by (intro exI [of _ d]) (auto simp: st'_def p'_def)
    qed
  qed
  have none: "find (\<lambda>pfd. pfd_fd pfd = ch_fd (st c)) (pollfds p) = None"
    by (rule find_none) (metis pp_unregistered [OF inv reg(1)] fd hidden_fd_simps(1))
  show "pp_watched p' = (pp_watched p)(ch_fd (st c) \<mapsto> ch_events (st c))"
    using none fd mask_ucast [OF mask]
    by (auto simp: fun_eq_iff pp_watched_def p'_def find_snoc new_entry_def split: option.splits)
qed

lemma pp_change_law:
  assumes inv: "pp_inv (st, p)" and reg: "pp_channels p (ch_fd (st c)) = Some c"
    and mask: "ch_events (st c) \<in> set ev_masks"
  defines "p' \<equiv> p\<lparr>pollfds := (pollfds p)[nat (ch_index (st c)) := upd_entry (st c)]\<rparr>"
  shows "pp_updateChannel c (st, p) = Inr (st, p')" and "pp_inv (st, p')"
    and "pp_watched p' = (pp_watched p)(ch_fd (st c) := if ch_events (st c) = 0 then None else Some (ch_events (st c)))"
proof -
  let ?i = "nat (ch_index (st c))" and ?fd = "ch_fd (st c)"
  note c = pp_invD [OF inv reg]
  have cases: "pfd_fd (pollfds p ! ?i) = ?fd \<or> pfd_fd (pollfds p ! ?i) = - ?fd - 1"
    using c(5) by (auto simp: entry_ok_def hidden_fd_def split: if_splits)
  show "pp_updateChannel c (st, p) = Inr (st, p')"
    using c(3,4) cases reg
    by (auto simp: pp_updateChannel_def p'_def upd_entry_def new_entry_def isNoneEvent_def kNoneEvent_def Let_def)
  show "pp_inv (st, p')"
  proof (rule pp_invI)
    fix g d assume "pp_channels p' g = Some d"
    then have d: "pp_channels p g = Some d" by (simp add: p'_def)
    note dd = pp_invD [OF inv d]
    have "nat (ch_index (st d)) = ?i \<Longrightarrow> g = ?fd"
      using dd(5) c(5) by (simp add: entry_ok_def)
    then show "ch_fd (st d) = g \<and> 0 \<le> g \<and> 0 \<le> ch_index (st d) \<and> ch_index (st d) < int (length (pollfds p')) \<and>
        entry_ok g (pollfds p' ! nat (ch_index (st d)))"
      using dd c(2) entry_ok_new(2) [of "st c"]
      by (cases "nat (ch_index (st d)) = ?i") (simp_all add: p'_def)
  next
    show "\<exists>d. pp_channels p' (ch_fd (st d)) = Some d \<and> ch_index (st d) = int i" if "i < length (pollfds p')" for i
      using that pp_invE [OF inv, of i] by (auto simp: p'_def)
  qed
  have "pp_watched p' g = ((pp_watched p)(?fd := if ch_events (st c) = 0 then None else Some (ch_events (st c)))) g" for g
  proof (cases "g = ?fd")
    case True
    have pos: "j < length (pollfds p') \<Longrightarrow> pfd_fd (pollfds p' ! j) = ?fd \<Longrightarrow> j = ?i" for j
      using pp_position [OF inv reg, of j] c(2) by (cases "j = ?i") (auto simp: p'_def nth_list_update hidden_fd_def)
    show ?thesis
    proof (cases "ch_events (st c) = 0")
      case z: True
      have "find (\<lambda>pfd. pfd_fd pfd = ?fd) (pollfds p') = None"
      proof (rule find_none)
        have "pfd_fd (pollfds p' ! ?i) \<noteq> ?fd" using c(2,4) z by (simp add: p'_def upd_entry_def)
        then show "pfd_fd (pollfds p' ! j) \<noteq> ?fd" if "j < length (pollfds p')" for j
          using pos that by blast
      qed
      with True z show ?thesis by (simp add: pp_watched_def)
    next
      case nz: False
      have "find (\<lambda>pfd. pfd_fd pfd = ?fd) (pollfds p') = Some (pollfds p' ! ?i)"
      proof (rule find_single)
        show "?i < length (pollfds p')" "pfd_fd (pollfds p' ! ?i) = ?fd"
          using c(4) nz by (simp_all add: p'_def upd_entry_def new_entry_def)
      qed (rule pos)
      with True nz c(2,4) mask_ucast [OF mask] show ?thesis
        by (simp add: pp_watched_def p'_def upd_entry_def new_entry_def)
    qed
  next
    case False
    have "find (\<lambda>pfd. pfd_fd pfd = g) (pollfds p') = find (\<lambda>pfd. pfd_fd pfd = g) (pollfds p)" if "0 \<le> g"
      unfolding p'_def by (simp, rule find_update_miss) (use False cases c(2,4) that in \<open>auto simp: upd_entry_def new_entry_def\<close>)
    with False show ?thesis by (simp add: pp_watched_def)
  qed
  then show "pp_watched p' = (pp_watched p)(?fd := if ch_events (st c) = 0 then None else Some (ch_events (st c)))"
    by (rule ext)
qed

subsubsection \<open>\<open>removeChannel\<close>\<close>

lemma find_swap_last:
  assumes "i < length ys" and "\<not> P (ys ! i)" and "P l \<Longrightarrow> \<forall>y \<in> set ys. \<not> P y"
  shows "find P (ys[i := l]) = find P (ys @ [l])"
proof (cases "P l")
  case True
  then have none: "\<not> P (ys ! j)" if "j < length ys" for j using assms(3) that by simp
  have "find P (ys[i := l]) = Some (ys[i := l] ! i)"
    by (rule find_single) (use True assms(1) none in \<open>auto simp: nth_list_update split: if_splits\<close>)
  moreover have "find P ys = None" using none by (rule find_none)
  ultimately show ?thesis using assms(1) True by (simp add: find_snoc)
next
  case False
  then show ?thesis
    using find_update_miss [of P ys i l] assms(1,2) by (simp add: find_snoc split: option.splits)
qed

lemma pp_remove_swap:
  assumes inv: "pp_inv (st, p)" and reg: "pp_channels p (ch_fd (st c)) = Some c" and ev: "ch_events (st c) = 0"
    and hid: "pfd_fd (pollfds p ! nat (ch_index (st c))) < 0"
    and pfds: "pollfds p = ys @ [l]" and i: "nat (ch_index (st c)) < length ys"
    and e: "pp_channels p (hidden_fd (pfd_fd l)) = Some e" "ch_index (st e) = int (length ys)"
  defines "st' \<equiv> set_index e (ch_index (st c)) st"
    and "p' \<equiv> p\<lparr>pp_channels := (pp_channels p)(ch_fd (st c) := None), pollfds := ys[nat (ch_index (st c)) := l]\<rparr>"
  shows "pp_removeChannel c (st, p) = Inr (st', p')" and "pp_inv (st', p')" and "pp_watched p' = pp_watched p"
proof -
  let ?i = "nat (ch_index (st c))" and ?fd = "ch_fd (st c)"
  note c = pp_invD [OF inv reg] and ee = pp_invD [OF inv e(1)]
  have neq: "e \<noteq> c" using e(2) i c(3) by auto
  then have fdne: "hidden_fd (pfd_fd l) \<noteq> ?fd" using e(1) reg by auto
  have i_int: "ch_index (st c) = int ?i" using c(3) by simp
  have ent: "pfd_fd (ys ! ?i) = - ?fd - 1" "pfd_events (ys ! ?i) = 0"
    using c(5) hid i by (auto simp: pfds nth_append entry_ok_def hidden_fd_def)
  have swap: "butlast ((ys @ [l])[?i := l, length ys := ys ! ?i]) = ys[?i := l]"
    using i by (simp add: list_update_append)
  have "pp_channels p (if pfd_fd l < 0 then - pfd_fd l - 1 else pfd_fd l) = Some e"
    and "(if pfd_fd l < 0 then - pfd_fd l - 1 else pfd_fd l) \<noteq> ?fd"
    using e(1) fdne by (auto simp: hidden_fd_def)
  then show "pp_removeChannel c (st, p) = Inr (st', p')"
    using reg ev i less_imp_neq [OF i] ent c(3) swap
    unfolding pp_removeChannel_def st'_def p'_def
    by (simp add: pfds nth_append isNoneEvent_def kNoneEvent_def Let_def nat_less_iff)
  have pos: "nat (ch_index (st d)) = ?i \<Longrightarrow> d = c" if "pp_channels p g = Some d" for g d
    using pp_index_inj [OF inv reg that] .
  have last: "nat (ch_index (st d)) = length ys \<Longrightarrow> d = e" if "pp_channels p g = Some d" for g d
    using pp_index_inj [OF inv e(1) that] e(2) by simp
  show "pp_inv (st', p')"
  proof (rule pp_invI)
    fix g d assume "pp_channels p' g = Some d"
    then have d: "pp_channels p g = Some d" and "g \<noteq> ?fd" by (auto simp: p'_def split: if_splits)
    note dd = pp_invD [OF inv d]
    have dc: "d \<noteq> c" using dd(1) \<open>g \<noteq> ?fd\<close> by auto
    show "ch_fd (st' d) = g \<and> 0 \<le> g \<and> 0 \<le> ch_index (st' d) \<and> ch_index (st' d) < int (length (pollfds p')) \<and>
        entry_ok g (pollfds p' ! nat (ch_index (st' d)))"
    proof (cases "d = e")
      case True
      with ee(5) dd(1) ee(1) have "entry_ok g l" using e(2) by (simp add: pfds)
      with True dd(1,2) c(3) i show ?thesis by (simp add: st'_def p'_def nat_less_iff)
    next
      case False
      then have "nat (ch_index (st d)) < length ys" "nat (ch_index (st d)) \<noteq> ?i"
        using dd(4) pos [OF d] last [OF d] dc by (auto simp: pfds less_Suc_eq)
      with dd False show ?thesis by (auto simp: st'_def p'_def pfds nth_append)
    qed
  next
    fix k assume "k < length (pollfds p')"
    then have k: "k < length ys" by (simp add: p'_def)
    show "\<exists>d. pp_channels p' (ch_fd (st' d)) = Some d \<and> ch_index (st' d) = int k"
    proof (cases "k = ?i")
      case True
      then show ?thesis using e ee(1) fdne i_int by (intro exI [of _ e]) (simp add: st'_def p'_def)
    next
      case False
      obtain d where d: "pp_channels p (ch_fd (st d)) = Some d" "ch_index (st d) = int k"
        using pp_invE [OF inv, of k] k by (auto simp: pfds)
      have "d \<noteq> e" "d \<noteq> c" using d(2) e(2) k False by auto
      moreover from \<open>d \<noteq> c\<close> have "ch_fd (st d) \<noteq> ?fd" using d(1) reg by auto
      ultimately show ?thesis using d by (intro exI [of _ d]) (simp add: st'_def p'_def)
    qed
  qed
  have "find (\<lambda>pfd. pfd_fd pfd = g) (pollfds p') = find (\<lambda>pfd. pfd_fd pfd = g) (pollfds p)" if "0 \<le> g" for g
  proof -
    have "find (\<lambda>pfd. pfd_fd pfd = g) (ys[?i := l]) = find (\<lambda>pfd. pfd_fd pfd = g) (ys @ [l])"
    proof (rule find_swap_last [OF i])
      show "pfd_fd (ys ! ?i) \<noteq> g" using ent(1) c(2) that by simp
      show "\<forall>y \<in> set ys. pfd_fd y \<noteq> g" if lg: "pfd_fd l = g"
      proof
        fix y assume "y \<in> set ys"
        then obtain j where j: "j < length ys" "y = ys ! j" by (auto simp: in_set_conv_nth)
        have "hidden_fd (pfd_fd l) = g" using lg \<open>0 \<le> g\<close> by simp
        with pp_position [OF inv e(1), of j] e(2) j have "hidden_fd (pfd_fd y) \<noteq> g"
          by (simp add: pfds nth_append)
        then show "pfd_fd y \<noteq> g" using \<open>0 \<le> g\<close> by auto
      qed
    qed
    then show ?thesis by (simp add: p'_def pfds)
  qed
  then show "pp_watched p' = pp_watched p" by (auto simp: fun_eq_iff pp_watched_def)
qed

lemma pp_remove_last:
  assumes inv: "pp_inv (st, p)" and reg: "pp_channels p (ch_fd (st c)) = Some c" and ev: "ch_events (st c) = 0"
    and pfds: "pollfds p = ys @ [l]" and i: "nat (ch_index (st c)) = length ys" and hid: "pfd_fd l < 0"
  defines "p' \<equiv> p\<lparr>pp_channels := (pp_channels p)(ch_fd (st c) := None), pollfds := ys\<rparr>"
  shows "pp_removeChannel c (st, p) = Inr (st, p')" and "pp_inv (st, p')" and "pp_watched p' = pp_watched p"
proof -
  let ?fd = "ch_fd (st c)"
  note c = pp_invD [OF inv reg]
  have ent: "pfd_fd l = - ?fd - 1" "pfd_events l = 0"
    using c(5) hid i by (auto simp: pfds entry_ok_def hidden_fd_def)
  show "pp_removeChannel c (st, p) = Inr (st, p')"
    using reg ev i ent c(3) unfolding pp_removeChannel_def p'_def
    by (simp add: pfds isNoneEvent_def kNoneEvent_def Let_def nat_less_iff)
  have pos: "nat (ch_index (st d)) = length ys \<Longrightarrow> d = c" if "pp_channels p g = Some d" for g d
    using pp_index_inj [OF inv reg that] i by simp
  show "pp_inv (st, p')"
  proof (rule pp_invI)
    fix g d assume "pp_channels p' g = Some d"
    then have d: "pp_channels p g = Some d" and "g \<noteq> ?fd" by (auto simp: p'_def split: if_splits)
    note dd = pp_invD [OF inv d]
    have "d \<noteq> c" using dd(1) \<open>g \<noteq> ?fd\<close> by auto
    then have "nat (ch_index (st d)) < length ys"
      using dd(4) pos [OF d] by (auto simp: pfds less_Suc_eq)
    with dd show "ch_fd (st d) = g \<and> 0 \<le> g \<and> 0 \<le> ch_index (st d) \<and> ch_index (st d) < int (length (pollfds p')) \<and>
        entry_ok g (pollfds p' ! nat (ch_index (st d)))"
      by (auto simp: p'_def pfds nth_append)
  next
    fix k assume "k < length (pollfds p')"
    then have k: "k < length ys" by (simp add: p'_def)
    obtain d where d: "pp_channels p (ch_fd (st d)) = Some d" "ch_index (st d) = int k"
      using pp_invE [OF inv, of k] k by (auto simp: pfds)
    have "d \<noteq> c" using d(2) i k by auto
    then have "ch_fd (st d) \<noteq> ?fd" using d(1) reg by auto
    with d show "\<exists>d. pp_channels p' (ch_fd (st d)) = Some d \<and> ch_index (st d) = int k"
      by (intro exI [of _ d]) (simp add: p'_def)
  qed
  show "pp_watched p' = pp_watched p"
    using hid by (auto simp: fun_eq_iff pp_watched_def p'_def pfds find_snoc split: option.splits)
qed

lemma pp_update_law:
  assumes inv: "pp_inv (st, p)"
    and reg: "pp_channels p (ch_fd (st c)) = Some c \<or> pp_channels p (ch_fd (st c)) = None \<and> ch_index (st c) = -1"
    and fd: "0 \<le> ch_fd (st c)" and mask: "ch_events (st c) \<in> set ev_masks"
  shows "\<exists>st' p' w. pp_updateChannel c (st, p) = Inr (st', p') \<and> pp_inv (st', p') \<and> same_but_index st st' \<and>
    others_keep_index pp_channels c (st, p) st' \<and>
    pp_channels p' = (pp_channels p)(ch_fd (st c) \<mapsto> c) \<and> pp_watched p' = (pp_watched p)(ch_fd (st c) := w) \<and>
    (ch_events (st c) \<noteq> 0 \<longrightarrow> w = Some (ch_events (st c))) \<and>
    (ch_events (st c) = 0 \<longrightarrow> w \<in> {None, Some 0}) \<and>
    (ch_events (st c) = 0 \<and> pp_watched p (ch_fd (st c)) \<noteq> None \<longrightarrow> w = None)"
  using reg
proof
  assume c: "pp_channels p (ch_fd (st c)) = Some c"
  note change = pp_change_law [OF inv c mask]
  show ?thesis
    by (intro exI [of _ st] exI [of _ "p\<lparr>pollfds := (pollfds p)[nat (ch_index (st c)) := upd_entry (st c)]\<rparr>"]
        exI [of _ "if ch_events (st c) = 0 then None else Some (ch_events (st c))"])
      (simp add: change c fun_upd_idem others_keep_index_def)
next
  assume c: "pp_channels p (ch_fd (st c)) = None \<and> ch_index (st c) = -1"
  note regl = pp_register_law [OF inv conjunct1 [OF c] conjunct2 [OF c] fd mask]
  have none: "pp_watched p (ch_fd (st c)) = None"
  proof -
    have "find (\<lambda>pfd. pfd_fd pfd = ch_fd (st c)) (pollfds p) = None"
      by (rule find_none) (metis pp_unregistered [OF inv conjunct1 [OF c]] fd hidden_fd_simps(1))
    then show ?thesis by (simp add: pp_watched_def)
  qed
  show ?thesis
    by (intro exI [of _ "set_index c (int (length (pollfds p))) st"]
        exI [of _ "p\<lparr>pollfds := pollfds p @ [new_entry (st c)], pp_channels := (pp_channels p)(ch_fd (st c) \<mapsto> c)\<rparr>"]
        exI [of _ "Some (ch_events (st c))"])
      (simp add: regl none others_keep_index_def)
qed

lemma pp_remove_law:
  assumes inv: "pp_inv (st, p)" and reg: "pp_channels p (ch_fd (st c)) = Some c"
    and ev: "ch_events (st c) = 0" and unwatched: "pp_watched p (ch_fd (st c)) = None"
  shows "\<exists>st' p'. pp_removeChannel c (st, p) = Inr (st', p') \<and> pp_inv (st', p') \<and> same_but_index st st' \<and>
    others_keep_index pp_channels c (st, p) st' \<and>
    pp_channels p' = (pp_channels p)(ch_fd (st c) := None) \<and> pp_watched p' = pp_watched p"
proof -
  let ?i = "nat (ch_index (st c))"
  note c = pp_invD [OF inv reg]
  have hid: "pfd_fd (pollfds p ! ?i) < 0"
  proof (rule ccontr)
    assume "\<not> pfd_fd (pollfds p ! ?i) < 0"
    then have "pfd_fd (pollfds p ! ?i) = ch_fd (st c)" using c(5) by (simp add: entry_ok_def)
    then have "find (\<lambda>pfd. pfd_fd pfd = ch_fd (st c)) (pollfds p) \<noteq> None"
      using c(4) by (auto simp: find_None_iff in_set_conv_nth)
    with unwatched c(2) show False by (simp add: pp_watched_def)
  qed
  obtain ys l where pfds: "pollfds p = ys @ [l]"
    using c(4) by (cases "pollfds p" rule: rev_cases) auto
  show ?thesis
  proof (cases "?i = length ys")
    case True
    with hid have "pfd_fd l < 0" by (simp add: pfds)
    note rm = pp_remove_last [OF inv reg ev pfds True this]
    show ?thesis
      by (intro exI [of _ st] exI [of _ "p\<lparr>pp_channels := (pp_channels p)(ch_fd (st c) := None), pollfds := ys\<rparr>"])
        (simp add: rm others_keep_index_def)
  next
    case False
    then have i: "?i < length ys" using c(4) by (simp add: pfds)
    obtain e where e: "pp_channels p (ch_fd (st e)) = Some e" "ch_index (st e) = int (length ys)"
      using pp_invE [OF inv, of "length ys"] by (auto simp: pfds)
    then have "hidden_fd (pfd_fd l) = ch_fd (st e)"
      using pp_invD(5) [OF inv e(1)] by (simp add: entry_ok_def pfds)
    with e have e': "pp_channels p (hidden_fd (pfd_fd l)) = Some e" by simp
    note rm = pp_remove_swap [OF inv reg ev hid pfds i e' e(2)]
    show ?thesis
      by (intro exI [of _ "set_index e (ch_index (st c)) st"]
          exI [of _ "p\<lparr>pp_channels := (pp_channels p)(ch_fd (st c) := None), pollfds := ys[?i := l]\<rparr>"])
        (use e(1) in \<open>auto simp: rm others_keep_index_def\<close>)
  qed
qed

interpretation ppp: poller pp_inv pp_updateChannel pp_removeChannel pp_channels pp_watched
proof
  show "pp_inv (st', p)" if "pp_inv (st, p)" "store_fds_same st st'" for st st' p
    using that by (rule pp_inv_local)
qed (rule pp_update_law pp_remove_law, assumption+)+


subsection \<open>What the owners of channels get\<close>

definition fresh_store :: "chstore \<Rightarrow> bool" where
  "fresh_store st \<longleftrightarrow> inj (\<lambda>c. ch_fd (st c)) \<and>
     (\<forall>c. 0 \<le> ch_fd (st c) \<and> ch_events (st c) = 0 \<and> ch_index (st c) = -1)"

lemma ep_start:
  "fresh_store st \<Longrightarrow> ep_inv (st, EPollPoller_new)"
  "fresh_store st \<Longrightarrow> tracks ep_channels ep_watched (\<lambda>_. Fresh) (st, EPollPoller_new)"
  by (auto simp: fresh_store_def ep_inv_def tracks_def EPollPoller_new_def ep_watched_def k_defs
      is_registered_def ev_masks_def)

lemma pp_start:
  "fresh_store st \<Longrightarrow> pp_inv (st, PollPoller_new)"
  "fresh_store st \<Longrightarrow> tracks pp_channels pp_watched (\<lambda>_. Fresh) (st, PollPoller_new)"
  by (auto simp: fresh_store_def pp_inv_def tracks_def PollPoller_new_def pp_watched_def
      is_registered_def ev_masks_def)

lemma tracks_watch:
  assumes "tracks regd watched sp (st, p)" and "e \<noteq> 0"
  shows "watched p (ch_fd (st c)) = Some e \<longleftrightarrow> status_mask (sp c) = e"
proof -
  have "(status_mask (sp c) \<noteq> 0 \<longrightarrow> watched p (ch_fd (st c)) = Some (status_mask (sp c))) \<and>
      (status_mask (sp c) = 0 \<longrightarrow> watched p (ch_fd (st c)) \<in> {None, Some 0})"
    using assms(1) unfolding tracks_def Let_def by auto
  with assms(2) show ?thesis by (cases "status_mask (sp c) = 0") auto
qed

text \<open>C12: The two pollers are interchangeable. For any sequence of interest changes and removals on
  freshly constructed channels with distinct descriptors (a channel is removed only right after its last
  interest was disabled, and not used afterwards), both \<open>EPollPoller\<close> and \<open>PollPoller\<close> run without a
  failed assertion or a fatal \<open>epoll_ctl\<close> error, and in both the kernel ends up watching exactly the
  events each channel asked for.\<close>

theorem pollers_track_interest:
  assumes "fresh_store st" and "spec_run ops (\<lambda>_. Fresh) = Some sp"
  shows "\<exists>st1 p1 st2 p2. ch_run ep_updateChannel ep_removeChannel ops (st, EPollPoller_new) = Inr (st1, p1) \<and>
    ch_run pp_updateChannel pp_removeChannel ops (st, PollPoller_new) = Inr (st2, p2) \<and>
    (\<forall>c e. e \<noteq> 0 \<longrightarrow>
      (ep_watched p1 (ch_fd (st1 c)) = Some e \<longleftrightarrow> status_mask (sp c) = e) \<and>
      (pp_watched p2 (ch_fd (st2 c)) = Some e \<longleftrightarrow> status_mask (sp c) = e))"
proof -
  obtain st1 p1 where 1: "ch_run ep_updateChannel ep_removeChannel ops (st, EPollPoller_new) = Inr (st1, p1)"
      "tracks ep_channels ep_watched sp (st1, p1)"
    using epp.run_law [OF ep_start [OF assms(1)] assms(2)] by auto
  obtain st2 p2 where 2: "ch_run pp_updateChannel pp_removeChannel ops (st, PollPoller_new) = Inr (st2, p2)"
      "tracks pp_channels pp_watched sp (st2, p2)"
    using ppp.run_law [OF pp_start [OF assms(1)] assms(2)] by auto
  show ?thesis
    using 1 2 tracks_watch [OF 1(2)] tracks_watch [OF 2(2)] by blast
qed

definition sample_store :: chstore where
  "sample_store c = Channel_new (int c)"

theorem pollers_track_interest_witness:
  "\<exists>st1 p1 st2 p2.
    ch_run ep_updateChannel ep_removeChannel
      [Interest 5 EnableReading, Interest 6 EnableReading, Interest 6 EnableWriting, Interest 5 DisableAll, Remove 5]
      (sample_store, EPollPoller_new) = Inr (st1, p1) \<and>
    ch_run pp_updateChannel pp_removeChannel
      [Interest 5 EnableReading, Interest 6 EnableReading, Interest 6 EnableWriting, Interest 5 DisableAll, Remove 5]
      (sample_store, PollPoller_new) = Inr (st2, p2) \<and>
    ep_watched p1 (ch_fd (st1 6)) = Some 7 \<and> pp_watched p2 (ch_fd (st2 6)) = Some 7"
proof -
  let ?ops = "[Interest 5 EnableReading, Interest 6 EnableReading, Interest 6 EnableWriting, Interest 5 DisableAll, Remove 5]"
  have fresh: "fresh_store sample_store"
    by (auto simp: fresh_store_def sample_store_def Channel_new_def inj_def)
  have "spec_run ?ops (\<lambda>_. Fresh) = Some ((\<lambda>_. Fresh)(6 := Registered 7 False, 5 := Removed))"
    by (auto simp: kReadEvent_def kWriteEvent_def kNoneEvent_def poll_bits fun_eq_iff)
  from pollers_track_interest [OF fresh this] obtain st1 p1 st2 p2 where
    r: "ch_run ep_updateChannel ep_removeChannel ?ops (sample_store, EPollPoller_new) = Inr (st1, p1)"
      "ch_run pp_updateChannel pp_removeChannel ?ops (sample_store, PollPoller_new) = Inr (st2, p2)"
    and w: "\<And>c e. e \<noteq> 0 \<Longrightarrow>
      (ep_watched p1 (ch_fd (st1 c)) = Some e \<longleftrightarrow> status_mask (((\<lambda>_. Fresh)(6 := Registered 7 False, 5 := Removed)) c) = e) \<and>
      (pp_watched p2 (ch_fd (st2 c)) = Some e \<longleftrightarrow> status_mask (((\<lambda>_. Fresh)(6 := Registered 7 False, 5 := Removed)) c) = e)"
    by auto
  from w [of 7 6] have "ep_watched p1 (ch_fd (st1 6)) = Some 7 \<and> pp_watched p2 (ch_fd (st2 6)) = Some 7" by simp
  with r show ?thesis by blast
qed

end
