(* ===== verification/TimerQueue.thy ===== *)
theory TimerQueue
  imports Text "HOL-Library.Product_Lexorder"
begin

section \<open>Timers (\<open>net/TimerQueue.cc\<close>, \<open>net/Timer.cc\<close>, \<open>base/Timestamp.h\<close>)\<close>

text \<open>
  A timer queue keeps the pending timers in a set ordered by expiration and address, a second set to
  look them up by address and sequence number, and one timer descriptor armed for the earliest
  expiration. Timers are heap objects: \<open>heap\<close> is the set of live ones, and dereferencing a dead one is
  undefined behaviour. Times are microseconds; an interval is its length in microseconds together with
  the flag \<open>interval > 0.0\<close>. The callbacks of expired timers may add and cancel timers; they are
  given as lists of such actions. \<open>armed\<close> is the expiration the timer descriptor was last set for,
  \<open>None\<close> once it has fired.
\<close>

type_synonym timer_ptr = nat

definition UINTPTR_MAX :: nat where "UINTPTR_MAX = 2 ^ 64 - 1"

record timer =
  expiration :: int
  interval_us :: int
  repeat :: bool
  sequence :: int

record timerqueue =
  timers :: "(int \<times> timer_ptr) list"
  activeTimers :: "(timer_ptr \<times> int) set"
  callingExpiredTimers :: bool
  cancelingTimers :: "(timer_ptr \<times> int) set"
  heap :: "timer_ptr \<rightharpoonup> timer"
  armed :: "int option"

definition timer_restart :: "int \<Rightarrow> timer \<Rightarrow> timer" where
  "timer_restart now tm = tm\<lparr>expiration := if repeat tm then now + interval_us tm else 0\<rparr>"

definition deref_timer :: "timer_ptr \<Rightarrow> timerqueue \<Rightarrow> timer res" where
  "deref_timer t q = (case heap q t of None \<Rightarrow> Inl UndefinedBehaviour | Some tm \<Rightarrow> Inr tm)"

definition sizes_agree :: "timerqueue \<Rightarrow> bool" where
  "sizes_agree q \<longleftrightarrow> length (timers q) = card (activeTimers q)"

definition tq_insert :: "timer_ptr \<Rightarrow> timerqueue \<Rightarrow> (bool \<times> timerqueue) res" where
  "tq_insert t q =
     cassert (sizes_agree q)
     (rbind (deref_timer t q) (\<lambda>tm.
      let when = expiration tm;
          earliestChanged = (timers q = [] \<or> when < fst (hd (timers q)))
      in cassert ((when, t) \<notin> set (timers q))
         (cassert ((t, sequence tm) \<notin> activeTimers q)
         (let q = q\<lparr>timers := insort (when, t) (timers q), activeTimers := insert (t, sequence tm) (activeTimers q)\<rparr>
          in cassert (sizes_agree q) (Inr (earliestChanged, q))))))"

text \<open>\<open>resetTimerfd\<close> sets the descriptor for an expiration, which \<open>armed\<close> records as it was requested. \<open>timerfd_settime\<close> is called with the time from the moment
  of the call (\<open>now\<close>) to it, at least 100 microseconds; that it may fail is only logged.\<close>

definition resetTimerfd :: "int \<Rightarrow> timerqueue \<Rightarrow> timerqueue" where
  "resetTimerfd expire q = q\<lparr>armed := Some expire\<rparr>"

definition howMuchTimeFromNow :: "int \<Rightarrow> int \<Rightarrow> int \<times> int" where
  "howMuchTimeFromNow when now =
     (let microseconds = (if when - now < 100 then 100 else when - now)
      in (microseconds sdiv 1000000, (microseconds smod 1000000) * 1000))"

definition timerfd_value :: "int \<Rightarrow> int \<Rightarrow> timerqueue \<Rightarrow> (int \<times> int) option" where
  "timerfd_value now expire q = map_option (\<lambda>e. howMuchTimeFromNow e now) (armed (resetTimerfd expire q))"

definition addTimerInLoop :: "timer_ptr \<Rightarrow> timerqueue \<Rightarrow> timerqueue res" where
  "addTimerInLoop t q =
     rbind (tq_insert t q) (\<lambda>(earliestChanged, q).
     if earliestChanged
     then rbind (deref_timer t q) (\<lambda>tm. Inr (resetTimerfd (expiration tm) q))
     else Inr q)"

text \<open>\<open>addTimer\<close> allocates the timer: the address is any that is free.\<close>

definition addTimer :: "timer_ptr \<Rightarrow> timer \<Rightarrow> timerqueue \<Rightarrow> timerqueue res" where
  "addTimer t tm q = addTimerInLoop t (q\<lparr>heap := (heap q)(t \<mapsto> tm)\<rparr>)"

definition cancelInLoop :: "timer_ptr \<times> int \<Rightarrow> timerqueue \<Rightarrow> timerqueue res" where
  "cancelInLoop timerId q =
     cassert (sizes_agree q)
     (rbind
       (if timerId \<in> activeTimers q
        then rbind (deref_timer (fst timerId) q) (\<lambda>tm.
             cassert ((expiration tm, fst timerId) \<in> set (timers q))
             (Inr (q\<lparr>timers := remove1 (expiration tm, fst timerId) (timers q),
                     heap := (heap q)(fst timerId := None),
                     activeTimers := activeTimers q - {timerId}\<rparr>)))
        else if callingExpiredTimers q
        then Inr (q\<lparr>cancelingTimers := insert timerId (cancelingTimers q)\<rparr>)
        else Inr q) (\<lambda>q. cassert (sizes_agree q) (Inr q)))"

fun erase_active :: "(int \<times> timer_ptr) list \<Rightarrow> timerqueue \<Rightarrow> timerqueue res" where
  "erase_active [] q = Inr q"
| "erase_active (e # es) q =
     rbind (deref_timer (snd e) q) (\<lambda>tm.
     cassert ((snd e, sequence tm) \<in> activeTimers q)
     (erase_active es (q\<lparr>activeTimers := activeTimers q - {(snd e, sequence tm)}\<rparr>)))"

definition getExpired :: "int \<Rightarrow> timerqueue \<Rightarrow> ((int \<times> timer_ptr) list \<times> timerqueue) res" where
  "getExpired now q =
     cassert (sizes_agree q)
     (let sentry = (now, UINTPTR_MAX);
          expired = takeWhile (\<lambda>e. e < sentry) (timers q);
          rest = dropWhile (\<lambda>e. e < sentry) (timers q)
      in cassert (rest = [] \<or> now < fst (hd rest))
         (rbind (erase_active expired (q\<lparr>timers := rest\<rparr>)) (\<lambda>q.
          cassert (sizes_agree q) (Inr (expired, q)))))"

fun reset_expired :: "(int \<times> timer_ptr) list \<Rightarrow> int \<Rightarrow> timerqueue \<Rightarrow> timerqueue res" where
  "reset_expired [] now q = Inr q"
| "reset_expired (e # es) now q =
     rbind (deref_timer (snd e) q) (\<lambda>tm.
     if repeat tm \<and> (snd e, sequence tm) \<notin> cancelingTimers q
     then rbind (tq_insert (snd e) (q\<lparr>heap := (heap q)(snd e \<mapsto> timer_restart now tm)\<rparr>)) (\<lambda>(_, q).
          reset_expired es now q)
     else reset_expired es now (q\<lparr>heap := (heap q)(snd e := None)\<rparr>))"

definition tq_reset :: "(int \<times> timer_ptr) list \<Rightarrow> int \<Rightarrow> timerqueue \<Rightarrow> timerqueue res" where
  "tq_reset expired now q =
     rbind (reset_expired expired now q) (\<lambda>q.
     if timers q = [] then Inr q
     else rbind (deref_timer (snd (hd (timers q))) q) (\<lambda>tm.
          Inr (if 0 < expiration tm then resetTimerfd (expiration tm) q else q)))"

text \<open>What a timer callback may do to the queue.\<close>

datatype tq_action = Add timer_ptr timer | Cancel timer_ptr int

fun tq_act :: "tq_action \<Rightarrow> timerqueue \<Rightarrow> timerqueue res" where
  "tq_act (Add t tm) q = addTimer t tm q"
| "tq_act (Cancel t sq) q = cancelInLoop (t, sq) q"

fun tq_acts :: "tq_action list \<Rightarrow> timerqueue \<Rightarrow> timerqueue res" where
  "tq_acts [] q = Inr q"
| "tq_acts (a # as) q = rbind (tq_act a q) (tq_acts as)"

fun run_expired :: "(timer_ptr \<Rightarrow> tq_action list) \<Rightarrow> (int \<times> timer_ptr) list \<Rightarrow> timerqueue \<Rightarrow> timerqueue res" where
  "run_expired body [] q = Inr q"
| "run_expired body (e # es) q =
     rbind (deref_timer (snd e) q) (\<lambda>_. rbind (tq_acts (body (snd e)) q) (run_expired body es))"

definition tq_handleRead :: "(timer_ptr \<Rightarrow> tq_action list) \<Rightarrow> int \<Rightarrow> timerqueue \<Rightarrow> timerqueue res" where
  "tq_handleRead body now q =
     rbind (getExpired now (q\<lparr>armed := None\<rparr>)) (\<lambda>(expired, q).
     rbind (run_expired body expired (q\<lparr>callingExpiredTimers := True, cancelingTimers := {}\<rparr>)) (\<lambda>q.
     tq_reset expired now (q\<lparr>callingExpiredTimers := False\<rparr>)))"


subsection \<open>Invariant\<close>

definition tq_inv :: "timerqueue \<Rightarrow> bool" where
  "tq_inv q \<longleftrightarrow> sorted (timers q) \<and> distinct (map snd (timers q)) \<and>
     (\<forall>(w, t) \<in> set (timers q). t < UINTPTR_MAX \<and> (\<exists>tm. heap q t = Some tm \<and> expiration tm = w)) \<and>
     activeTimers q = (\<lambda>(w, t). (t, sequence (the (heap q t)))) ` set (timers q)"

text \<open>The descriptor is armed for no later than the earliest pending timer.\<close>

definition tq_armed :: "timerqueue \<Rightarrow> bool" where
  "tq_armed q \<longleftrightarrow> timers q = [] \<or> (\<exists>a. armed q = Some a \<and> a \<le> fst (hd (timers q)))"

definition pending :: "timerqueue \<Rightarrow> timer_ptr set" where
  "pending q = snd ` set (timers q)"

lemma tq_invD:
  assumes "tq_inv q"
  shows "sorted (timers q)" and "distinct (map snd (timers q))"
    and "(w, t) \<in> set (timers q) \<Longrightarrow> t < UINTPTR_MAX"
    and "(w, t) \<in> set (timers q) \<Longrightarrow> \<exists>tm. heap q t = Some tm \<and> expiration tm = w"
    and "activeTimers q = (\<lambda>(w, t). (t, sequence (the (heap q t)))) ` set (timers q)"
  using assms by (auto simp: tq_inv_def)

lemma tq_distinct: "tq_inv q \<Longrightarrow> distinct (timers q)"
  using tq_invD(2) by (auto simp: distinct_map)

lemma tq_sizes [simp]: "tq_inv q \<Longrightarrow> sizes_agree q"
proof -
  assume inv: "tq_inv q"
  have "inj_on (\<lambda>(w, t). (t, sequence (the (heap q t)))) (set (timers q))"
    using tq_invD(2) [OF inv] by (force simp: inj_on_def distinct_map)
  then show ?thesis
    using tq_invD(5) [OF inv] tq_distinct [OF inv] by (simp add: sizes_agree_def card_image distinct_card)
qed

lemma active_iff:
  assumes "tq_inv q"
  shows "(t, sq) \<in> activeTimers q \<longleftrightarrow> t \<in> pending q \<and> (\<exists>tm. heap q t = Some tm \<and> sequence tm = sq)"
  using tq_invD(4,5) [OF assms] by (force simp: pending_def)

lemma pending_entry:
  assumes "tq_inv q" and "t \<in> pending q" and "heap q t = Some tm"
  shows "(expiration tm, t) \<in> set (timers q)"
  using assms tq_invD(4) [OF assms(1)] by (force simp: pending_def)

lemma tq_insert_ok:
  assumes inv: "tq_inv q" and tm: "heap q t = Some tm" and t: "t < UINTPTR_MAX" "t \<notin> pending q"
  shows "\<exists>q'. tq_insert t q = Inr (timers q = [] \<or> expiration tm < fst (hd (timers q)), q') \<and> tq_inv q' \<and>
    timers q' = insort (expiration tm, t) (timers q) \<and> pending q' = insert t (pending q) \<and> heap q' = heap q \<and>
    armed q' = armed q \<and> callingExpiredTimers q' = callingExpiredTimers q \<and> cancelingTimers q' = cancelingTimers q"
proof -
  let ?q = "q\<lparr>timers := insort (expiration tm, t) (timers q), activeTimers := insert (t, sequence tm) (activeTimers q)\<rparr>"
  have new: "(expiration tm, t) \<notin> set (timers q)" "(t, sequence tm) \<notin> activeTimers q"
    using t(2) active_iff [OF inv] by (force simp: pending_def)+
  have "distinct (map snd (insort (expiration tm, t) (timers q)))"
    using tq_invD(2) [OF inv] t(2) new(1) tq_distinct [OF inv]
    by (auto simp: distinct_map distinct_insort set_insort_key inj_on_def pending_def)
  then have inv': "tq_inv ?q"
    using inv tm t(1) unfolding tq_inv_def by (auto simp: sorted_insort set_insort_key)
  have "tq_insert t q = Inr (timers q = [] \<or> expiration tm < fst (hd (timers q)), ?q)"
    using new tm tq_sizes [OF inv] tq_sizes [OF inv'] by (simp add: tq_insert_def deref_timer_def Let_def)
  with inv' show ?thesis by (intro exI [of _ ?q]) (auto simp: pending_def set_insort_key)
qed

lemma hd_insort:
  fixes e :: "int \<times> timer_ptr"
  shows "fst (hd (insort e xs)) = (if xs = [] then fst e else min (fst e) (fst (hd xs)))"
  by (cases xs; cases e) (auto simp: min_def less_eq_prod_def)

lemma hd_remove1:
  fixes e :: "int \<times> timer_ptr"
  assumes "sorted xs" and "remove1 e xs \<noteq> []"
  shows "fst (hd xs) \<le> fst (hd (remove1 e xs))"
proof (cases xs)
  case (Cons x ys)
  have "hd (remove1 e xs) \<in> set xs" using assms(2) set_remove1_subset [of e xs] by (metis hd_in_set subsetD)
  with Cons assms(1) have "x \<le> hd (remove1 e xs)" by auto
  with Cons show ?thesis by (auto simp: less_eq_prod_def split: prod.splits)
qed (use assms in simp)

lemma tq_inv_heap:
  assumes "tq_inv q" and "t \<notin> pending q"
  shows "tq_inv (q\<lparr>heap := (heap q)(t := x)\<rparr>)"
proof -
  have ne: "u \<noteq> t" if "(w, u) \<in> set (timers q)" for w u
    using assms(2) that by (force simp: pending_def)
  have "(\<lambda>(w, u). (u, sequence (the (((heap q)(t := x)) u)))) ` set (timers q) =
      (\<lambda>(w, u). (u, sequence (the (heap q u)))) ` set (timers q)"
    by (rule image_cong) (use ne in auto)
  with assms(1) ne show ?thesis unfolding tq_inv_def by auto
qed

lemma pending_heap: "tq_inv q \<Longrightarrow> t \<in> pending q \<Longrightarrow> heap q t \<noteq> None"
  using tq_invD(4) by (fastforce simp: pending_def)

definition tq_pos :: "timerqueue \<Rightarrow> bool" where
  "tq_pos q \<longleftrightarrow> (\<forall>t tm. heap q t = Some tm \<longrightarrow> 0 < expiration tm \<and> 0 \<le> interval_us tm)"

lemma addTimer_ok:
  assumes inv: "tq_inv q" and t: "heap q t = None" "t < UINTPTR_MAX"
  shows "\<exists>q'. addTimer t tm q = Inr q' \<and> tq_inv q' \<and> timers q' = insort (expiration tm, t) (timers q) \<and>
    pending q' = insert t (pending q) \<and> heap q' = (heap q)(t \<mapsto> tm) \<and>
    armed q' = (if timers q = [] \<or> expiration tm < fst (hd (timers q)) then Some (expiration tm) else armed q) \<and>
    callingExpiredTimers q' = callingExpiredTimers q \<and> cancelingTimers q' = cancelingTimers q"
proof -
  have np: "t \<notin> pending q" using pending_heap [OF inv] t(1) by blast
  let ?q = "q\<lparr>heap := (heap q)(t \<mapsto> tm)\<rparr>"
  have inv': "tq_inv ?q" using inv np by (rule tq_inv_heap)
  obtain q' where q': "tq_insert t ?q = Inr (timers q = [] \<or> expiration tm < fst (hd (timers q)), q')" "tq_inv q'"
      "timers q' = insort (expiration tm, t) (timers q)" "pending q' = insert t (pending q)"
      "heap q' = (heap q)(t \<mapsto> tm)" "armed q' = armed q"
      "callingExpiredTimers q' = callingExpiredTimers q" "cancelingTimers q' = cancelingTimers q"
    using tq_insert_ok [OF inv', of t tm] t(2) np by (auto simp: pending_def)
  have arm: "tq_inv (resetTimerfd w q')" for w
    using q'(2) by (simp add: tq_inv_def resetTimerfd_def)
  show ?thesis
  proof (cases "timers q = [] \<or> expiration tm < fst (hd (timers q))")
    case True
    have "addTimer t tm q = Inr (resetTimerfd (expiration tm) q')"
      using q'(1,5) True by (simp add: addTimer_def addTimerInLoop_def deref_timer_def)
    with True q' arm show ?thesis
      by (intro exI [of _ "resetTimerfd (expiration tm) q'"]) (simp add: resetTimerfd_def pending_def)
  next
    case False
    then have "addTimer t tm q = Inr q'"
      using q'(1) by (simp add: addTimer_def addTimerInLoop_def)
    with False q' show ?thesis by (intro exI [of _ q']) simp
  qed
qed

lemma addTimer_armed:
  assumes "tq_armed q" and "timers q' = insort (expiration tm, t) (timers q)"
    and "armed q' = (if timers q = [] \<or> expiration tm < fst (hd (timers q)) then Some (expiration tm) else armed q)"
  shows "tq_armed q'"
  using assms by (auto simp: tq_armed_def hd_insort min_def)

lemma cancelInLoop_ok:
  assumes inv: "tq_inv q"
  shows "\<exists>q'. cancelInLoop (t, sq) q = Inr q' \<and> tq_inv q' \<and> armed q' = armed q \<and>
    callingExpiredTimers q' = callingExpiredTimers q \<and>
    (if (t, sq) \<in> activeTimers q
     then (\<exists>w. timers q' = remove1 (w, t) (timers q)) \<and> pending q' = pending q - {t} \<and>
       heap q' = (heap q)(t := None) \<and> cancelingTimers q' = cancelingTimers q
     else timers q' = timers q \<and> heap q' = heap q \<and>
       cancelingTimers q' = (if callingExpiredTimers q then insert (t, sq) (cancelingTimers q) else cancelingTimers q))"
proof (cases "(t, sq) \<in> activeTimers q")
  case True
  then obtain tm where tm: "heap q t = Some tm" "sequence tm = sq" "t \<in> pending q"
    using active_iff [OF inv] by blast
  have mem: "(expiration tm, t) \<in> set (timers q)" using pending_entry [OF inv tm(3,1)] .
  let ?q = "q\<lparr>timers := remove1 (expiration tm, t) (timers q), heap := (heap q)(t := None),
             activeTimers := activeTimers q - {(t, sq)}\<rparr>"
  note dist = tq_distinct [OF inv]
  have uniq: "(w, t) \<in> set (timers q) \<Longrightarrow> w = expiration tm" for w
    using tq_invD(4) [OF inv, of w t] tm(1) by auto
  have set: "set (timers ?q) = {(w, u). (w, u) \<in> set (timers q) \<and> u \<noteq> t}"
    using dist uniq by (auto simp: set_remove1_eq)
  have act: "activeTimers ?q = (\<lambda>(w, u). (u, sequence (the (heap ?q u)))) ` set (timers ?q)"
    unfolding set using tq_invD(4,5) [OF inv] tm(1,2) by (fastforce simp: image_iff)
  have "sorted (timers ?q)" "distinct (map snd (timers ?q))"
    using tq_invD(1,2) [OF inv] by (auto simp: sorted_remove1 distinct_map inj_on_def set_remove1_eq)
  then have inv': "tq_inv ?q"
    using act set tq_invD(3,4) [OF inv] by (auto simp: tq_inv_def)
  have "cancelInLoop (t, sq) q = Inr ?q"
    using True tm mem tq_sizes [OF inv] tq_sizes [OF inv'] by (simp add: cancelInLoop_def deref_timer_def)
  moreover have "pending ?q = pending q - {t}"
    unfolding pending_def set by force
  ultimately show ?thesis using inv' True by (intro exI [of _ ?q]) auto
next
  case False
  let ?q = "if callingExpiredTimers q then q\<lparr>cancelingTimers := insert (t, sq) (cancelingTimers q)\<rparr> else q"
  have inv': "tq_inv ?q" using inv by (simp add: tq_inv_def)
  have "cancelInLoop (t, sq) q = Inr ?q"
    using False tq_sizes [OF inv] tq_sizes [OF inv'] by (simp add: cancelInLoop_def split: if_splits)
  with inv' False show ?thesis by (intro exI [of _ ?q]) auto
qed



subsection \<open>Expiry\<close>

definition key_of :: "timerqueue \<Rightarrow> int \<times> timer_ptr \<Rightarrow> timer_ptr \<times> int" where
  "key_of q e = (snd e, sequence (the (heap q (snd e))))"

lemma active_key: "tq_inv q \<Longrightarrow> activeTimers q = key_of q ` set (timers q)"
  using tq_invD(5) by (simp add: key_of_def case_prod_unfold)

lemma erase_active_ok:
  assumes "\<forall>e \<in> set es. heap q (snd e) \<noteq> None \<and> key_of q e \<in> activeTimers q" and "distinct (map snd es)"
  shows "erase_active es q = Inr (q\<lparr>activeTimers := activeTimers q - key_of q ` set es\<rparr>)"
  using assms
proof (induction es arbitrary: q)
  case (Cons e es)
  then obtain tm where tm: "heap q (snd e) = Some tm" by auto
  let ?q = "q\<lparr>activeTimers := activeTimers q - {(snd e, sequence tm)}\<rparr>"
  have key: "key_of q e = (snd e, sequence tm)" "key_of ?q = key_of q"
    using tm by (auto simp: key_of_def fun_eq_iff)
  have "erase_active es ?q = Inr (?q\<lparr>activeTimers := activeTimers ?q - key_of ?q ` set es\<rparr>)"
  proof (rule Cons.IH)
    show "distinct (map snd es)" using Cons.prems(2) by simp
    show "\<forall>f \<in> set es. heap ?q (snd f) \<noteq> None \<and> key_of ?q f \<in> activeTimers ?q"
      using Cons.prems unfolding key by (auto simp: key_of_def image_iff)
  qed
  moreover have "activeTimers q - {(snd e, sequence tm)} - key_of q ` set es = activeTimers q - key_of q ` set (e # es)"
    using key(1) by auto
  ultimately show ?case using Cons.prems tm key by (simp add: deref_timer_def)
qed simp

lemma takeWhile_sorted:
  assumes "sorted xs" and "\<And>x y. x \<le> y \<Longrightarrow> P y \<Longrightarrow> P x"
  shows "takeWhile P xs = filter P xs" and "dropWhile P xs = filter (\<lambda>x. \<not> P x) xs"
proof -
  have "takeWhile P xs = filter P xs \<and> dropWhile P xs = filter (\<lambda>x. \<not> P x) xs"
    using assms(1)
  proof (induction xs)
    case (Cons x xs)
    show ?case
    proof (cases "P x")
      case False
      then have "\<forall>y \<in> set xs. \<not> P y" using Cons.prems assms(2) by auto
      with False show ?thesis by (simp add: filter_id_conv filter_empty_conv)
    qed (use Cons in simp)
  qed simp
  then show "takeWhile P xs = filter P xs" and "dropWhile P xs = filter (\<lambda>x. \<not> P x) xs" by auto
qed

lemma sentry_less: "snd (e :: int \<times> timer_ptr) < UINTPTR_MAX \<Longrightarrow> e < (now, UINTPTR_MAX) \<longleftrightarrow> fst e \<le> now"
  by (cases e) (auto simp: less_prod_def)

lemma getExpired_ok:
  assumes inv: "tq_inv q"
  shows "\<exists>q'. getExpired now q = Inr (filter (\<lambda>e. fst e \<le> now) (timers q), q') \<and> tq_inv q' \<and>
    timers q' = filter (\<lambda>e. now < fst e) (timers q) \<and> heap q' = heap q \<and> armed q' = armed q \<and>
    callingExpiredTimers q' = callingExpiredTimers q \<and> cancelingTimers q' = cancelingTimers q"
proof -
  let ?ex = "filter (\<lambda>e. fst e \<le> now) (timers q)" and ?rest = "filter (\<lambda>e. now < fst e) (timers q)"
  have lt: "e < (now, UINTPTR_MAX) \<longleftrightarrow> fst e \<le> now" if "e \<in> set (timers q)" for e
    using sentry_less [of e now] tq_invD(3) [OF inv, of "fst e" "snd e"] that by simp
  have "takeWhile (\<lambda>e. e < (now, UINTPTR_MAX)) (timers q) = filter (\<lambda>e. e < (now, UINTPTR_MAX)) (timers q)"
    and "dropWhile (\<lambda>e. e < (now, UINTPTR_MAX)) (timers q) = filter (\<lambda>e. \<not> e < (now, UINTPTR_MAX)) (timers q)"
    using takeWhile_sorted [OF tq_invD(1) [OF inv], of "\<lambda>e. e < (now, UINTPTR_MAX)"] by auto
  moreover have "filter (\<lambda>e. e < (now, UINTPTR_MAX)) (timers q) = ?ex"
    by (rule filter_cong) (use lt in auto)
  moreover have "filter (\<lambda>e. \<not> e < (now, UINTPTR_MAX)) (timers q) = ?rest"
    by (rule filter_cong) (use lt in auto)
  ultimately have split: "takeWhile (\<lambda>e. e < (now, UINTPTR_MAX)) (timers q) = ?ex"
    "dropWhile (\<lambda>e. e < (now, UINTPTR_MAX)) (timers q) = ?rest" by auto
  have hd: "?rest = [] \<or> now < fst (hd ?rest)"
    using hd_in_set [of ?rest] by (cases "?rest = []") auto
  have dist: "distinct (map snd ?ex)" "distinct (map snd ?rest)"
    using tq_invD(2) [OF inv] by (auto simp: distinct_map_filter)
  let ?q = "q\<lparr>timers := ?rest, activeTimers := activeTimers q - key_of q ` set ?ex\<rparr>"
  have er: "erase_active ?ex (q\<lparr>timers := ?rest\<rparr>) = Inr ?q"
    using erase_active_ok [of ?ex "q\<lparr>timers := ?rest\<rparr>"] dist(1) tq_invD(4) [OF inv]
    by (force simp: active_key [OF inv] key_of_def)
  have inj: "inj_on (key_of q) (set (timers q))"
    using tq_invD(2) [OF inv] by (force simp: key_of_def inj_on_def distinct_map)
  have "key_of q ` set (timers q) - key_of q ` set ?ex = key_of q ` (set (timers q) - set ?ex)"
    by (rule inj_on_image_set_diff [OF inj, symmetric]) auto
  also have "set (timers q) - set ?ex = set ?rest" by auto
  finally have act: "activeTimers ?q = (\<lambda>(w, t). (t, sequence (the (heap ?q t)))) ` set ?rest"
    by (simp add: active_key [OF inv] key_of_def case_prod_unfold)
  have inv': "tq_inv ?q"
    unfolding tq_inv_def using act tq_invD(1,3,4) [OF inv] dist(2) by (auto simp: sorted_wrt_filter)
  have "getExpired now q = Inr (?ex, ?q)"
    using er hd tq_sizes [OF inv] tq_sizes [OF inv'] unfolding getExpired_def Let_def split by simp
  with inv' show ?thesis by (intro exI [of _ ?q]) simp
qed

lemma sorted_split:
  assumes "tq_inv q"
  shows "timers q = filter (\<lambda>e. fst e \<le> now) (timers q) @ filter (\<lambda>e. now < fst e) (timers q)"
proof -
  have "takeWhile (\<lambda>e. fst e \<le> now) (timers q) = filter (\<lambda>e. fst e \<le> now) (timers q)"
    and "dropWhile (\<lambda>e. fst e \<le> now) (timers q) = filter (\<lambda>e. \<not> fst e \<le> now) (timers q)"
    by (rule takeWhile_sorted [OF tq_invD(1) [OF assms]]; force simp: less_eq_prod_def)+
  then show ?thesis using takeWhile_dropWhile_id [of "\<lambda>e. fst e \<le> now" "timers q"] by (simp add: not_le)
qed

text \<open>\<open>getExpired\<close> splits the pending timers at the current time: it returns exactly the timers whose
  expiration is not later than \<open>now\<close>, in the order of their expirations, keeps exactly the others, and none
  of its assertions can fail on a consistent queue.\<close>

theorem getExpired_exact:
  assumes "tq_inv q"
  shows "\<exists>expired q'. getExpired now q = Inr (expired, q') \<and> tq_inv q' \<and>
    timers q = expired @ timers q' \<and> (\<forall>e \<in> set expired. fst e \<le> now) \<and> (\<forall>e \<in> set (timers q'). now < fst e) \<and>
    heap q' = heap q"
  using getExpired_ok [OF assms, of now] sorted_split [OF assms, of now] by force

definition sample_queue :: timerqueue where
  "sample_queue = \<lparr>timers = [(10, 2), (20, 1)], activeTimers = {(2, 7), (1, 5)}, callingExpiredTimers = False,
     cancelingTimers = {}, heap = [1 \<mapsto> \<lparr>expiration = 20, interval_us = 0, repeat = False, sequence = 5\<rparr>,
     2 \<mapsto> \<lparr>expiration = 10, interval_us = 5, repeat = True, sequence = 7\<rparr>], armed = Some 10\<rparr>"

lemma sample_queue_inv: "tq_inv sample_queue"
  by (auto simp: tq_inv_def sample_queue_def less_eq_prod_def UINTPTR_MAX_def)

theorem getExpired_exact_witness:
  "\<exists>q'. getExpired 15 sample_queue = Inr ([(10, 2)], q') \<and> timers q' = [(20, 1)]"
proof -
  obtain ex q' where r: "getExpired 15 sample_queue = Inr (ex, q')" "ex @ timers q' = [(10, 2), (20, 1)]"
      "\<forall>e \<in> set ex. fst e \<le> 15" "\<forall>e \<in> set (timers q'). 15 < fst e"
    using getExpired_exact [OF sample_queue_inv, of 15] by (auto simp: sample_queue_def)
  from r(2-4) have "ex = [(10, 2)] \<and> timers q' = [(20, 1)]"
    by (auto simp: append_eq_Cons_conv)
  with r(1) show ?thesis by blast
qed



subsection \<open>Callbacks and rearming\<close>

text \<open>The allocator hands out free addresses; timers are set for positive times.\<close>

fun act_legal :: "tq_action \<Rightarrow> timerqueue \<Rightarrow> bool" where
  "act_legal (Add t tm) q \<longleftrightarrow> heap q t = None \<and> t < UINTPTR_MAX \<and> 0 < expiration tm \<and> 0 \<le> interval_us tm"
| "act_legal (Cancel t sq) q \<longleftrightarrow> True"

fun acts_legal :: "tq_action list \<Rightarrow> timerqueue \<Rightarrow> bool" where
  "acts_legal [] q \<longleftrightarrow> True"
| "acts_legal (a # as) q \<longleftrightarrow> act_legal a q \<and> (case tq_act a q of Inl _ \<Rightarrow> True | Inr q \<Rightarrow> acts_legal as q)"

fun run_legal :: "(timer_ptr \<Rightarrow> tq_action list) \<Rightarrow> (int \<times> timer_ptr) list \<Rightarrow> timerqueue \<Rightarrow> bool" where
  "run_legal body [] q \<longleftrightarrow> True"
| "run_legal body (e # es) q \<longleftrightarrow> acts_legal (body (snd e)) q \<and>
     (case tq_acts (body (snd e)) q of Inl _ \<Rightarrow> True | Inr q \<Rightarrow> run_legal body es q)"

text \<open>While callbacks run, the expired timers \<open>X\<close> are live but not pending.\<close>

definition calling_inv :: "timer_ptr set \<Rightarrow> timerqueue \<Rightarrow> bool" where
  "calling_inv X q \<longleftrightarrow> tq_inv q \<and> tq_pos q \<and> X \<inter> pending q = {} \<and> (\<forall>t \<in> X. heap q t \<noteq> None) \<and>
     callingExpiredTimers q"

definition keeps :: "timer_ptr set \<Rightarrow> timerqueue \<Rightarrow> timerqueue \<Rightarrow> bool" where
  "keeps X q q' \<longleftrightarrow> (\<forall>t \<in> X. heap q' t = heap q t) \<and> cancelingTimers q \<subseteq> cancelingTimers q'"

definition wants_cancel :: "timerqueue \<Rightarrow> timer_ptr \<Rightarrow> tq_action list \<Rightarrow> bool" where
  "wants_cancel q t as \<longleftrightarrow> (\<exists>tm. heap q t = Some tm \<and> Cancel t (sequence tm) \<in> set as)"

definition is_canceled :: "timerqueue \<Rightarrow> timer_ptr \<Rightarrow> bool" where
  "is_canceled q t \<longleftrightarrow> (\<exists>tm. heap q t = Some tm \<and> (t, sequence tm) \<in> cancelingTimers q)"

lemma keeps_refl: "keeps X q q"
  by (simp add: keeps_def)

lemma keeps_trans: "keeps X a b \<Longrightarrow> keeps X b c \<Longrightarrow> keeps X a c"
  by (auto simp: keeps_def)

lemma keeps_canceled: "keeps X a b \<Longrightarrow> t \<in> X \<Longrightarrow> is_canceled a t \<Longrightarrow> is_canceled b t"
  by (auto simp: keeps_def is_canceled_def)

lemma tq_act_ok:
  assumes inv: "calling_inv X q" and legal: "act_legal a q"
  shows "\<exists>q'. tq_act a q = Inr q' \<and> calling_inv X q' \<and> keeps X q q' \<and>
    (\<forall>t \<in> X. wants_cancel q t [a] \<longrightarrow> is_canceled q' t)"
proof (cases a)
  case (Add t tm)
  have inv': "tq_inv q" using inv by (simp add: calling_inv_def)
  have free: "heap q t = None" "t < UINTPTR_MAX" using legal Add by auto
  obtain q' where q': "addTimer t tm q = Inr q'" "tq_inv q'" "pending q' = insert t (pending q)"
      "heap q' = (heap q)(t \<mapsto> tm)" "callingExpiredTimers q' = callingExpiredTimers q"
      "cancelingTimers q' = cancelingTimers q"
    using addTimer_ok [OF inv' free, of tm] by blast
  have "t \<notin> X" using inv free(1) by (auto simp: calling_inv_def)
  with q' inv legal Add have "calling_inv X q'" "keeps X q q'"
    by (auto simp: calling_inv_def tq_pos_def keeps_def)
  with q'(1) Add show ?thesis by (auto simp: wants_cancel_def)
next
  case (Cancel t sq)
  have inv': "tq_inv q" using inv by (simp add: calling_inv_def)
  obtain q' where q': "cancelInLoop (t, sq) q = Inr q'" "tq_inv q'" "callingExpiredTimers q' = callingExpiredTimers q"
    and eff: "if (t, sq) \<in> activeTimers q
     then (\<exists>w. timers q' = remove1 (w, t) (timers q)) \<and> pending q' = pending q - {t} \<and>
       heap q' = (heap q)(t := None) \<and> cancelingTimers q' = cancelingTimers q
     else timers q' = timers q \<and> heap q' = heap q \<and>
       cancelingTimers q' = (if callingExpiredTimers q then insert (t, sq) (cancelingTimers q) else cancelingTimers q)"
    using cancelInLoop_ok [OF inv', of t sq] by blast
  show ?thesis
  proof (cases "(t, sq) \<in> activeTimers q")
    case True
    then have "t \<in> pending q" using active_iff [OF inv'] by blast
    then have "t \<notin> X" using inv by (auto simp: calling_inv_def)
    with True eff q' inv have "calling_inv X q'" "keeps X q q'"
      by (auto simp: calling_inv_def tq_pos_def keeps_def)
    with q'(1) Cancel \<open>t \<notin> X\<close> show ?thesis by (auto simp: wants_cancel_def)
  next
    case False
    with eff q' inv have "calling_inv X q'" "keeps X q q'" "heap q' = heap q" "(t, sq) \<in> cancelingTimers q'"
      by (auto simp: calling_inv_def tq_pos_def keeps_def pending_def)
    with q'(1) Cancel show ?thesis by (auto simp: wants_cancel_def is_canceled_def)
  qed
qed

lemma wants_cancel_keeps: "keeps X q q' \<Longrightarrow> t \<in> X \<Longrightarrow> wants_cancel q' t as = wants_cancel q t as"
  by (simp add: wants_cancel_def keeps_def)

lemma wants_cancel_Cons: "wants_cancel q t (a # as) \<longleftrightarrow> wants_cancel q t [a] \<or> wants_cancel q t as"
  by (auto simp: wants_cancel_def)

lemma tq_acts_ok:
  assumes "calling_inv X q" and "acts_legal as q"
  shows "\<exists>q'. tq_acts as q = Inr q' \<and> calling_inv X q' \<and> keeps X q q' \<and>
    (\<forall>t \<in> X. wants_cancel q t as \<longrightarrow> is_canceled q' t)"
  using assms
proof (induction as arbitrary: q)
  case Nil
  then show ?case by (simp add: keeps_refl wants_cancel_def)
next
  case (Cons a as)
  then obtain q1 where q1: "tq_act a q = Inr q1" "calling_inv X q1" "keeps X q q1"
      "\<forall>t \<in> X. wants_cancel q t [a] \<longrightarrow> is_canceled q1 t"
    using tq_act_ok [of X q a] by auto
  then obtain q2 where q2: "tq_acts as q1 = Inr q2" "calling_inv X q2" "keeps X q1 q2"
      "\<forall>t \<in> X. wants_cancel q1 t as \<longrightarrow> is_canceled q2 t"
    using Cons.IH [of q1] Cons.prems by auto
  have "\<forall>t \<in> X. wants_cancel q t (a # as) \<longrightarrow> is_canceled q2 t"
    using q1(3,4) q2(3,4) wants_cancel_keeps [OF q1(3)] keeps_canceled [OF q2(3)] wants_cancel_Cons by blast
  with q1 q2 show ?case using keeps_trans by auto
qed

lemma run_expired_ok:
  assumes "calling_inv X q" and "run_legal body es q" and "snd ` set es \<subseteq> X"
  shows "\<exists>q'. run_expired body es q = Inr q' \<and> calling_inv X q' \<and> keeps X q q' \<and>
    (\<forall>t \<in> X. (\<exists>e \<in> set es. wants_cancel q t (body (snd e))) \<longrightarrow> is_canceled q' t)"
  using assms
proof (induction es arbitrary: q)
  case Nil
  then show ?case by (simp add: keeps_refl)
next
  case (Cons e es)
  have live: "heap q (snd e) \<noteq> None" using Cons.prems(1,3) by (auto simp: calling_inv_def)
  obtain q1 where q1: "tq_acts (body (snd e)) q = Inr q1" "calling_inv X q1" "keeps X q q1"
      "\<forall>t \<in> X. wants_cancel q t (body (snd e)) \<longrightarrow> is_canceled q1 t"
    using tq_acts_ok [of X q "body (snd e)"] Cons.prems by auto
  then obtain q2 where q2: "run_expired body es q1 = Inr q2" "calling_inv X q2" "keeps X q1 q2"
      "\<forall>t \<in> X. (\<exists>e \<in> set es. wants_cancel q1 t (body (snd e))) \<longrightarrow> is_canceled q2 t"
    using Cons.IH [of q1] Cons.prems by auto
  have "is_canceled q2 t" if tX: "t \<in> X" and some: "\<exists>f \<in> set (e # es). wants_cancel q t (body (snd f))" for t
  proof (cases "wants_cancel q t (body (snd e))")
    case True
    then show ?thesis using q1(4) tX keeps_canceled [OF q2(3) tX] by blast
  next
    case False
    then obtain f where f: "f \<in> set es" "wants_cancel q t (body (snd f))" using some by auto
    then have "wants_cancel q1 t (body (snd f))" using wants_cancel_keeps [OF q1(3) tX] by simp
    then show ?thesis using q2(4) f(1) tX by blast
  qed
  moreover have "run_expired body (e # es) q = Inr q2"
    using q1(1) q2(1) live by (auto simp: deref_timer_def)
  ultimately show ?case using q2(2) keeps_trans [OF q1(3) q2(3)] by blast
qed

definition rearmed :: "timerqueue \<Rightarrow> timer_ptr \<Rightarrow> bool" where
  "rearmed q t \<longleftrightarrow> (\<exists>tm. heap q t = Some tm \<and> repeat tm \<and> (t, sequence tm) \<notin> cancelingTimers q)"

lemma reset_expired_ok:
  assumes "tq_inv q" and "tq_pos q" and "0 < now" and "distinct (map snd es)"
    and "\<forall>e \<in> set es. heap q (snd e) \<noteq> None \<and> snd e \<notin> pending q \<and> snd e < UINTPTR_MAX"
  shows "\<exists>q'. reset_expired es now q = Inr q' \<and> tq_inv q' \<and> tq_pos q' \<and> armed q' = armed q \<and>
    callingExpiredTimers q' = callingExpiredTimers q \<and>
    pending q' = pending q \<union> {t \<in> snd ` set es. rearmed q t} \<and>
    (\<forall>t. heap q' t = (if t \<notin> snd ` set es then heap q t
                      else if rearmed q t then map_option (timer_restart now) (heap q t) else None))"
  using assms
proof (induction es arbitrary: q)
  case Nil
  then show ?case by auto
next
  case (Cons e es)
  obtain tm where tm: "heap q (snd e) = Some tm" using Cons.prems(5) by auto
  have ne: "snd e \<notin> snd ` set es" using Cons.prems(4) by (auto simp: image_iff)
  have rest: "tq_pos (q\<lparr>heap := (heap q)(snd e := x)\<rparr>)" if "\<forall>y. x = Some y \<longrightarrow> 0 < expiration y \<and> 0 \<le> interval_us y" for x
    using Cons.prems(2) that by (auto simp: tq_pos_def)
  show ?case
  proof (cases "rearmed q (snd e)")
    case True
    let ?q = "q\<lparr>heap := (heap q)(snd e \<mapsto> timer_restart now tm)\<rparr>"
    have inv: "tq_inv ?q" using Cons.prems(1,5) by (intro tq_inv_heap) auto
    have rep: "repeat tm" "(snd e, sequence tm) \<notin> cancelingTimers q" using True tm by (auto simp: rearmed_def)
    have "0 \<le> interval_us tm" using Cons.prems(2) tm by (auto simp: tq_pos_def)
    then have pos: "tq_pos ?q"
      using rest [of "Some (timer_restart now tm)"] rep(1) Cons.prems(3) by (simp add: timer_restart_def)
    obtain b q1 where q1: "tq_insert (snd e) ?q = Inr (b, q1)" "tq_inv q1" "pending q1 = insert (snd e) (pending q)"
        "heap q1 = heap ?q" "armed q1 = armed q" "callingExpiredTimers q1 = callingExpiredTimers q"
        "cancelingTimers q1 = cancelingTimers q"
      using tq_insert_ok [OF inv, of "snd e" "timer_restart now tm"] Cons.prems(5) by (auto simp: pending_def)
    have pos1: "tq_pos q1" using pos q1(4) by (simp add: tq_pos_def)
    have re: "rearmed q1 t = rearmed q t" if "t \<noteq> snd e" for t
      using that q1(4,7) by (simp add: rearmed_def)
    have "\<exists>q'. reset_expired es now q1 = Inr q' \<and> tq_inv q' \<and> tq_pos q' \<and> armed q' = armed q1 \<and>
        callingExpiredTimers q' = callingExpiredTimers q1 \<and>
        pending q' = pending q1 \<union> {t \<in> snd ` set es. rearmed q1 t} \<and>
        (\<forall>t. heap q' t = (if t \<notin> snd ` set es then heap q1 t
                      else if rearmed q1 t then map_option (timer_restart now) (heap q1 t) else None))"
      by (rule Cons.IH [OF q1(2) pos1 Cons.prems(3)]) (use Cons.prems(4,5) ne q1(3,4) in \<open>auto simp: image_iff\<close>)
    then obtain q' where q': "reset_expired es now q1 = Inr q'" "tq_inv q'" "tq_pos q'" "armed q' = armed q1"
        "callingExpiredTimers q' = callingExpiredTimers q1"
        "pending q' = pending q1 \<union> {t \<in> snd ` set es. rearmed q1 t}"
        "\<And>t. heap q' t = (if t \<notin> snd ` set es then heap q1 t
                      else if rearmed q1 t then map_option (timer_restart now) (heap q1 t) else None)" by blast
    have run: "reset_expired (e # es) now q = Inr q'"
      using tm rep q1(1) q'(1) by (simp add: deref_timer_def)
    have pend: "pending q' = pending q \<union> {t \<in> snd ` set (e # es). rearmed q t}"
      using q'(6) q1(3) True re ne by (auto simp: image_iff)
    have hp: "heap q' t = (if t \<notin> snd ` set (e # es) then heap q t
        else if rearmed q t then map_option (timer_restart now) (heap q t) else None)" for t
      using q'(7) [of t] re [of t] ne True tm q1(4) by (cases "t = snd e") (auto simp: image_iff)
    show ?thesis using run q'(2-5) q1(5,6) pend hp by (intro exI [of _ q']) simp
  next
    case False
    let ?q = "q\<lparr>heap := (heap q)(snd e := None)\<rparr>"
    have inv: "tq_inv ?q" using Cons.prems(1,5) by (intro tq_inv_heap) auto
    have pos: "tq_pos ?q" using rest [of None] by simp
    have norep: "\<not> (repeat tm \<and> (snd e, sequence tm) \<notin> cancelingTimers q)" using False tm by (auto simp: rearmed_def)
    have re: "rearmed ?q t = rearmed q t" if "t \<noteq> snd e" for t
      using that by (simp add: rearmed_def)
    have pq: "pending ?q = pending q" by (simp add: pending_def)
    have "\<exists>q'. reset_expired es now ?q = Inr q' \<and> tq_inv q' \<and> tq_pos q' \<and> armed q' = armed ?q \<and>
        callingExpiredTimers q' = callingExpiredTimers ?q \<and>
        pending q' = pending ?q \<union> {t \<in> snd ` set es. rearmed ?q t} \<and>
        (\<forall>t. heap q' t = (if t \<notin> snd ` set es then heap ?q t
                      else if rearmed ?q t then map_option (timer_restart now) (heap ?q t) else None))"
      by (rule Cons.IH [OF inv pos Cons.prems(3)]) (use Cons.prems(4,5) ne pq in \<open>auto simp: image_iff\<close>)
    then obtain q' where q': "reset_expired es now ?q = Inr q'" "tq_inv q'" "tq_pos q'" "armed q' = armed ?q"
        "callingExpiredTimers q' = callingExpiredTimers ?q"
        "pending q' = pending ?q \<union> {t \<in> snd ` set es. rearmed ?q t}"
        "\<And>t. heap q' t = (if t \<notin> snd ` set es then heap ?q t
                      else if rearmed ?q t then map_option (timer_restart now) (heap ?q t) else None)" by blast
    have run: "reset_expired (e # es) now q = Inr q'"
      using tm norep q'(1) by (auto simp: deref_timer_def)
    have pend: "pending q' = pending q \<union> {t \<in> snd ` set (e # es). rearmed q t}"
      using q'(6) pq False re ne by (auto simp: image_iff)
    have hp: "heap q' t = (if t \<notin> snd ` set (e # es) then heap q t
        else if rearmed q t then map_option (timer_restart now) (heap q t) else None)" for t
      using q'(7) [of t] re [of t] ne False by (cases "t = snd e") (auto simp: image_iff)
    show ?thesis using run q'(2-5) pend hp by (intro exI [of _ q']) simp
  qed
qed

definition tq_ok :: "timerqueue \<Rightarrow> bool" where
  "tq_ok q \<longleftrightarrow> tq_inv q \<and> tq_pos q \<and> tq_armed q \<and> \<not> callingExpiredTimers q"

definition due :: "int \<Rightarrow> timerqueue \<Rightarrow> timer_ptr set" where
  "due now q = snd ` {e \<in> set (timers q). fst e \<le> now}"

text \<open>The state in which the callbacks start, and the legality of what they do.\<close>

definition fire_legal :: "(timer_ptr \<Rightarrow> tq_action list) \<Rightarrow> int \<Rightarrow> timerqueue \<Rightarrow> bool" where
  "fire_legal body now q \<longleftrightarrow> 0 < now \<and>
     (case getExpired now (q\<lparr>armed := None\<rparr>) of
        Inl _ \<Rightarrow> True
      | Inr (expired, q) \<Rightarrow> run_legal body expired (q\<lparr>callingExpiredTimers := True, cancelingTimers := {}\<rparr>))"

lemma tq_inv_cong:
  "timers q' = timers q \<Longrightarrow> activeTimers q' = activeTimers q \<Longrightarrow> heap q' = heap q \<Longrightarrow> tq_inv q' = tq_inv q"
  by (simp add: tq_inv_def)

lemma tq_reset_ok:
  assumes "tq_inv q" and "tq_pos q" and "0 < now" and "distinct (map snd es)"
    and "\<forall>e \<in> set es. heap q (snd e) \<noteq> None \<and> snd e \<notin> pending q \<and> snd e < UINTPTR_MAX"
  shows "\<exists>q'. tq_reset es now q = Inr q' \<and> tq_inv q' \<and> tq_pos q' \<and> tq_armed q' \<and>
    callingExpiredTimers q' = callingExpiredTimers q \<and>
    pending q' = pending q \<union> {t \<in> snd ` set es. rearmed q t} \<and>
    (\<forall>t. heap q' t = (if t \<notin> snd ` set es then heap q t
                      else if rearmed q t then map_option (timer_restart now) (heap q t) else None))"
proof -
  obtain q1 where q1: "reset_expired es now q = Inr q1" "tq_inv q1" "tq_pos q1"
      "callingExpiredTimers q1 = callingExpiredTimers q"
      "pending q1 = pending q \<union> {t \<in> snd ` set es. rearmed q t}"
      "\<And>t. heap q1 t = (if t \<notin> snd ` set es then heap q t
                      else if rearmed q t then map_option (timer_restart now) (heap q t) else None)"
    using reset_expired_ok [OF assms] by blast
  show ?thesis
  proof (cases "timers q1 = []")
    case True
    then have "tq_reset es now q = Inr q1" "tq_armed q1" using q1(1) by (simp_all add: tq_reset_def tq_armed_def)
    with q1 show ?thesis by (intro exI [of _ q1]) simp
  next
    case False
    obtain w t where hd: "hd (timers q1) = (w, t)" by fastforce
    with False have "(w, t) \<in> set (timers q1)" using hd_in_set by metis
    then obtain tm where tm: "heap q1 t = Some tm" "expiration tm = w" using tq_invD(4) [OF q1(2)] by blast
    have "0 < w" using q1(3) tm by (auto simp: tq_pos_def)
    let ?q = "resetTimerfd w q1"
    have "tq_reset es now q = Inr ?q"
      using q1(1) False hd tm \<open>0 < w\<close> by (simp add: tq_reset_def deref_timer_def)
    moreover have "tq_inv ?q" using q1(2) by (simp add: tq_inv_def resetTimerfd_def)
    moreover have "tq_pos ?q" "tq_armed ?q" using q1(3) hd by (simp_all add: tq_pos_def tq_armed_def resetTimerfd_def)
    moreover have "pending ?q = pending q1" "heap ?q = heap q1" "callingExpiredTimers ?q = callingExpiredTimers q1"
      by (simp_all add: pending_def resetTimerfd_def)
    ultimately show ?thesis using q1(4-6) by (intro exI [of _ ?q]) simp
  qed
qed

lemma tq_handleRead_ok:
  assumes ok: "tq_inv q" "tq_pos q" and legal: "fire_legal body now q"
  shows "\<exists>q' X. tq_handleRead body now q = Inr q' \<and> tq_ok q' \<and> X = due now q \<and>
    (\<forall>t \<in> X. heap q t \<noteq> None \<and>
      (t \<in> pending q' \<longrightarrow> repeat (the (heap q t)) \<and> heap q' t = map_option (timer_restart now) (heap q t) \<and>
         \<not> (\<exists>u \<in> X. wants_cancel q t (body u))) \<and>
      (t \<notin> pending q' \<longrightarrow> heap q' t = None))"
proof -
  let ?ex = "filter (\<lambda>e. fst e \<le> now) (timers q)"
  have inv0: "tq_inv (q\<lparr>armed := None\<rparr>)" using ok(1) by (simp add: tq_inv_def)
  obtain q1 where q1: "getExpired now (q\<lparr>armed := None\<rparr>) = Inr (?ex, q1)" "tq_inv q1"
      "timers q1 = filter (\<lambda>e. now < fst e) (timers q)" "heap q1 = heap q"
    using getExpired_ok [OF inv0, of now] by auto
  let ?q1 = "q1\<lparr>callingExpiredTimers := True, cancelingTimers := {}\<rparr>"
  let ?X = "snd ` set ?ex"
  have X: "?X = due now q" by (simp add: due_def)
  have dist: "distinct (map snd ?ex)" using tq_invD(2) [OF ok(1)] by (simp add: distinct_map_filter)
  have "?X \<inter> pending ?q1 = {}"
  proof -
    have "distinct (map snd (?ex @ timers q1))"
      using tq_invD(2) [OF ok(1)] sorted_split [OF ok(1), of now] q1(3) by simp
    then show ?thesis by (simp add: pending_def)
  qed
  moreover have live: "\<forall>t \<in> ?X. heap q t \<noteq> None" using tq_invD(4) [OF ok(1)] by fastforce
  ultimately have calling: "calling_inv ?X ?q1"
    using q1(2,4) ok(2) by (auto simp: calling_inv_def tq_inv_def tq_pos_def)
  obtain q2 where q2: "run_expired body ?ex ?q1 = Inr q2" "calling_inv ?X q2" "keeps ?X ?q1 q2"
      "\<forall>t \<in> ?X. (\<exists>e \<in> set ?ex. wants_cancel ?q1 t (body (snd e))) \<longrightarrow> is_canceled q2 t"
    using run_expired_ok [OF calling, of body ?ex] legal q1(1) by (auto simp: fire_legal_def)
  let ?q2 = "q2\<lparr>callingExpiredTimers := False\<rparr>"
  have inv2: "tq_inv ?q2" "tq_pos ?q2" using q2(2) by (auto simp: calling_inv_def tq_inv_def tq_pos_def)
  have "\<forall>t \<in> ?X. heap q2 t = heap ?q1 t" using q2(3) unfolding keeps_def by blast
  then have heap2: "heap q2 t = heap q t" if "t \<in> ?X" for t using q1(4) that by auto
  have "\<forall>e \<in> set ?ex. heap ?q2 (snd e) \<noteq> None \<and> snd e \<notin> pending ?q2 \<and> snd e < UINTPTR_MAX"
  proof
    fix e assume e: "e \<in> set ?ex"
    then have "snd e \<in> ?X" by simp
    moreover have "snd e < UINTPTR_MAX" using e tq_invD(3) [OF ok(1), of "fst e" "snd e"] by simp
    ultimately show "heap ?q2 (snd e) \<noteq> None \<and> snd e \<notin> pending ?q2 \<and> snd e < UINTPTR_MAX"
      using q2(2) by (auto simp: calling_inv_def pending_def)
  qed
  note reset = tq_reset_ok [OF inv2 _ dist this, of now]
  have "0 < now" using legal by (simp add: fire_legal_def)
  from reset [OF this] obtain q3 where q3: "tq_reset ?ex now ?q2 = Inr q3" "tq_inv q3" "tq_pos q3" "tq_armed q3"
      "\<not> callingExpiredTimers q3" "pending q3 = pending ?q2 \<union> {t \<in> ?X. rearmed ?q2 t}"
      "\<And>t. heap q3 t = (if t \<notin> ?X then heap ?q2 t
                      else if rearmed ?q2 t then map_option (timer_restart now) (heap ?q2 t) else None)"
    by auto
  have run: "tq_handleRead body now q = Inr q3"
    using q1(1) q2(1) q3(1) by (simp add: tq_handleRead_def)
  have eff: "heap q t \<noteq> None \<and>
      (t \<in> pending q3 \<longrightarrow> repeat (the (heap q t)) \<and> heap q3 t = map_option (timer_restart now) (heap q t) \<and>
         \<not> (\<exists>u \<in> ?X. wants_cancel q t (body u))) \<and>
      (t \<notin> pending q3 \<longrightarrow> heap q3 t = None)" if t: "t \<in> ?X" for t
  proof -
    have np: "t \<notin> pending ?q2" using q2(2) t by (auto simp: calling_inv_def pending_def)
    then have iff: "t \<in> pending q3 \<longleftrightarrow> rearmed ?q2 t" using q3(6) t by blast
    have "\<not> (\<exists>u \<in> ?X. wants_cancel q t (body u))" if "rearmed ?q2 t"
    proof
      assume "\<exists>u \<in> ?X. wants_cancel q t (body u)"
      then obtain e where e: "e \<in> set ?ex" "wants_cancel q t (body (snd e))" by auto
      then have "wants_cancel ?q1 t (body (snd e))" using q1(4) by (simp add: wants_cancel_def)
      then have "is_canceled q2 t" using q2(4) e(1) t by blast
      with that show False by (auto simp: is_canceled_def rearmed_def)
    qed
    then have cancel: "rearmed ?q2 t \<Longrightarrow> \<not> (\<exists>u \<in> ?X. wants_cancel q t (body u))" by blast
    obtain tm where tm: "heap q t = Some tm" using live t by blast
    have rep: "repeat (the (heap q t))" if "rearmed ?q2 t" using that heap2 [OF t] tm by (simp add: rearmed_def)
    have "heap ?q2 t = heap q t" using heap2 [OF t] by simp
    then have hp: "heap q3 t = (if rearmed ?q2 t then map_option (timer_restart now) (heap q t) else None)"
      using q3(7) [of t] t by (simp only: if_False not_True_eq_False)
    show ?thesis
    proof (intro conjI impI)
      show "heap q t \<noteq> None" using tm by simp
      assume "t \<in> pending q3"
      then have re: "rearmed ?q2 t" using iff by blast
      show "repeat (the (heap q t))" using re by (rule rep)
      show "heap q3 t = map_option (timer_restart now) (heap q t)" using hp re by (simp only: if_True)
      show "\<not> (\<exists>u \<in> ?X. wants_cancel q t (body u))" using re by (rule cancel)
    next
      assume "t \<notin> pending q3"
      then show "heap q3 t = None" using iff hp by (simp only: if_False)
    qed
  qed
  have "\<forall>t \<in> ?X. heap q t \<noteq> None \<and>
      (t \<in> pending q3 \<longrightarrow> repeat (the (heap q t)) \<and> heap q3 t = map_option (timer_restart now) (heap q t) \<and>
         \<not> (\<exists>u \<in> ?X. wants_cancel q t (body u))) \<and>
      (t \<notin> pending q3 \<longrightarrow> heap q3 t = None)" by (intro ballI) (rule eff)
  moreover have "tq_ok q3" using q3(2-5) by (simp add: tq_ok_def)
  ultimately show ?thesis using run unfolding X by blast
qed


text \<open>The life of a timer queue: timers are added and cancelled in the loop thread, and the timer descriptor
  fires.\<close>

datatype tq_event = Act tq_action | Fire "timer_ptr \<Rightarrow> tq_action list" int

fun tq_event_run :: "tq_event \<Rightarrow> timerqueue \<Rightarrow> timerqueue res" where
  "tq_event_run (Act a) q = tq_act a q"
| "tq_event_run (Fire body now) q = tq_handleRead body now q"

fun event_legal :: "tq_event \<Rightarrow> timerqueue \<Rightarrow> bool" where
  "event_legal (Act a) q \<longleftrightarrow> act_legal a q"
| "event_legal (Fire body now) q \<longleftrightarrow> fire_legal body now q"

fun tq_events :: "tq_event list \<Rightarrow> timerqueue \<Rightarrow> timerqueue res" where
  "tq_events [] q = Inr q"
| "tq_events (e # es) q = rbind (tq_event_run e q) (tq_events es)"

fun events_legal :: "tq_event list \<Rightarrow> timerqueue \<Rightarrow> bool" where
  "events_legal [] q \<longleftrightarrow> True"
| "events_legal (e # es) q \<longleftrightarrow> event_legal e q \<and> (case tq_event_run e q of Inl _ \<Rightarrow> True | Inr q \<Rightarrow> events_legal es q)"

definition empty_queue :: timerqueue where
  "empty_queue = \<lparr>timers = [], activeTimers = {}, callingExpiredTimers = False, cancelingTimers = {},
     heap = Map.empty, armed = None\<rparr>"

lemma act_ok:
  assumes ok: "tq_ok q" and legal: "act_legal a q"
  shows "\<exists>q'. tq_act a q = Inr q' \<and> tq_ok q'"
proof (cases a)
  case (Add t tm)
  have inv: "tq_inv q" "tq_armed q" using ok by (auto simp: tq_ok_def)
  obtain q' where q': "addTimer t tm q = Inr q'" "tq_inv q'" "timers q' = insort (expiration tm, t) (timers q)"
      "heap q' = (heap q)(t \<mapsto> tm)" "callingExpiredTimers q' = callingExpiredTimers q"
      "armed q' = (if timers q = [] \<or> expiration tm < fst (hd (timers q)) then Some (expiration tm) else armed q)"
    using addTimer_ok [OF inv(1), of t tm] legal Add by auto
  have "tq_armed q'" using addTimer_armed [OF inv(2) q'(3,6)] .
  moreover have "tq_pos q'" using ok legal Add q'(4) by (auto simp: tq_ok_def tq_pos_def)
  ultimately show ?thesis using q' ok Add by (auto simp: tq_ok_def)
next
  case (Cancel t sq)
  have inv: "tq_inv q" "tq_armed q" "tq_pos q" using ok by (auto simp: tq_ok_def)
  obtain q' where q': "cancelInLoop (t, sq) q = Inr q'" "tq_inv q'" "armed q' = armed q"
      "callingExpiredTimers q' = callingExpiredTimers q"
    and eff: "(\<exists>w. timers q' = remove1 (w, t) (timers q)) \<and> heap q' = (heap q)(t := None) \<or> timers q' = timers q \<and> heap q' = heap q"
    using cancelInLoop_ok [OF inv(1), of t sq] by (auto split: if_splits)
  have pos: "tq_pos q'" using eff inv(3) by (auto simp: tq_pos_def split: if_splits)
  have "tq_armed q'"
  proof (cases "timers q' = []")
    case True
    then show ?thesis by (simp add: tq_armed_def)
  next
    case False
    then have "timers q \<noteq> []" using eff by auto
    moreover have "fst (hd (timers q)) \<le> fst (hd (timers q'))"
      using eff hd_remove1 [OF tq_invD(1) [OF inv(1)]] False by auto
    ultimately show ?thesis using inv(2) q'(3) by (auto simp: tq_armed_def)
  qed
  with q' pos ok Cancel show ?thesis by (auto simp: tq_ok_def)
qed

lemma event_ok: "tq_ok q \<Longrightarrow> event_legal e q \<Longrightarrow> \<exists>q'. tq_event_run e q = Inr q' \<and> tq_ok q'"
proof (cases e)
  case (Fire body now)
  assume "tq_ok q" and "event_legal e q"
  with Fire tq_handleRead_ok [of q body now] show ?thesis by (auto simp: tq_ok_def)
qed (auto intro: act_ok)


definition sample_timer :: timer where
  "sample_timer = \<lparr>expiration = 10, interval_us = 5, repeat = True, sequence = 1\<rparr>"

lemma empty_queue_ok: "tq_ok empty_queue"
  by (simp add: tq_ok_def tq_inv_def tq_pos_def tq_armed_def empty_queue_def)

lemma sample_add:
  "addTimer 3 sample_timer empty_queue = Inr \<lparr>timers = [(10, 3)], activeTimers = {(3, 1)}, callingExpiredTimers = False,
     cancelingTimers = {}, heap = [3 \<mapsto> sample_timer], armed = Some 10\<rparr>"
  by (simp add: addTimer_def addTimerInLoop_def tq_insert_def deref_timer_def sizes_agree_def empty_queue_def
      sample_timer_def resetTimerfd_def)


text \<open>What one timer interrupt does to the timers that are due. Every one of them was live; a one-shot
  timer, and a repeating one that any of the callbacks cancelled (its own included), is deleted and never
  pending again; every other repeating timer is pending again with the expiration \<open>now + interval\<close>.\<close>

theorem fired_timers:
  assumes "tq_ok q" and "fire_legal body now q" and "t \<in> due now q" and "heap q t = Some tm"
  shows "\<exists>q'. tq_handleRead body now q = Inr q' \<and>
    (t \<in> pending q' \<longrightarrow> repeat tm \<and> (\<forall>u \<in> due now q. Cancel t (sequence tm) \<notin> set (body u)) \<and>
       heap q' t = Some (tm\<lparr>expiration := now + interval_us tm\<rparr>)) \<and>
    (t \<notin> pending q' \<longrightarrow> heap q' t = None)"
proof -
  have inv: "tq_inv q" "tq_pos q" using assms(1) by (auto simp: tq_ok_def)
  obtain q' where q': "tq_handleRead body now q = Inr q'"
      "t \<in> pending q' \<longrightarrow> repeat (the (heap q t)) \<and> heap q' t = map_option (timer_restart now) (heap q t) \<and>
         \<not> (\<exists>u \<in> due now q. wants_cancel q t (body u))"
      "t \<notin> pending q' \<longrightarrow> heap q' t = None"
    using tq_handleRead_ok [OF inv assms(2)] assms(3) by blast
  show ?thesis
    using q' assms(4) by (intro exI [of _ q']) (auto simp: wants_cancel_def timer_restart_def)
qed

theorem fired_timers_witness:
  "\<exists>q'. tq_handleRead (\<lambda>_. []) 15 sample_queue = Inr q' \<and> (2 \<in> pending q' \<longrightarrow> expiration (the (heap q' 2)) = 20)"
proof -
  have ok: "tq_ok sample_queue"
    using sample_queue_inv by (auto simp: tq_ok_def tq_pos_def tq_armed_def sample_queue_def split: if_splits)
  have legal: "fire_legal (\<lambda>_. []) 15 sample_queue"
    by (auto simp: fire_legal_def sample_queue_def getExpired_def sizes_agree_def deref_timer_def UINTPTR_MAX_def less_prod_def)
  have "2 \<in> due 15 sample_queue" by (simp add: due_def sample_queue_def image_iff)
  from fired_timers [OF ok legal this] show ?thesis by (auto simp: sample_queue_def)
qed

text \<open>The relative time handed to the kernel: at least 100 microseconds, a normalised \<open>timespec\<close>, and
  exact when the expiration lies further ahead.\<close>

lemma howMuchTimeFromNow_bounds:
  assumes "howMuchTimeFromNow when now = (sec, nsec)"
  shows "0 \<le> nsec \<and> nsec < 1000000000 \<and> sec * 1000000000 + nsec = max 100 (when - now) * 1000"
proof -
  define us where "us = (if when - now < 100 then 100 else when - now)"
  have "0 < us" "us = max 100 (when - now)" by (auto simp: us_def)
  have "sec = us div 1000000" "nsec = us mod 1000000 * 1000"
    using assms \<open>0 < us\<close> by (auto simp: howMuchTimeFromNow_def us_def [symmetric] signed_divide_int_def signed_modulo_int_def Let_def)
  moreover have "us mod 1000000 < 1000000" "0 \<le> us mod 1000000" by simp_all
  moreover have "us = us div 1000000 * 1000000 + us mod 1000000" by (rule div_mult_mod_eq [symmetric])
  ultimately have "0 \<le> nsec" "nsec < 1000000000" "sec * 1000000000 + nsec = us * 1000" by linarith+
  then show ?thesis using \<open>us = max 100 (when - now)\<close> by simp
qed

lemma timerfd_value_exact:
  "\<exists>sec nsec. timerfd_value now expire q = Some (sec, nsec) \<and> sec * 1000000000 + nsec = max 100 (expire - now) * 1000"
  using howMuchTimeFromNow_bounds [of expire now] by (cases "howMuchTimeFromNow expire now") (auto simp: timerfd_value_def resetTimerfd_def)


subsection \<open>Construction and destruction\<close>

definition TimerQueue_new :: timerqueue where
  "TimerQueue_new = \<lparr>timers = [], activeTimers = {}, callingExpiredTimers = False, cancelingTimers = {},
     heap = Map.empty, armed = None\<rparr>"

text \<open>The destructor deletes every pending timer; deleting one twice would be undefined.\<close>

fun delete_timers :: "(int \<times> timer_ptr) list \<Rightarrow> timerqueue \<Rightarrow> timerqueue res" where
  "delete_timers [] q = Inr q"
| "delete_timers (e # es) q = rbind (deref_timer (snd e) q) (\<lambda>_. delete_timers es (q\<lparr>heap := (heap q)(snd e := None)\<rparr>))"

definition TimerQueue_delete :: "timerqueue \<Rightarrow> timerqueue res" where
  "TimerQueue_delete q = delete_timers (timers q) q"

lemma delete_timers_ok:
  "distinct (map snd es) \<Longrightarrow> \<forall>e \<in> set es. heap q (snd e) \<noteq> None \<Longrightarrow>
   delete_timers es q = Inr (q\<lparr>heap := heap q |` (- (snd ` set es))\<rparr>)"
proof (induction es arbitrary: q)
  case Nil
  then show ?case by (simp add: restrict_map_def)
next
  case (Cons e es)
  let ?q = "q\<lparr>heap := (heap q)(snd e := None)\<rparr>"
  have "\<forall>x \<in> set es. heap ?q (snd x) \<noteq> None"
  proof
    fix x assume x: "x \<in> set es"
    then have "snd x \<noteq> snd e" using Cons.prems(1) by (metis distinct.simps(2) image_eqI list.set_map list.simps(9))
    with x Cons.prems(2) show "heap ?q (snd x) \<noteq> None" by simp
  qed
  then have "delete_timers es ?q = Inr (?q\<lparr>heap := heap ?q |` (- (snd ` set es))\<rparr>)"
    by (rule Cons.IH [rotated]) (use Cons.prems(1) in simp)
  moreover have "heap ?q |` (- (snd ` set es)) = heap q |` (- (snd ` set (e # es)))"
    by (rule ext) (simp add: restrict_map_def)
  moreover have "delete_timers (e # es) q = delete_timers es ?q" using Cons.prems(2) by (auto simp: deref_timer_def)
  ultimately show ?case by (metis timerqueue.fold_congs(5) timerqueue.surjective timerqueue.update_convs(5))
qed

text \<open>Destroying a consistent queue frees exactly its pending timers, each once.\<close>

lemma TimerQueue_delete_ok:
  assumes "tq_inv q"
  shows "TimerQueue_delete q = Inr (q\<lparr>heap := heap q |` (- pending q)\<rparr>)"
  unfolding TimerQueue_delete_def pending_def
  by (rule delete_timers_ok) (use assms in \<open>fastforce simp: tq_inv_def\<close>)+

lemma TimerQueue_new_inv: "tq_inv TimerQueue_new"
  by (simp add: tq_inv_def TimerQueue_new_def)

end
