(* ===== verification/EventLoop.thy ===== *)
theory EventLoop
  imports PollPoller TimerQueue
begin

section \<open>The event loop (\<open>net/EventLoop.cc\<close>)\<close>

text \<open>
  A loop runs in one thread: it polls, handles the active channels, then runs the functors other threads
  (or its own handlers) queued, until somebody asks it to quit. A thread that queues a functor or calls
  \<open>quit\<close> wakes the loop by writing to an eventfd whenever the loop may otherwise block before it looks
  again. A \<open>Functor\<close> is a \<open>task\<close>, a name.

  The operations are functions on the loop's state; \<open>el_step\<close> interleaves the loop thread with any
  number of other threads at the points where the source takes or releases the mutex, reads or writes
  an atomic flag or makes a system call. \<open>inflight\<close> counts the threads that have queued a functor or set
  \<open>quit_\<close> and have not yet written to the eventfd; \<open>unwoken\<close> records that the loop's own thread queued
  a functor outside \<open>loop\<close>. The eventfd counter is the kernel's: a write adds one unless it
  would overflow, a read resets it, and \<open>epoll_wait\<close> reports the descriptor whenever the counter is positive.
\<close>

type_synonym task = nat

datatype el_pc =
    Idle                     \<comment> \<open>not inside \<open>loop\<close>\<close>
  | Head                     \<comment> \<open>at the test \<open>while (!quit_)\<close>\<close>
  | Polling                  \<comment> \<open>about to call \<open>poll\<close> or blocked in it\<close>
  | Handling bool            \<comment> \<open>handling events; the wakeup channel is still to be handled\<close>
  | Calling "task list"      \<comment> \<open>in \<open>doPendingFunctors\<close>, with the functors still to be run\<close>

record eventloop =
  looping :: bool
  quit_flag :: bool
  eventHandling :: bool
  callingPendingFunctors :: bool
  iteration :: int
  pendingFunctors :: "task list"
  wakeup_count :: nat
  el_pc :: el_pc
  executed :: "task list"   \<comment> \<open>the queued functors run so far\<close>
  queued :: "task list"     \<comment> \<open>the functors queued so far\<close>
  direct :: "task list"     \<comment> \<open>the functors \<open>runInLoop\<close> called at once\<close>
  inflight :: nat
  unwoken :: bool

definition eventfd_max :: nat where "eventfd_max = 2 ^ 64 - 2"

definition el_init :: eventloop where
  "el_init = \<lparr>looping = False, quit_flag = False, eventHandling = False, callingPendingFunctors = False,
     iteration = 0, pendingFunctors = [], wakeup_count = 0, el_pc = Idle,
     executed = [], queued = [], direct = [], inflight = 0, unwoken = False\<rparr>"

definition wakeup :: "eventloop \<Rightarrow> eventloop" where
  "wakeup s = s\<lparr>wakeup_count := if wakeup_count s < eventfd_max then wakeup_count s + 1 else wakeup_count s\<rparr>"

definition el_handleRead :: "eventloop \<Rightarrow> eventloop" where
  "el_handleRead s = s\<lparr>wakeup_count := 0\<rparr>"

definition el_quit :: "bool \<Rightarrow> eventloop \<Rightarrow> eventloop" where
  "el_quit inLoopThread s =
     (let s = s\<lparr>quit_flag := True\<rparr>
      in if \<not> inLoopThread then wakeup s else s)"

definition queue_push :: "task \<Rightarrow> eventloop \<Rightarrow> eventloop" where
  "queue_push f s = s\<lparr>pendingFunctors := pendingFunctors s @ [f], queued := queued s @ [f]\<rparr>"

definition queueInLoop :: "bool \<Rightarrow> task \<Rightarrow> eventloop \<Rightarrow> eventloop" where
  "queueInLoop inLoopThread f s =
     (let s = queue_push f s
      in if \<not> inLoopThread \<or> callingPendingFunctors s then wakeup s else s)"

definition runInLoop :: "bool \<Rightarrow> task \<Rightarrow> eventloop \<Rightarrow> eventloop" where
  "runInLoop inLoopThread f s =
     (if inLoopThread then s\<lparr>direct := direct s @ [f]\<rparr> else queueInLoop False f s)"

definition queueSize :: "eventloop \<Rightarrow> nat" where
  "queueSize s = length (pendingFunctors s)"

text \<open>\<open>doPendingFunctors\<close>: the swap under the mutex, one call, and the end.\<close>

definition dpf_swap :: "eventloop \<Rightarrow> eventloop" where
  "dpf_swap s = s\<lparr>callingPendingFunctors := True, pendingFunctors := [], unwoken := False,
     el_pc := Calling (pendingFunctors s)\<rparr>"

definition dpf_call :: "eventloop \<Rightarrow> eventloop" where
  "dpf_call s = (case el_pc s of
     Calling (f # fs) \<Rightarrow> s\<lparr>el_pc := Calling fs, executed := executed s @ [f]\<rparr> | _ \<Rightarrow> s)"

definition dpf_done :: "eventloop \<Rightarrow> eventloop" where
  "dpf_done s = s\<lparr>callingPendingFunctors := False, el_pc := Head\<rparr>"

text \<open>\<open>loop\<close>: its entry, the test of its condition, the return of \<open>poll\<close>, and the end of the event handlers.\<close>

definition loop_enter :: "bool \<Rightarrow> eventloop \<Rightarrow> eventloop res" where
  "loop_enter inLoopThread s =
     cassert (\<not> looping s)
       (if \<not> inLoopThread then Inl Abort
        else Inr (s\<lparr>looping := True, quit_flag := False, el_pc := Head\<rparr>))"

definition loop_test :: "eventloop \<Rightarrow> eventloop" where
  "loop_test s = (if quit_flag s then s\<lparr>looping := False, el_pc := Idle\<rparr> else s\<lparr>el_pc := Polling\<rparr>)"

definition loop_polled :: "eventloop \<Rightarrow> eventloop" where
  "loop_polled s = s\<lparr>iteration := iteration s + 1, eventHandling := True, el_pc := Handling (0 < wakeup_count s)\<rparr>"

definition loop_handled :: "eventloop \<Rightarrow> eventloop" where
  "loop_handled s = dpf_swap (s\<lparr>eventHandling := False\<rparr>)"

inductive el_step :: "eventloop \<Rightarrow> eventloop \<Rightarrow> bool" where
  other_push: "el_step s ((queue_push f s)\<lparr>inflight := inflight s + 1\<rparr>)"
| other_quit: "el_step s (s\<lparr>quit_flag := True, inflight := inflight s + 1\<rparr>)"
| other_wakeup: "0 < inflight s \<Longrightarrow> el_step s ((wakeup s)\<lparr>inflight := inflight s - 1\<rparr>)"
| idle_queues: "el_pc s = Idle \<Longrightarrow> el_step s ((queueInLoop True f s)\<lparr>unwoken := True\<rparr>)"
| idle_quits: "el_pc s = Idle \<Longrightarrow> el_step s (el_quit True s)"
| enter_loop: "el_pc s = Idle \<Longrightarrow> loop_enter True s = Inr s' \<Longrightarrow> el_step s s'"
| test_quit: "el_pc s = Head \<Longrightarrow> el_step s (loop_test s)"
| poll_return: "el_pc s = Polling \<Longrightarrow> el_step s (loop_polled s)"
| handle_wakeup: "el_pc s = Handling True \<Longrightarrow> el_step s ((el_handleRead s)\<lparr>el_pc := Handling False\<rparr>)"
| handler_queues: "el_pc s = Handling w \<Longrightarrow> el_step s (queueInLoop True f s)"
| handler_quits: "el_pc s = Handling w \<Longrightarrow> el_step s (el_quit True s)"
| start_functors: "el_pc s = Handling False \<Longrightarrow> el_step s (loop_handled s)"
| functor_queues: "el_pc s = Calling fs \<Longrightarrow> el_step s (queueInLoop True f s)"
| functor_quits: "el_pc s = Calling fs \<Longrightarrow> el_step s (el_quit True s)"
| call_functor: "el_pc s = Calling (f # fs) \<Longrightarrow> el_step s (dpf_call s)"
| end_functors: "el_pc s = Calling [] \<Longrightarrow> el_step s (dpf_done s)"
| run_at_once: "el_pc s \<noteq> Head \<Longrightarrow> el_pc s \<noteq> Polling \<Longrightarrow> el_step s (runInLoop True f s)"

text \<open>The calls of other threads are two steps each, since the loop may run between their critical section and their wakeup.
  When nothing comes between, they are the functions above.\<close>

lemma other_thread_calls:
  "\<exists>t. el_step s t \<and> el_step t (el_quit False s)" "\<exists>t. el_step s t \<and> el_step t (queueInLoop False f s)"
proof -
  let ?q = "s\<lparr>quit_flag := True, inflight := inflight s + 1\<rparr>"
  have "el_step ?q ((wakeup ?q)\<lparr>inflight := inflight ?q - 1\<rparr>)" by (rule other_wakeup) simp
  moreover have "(wakeup ?q)\<lparr>inflight := inflight ?q - 1\<rparr> = el_quit False s" by (simp add: el_quit_def wakeup_def)
  ultimately show "\<exists>t. el_step s t \<and> el_step t (el_quit False s)" using other_quit by metis
  let ?p = "(queue_push f s)\<lparr>inflight := inflight s + 1\<rparr>"
  have "el_step ?p ((wakeup ?p)\<lparr>inflight := inflight ?p - 1\<rparr>)" by (rule other_wakeup) simp
  moreover have "(wakeup ?p)\<lparr>inflight := inflight ?p - 1\<rparr> = queueInLoop False f s"
    by (simp add: queueInLoop_def queue_push_def wakeup_def)
  ultimately show "\<exists>t. el_step s t \<and> el_step t (queueInLoop False f s)" using other_push by metis
qed

inductive el_reach :: "eventloop \<Rightarrow> bool" where
  reach_init: "el_reach el_init"
| reach_step: "el_reach s \<Longrightarrow> el_step s s' \<Longrightarrow> el_reach s'"

subsection \<open>One loop per thread\<close>

text \<open>\<open>t_loopInThisThread\<close> is a thread-local pointer: a map from threads to loops. A second loop in a thread
  is a fatal log message, which aborts; so is a destructor in another thread, since removing the wakeup
  channel asserts that it runs in the loop's thread.\<close>

type_synonym loop_tid = nat

record el_registry =
  t_loopInThisThread :: "loop_tid \<rightharpoonup> nat"
  loop_threads :: "nat \<rightharpoonup> loop_tid"    \<comment> \<open>\<open>threadId_\<close> of the loops that exist\<close>

definition createEventfd :: "int \<Rightarrow> int res" where
  "createEventfd evtfd = (if evtfd < 0 then Inl Abort else Inr evtfd)"

definition EventLoop_new :: "int \<Rightarrow> loop_tid \<Rightarrow> nat \<Rightarrow> el_registry \<Rightarrow> el_registry res" where
  "EventLoop_new evtfd cur this r =
     rbind (createEventfd evtfd) (\<lambda>_.
     if t_loopInThisThread r cur \<noteq> None then Inl Abort
     else Inr (r\<lparr>t_loopInThisThread := (t_loopInThisThread r)(cur \<mapsto> this),
                 loop_threads := (loop_threads r)(this \<mapsto> cur)\<rparr>))"

definition EventLoop_delete :: "loop_tid \<Rightarrow> nat \<Rightarrow> el_registry \<Rightarrow> el_registry res" where
  "EventLoop_delete cur this r =
     (if loop_threads r this \<noteq> Some cur then Inl Abort
      else Inr (r\<lparr>t_loopInThisThread := (t_loopInThisThread r)(cur := None),
                  loop_threads := (loop_threads r)(this := None)\<rparr>))"

definition getEventLoopOfCurrentThread :: "loop_tid \<Rightarrow> el_registry \<Rightarrow> nat option" where
  "getEventLoopOfCurrentThread cur r = t_loopInThisThread r cur"

definition el_isInLoopThread :: "loop_tid \<Rightarrow> nat \<Rightarrow> el_registry \<Rightarrow> bool" where
  "el_isInLoopThread cur this r \<longleftrightarrow> loop_threads r this = Some cur"

definition assertInLoopThread :: "loop_tid \<Rightarrow> nat \<Rightarrow> el_registry \<Rightarrow> unit res" where
  "assertInLoopThread cur this r = (if \<not> el_isInLoopThread cur this r then Inl Abort else Inr ())"

text \<open>Every loop is the one its thread finds, and a thread finds only loops that exist.\<close>

definition el_registry_ok :: "el_registry \<Rightarrow> bool" where
  "el_registry_ok r \<longleftrightarrow> (\<forall>t l. t_loopInThisThread r t = Some l \<longleftrightarrow> loop_threads r l = Some t)"

lemma EventLoop_new_ok:
  "el_registry_ok r \<Longrightarrow> loop_threads r this = None \<Longrightarrow> EventLoop_new evtfd cur this r = Inr r' \<Longrightarrow>
   el_registry_ok r' \<and> assertInLoopThread cur this r' = Inr ()"
  by (auto simp: el_registry_ok_def EventLoop_new_def createEventfd_def assertInLoopThread_def el_isInLoopThread_def
      split: if_splits)

lemma one_loop_per_thread:
  "el_registry_ok r \<Longrightarrow> loop_threads r a = Some t \<Longrightarrow> loop_threads r b = Some t \<Longrightarrow> a = b"
  unfolding el_registry_ok_def by (metis option.inject)

lemma EventLoop_delete_ok:
  assumes "el_registry_ok r" and "EventLoop_delete cur this r = Inr r'"
  shows "el_registry_ok r' \<and> getEventLoopOfCurrentThread cur r' = None"
proof -
  have r': "r' = r\<lparr>t_loopInThisThread := (t_loopInThisThread r)(cur := None), loop_threads := (loop_threads r)(this := None)\<rparr>"
    and thr: "loop_threads r this = Some cur"
    using assms(2) by (simp_all add: EventLoop_delete_def split: if_splits)
  have "el_registry_ok r'"
    unfolding el_registry_ok_def
  proof (intro allI)
    fix t l
    have "t_loopInThisThread r t = Some l \<longleftrightarrow> loop_threads r l = Some t" using assms(1) unfolding el_registry_ok_def by blast
    moreover have "loop_threads r l = Some cur \<longleftrightarrow> l = this" using one_loop_per_thread [OF assms(1)] thr by blast
    ultimately show "t_loopInThisThread r' t = Some l \<longleftrightarrow> loop_threads r' l = Some t"
      by (cases "t = cur"; cases "l = this") (simp_all add: r' thr)
  qed
  then show ?thesis by (simp add: r' getEventLoopOfCurrentThread_def)
qed

subsection \<open>Timers of a loop\<close>

text \<open>The forwards to the timer queue, in the loop's thread: \<open>t\<close> is the address of the new timer and \<open>sq\<close> its
  sequence number. A delay is its length in microseconds after the conversion in \<open>addTime\<close>; whether a timer
  repeats depends on the interval in seconds being positive, before that conversion.\<close>

definition runAt :: "timer_ptr \<Rightarrow> int \<Rightarrow> int \<Rightarrow> timerqueue \<Rightarrow> timerqueue res" where
  "runAt t sq time = addTimer t \<lparr>expiration = time, interval_us = 0, repeat = False, sequence = sq\<rparr>"

definition runAfter :: "timer_ptr \<Rightarrow> int \<Rightarrow> int \<Rightarrow> int \<Rightarrow> timerqueue \<Rightarrow> timerqueue res" where
  "runAfter t sq now delay = runAt t sq (now + delay)"

definition runEvery :: "timer_ptr \<Rightarrow> int \<Rightarrow> int \<Rightarrow> int \<Rightarrow> bool \<Rightarrow> timerqueue \<Rightarrow> timerqueue res" where
  "runEvery t sq now ival positive =
     addTimer t \<lparr>expiration = now + ival, interval_us = ival, repeat = positive, sequence = sq\<rparr>"

definition el_cancel :: "timer_ptr \<times> int \<Rightarrow> timerqueue \<Rightarrow> timerqueue res" where
  "el_cancel timerId = cancelInLoop timerId"

subsection \<open>Channels of a loop\<close>

text \<open>Channel updates and removals go through the loop to its poller. A handler may only remove the
  channel being handled, or one that is not active.\<close>

record 'p looppoller =
  lp_state :: "'p pstate"
  lp_eventHandling :: bool
  lp_current :: "cid option"
  lp_active :: "cid list"

definition loop_updateChannel ::
  "(cid \<Rightarrow> 'p pstate \<Rightarrow> 'p pstate res) \<Rightarrow> bool \<Rightarrow> cid \<Rightarrow> 'p looppoller \<Rightarrow> 'p looppoller res" where
  "loop_updateChannel upd inLoopThread c s =
     (if \<not> inLoopThread then Inl Abort
      else rbind (upd c (lp_state s)) (\<lambda>p. Inr (s\<lparr>lp_state := p\<rparr>)))"

definition loop_removeChannel ::
  "(cid \<Rightarrow> 'p pstate \<Rightarrow> 'p pstate res) \<Rightarrow> bool \<Rightarrow> cid \<Rightarrow> 'p looppoller \<Rightarrow> 'p looppoller res" where
  "loop_removeChannel rem inLoopThread c s =
     (if \<not> inLoopThread then Inl Abort
      else cassert (lp_eventHandling s \<longrightarrow> lp_current s = Some c \<or> c \<notin> set (lp_active s))
        (rbind (rem c (lp_state s)) (\<lambda>p. Inr (s\<lparr>lp_state := p\<rparr>))))"

lemma loop_thread_only:
  "loop_updateChannel upd False c s = Inl Abort" "loop_removeChannel rem False c s = Inl Abort"
  by (simp_all add: loop_updateChannel_def loop_removeChannel_def)

lemma loop_remove_active:
  "lp_eventHandling s \<Longrightarrow> c \<in> set (lp_active s) \<Longrightarrow> lp_current s \<noteq> Some c \<Longrightarrow>
   loop_removeChannel rem True c s = Inl AssertFail"
  by (simp add: loop_removeChannel_def)

definition loop_hasChannel :: "(cid \<Rightarrow> 'p pstate \<Rightarrow> bool) \<Rightarrow> bool \<Rightarrow> cid \<Rightarrow> 'p looppoller \<Rightarrow> bool res" where
  "loop_hasChannel has inLoopThread c s = (if \<not> inLoopThread then Inl Abort else Inr (has c (lp_state s)))"

text \<open>The part of \<open>loop\<close> that handles the active channels; \<open>h\<close> is what handling the events of a channel does.\<close>

fun handle_channels ::
  "(cid \<Rightarrow> 'p looppoller \<Rightarrow> 'p looppoller res) \<Rightarrow> cid list \<Rightarrow> 'p looppoller \<Rightarrow> 'p looppoller res" where
  "handle_channels h [] s = Inr (s\<lparr>lp_current := None, lp_eventHandling := False\<rparr>)"
| "handle_channels h (c # cs) s = rbind (h c (s\<lparr>lp_current := Some c\<rparr>)) (handle_channels h cs)"

definition loop_handle_events ::
  "(cid \<Rightarrow> 'p looppoller \<Rightarrow> 'p looppoller res) \<Rightarrow> 'p looppoller \<Rightarrow> 'p looppoller res" where
  "loop_handle_events h s = handle_channels h (lp_active s) (s\<lparr>lp_eventHandling := True\<rparr>)"

text \<open>A handler that keeps an invariant of the loop, whichever channel is current, keeps it for the whole
  round, and no assertion fails in it.\<close>

lemma handle_channels_safe:
  assumes "\<And>c s. c \<in> set cs \<Longrightarrow> I s \<Longrightarrow> lp_current s = Some c \<Longrightarrow> \<exists>s'. h c s = Inr s' \<and> I s'"
    and "\<And>s c. I s \<Longrightarrow> I (s\<lparr>lp_current := Some c\<rparr>)" and "I s"
  shows "\<exists>s'. handle_channels h cs s = Inr (s'\<lparr>lp_current := None, lp_eventHandling := False\<rparr>) \<and> I s'"
  using assms(1,3)
proof (induction cs arbitrary: s)
  case (Cons c cs)
  have "I (s\<lparr>lp_current := Some c\<rparr>)" by (rule assms(2) [OF Cons.prems(2)])
  with Cons.prems(1) [of c] obtain s1 where "h c (s\<lparr>lp_current := Some c\<rparr>) = Inr s1" "I s1" by fastforce
  with Cons.IH [of s1] Cons.prems(1) show ?case by simp
qed auto

subsection \<open>No functor is lost, and none waits for a sleeping loop\<close>

definition running :: "eventloop \<Rightarrow> task list" where
  "running s = (case el_pc s of Calling fs \<Rightarrow> fs | _ \<Rightarrow> [])"

definition el_inv :: "eventloop \<Rightarrow> bool" where
  "el_inv s \<longleftrightarrow> queued s = executed s @ running s @ pendingFunctors s \<and>
     (callingPendingFunctors s \<longleftrightarrow> (\<exists>fs. el_pc s = Calling fs)) \<and>
     (eventHandling s \<longleftrightarrow> (\<exists>w. el_pc s = Handling w)) \<and>
     (looping s \<longleftrightarrow> el_pc s \<noteq> Idle) \<and>
     (case el_pc s of
        Handling _ \<Rightarrow> True
      | _ \<Rightarrow> pendingFunctors s = [] \<or> 0 < wakeup_count s \<or> 0 < inflight s \<or> unwoken s) \<and>
     (el_pc s = Polling \<and> quit_flag s \<longrightarrow> 0 < wakeup_count s \<or> 0 < inflight s)"

lemma wakeup_simps [simp]:
  "pendingFunctors (wakeup s) = pendingFunctors s" "callingPendingFunctors (wakeup s) = callingPendingFunctors s"
  "el_pc (wakeup s) = el_pc s" "executed (wakeup s) = executed s" "queued (wakeup s) = queued s"
  "inflight (wakeup s) = inflight s" "0 < wakeup_count (wakeup s)" "looping (wakeup s) = looping s"
  "quit_flag (wakeup s) = quit_flag s" "eventHandling (wakeup s) = eventHandling s"
  by (auto simp: wakeup_def eventfd_max_def)

lemmas el_ops = queue_push_def queueInLoop_def runInLoop_def el_quit_def el_handleRead_def dpf_swap_def dpf_call_def
  dpf_done_def loop_enter_def loop_test_def loop_polled_def loop_handled_def

lemma el_inv_step: "el_step s s' \<Longrightarrow> el_inv s \<Longrightarrow> el_inv s'"
  by (induction rule: el_step.induct)
    (auto simp: el_inv_def running_def el_ops Let_def cassert_def split: el_pc.splits if_splits)

lemma el_inv_init: "el_inv el_init"
  by (simp add: el_init_def el_inv_def running_def)

lemma el_inv_reach: "el_reach s \<Longrightarrow> el_inv s"
  by (induction rule: el_reach.induct) (blast intro: el_inv_init el_inv_step)+

text \<open>Functors run in the order in which they were queued, each exactly once: in every reachable state
  of the loop and any number of queuing threads, the functors queued so far are those executed, followed by
  those being run, followed by those still pending.\<close>

theorem functors_fifo:
  assumes "el_reach s"
  shows "queued s = executed s @ running s @ pendingFunctors s"
  using el_inv_reach [OF assms] by (simp add: el_inv_def)

text \<open>A run in which another thread queues functor 7 while the loop is blocked.\<close>

definition blocked :: eventloop where
  "blocked = loop_test (el_init\<lparr>looping := True, quit_flag := False, el_pc := Head\<rparr>)"

definition woken :: eventloop where
  "woken = (wakeup ((queue_push 7 blocked)\<lparr>inflight := 1\<rparr>))\<lparr>inflight := 0\<rparr>"

lemma blocked_reach: "el_reach blocked"
proof -
  let ?a = "el_init\<lparr>looping := True, quit_flag := False, el_pc := Head\<rparr>"
  have "el_step el_init ?a" by (rule enter_loop) (simp_all add: el_init_def loop_enter_def)
  moreover have "el_step ?a blocked" unfolding blocked_def by (rule test_quit) simp
  ultimately show ?thesis using reach_init reach_step by blast
qed

lemma woken_reach: "el_reach woken"
proof -
  let ?a = "(queue_push 7 blocked)\<lparr>inflight := inflight blocked + 1\<rparr>"
  have "el_step blocked ?a" by (rule other_push)
  moreover have "el_step ?a ((wakeup ?a)\<lparr>inflight := inflight ?a - 1\<rparr>)" by (rule other_wakeup) simp
  moreover have "(wakeup ?a)\<lparr>inflight := inflight ?a - 1\<rparr> = woken"
    by (simp add: woken_def blocked_def loop_test_def el_init_def)
  ultimately show ?thesis using blocked_reach reach_step by metis
qed

lemmas woken_state = woken_def blocked_def loop_test_def queue_push_def wakeup_def el_init_def

theorem functors_fifo_witness: "queued woken = executed woken @ running woken @ pendingFunctors woken"
  by (rule functors_fifo [OF woken_reach])

text \<open>C9: No lost wakeup: whenever the loop is about to block in \<open>poll\<close>, or blocked in it, and it has been asked
  to quit or functors are pending (and since the last time functors were taken none was queued by the loop's own thread outside \<open>loop()\<close>), the
  eventfd is readable or a thread is about to write to it. The exception is real: what the loop's own thread queues before it enters
  \<open>loop()\<close> wakes nobody and waits for the first \<open>poll\<close> to return.\<close>

theorem no_lost_wakeup:
  assumes "el_reach s" and "el_pc s = Polling" and "quit_flag s \<or> pendingFunctors s \<noteq> [] \<and> \<not> unwoken s"
  shows "0 < wakeup_count s \<or> 0 < inflight s"
  using el_inv_reach [OF assms(1)] assms(2,3) by (auto simp: el_inv_def)

theorem no_lost_wakeup_witness: "0 < wakeup_count woken \<or> 0 < inflight woken"
  by (rule no_lost_wakeup [OF woken_reach]) (simp_all add: woken_state)

text \<open>A functor queued by the loop's own thread before the loop starts has no such guarantee: nothing is
  written to the eventfd, and the loop first polls for up to \<open>kPollTimeMs\<close>.\<close>

lemma queued_before_loop:
  "\<exists>s. el_reach s \<and> el_pc s = Polling \<and> pendingFunctors s = [f] \<and> wakeup_count s = 0 \<and> inflight s = 0"
proof -
  let ?a = "(queueInLoop True f el_init)\<lparr>unwoken := True\<rparr>"
  let ?b = "?a\<lparr>looping := True, quit_flag := False, el_pc := Head\<rparr>"
  have "el_step el_init ?a" by (rule idle_queues) (simp add: el_init_def)
  moreover have "el_step ?a ?b"
    by (rule enter_loop) (simp_all add: el_init_def loop_enter_def queueInLoop_def queue_push_def)
  moreover have "el_step ?b (loop_test ?b)" by (rule test_quit) simp
  ultimately have "el_reach (loop_test ?b)" using reach_init reach_step by metis
  moreover have "el_pc (loop_test ?b) = Polling" "pendingFunctors (loop_test ?b) = [f]"
      "wakeup_count (loop_test ?b) = 0" "inflight (loop_test ?b) = 0"
    by (simp_all add: loop_test_def queueInLoop_def queue_push_def el_init_def)
  ultimately show ?thesis by blast
qed

text \<open>Entering a loop that is running fails the assertion, whatever runs it: a handler, a functor or another thread.\<close>

lemma nested_loop_asserts: "el_reach s \<Longrightarrow> el_pc s \<noteq> Idle \<Longrightarrow> loop_enter t s = Inl AssertFail"
  using el_inv_reach [of s] by (simp add: el_inv_def loop_enter_def)

text \<open>A call of \<open>quit\<close> before \<open>loop\<close> is forgotten: the loop clears the flag on entry and goes on to poll.\<close>

lemma quit_before_loop_lost:
  "loop_enter True (el_quit True el_init) = Inr s \<Longrightarrow> el_pc (loop_test s) = Polling"
  by (auto simp: loop_enter_def el_quit_def loop_test_def el_init_def)


subsection \<open>Every functor is eventually run, and the loop quits\<close>

text \<open>The steps of the loop thread alone, without the handlers and functors queueing more.\<close>

fun loop_turn :: "eventloop \<Rightarrow> eventloop" where
  "loop_turn s = (case el_pc s of
     Idle \<Rightarrow> s
   | Head \<Rightarrow> loop_test s
   | Polling \<Rightarrow> loop_polled s
   | Handling True \<Rightarrow> (el_handleRead s)\<lparr>el_pc := Handling False\<rparr>
   | Handling False \<Rightarrow> loop_handled s
   | Calling (f # fs) \<Rightarrow> dpf_call s
   | Calling [] \<Rightarrow> dpf_done s)"

lemma loop_turn_step: "el_pc s \<noteq> Idle \<Longrightarrow> el_step s (loop_turn s)"
  by (cases "el_pc s"; cases "running s")
    (auto simp: running_def intro: el_step.intros split: el_pc.splits bool.splits list.splits)

declare loop_turn.simps [simp del]

text \<open>\<open>s\<close> leads to \<open>t\<close>: the loop thread gets from \<open>s\<close> to \<open>t\<close>.\<close>

definition leads :: "eventloop \<Rightarrow> eventloop \<Rightarrow> bool" where
  "leads s t \<longleftrightarrow> (\<exists>n. (loop_turn ^^ n) s = t)"

lemma leads_refl: "leads s s"
  unfolding leads_def by (rule exI [of _ 0]) simp

lemma leads_trans [trans]:
  assumes "leads s t" and "leads t u"
  shows "leads s u"
proof -
  from assms obtain m n where "(loop_turn ^^ m) s = t" "(loop_turn ^^ n) t = u" unfolding leads_def by blast
  then have "(loop_turn ^^ (n + m)) s = u" by (simp add: funpow_add)
  then show ?thesis unfolding leads_def by blast
qed

lemma leads_turn: "loop_turn s = t \<Longrightarrow> leads s t"
  unfolding leads_def by (rule exI [of _ 1]) simp

lemma leads_calls:
  "el_pc s = Calling fs \<Longrightarrow>
   leads s (s\<lparr>callingPendingFunctors := False, el_pc := Head, executed := executed s @ fs\<rparr>)"
proof (induction fs arbitrary: s)
  case Nil
  then show ?case by (intro leads_turn) (simp add: loop_turn.simps dpf_done_def)
next
  case (Cons f fs)
  let ?t = "s\<lparr>el_pc := Calling fs, executed := executed s @ [f]\<rparr>"
  have "leads s ?t" using Cons.prems by (intro leads_turn) (simp add: loop_turn.simps dpf_call_def)
  also have "leads ?t (?t\<lparr>callingPendingFunctors := False, el_pc := Head, executed := executed ?t @ fs\<rparr>)"
    by (rule Cons.IH) simp
  finally show ?case by simp
qed

lemma leads_handling:
  assumes "el_pc s = Handling w"
  shows "\<exists>t. leads s t \<and> el_pc t = Head \<and> executed t = executed s @ pendingFunctors s \<and> pendingFunctors t = [] \<and>
    quit_flag t = quit_flag s \<and> queued t = queued s"
proof -
  have drain: "\<exists>t. leads s t \<and> el_pc t = Head \<and> executed t = executed s @ pendingFunctors s \<and> pendingFunctors t = [] \<and>
      quit_flag t = quit_flag s \<and> queued t = queued s" if "el_pc s = Handling False" for s
  proof -
    have "leads s (loop_handled s)" using that by (intro leads_turn) (simp add: loop_turn.simps)
    also note leads_calls [of "loop_handled s" "pendingFunctors s"]
    finally show ?thesis by (intro exI conjI) (assumption | simp add: loop_handled_def dpf_swap_def)+
  qed
  show ?thesis
  proof (cases w)
    case True
    let ?u = "(el_handleRead s)\<lparr>el_pc := Handling False\<rparr>"
    have "leads s ?u" using True assms by (intro leads_turn) (simp add: loop_turn.simps)
    moreover obtain t where "leads ?u t" "el_pc t = Head" "executed t = executed ?u @ pendingFunctors ?u"
        "pendingFunctors t = []" "quit_flag t = quit_flag ?u" "queued t = queued ?u" using drain [of ?u] by auto
    ultimately show ?thesis using leads_trans by (auto simp: el_handleRead_def)
  qed (use drain assms in simp)
qed

lemma leads_polling:
  assumes "el_pc s = Polling"
  shows "\<exists>t. leads s t \<and> el_pc t = Head \<and> executed t = executed s @ pendingFunctors s \<and> pendingFunctors t = [] \<and>
    quit_flag t = quit_flag s \<and> queued t = queued s"
proof -
  have "leads s (loop_polled s)" using assms by (intro leads_turn) (simp add: loop_turn.simps)
  moreover obtain t where "leads (loop_polled s) t" "el_pc t = Head"
      "executed t = executed (loop_polled s) @ pendingFunctors (loop_polled s)" "pendingFunctors t = []"
      "quit_flag t = quit_flag (loop_polled s)" "queued t = queued (loop_polled s)"
    using leads_handling [of "loop_polled s" "0 < wakeup_count s"] by (auto simp: loop_polled_def)
  ultimately show ?thesis using leads_trans by (auto simp: loop_polled_def)
qed

text \<open>The pending functors the loop takes before it next tests \<open>quit_\<close>.\<close>

definition taken :: "eventloop \<Rightarrow> task list" where
  "taken s = (case el_pc s of Polling \<Rightarrow> pendingFunctors s | Handling _ \<Rightarrow> pendingFunctors s | _ \<Rightarrow> [])"

definition left_over :: "eventloop \<Rightarrow> task list" where
  "left_over s = (case el_pc s of Polling \<Rightarrow> [] | Handling _ \<Rightarrow> [] | _ \<Rightarrow> pendingFunctors s)"

lemma leads_head:
  assumes "el_pc s \<noteq> Idle"
  shows "\<exists>t. leads s t \<and> el_pc t = Head \<and> executed t = executed s @ running s @ taken s \<and>
    pendingFunctors t = left_over s \<and> quit_flag t = quit_flag s \<and> queued t = queued s"
proof (cases "el_pc s")
  case Head
  then show ?thesis by (intro exI [of _ s]) (simp add: running_def taken_def left_over_def leads_refl)
next
  case Polling
  then show ?thesis using leads_polling [OF Polling] by (simp add: running_def taken_def left_over_def)
next
  case (Handling w)
  then show ?thesis using leads_handling [OF Handling] by (simp add: running_def taken_def left_over_def)
next
  case (Calling fs)
  with leads_calls [OF Calling] show ?thesis by (intro exI conjI) (assumption | simp add: running_def taken_def left_over_def)+
qed (use assms in simp)

text \<open>C10: Every queued functor is run: from any reachable state in which the loop is running and has not been asked to quit, after
  finitely many steps of the loop thread (each poll returns at the latest after its timeout), all functors
  queued up to that state have been executed.\<close>

theorem functors_eventually_run:
  assumes "el_reach s" and "looping s" and "\<not> quit_flag s"
  shows "\<exists>n. executed ((loop_turn ^^ n) s) = queued s"
proof -
  have q: "queued s = executed s @ running s @ pendingFunctors s" and "el_pc s \<noteq> Idle"
    using el_inv_reach [OF assms(1)] assms(2) by (simp_all add: el_inv_def)
  then obtain t where t: "leads s t" "el_pc t = Head" "executed t = executed s @ running s @ taken s"
      "pendingFunctors t = left_over s" "\<not> quit_flag t" using leads_head assms(3) by blast
  have "leads s (loop_test t)" using leads_trans [OF t(1) leads_turn] t(2) by (simp add: loop_turn.simps)
  moreover have "el_pc (loop_test t) = Polling" using t(5) by (simp add: loop_test_def)
  then obtain u where "leads (loop_test t) u" "executed u = executed (loop_test t) @ pendingFunctors (loop_test t)"
    using leads_polling by blast
  moreover have "executed (loop_test t) @ pendingFunctors (loop_test t) = queued s"
    using t q by (auto simp: loop_test_def taken_def left_over_def split: el_pc.splits)
  ultimately show ?thesis using leads_trans unfolding leads_def by metis
qed

theorem functors_eventually_run_witness: "\<exists>n. executed ((loop_turn ^^ n) woken) = [7]"
  using functors_eventually_run [OF woken_reach] by (simp add: woken_state)

text \<open>C11: A loop that is asked to quit ends: from any reachable state in which \<open>quit_\<close> is set, after finitely
  many steps of the loop thread \<open>loop\<close> has returned. Until then it runs exactly the functors it had taken and
  those it takes before it next tests the flag; functors queued later stay in the queue and are not run.\<close>

theorem quit_ends_loop:
  assumes "el_reach s" and "looping s" and "quit_flag s"
  shows "\<exists>n. \<not> looping ((loop_turn ^^ n) s) \<and> el_pc ((loop_turn ^^ n) s) = Idle \<and>
    executed ((loop_turn ^^ n) s) = executed s @ running s @ taken s \<and>
    pendingFunctors ((loop_turn ^^ n) s) = left_over s"
proof -
  have "el_pc s \<noteq> Idle" using el_inv_reach [OF assms(1)] assms(2) by (simp add: el_inv_def)
  then obtain t where t: "leads s t" "el_pc t = Head" "executed t = executed s @ running s @ taken s"
      "pendingFunctors t = left_over s" "quit_flag t" using leads_head assms(3) by blast
  have "leads s (loop_test t)" using leads_trans [OF t(1) leads_turn] t(2) by (simp add: loop_turn.simps)
  then obtain n where "(loop_turn ^^ n) s = loop_test t" unfolding leads_def by blast
  moreover have "\<not> looping (loop_test t)" "el_pc (loop_test t) = Idle" "executed (loop_test t) = executed t"
      "pendingFunctors (loop_test t) = pendingFunctors t" using t(5) by (simp_all add: loop_test_def)
  ultimately show ?thesis using t(3,4) by metis
qed

text \<open>Another thread asks the blocked loop to quit after functor 7 was queued.\<close>

lemma woken_quit_reach: "el_reach (woken\<lparr>quit_flag := True, inflight := inflight woken + 1\<rparr>)"
  by (rule reach_step [OF woken_reach other_quit])

theorem quit_ends_loop_witness:
  "\<exists>n. \<not> looping ((loop_turn ^^ n) (woken\<lparr>quit_flag := True, inflight := 1\<rparr>)) \<and>
    executed ((loop_turn ^^ n) (woken\<lparr>quit_flag := True, inflight := 1\<rparr>)) = [7]"
proof -
  let ?w = "woken\<lparr>quit_flag := True, inflight := inflight woken + 1\<rparr>"
  have "executed ?w @ running ?w @ taken ?w = [7]" "looping ?w" "quit_flag ?w" "?w = woken\<lparr>quit_flag := True, inflight := 1\<rparr>"
    by (simp_all add: woken_state running_def taken_def)
  with quit_ends_loop [OF woken_quit_reach] show ?thesis by metis
qed

end
