(* ===== verification/TcpConnection.thy ===== *)
theory TcpConnection
  imports Buffer Sockets Channel
begin

section \<open>Connections (\<open>net/TcpConnection.cc\<close>)\<close>

text \<open>
  The state of one connection, with what the loop thread does to it. The kernel's answers to \<open>read\<close>
  and \<open>write\<close> are parameters. Work handed to the loop (\<open>runInLoop\<close> from another thread,
  \<open>queueInLoop\<close>) is the list \<open>todo\<close>, run in order. User callbacks are recorded in \<open>calls\<close>.
  Three further fields record history: \<open>wire\<close>, the bytes the kernel accepted, \<open>accepted\<close>, the bytes
  the connection took responsibility for, and \<open>tc_destroyed\<close>, that \<open>connectDestroyed\<close> has run.
\<close>

datatype tcp_state = kDisconnected | kConnecting | kConnected | kDisconnecting

datatype sys_write = Wrote nat | WriteErr errno

datatype conn_task = TSend bytes | TShutdown | TForceClose | TStartRead | TStopRead
  | TWriteComplete | THighWaterMark nat | TConnectDestroyed

datatype conn_call = ConnectionCb bool | MessageCb | CloseCb

record tcpconn =
  tc_state :: tcp_state
  tc_reading :: bool
  tc_channel :: channel
  inputBuffer :: buffer
  outputBuffer :: buffer
  highWaterMark :: nat
  hasWriteComplete :: bool
  hasHighWaterMark :: bool
  todo :: "conn_task list"
  calls :: "conn_call list"
  wr_shutdown :: bool
  wire :: bytes
  accepted :: bytes
  tc_destroyed :: bool

definition TcpConnection_new :: "int \<Rightarrow> tcpconn" where
  "TcpConnection_new sockfd = \<lparr>tc_state = kConnecting, tc_reading = True,
     tc_channel = (Channel_new sockfd)\<lparr>callbacks := [ReadCallback, WriteCallback, CloseCallback, ErrorCallback]\<rparr>,
     inputBuffer = empty_buffer kInitialSize, outputBuffer = empty_buffer kInitialSize,
     highWaterMark = 64 * 1024 * 1024, hasWriteComplete = False, hasHighWaterMark = False,
     todo = [], calls = [], wr_shutdown = False, wire = [], accepted = [], tc_destroyed = False\<rparr>"

definition ch_interest :: "interest \<Rightarrow> tcpconn \<Rightarrow> tcpconn" where
  "ch_interest i c = c\<lparr>tc_channel := (tc_channel c)\<lparr>ch_events := change_events i (ch_events (tc_channel c)),
     addedToLoop := True\<rparr>\<rparr>"

definition queue_task :: "conn_task \<Rightarrow> tcpconn \<Rightarrow> tcpconn" where
  "queue_task t c = c\<lparr>todo := todo c @ [t]\<rparr>"

definition call_user :: "conn_call \<Rightarrow> tcpconn \<Rightarrow> tcpconn" where
  "call_user u c = c\<lparr>calls := calls c @ [u]\<rparr>"

definition connected :: "tcpconn \<Rightarrow> bool" where "connected c \<longleftrightarrow> tc_state c = kConnected"


subsection \<open>Sending\<close>

text \<open>The direct attempt at the head of \<open>sendInLoop\<close>: how much was written, and whether the error is
  fatal for the connection.\<close>

definition try_write :: "sys_write \<Rightarrow> bytes \<Rightarrow> tcpconn \<Rightarrow> nat \<times> bool \<times> tcpconn" where
  "try_write answer data c =
     (if \<not> isWriting (tc_channel c) \<and> readableBytes (outputBuffer c) = 0
      then case answer of
          Wrote nwrote \<Rightarrow>
            (let c = c\<lparr>wire := wire c @ take nwrote data\<rparr>
             in (nwrote, False,
                 if length data - nwrote = 0 \<and> hasWriteComplete c then queue_task TWriteComplete c else c))
        | WriteErr e \<Rightarrow> (0, e \<noteq> EAGAIN \<and> (e = EPIPE \<or> e = ECONNRESET), c)
      else (0, False, c))"

definition sendInLoop :: "sys_write \<Rightarrow> bytes \<Rightarrow> tcpconn \<Rightarrow> tcpconn res" where
  "sendInLoop answer data c =
     (if tc_state c = kDisconnected then Inr c
      else
        let (nwrote, faultError, c) = try_write answer data c; remaining = length data - nwrote in
        cassert (nwrote \<le> length data)
        (if \<not> faultError \<and> 0 < remaining
         then let oldLen = readableBytes (outputBuffer c);
                  c = (if highWaterMark c \<le> oldLen + remaining \<and> oldLen < highWaterMark c \<and> hasHighWaterMark c
                       then queue_task (THighWaterMark (oldLen + remaining)) c else c)
              in rbind (append_buf (drop nwrote data) (outputBuffer c)) (\<lambda>b.
                 let c = c\<lparr>outputBuffer := b, accepted := accepted c @ data\<rparr>
                 in Inr (if isWriting (tc_channel c) then c else ch_interest EnableWriting c))
         else Inr (c\<lparr>accepted := accepted c @ (if faultError then [] else data)\<rparr>)))"

definition tc_send :: "bool \<Rightarrow> sys_write \<Rightarrow> bytes \<Rightarrow> tcpconn \<Rightarrow> tcpconn res" where
  "tc_send inLoop answer message c =
     (if tc_state c = kConnected
      then if inLoop then sendInLoop answer message c else Inr (queue_task (TSend message) c)
      else Inr c)"

definition tc_send_buffer :: "bool \<Rightarrow> sys_write \<Rightarrow> buffer \<Rightarrow> tcpconn \<Rightarrow> (buffer \<times> tcpconn) res" where
  "tc_send_buffer inLoop answer buf c =
     (if tc_state c = kConnected
      then if inLoop
           then rbind (sendInLoop answer (toStringPiece buf) c) (\<lambda>c. Inr (retrieveAll buf, c))
           else rbind (retrieveAllAsString buf) (\<lambda>(s, buf). Inr (buf, queue_task (TSend s) c))
      else Inr (buf, c))"


subsection \<open>Closing\<close>

definition shutdownInLoop :: "tcpconn \<Rightarrow> tcpconn" where
  "shutdownInLoop c = (if \<not> isWriting (tc_channel c) then c\<lparr>wr_shutdown := True\<rparr> else c)"

definition tc_shutdown :: "bool \<Rightarrow> tcpconn \<Rightarrow> tcpconn" where
  "tc_shutdown inLoop c =
     (if tc_state c = kConnected
      then let c = c\<lparr>tc_state := kDisconnecting\<rparr> in if inLoop then shutdownInLoop c else queue_task TShutdown c
      else c)"

definition handleClose :: "tcpconn \<Rightarrow> tcpconn res" where
  "handleClose c =
     cassert (tc_state c = kConnected \<or> tc_state c = kDisconnecting)
     (let c = ch_interest DisableAll (c\<lparr>tc_state := kDisconnected\<rparr>)
      in Inr (call_user CloseCb (call_user (ConnectionCb False) c)))"

definition forceClose :: "tcpconn \<Rightarrow> tcpconn" where
  "forceClose c =
     (if tc_state c = kConnected \<or> tc_state c = kDisconnecting
      then queue_task TForceClose (c\<lparr>tc_state := kDisconnecting\<rparr>) else c)"

definition forceCloseInLoop :: "tcpconn \<Rightarrow> tcpconn res" where
  "forceCloseInLoop c =
     (if tc_state c = kConnected \<or> tc_state c = kDisconnecting then handleClose c else Inr c)"

definition startReadInLoop :: "tcpconn \<Rightarrow> tcpconn" where
  "startReadInLoop c =
     (if \<not> tc_reading c \<or> \<not> isReading (tc_channel c)
      then (ch_interest EnableReading c)\<lparr>tc_reading := True\<rparr> else c)"

definition stopReadInLoop :: "tcpconn \<Rightarrow> tcpconn" where
  "stopReadInLoop c =
     (if tc_reading c \<or> isReading (tc_channel c)
      then (ch_interest DisableReading c)\<lparr>tc_reading := False\<rparr> else c)"

text \<open>\<open>startRead\<close> and \<open>stopRead\<close> run at once in the loop's thread and are handed to it from another one.\<close>

definition startRead :: "bool \<Rightarrow> tcpconn \<Rightarrow> tcpconn" where
  "startRead inLoop c = (if inLoop then startReadInLoop c else queue_task TStartRead c)"

definition stopRead :: "bool \<Rightarrow> tcpconn \<Rightarrow> tcpconn" where
  "stopRead inLoop c = (if inLoop then stopReadInLoop c else queue_task TStopRead c)"

text \<open>\<open>forceCloseWithDelay\<close> changes the state; its timer later calls \<open>forceClose\<close>, if the connection still exists.\<close>

definition forceCloseWithDelay :: "tcpconn \<Rightarrow> tcpconn" where
  "forceCloseWithDelay c =
     (if tc_state c = kConnected \<or> tc_state c = kDisconnecting then c\<lparr>tc_state := kDisconnecting\<rparr> else c)"

fun stateToString :: "tcp_state \<Rightarrow> string" where
  "stateToString kDisconnected = ''kDisconnected''"
| "stateToString kConnecting = ''kConnecting''"
| "stateToString kConnected = ''kConnected''"
| "stateToString kDisconnecting = ''kDisconnecting''"

text \<open>The message callback of a connection whose user gives none.\<close>

definition defaultMessageCallback :: "tcpconn \<Rightarrow> tcpconn" where
  "defaultMessageCallback c = c\<lparr>inputBuffer := retrieveAll (inputBuffer c)\<rparr>"

definition connectEstablished :: "tcpconn \<Rightarrow> tcpconn res" where
  "connectEstablished c =
     cassert (tc_state c = kConnecting)
     (let c = c\<lparr>tc_state := kConnected\<rparr>; c = c\<lparr>tc_channel := tie (tc_channel c)\<rparr>
      in Inr (call_user (ConnectionCb True) (ch_interest EnableReading c)))"

text \<open>\<open>Channel::remove\<close> asserts that no events are left.\<close>

definition connectDestroyed :: "tcpconn \<Rightarrow> tcpconn res" where
  "connectDestroyed c =
     (let c = (if tc_state c = kConnected
               then call_user (ConnectionCb False) (ch_interest DisableAll (c\<lparr>tc_state := kDisconnected\<rparr>))
               else c)
      in cassert (isNoneEvent (tc_channel c))
         (Inr (c\<lparr>tc_channel := (tc_channel c)\<lparr>addedToLoop := False\<rparr>, tc_destroyed := True\<rparr>)))"

text \<open>The destructor of the connection, and that of its channel.\<close>

definition TcpConnection_dtor :: "tcpconn \<Rightarrow> unit res" where
  "TcpConnection_dtor c =
     cassert (tc_state c = kDisconnected) (cassert (\<not> addedToLoop (tc_channel c)) (Inr ()))"

text \<open>The last owner gives the connection up. The functors of \<open>send\<close>, \<open>shutdown\<close>, \<open>startRead\<close> and \<open>stopRead\<close> are bound to the bare
  address: the loop will run those that are left on an object that no longer exists.\<close>

fun owns :: "conn_task \<Rightarrow> bool" where
  "owns TForceClose \<longleftrightarrow> True"
| "owns TWriteComplete \<longleftrightarrow> True"
| "owns (THighWaterMark n) \<longleftrightarrow> True"
| "owns TConnectDestroyed \<longleftrightarrow> True"
| "owns _ \<longleftrightarrow> False"

definition conn_release :: "tcpconn \<Rightarrow> unit res" where
  "conn_release c = (if todo c = [] then TcpConnection_dtor c else Inl UndefinedBehaviour)"


subsection \<open>Events\<close>

definition handleError :: "tcpconn \<Rightarrow> tcpconn" where
  "handleError c = c"

definition tc_handleRead :: "sys_read \<Rightarrow> tcpconn \<Rightarrow> tcpconn res" where
  "tc_handleRead answer c =
     rbind (readFd answer (inputBuffer c)) (\<lambda>(n, savedErrno, b).
     let c = c\<lparr>inputBuffer := b\<rparr> in
     if 0 < n then Inr (call_user MessageCb c)
     else if n = 0 then handleClose c
     else Inr (handleError c))"

definition handleWrite :: "sys_write \<Rightarrow> tcpconn \<Rightarrow> tcpconn res" where
  "handleWrite answer c =
     (if isWriting (tc_channel c)
      then case answer of
          Wrote n \<Rightarrow>
            (if 0 < n
             then rbind (retrieve n (outputBuffer c)) (\<lambda>b.
                  let c = c\<lparr>wire := wire c @ take n (content (outputBuffer c)), outputBuffer := b\<rparr> in
                  if readableBytes b = 0
                  then let c = ch_interest DisableWriting c;
                           c = (if hasWriteComplete c then queue_task TWriteComplete c else c)
                       in Inr (if tc_state c = kDisconnecting then shutdownInLoop c else c)
                  else Inr c)
             else Inr c)
        | WriteErr _ \<Rightarrow> Inr c
      else Inr c)"

fun run_task :: "sys_write \<Rightarrow> conn_task \<Rightarrow> tcpconn \<Rightarrow> tcpconn res" where
  "run_task w (TSend d) c = sendInLoop w d c"
| "run_task w TShutdown c = Inr (shutdownInLoop c)"
| "run_task w TForceClose c = forceCloseInLoop c"
| "run_task w TStartRead c = Inr (startReadInLoop c)"
| "run_task w TStopRead c = Inr (stopReadInLoop c)"
| "run_task w TWriteComplete c = Inr c"
| "run_task w (THighWaterMark n) c = Inr c"
| "run_task w TConnectDestroyed c = connectDestroyed c"

text \<open>The events of a connection's life after it was established: calls of the user from the loop's thread or from another one, the
  callbacks of the channel (read, write, close after a hang-up, error), which the poller invokes only while the channel asks for events,
  and functors of the loop.\<close>

datatype conn_event = EvSend bool bytes sys_write | EvShutdown bool | EvForceClose | EvForceCloseLater
  | EvStartRead bool | EvStopRead bool | EvDefaultMessage | EvReadable sys_read | EvWritable sys_write | EvHangup | EvError
  | EvRunTask sys_write

fun conn_step :: "conn_event \<Rightarrow> tcpconn \<Rightarrow> tcpconn res" where
  "conn_step (EvSend inLoop d w) c = tc_send inLoop w d c"
| "conn_step (EvShutdown inLoop) c = Inr (tc_shutdown inLoop c)"
| "conn_step EvForceClose c = Inr (forceClose c)"
| "conn_step EvForceCloseLater c = Inr (forceCloseWithDelay c)"
| "conn_step (EvStartRead inLoop) c = Inr (startRead inLoop c)"
| "conn_step (EvStopRead inLoop) c = Inr (stopRead inLoop c)"
| "conn_step EvDefaultMessage c = Inr (defaultMessageCallback c)"
| "conn_step (EvReadable r) c = (if isReading (tc_channel c) then tc_handleRead r c else Inr c)"
| "conn_step (EvWritable w) c = handleWrite w c"
| "conn_step EvHangup c = (if isNoneEvent (tc_channel c) then Inr c else handleClose c)"
| "conn_step EvError c = Inr (handleError c)"
| "conn_step (EvRunTask w) c = (case todo c of [] \<Rightarrow> Inr c | t # ts \<Rightarrow> run_task w t (c\<lparr>todo := ts\<rparr>))"

fun conn_run :: "conn_event list \<Rightarrow> tcpconn \<Rightarrow> tcpconn res" where
  "conn_run [] c = Inr c"
| "conn_run (e # es) c = rbind (conn_step e c) (conn_run es)"



subsection \<open>Invariant\<close>

text \<open>
  While the connection is up the channel asks for writability exactly when output is waiting, and what
  the kernel has taken followed by what is waiting is what was accepted. After the connection is down it
  never writes again, and the kernel has taken a prefix of what was accepted.
\<close>

definition tc_inv :: "tcpconn \<Rightarrow> bool" where
  "tc_inv c \<longleftrightarrow> buffer_inv (inputBuffer c) \<and> buffer_inv (outputBuffer c) \<and>
     ch_events (tc_channel c) \<in> set ev_masks \<and> tc_state c \<noteq> kConnecting \<and>
     accepted c = wire c @ content (outputBuffer c) \<and>
     (if tc_state c = kDisconnected then \<not> isWriting (tc_channel c)
      else isWriting (tc_channel c) \<longleftrightarrow> content (outputBuffer c) \<noteq> [])"

lemma write_bit:
  assumes "e \<in> set ev_masks"
  shows "isWriting (ch\<lparr>ch_events := change_events EnableWriting e, addedToLoop := b\<rparr>)"
    and "\<not> isWriting (ch\<lparr>ch_events := change_events DisableWriting e, addedToLoop := b\<rparr>)"
    and "\<not> isWriting (ch\<lparr>ch_events := change_events DisableAll e, addedToLoop := b\<rparr>)"
    and "isWriting (ch\<lparr>ch_events := change_events EnableReading e, addedToLoop := b\<rparr>) \<longleftrightarrow> e AND kWriteEvent \<noteq> 0"
    and "isWriting (ch\<lparr>ch_events := change_events DisableReading e, addedToLoop := b\<rparr>) \<longleftrightarrow> e AND kWriteEvent \<noteq> 0"
  using change_events_effect(2) [OF assms, of EnableWriting] change_events_effect(2) [OF assms, of DisableWriting]
    change_events_effect(2) [OF assms, of DisableAll] change_events_effect(2) [OF assms, of EnableReading]
    change_events_effect(2) [OF assms, of DisableReading]
  by (simp_all add: isWriting_def)

lemma readable_content: "buffer_inv b \<Longrightarrow> readableBytes b = 0 \<longleftrightarrow> content b = []"
  by (metis length_content length_0_conv)

definition wrote_at_most :: "nat \<Rightarrow> sys_write \<Rightarrow> bool" where
  "wrote_at_most n w = (case w of Wrote k \<Rightarrow> k \<le> n | WriteErr _ \<Rightarrow> True)"

lemma tc_invD:
  assumes "tc_inv c"
  shows "buffer_inv (inputBuffer c)" "buffer_inv (outputBuffer c)" "ch_events (tc_channel c) \<in> set ev_masks"
    "tc_state c \<noteq> kConnecting" "accepted c = wire c @ content (outputBuffer c)"
    "tc_state c = kDisconnected \<Longrightarrow> \<not> isWriting (tc_channel c)"
    "tc_state c \<noteq> kDisconnected \<Longrightarrow> isWriting (tc_channel c) \<longleftrightarrow> content (outputBuffer c) \<noteq> []"
  using assms by (auto simp: tc_inv_def)

lemma down_events:
  assumes "tc_inv c" and "tc_state c = kDisconnected"
  shows "ch_events (tc_channel c) = 0 \<longleftrightarrow> \<not> isReading (tc_channel c)"
  using tc_invD(3) [OF assms(1)] tc_invD(6) [OF assms]
  by (auto simp: ev_masks_def isWriting_def isReading_def kReadEvent_def kWriteEvent_def poll_bits)

lemma tc_inv_queue: "tc_inv (queue_task t c) = tc_inv c" "tc_inv (call_user u c) = tc_inv c"
  "tc_inv (c\<lparr>todo := ts\<rparr>) = tc_inv c" "tc_inv (c\<lparr>wr_shutdown := b\<rparr>) = tc_inv c"
  by (simp_all add: tc_inv_def queue_task_def call_user_def)

lemma tc_inv_shutdown: "tc_inv (shutdownInLoop c) = tc_inv c"
  by (simp add: shutdownInLoop_def tc_inv_queue)

lemma send_buffered:
  assumes inv: "tc_inv c" and st: "tc_state c \<noteq> kDisconnected" and d: "rest \<noteq> []"
    and c': "tc_state c' = tc_state c" "tc_channel c' = tc_channel c" "outputBuffer c' = outputBuffer c"
      "inputBuffer c' = inputBuffer c" "accepted c' @ d = wire c' @ content (outputBuffer c') @ rest"
  shows "\<exists>b. append_buf rest (outputBuffer c') = Inr b \<and>
    tc_inv (let c = c'\<lparr>outputBuffer := b, accepted := accepted c' @ d\<rparr>
            in if isWriting (tc_channel c) then c else ch_interest EnableWriting c)"
proof -
  note i = tc_invD [OF inv]
  obtain b where b: "append_buf rest (outputBuffer c') = Inr b" "buffer_inv b"
      "content b = content (outputBuffer c') @ rest"
    using append_buf_ok [OF i(2)] c'(3) by metis
  have "change_events EnableWriting (ch_events (tc_channel c)) \<in> set ev_masks"
    using i(3) by (rule change_events_masks)
  with b i st d c' write_bit(1) [OF i(3)] show ?thesis
    by (auto simp: tc_inv_def ch_interest_def Let_def)
qed

lemma sendInLoop_ok:
  assumes inv: "tc_inv c" and w: "wrote_at_most (length d) answer"
  shows "\<exists>c'. sendInLoop answer d c = Inr c' \<and> tc_inv c' \<and> wr_shutdown c' = wr_shutdown c \<and> tc_state c' = tc_state c"
proof (cases "tc_state c = kDisconnected")
  case True
  with inv show ?thesis by (simp add: sendInLoop_def)
next
  case st: False
  note i = tc_invD [OF inv]
  obtain n f c1 where tw: "try_write answer d c = (n, f, c1)" by (metis prod_cases3)
  have out: "readableBytes (outputBuffer c) = 0 \<longleftrightarrow> content (outputBuffer c) = []"
    using i(2) by (rule readable_content)
  have le: "n \<le> length d" and same: "tc_state c1 = tc_state c" "tc_channel c1 = tc_channel c"
      "outputBuffer c1 = outputBuffer c" "inputBuffer c1 = inputBuffer c" "wr_shutdown c1 = wr_shutdown c"
      "accepted c1 = accepted c"
    and wr: "wire c1 = wire c @ take n d" and direct: "0 < n \<Longrightarrow> content (outputBuffer c) = []" and fault: "f \<Longrightarrow> n = 0"
    using tw w out i(7) [OF st]
    by (auto simp: try_write_def wrote_at_most_def queue_task_def Let_def split: if_splits sys_write.splits)
  show ?thesis
  proof (cases "\<not> f \<and> 0 < length d - n")
    case True
    define c2 where "c2 = (if highWaterMark c1 \<le> readableBytes (outputBuffer c1) + (length d - n) \<and>
        readableBytes (outputBuffer c1) < highWaterMark c1 \<and> hasHighWaterMark c1
        then queue_task (THighWaterMark (readableBytes (outputBuffer c1) + (length d - n))) c1 else c1)"
    have c2: "tc_state c2 = tc_state c" "tc_channel c2 = tc_channel c" "outputBuffer c2 = outputBuffer c"
        "inputBuffer c2 = inputBuffer c" "wr_shutdown c2 = wr_shutdown c" "wire c2 = wire c1" "accepted c2 = accepted c"
      using same by (auto simp: c2_def queue_task_def)
    have "accepted c2 @ d = wire c2 @ content (outputBuffer c2) @ drop n d"
      using i(5) c2 wr direct by (cases "n = 0") (simp_all add: append_take_drop_id)
    moreover have "drop n d \<noteq> []" using True by simp
    ultimately obtain b where b: "append_buf (drop n d) (outputBuffer c2) = Inr b"
        "tc_inv (let c = c2\<lparr>outputBuffer := b, accepted := accepted c2 @ d\<rparr>
            in if isWriting (tc_channel c) then c else ch_interest EnableWriting c)"
      using send_buffered [OF inv st, of "drop n d" c2 d] c2 by blast
    have "sendInLoop answer d c = Inr (let c = c2\<lparr>outputBuffer := b, accepted := accepted c2 @ d\<rparr>
            in if isWriting (tc_channel c) then c else ch_interest EnableWriting c)"
      using st tw le True b(1) by (simp add: sendInLoop_def Let_def c2_def)
    with b(2) c2 show ?thesis
      by (simp add: Let_def ch_interest_def split: if_splits)
  next
    case False
    let ?c = "c1\<lparr>accepted := accepted c1 @ (if f then [] else d)\<rparr>"
    have "accepted ?c = wire ?c @ content (outputBuffer ?c)"
      using i(5) same wr direct fault False le by (cases "n = 0") auto
    then have "tc_inv ?c" using inv same by (auto simp: tc_inv_def)
    moreover have "sendInLoop answer d c = Inr ?c"
      using st tw le False by (auto simp: sendInLoop_def Let_def)
    ultimately show ?thesis using same by auto
  qed
qed

lemma handleClose_ok:
  assumes "tc_inv c" and "tc_state c \<noteq> kDisconnected"
  shows "\<exists>c'. handleClose c = Inr c' \<and> tc_inv c' \<and> wr_shutdown c' = wr_shutdown c \<and> tc_state c' = kDisconnected"
proof -
  have "tc_state c = kConnected \<or> tc_state c = kDisconnecting"
    using assms tc_invD(4) by (cases "tc_state c") auto
  with assms show ?thesis
    using write_bit(3) [OF tc_invD(3) [OF assms(1)]] change_events_masks [OF tc_invD(3) [OF assms(1)], of DisableAll]
    by (auto simp: handleClose_def tc_inv_def ch_interest_def call_user_def)
qed

lemma tc_handleRead_ok:
  assumes inv: "tc_inv c" and st: "tc_state c \<noteq> kDisconnected"
  shows "\<exists>c'. tc_handleRead r c = Inr c' \<and> tc_inv c' \<and> wr_shutdown c' = wr_shutdown c \<and>
    (tc_state c' = kDisconnected \<or> tc_state c' = tc_state c \<and> outputBuffer c' = outputBuffer c)"
proof (cases r)
  case (ReadError e)
  then show ?thesis using inv by (simp add: tc_handleRead_def readFd_def handleError_def)
next
  case (ReadData bs)
  obtain b where b: "readFd (ReadData bs) (inputBuffer c) = Inr (int (length bs), 0, b)" "buffer_inv b"
    using readFd_ok [OF tc_invD(1) [OF inv]] by blast
  have inv': "tc_inv (c\<lparr>inputBuffer := b\<rparr>)" using inv b(2) by (simp add: tc_inv_def)
  show ?thesis
  proof (cases "bs = []")
    case True
    with handleClose_ok [OF inv'] st b(1) ReadData show ?thesis
      by (auto simp: tc_handleRead_def)
  next
    case False
    with b(1) ReadData inv' show ?thesis
      by (simp add: tc_handleRead_def tc_inv_queue) (simp add: call_user_def)
  qed
qed

text \<open>A read on a connection that is down: only the end of the stream, reported again, fails.\<close>

lemma tc_handleRead_down:
  assumes inv: "tc_inv c" and st: "tc_state c = kDisconnected"
  shows "tc_handleRead (ReadData []) c = Inl AssertFail"
    and "r \<noteq> ReadData [] \<Longrightarrow> \<exists>c'. tc_handleRead r c = Inr c' \<and> tc_inv c' \<and> wr_shutdown c' = wr_shutdown c \<and> tc_state c' = kDisconnected"
proof -
  obtain b where b: "readFd (ReadData []) (inputBuffer c) = Inr (0, 0, b)"
    using readFd_ok [OF tc_invD(1) [OF inv], of "[]"] by auto
  then show "tc_handleRead (ReadData []) c = Inl AssertFail" using st by (simp add: tc_handleRead_def handleClose_def)
  show "\<exists>c'. tc_handleRead r c = Inr c' \<and> tc_inv c' \<and> wr_shutdown c' = wr_shutdown c \<and> tc_state c' = kDisconnected" if "r \<noteq> ReadData []"
  proof (cases r)
    case (ReadError e)
    then show ?thesis using inv st by (simp add: tc_handleRead_def readFd_def handleError_def)
  next
    case (ReadData bs)
    obtain b where b: "readFd (ReadData bs) (inputBuffer c) = Inr (int (length bs), 0, b)" "buffer_inv b"
      using readFd_ok [OF tc_invD(1) [OF inv]] by blast
    have "tc_inv (c\<lparr>inputBuffer := b\<rparr>)" using inv b(2) by (simp add: tc_inv_def)
    with b(1) ReadData that st show ?thesis by (simp add: tc_handleRead_def tc_inv_queue) (simp add: call_user_def)
  qed
qed

lemma handleWrite_ok:
  assumes inv: "tc_inv c" and w: "wrote_at_most (readableBytes (outputBuffer c)) answer"
  shows "\<exists>c'. handleWrite answer c = Inr c' \<and> tc_inv c' \<and> tc_state c' = tc_state c \<and>
    (wr_shutdown c' \<longrightarrow> wr_shutdown c \<or> content (outputBuffer c') = [])"
proof (cases "isWriting (tc_channel c) \<and> (\<exists>n. answer = Wrote n \<and> 0 < n)")
  case False
  then show ?thesis using inv by (auto simp: handleWrite_def split: sys_write.splits)
next
  case True
  then obtain n where n: "answer = Wrote n" "0 < n" "isWriting (tc_channel c)" by blast
  note i = tc_invD [OF inv]
  have st: "tc_state c \<noteq> kDisconnected"
    using n(3) i(6) by (auto simp: isWriting_def)
  have len: "n \<le> length (content (outputBuffer c))" using w n(1) i(2) by (simp add: wrote_at_most_def)
  obtain b where b: "retrieve n (outputBuffer c) = Inr b" "buffer_inv b" "content b = drop n (content (outputBuffer c))"
    using retrieve_ok [OF i(2) len] by blast
  let ?c = "c\<lparr>wire := wire c @ take n (content (outputBuffer c)), outputBuffer := b\<rparr>"
  have acc: "accepted ?c = wire ?c @ content (outputBuffer ?c)" using i(5) b(3) by simp
  show ?thesis
  proof (cases "content b = []")
    case True
    let ?d = "ch_interest DisableWriting ?c"
    let ?e = "if hasWriteComplete ?d then queue_task TWriteComplete ?d else ?d"
    have "tc_inv ?d"
      using inv acc b(2) True st write_bit(2) [OF i(3)] change_events_masks [OF i(3), of DisableWriting]
      by (simp add: tc_inv_def ch_interest_def)
    then have inv': "tc_inv ?e" by (simp add: tc_inv_queue)
    have "handleWrite answer c = Inr (if tc_state ?e = kDisconnecting then shutdownInLoop ?e else ?e)"
      using n b(1) True readable_content [OF b(2)] by (simp add: handleWrite_def Let_def)
    moreover have "tc_state ?e = tc_state c" "wr_shutdown ?e = wr_shutdown c" "content (outputBuffer ?e) = []"
      using True by (simp_all add: ch_interest_def queue_task_def)
    ultimately show ?thesis using inv'
      by (auto simp: tc_inv_shutdown shutdownInLoop_def tc_inv_queue)
  next
    case False
    have "tc_inv ?c" using inv acc b(2) False st n(3) by (simp add: tc_inv_def)
    moreover have "handleWrite answer c = Inr ?c"
      using n b(1) False readable_content [OF b(2)] by (simp add: handleWrite_def Let_def)
    ultimately show ?thesis by simp
  qed
qed

lemma read_interest_ok:
  assumes "tc_inv c" and "i = EnableReading \<or> i = DisableReading"
  shows "tc_inv ((ch_interest i c)\<lparr>tc_reading := b\<rparr>)"
proof -
  note j = tc_invD [OF assms(1)]
  have "change_events i (ch_events (tc_channel c)) \<in> set ev_masks" using j(3) by (rule change_events_masks)
  moreover have "isWriting ((tc_channel c)\<lparr>ch_events := change_events i (ch_events (tc_channel c)), addedToLoop := True\<rparr>) \<longleftrightarrow>
      isWriting (tc_channel c)"
    using assms(2) write_bit(4,5) [OF j(3)] by (auto simp: isWriting_def)
  ultimately show ?thesis using assms(1) by (auto simp: tc_inv_def ch_interest_def)
qed

text \<open>The kernel never takes more than it is offered. Nothing else is asked of the events.\<close>

fun ev_legal :: "conn_event \<Rightarrow> tcpconn \<Rightarrow> bool" where
  "ev_legal (EvSend inLoop d w) c \<longleftrightarrow> wrote_at_most (length d) w"
| "ev_legal (EvWritable w) c \<longleftrightarrow> wrote_at_most (readableBytes (outputBuffer c)) w"
| "ev_legal (EvRunTask w) c \<longleftrightarrow> (case todo c of
     TSend d # _ \<Rightarrow> wrote_at_most (length d) w | _ \<Rightarrow> True)"
| "ev_legal _ c \<longleftrightarrow> True"

fun evs_legal :: "conn_event list \<Rightarrow> tcpconn \<Rightarrow> bool" where
  "evs_legal [] c \<longleftrightarrow> True"
| "evs_legal (e # es) c \<longleftrightarrow> ev_legal e c \<and> (case conn_step e c of Inl _ \<Rightarrow> True | Inr c \<Rightarrow> evs_legal es c)"

lemma stop_start_ok:
  "tc_inv c \<Longrightarrow> tc_inv (startReadInLoop c) \<and> wr_shutdown (startReadInLoop c) = wr_shutdown c"
  "tc_inv c \<Longrightarrow> tc_inv (stopReadInLoop c) \<and> wr_shutdown (stopReadInLoop c) = wr_shutdown c"
  using read_interest_ok [of c EnableReading True] read_interest_ok [of c DisableReading False]
  by (auto simp: startReadInLoop_def stopReadInLoop_def) (auto simp: ch_interest_def)

lemma forceCloseInLoop_ok:
  assumes "tc_inv c"
  shows "\<exists>c'. forceCloseInLoop c = Inr c' \<and> tc_inv c' \<and> wr_shutdown c' = wr_shutdown c"
  using handleClose_ok [OF assms] assms by (auto simp: forceCloseInLoop_def)

lemma shutdownInLoop_drained:
  "tc_inv c \<Longrightarrow> tc_state c \<noteq> kDisconnected \<Longrightarrow> wr_shutdown (shutdownInLoop c) \<Longrightarrow> \<not> wr_shutdown c \<Longrightarrow>
   content (outputBuffer (shutdownInLoop c)) = []"
  using tc_invD(7) [of c] by (auto simp: shutdownInLoop_def split: if_splits)

definition shut_clean :: "tcpconn \<Rightarrow> tcpconn \<Rightarrow> bool" where
  "shut_clean c c' \<longleftrightarrow> (wr_shutdown c' \<longrightarrow> wr_shutdown c \<or> tc_state c' = kDisconnected \<or> content (outputBuffer c') = [])"

lemma shut_clean_same: "wr_shutdown c' = wr_shutdown c \<Longrightarrow> shut_clean c c'"
  by (simp add: shut_clean_def)

lemma run_task_ok:
  assumes inv: "tc_inv c" and legal: "case t of TSend d \<Rightarrow> wrote_at_most (length d) w | TConnectDestroyed \<Rightarrow> False | _ \<Rightarrow> True"
  shows "\<exists>c'. run_task w t c = Inr c' \<and> tc_inv c' \<and> shut_clean c c'"
proof (cases t)
  case (TSend d)
  then show ?thesis using sendInLoop_ok [OF inv, of d w] legal shut_clean_same by fastforce
next
  case TShutdown
  have "tc_state (shutdownInLoop c) = tc_state c" by (simp add: shutdownInLoop_def)
  with TShutdown inv shutdownInLoop_drained [OF inv] show ?thesis
    by (auto simp: tc_inv_shutdown shut_clean_def)
next
  case TForceClose
  then show ?thesis using forceCloseInLoop_ok [OF inv] shut_clean_same by auto
next
  case TStartRead
  then show ?thesis using stop_start_ok(1) [OF inv] legal by (auto intro: shut_clean_same)
next
  case TStopRead
  then show ?thesis using stop_start_ok(2) [OF inv] by (auto intro: shut_clean_same)
qed (use inv legal in \<open>auto intro: shut_clean_same\<close>)

text \<open>The two situations in which an event can meet a failed assertion: the connection is down and was made to read again, or the
  destruction of a half-closed connection is due.\<close>

definition reads_when_down :: "tcpconn \<Rightarrow> bool" where
  "reads_when_down c \<longleftrightarrow> tc_state c = kDisconnected \<and> isReading (tc_channel c)"

definition destroys_half_closed :: "conn_event \<Rightarrow> tcpconn \<Rightarrow> bool" where
  "destroys_half_closed e c \<longleftrightarrow> (\<exists>w ts. e = EvRunTask w \<and> todo c = TConnectDestroyed # ts) \<and> tc_state c = kDisconnecting"

text \<open>Reading was started or stopped on a connection that is down, or a functor of the loop is still going to do so.\<close>

definition late_reading :: "tcpconn \<Rightarrow> bool" where
  "late_reading c \<longleftrightarrow> tc_state c = kDisconnected \<and>
     (isReading (tc_channel c) \<or> tc_destroyed c \<and> addedToLoop (tc_channel c) \<or> TStartRead \<in> set (todo c) \<or> TStopRead \<in> set (todo c))"

lemma connectDestroyed_ok:
  assumes inv: "tc_inv c" and st: "tc_state c \<noteq> kDisconnecting"
  shows "reads_when_down c \<and> connectDestroyed c = Inl AssertFail \<or>
    \<not> reads_when_down c \<and> (\<exists>c'. connectDestroyed c = Inr c' \<and> tc_inv c' \<and> shut_clean c c' \<and> tc_state c' = kDisconnected \<and>
      ch_events (tc_channel c') = 0 \<and> \<not> addedToLoop (tc_channel c') \<and> todo c' = todo c \<and> tc_destroyed c')"
proof (cases "tc_state c = kDisconnected")
  case True
  with down_events [OF inv True] inv show ?thesis
    by (auto simp: connectDestroyed_def reads_when_down_def isNoneEvent_def kNoneEvent_def tc_inv_def isWriting_def shut_clean_def)
next
  case False
  with st tc_invD(4) [OF inv] have st': "tc_state c = kConnected" by (cases "tc_state c") auto
  note i = tc_invD [OF inv]
  have "change_events DisableAll (ch_events (tc_channel c)) = 0" by (simp add: kNoneEvent_def)
  with st' inv show ?thesis
    by (simp add: connectDestroyed_def reads_when_down_def isNoneEvent_def kNoneEvent_def tc_inv_def isWriting_def shut_clean_def
        ch_interest_def call_user_def ev_masks_def)
qed

lemma conn_step_ok:
  assumes inv: "tc_inv c" and legal: "ev_legal e c"
  shows "(\<exists>c'. conn_step e c = Inr c' \<and> tc_inv c' \<and> shut_clean c c') \<or>
    conn_step e c = Inl AssertFail \<and> (reads_when_down c \<or> destroys_half_closed e c)"
proof (cases e)
  case (EvSend inLoop d w)
  then show ?thesis
    using sendInLoop_ok [OF inv, of d w] legal inv
    by (auto simp: tc_send_def tc_inv_queue shut_clean_def queue_task_def)
next
  case (EvShutdown inLoop)
  let ?c = "c\<lparr>tc_state := kDisconnecting\<rparr>"
  have inv': "tc_inv ?c" if "tc_state c = kConnected" using inv that by (simp add: tc_inv_def)
  have "tc_state (shutdownInLoop ?c) = kDisconnecting" "wr_shutdown ?c = wr_shutdown c" by (simp_all add: shutdownInLoop_def)
  with EvShutdown inv inv' shutdownInLoop_drained [OF inv'] show ?thesis
    by (cases inLoop) (auto simp: tc_shutdown_def tc_inv_shutdown tc_inv_queue shut_clean_def Let_def, auto simp: queue_task_def)
next
  case EvForceClose
  have "tc_inv (c\<lparr>tc_state := kDisconnecting\<rparr>)" if "tc_state c = kConnected \<or> tc_state c = kDisconnecting"
    using inv that by (auto simp: tc_inv_def)
  with EvForceClose inv show ?thesis
    by (auto simp: forceClose_def tc_inv_queue shut_clean_def) (auto simp: queue_task_def)
next
  case EvForceCloseLater
  with inv show ?thesis by (auto simp: forceCloseWithDelay_def tc_inv_def shut_clean_def)
next
  case (EvStartRead inLoop)
  then show ?thesis
    using stop_start_ok(1) [OF inv] legal inv
    by (cases inLoop) (auto simp: startRead_def tc_inv_queue queue_task_def intro: shut_clean_same)
next
  case (EvStopRead inLoop)
  then show ?thesis
    using stop_start_ok(2) [OF inv] inv
    by (cases inLoop) (auto simp: stopRead_def tc_inv_queue queue_task_def intro: shut_clean_same)
next
  case EvDefaultMessage
  with inv show ?thesis
    by (auto simp: defaultMessageCallback_def tc_inv_def retrieveAll_def buffer_inv_def intro: shut_clean_same)
next
  case (EvReadable r)
  show ?thesis
  proof (cases "reads_when_down c")
    case True
    then have st: "tc_state c = kDisconnected" "isReading (tc_channel c)" by (simp_all add: reads_when_down_def)
    show ?thesis
      using EvReadable st True tc_handleRead_down [OF inv st(1)] by (cases "r = ReadData []") (auto intro: shut_clean_same)
  next
    case False
    then have "isReading (tc_channel c) \<Longrightarrow> tc_state c \<noteq> kDisconnected" by (simp add: reads_when_down_def)
    then show ?thesis
      using EvReadable tc_handleRead_ok [OF inv, of r] inv by (auto intro: shut_clean_same)
  qed
next
  case EvHangup
  show ?thesis
  proof (cases "tc_state c = kDisconnected")
    case True
    with EvHangup inv down_events [OF inv True] show ?thesis
      by (auto simp: isNoneEvent_def kNoneEvent_def reads_when_down_def handleClose_def intro: shut_clean_same)
  next
    case False
    with EvHangup inv handleClose_ok [OF inv False] show ?thesis by (auto intro: shut_clean_same)
  qed
next
  case EvError
  with inv show ?thesis by (simp add: handleError_def shut_clean_def)
next
  case (EvWritable w)
  then show ?thesis using handleWrite_ok [OF inv, of w] legal by (auto simp: shut_clean_def)
next
  case (EvRunTask w)
  show ?thesis
  proof (cases "todo c")
    case Nil
    with EvRunTask inv show ?thesis by (auto intro: shut_clean_same)
  next
    case (Cons t ts)
    have inv': "tc_inv (c\<lparr>todo := ts\<rparr>)" using inv by (simp add: tc_inv_queue)
    show ?thesis
    proof (cases "t = TConnectDestroyed")
      case True
      show ?thesis
      proof (cases "tc_state c = kDisconnecting")
        case half: True
        then have "destroys_half_closed e c" using True Cons EvRunTask by (simp add: destroys_half_closed_def)
        with half True Cons EvRunTask inv show ?thesis
          by (cases "isNoneEvent (tc_channel c)") (auto simp: connectDestroyed_def tc_inv_def isWriting_def shut_clean_def)
      next
        case False
        with connectDestroyed_ok [OF inv'] True Cons EvRunTask show ?thesis
          by (auto simp: reads_when_down_def shut_clean_def)
      qed
    next
      case False
      have "\<exists>c'. run_task w t (c\<lparr>todo := ts\<rparr>) = Inr c' \<and> tc_inv c' \<and> shut_clean (c\<lparr>todo := ts\<rparr>) c'"
        by (rule run_task_ok [OF inv']) (use legal EvRunTask Cons False in \<open>auto split: conn_task.splits\<close>)
      with Cons EvRunTask show ?thesis by (auto simp: shut_clean_def)
    qed
  qed
qed

lemma established_inv: "connectEstablished (TcpConnection_new fd) = Inr c \<Longrightarrow> tc_inv c"
  by (auto simp: connectEstablished_def TcpConnection_new_def tc_inv_def Channel_new_def tie_def ch_interest_def
      call_user_def ev_masks_def kReadEvent_def kWriteEvent_def poll_bits isWriting_def)

text \<open>C4: Byte-stream integrity. Take any sequence of events on a connection: sends from any thread, shutdown and close requests,
  reading stopped and started at any time, writability with partial writes and errors, incoming data and the end of the stream,
  hang-ups, errors, and the functors of the loop; of the kernel it is only assumed that it takes no more bytes than it is offered. Then
  either the sequence runs to its end, and the bytes the kernel has taken followed by the bytes waiting in the output
  buffer are exactly the accepted messages in the order of their sending, nothing lost, duplicated or
  reordered; or an assertion fails, and it does so in one of two situations: the event meets a connection that is down and on which reading
  was started again, or it runs the destruction of a connection that is only half closed.\<close>

theorem conn_stream_integrity:
  assumes "tc_inv c" and "evs_legal es c"
  shows "(\<exists>c'. conn_run es c = Inr c' \<and> tc_inv c' \<and> accepted c' = wire c' @ content (outputBuffer c')) \<or>
    (\<exists>es1 e es2 c1. es = es1 @ e # es2 \<and> conn_run es1 c = Inr c1 \<and> conn_step e c1 = Inl AssertFail \<and>
       conn_run es c = Inl AssertFail \<and> (reads_when_down c1 \<or> destroys_half_closed e c1))"
  using assms
proof (induction es arbitrary: c)
  case Nil
  then show ?case using tc_invD(5) by auto
next
  case (Cons e es)
  from conn_step_ok [OF Cons.prems(1)] Cons.prems(2)
  consider c1 where "conn_step e c = Inr c1" "tc_inv c1" | "conn_step e c = Inl AssertFail" "reads_when_down c \<or> destroys_half_closed e c"
    by auto
  then show ?case
  proof cases
    case 1
    with Cons.prems(2) have "evs_legal es c1" by simp
    from Cons.IH [OF 1(2) this]
    consider "\<exists>c'. conn_run es c1 = Inr c' \<and> tc_inv c' \<and> accepted c' = wire c' @ content (outputBuffer c')"
      | es1 e' es2 c2 where "es = es1 @ e' # es2" "conn_run es1 c1 = Inr c2" "conn_step e' c2 = Inl AssertFail" "conn_run es c1 = Inl AssertFail"
        "reads_when_down c2 \<or> destroys_half_closed e' c2"
      by blast
    then show ?thesis
    proof cases
      case 2
      with 1(1) show ?thesis by (intro disjI2 exI [of _ "e # es1"] exI [of _ e'] exI [of _ es2] exI [of _ c2]) simp
    qed (use \<open>conn_step e c = Inr c1\<close> in simp)
  next
    case 2
    then show ?thesis by (intro disjI2 exI [of _ "[]"] exI [of _ e] exI [of _ es] exI [of _ c]) simp
  qed
qed

definition sample_conn :: tcpconn where
  "sample_conn = call_user (ConnectionCb True) (ch_interest EnableReading
     ((TcpConnection_new 7)\<lparr>tc_state := kConnected, tc_channel := tie (tc_channel (TcpConnection_new 7))\<rparr>))"

lemma sample_conn_inv: "tc_inv sample_conn"
  by (rule established_inv [of 7]) (simp add: connectEstablished_def sample_conn_def TcpConnection_new_def)

theorem conn_stream_integrity_witness:
  "(\<exists>c'. conn_run [EvSend True ''hello'' (Wrote 2), EvShutdown True] sample_conn = Inr c' \<and>
     accepted c' = wire c' @ content (outputBuffer c')) \<and>
   conn_run [EvHangup, EvStartRead True, EvHangup] sample_conn = Inl AssertFail"
proof
  have "evs_legal [EvSend True ''hello'' (Wrote 2), EvShutdown True] sample_conn"
    by (auto simp: wrote_at_most_def split: sum.splits)
  moreover have "conn_run [EvSend True ''hello'' (Wrote 2), EvShutdown True] sample_conn \<noteq> Inl AssertFail"
    using sendInLoop_ok [OF sample_conn_inv, of "''hello''" "Wrote 2"] by (auto simp: tc_send_def wrote_at_most_def)
  ultimately show "\<exists>c'. conn_run [EvSend True ''hello'' (Wrote 2), EvShutdown True] sample_conn = Inr c' \<and>
     accepted c' = wire c' @ content (outputBuffer c')"
    using conn_stream_integrity [OF sample_conn_inv] by blast
  show "conn_run [EvHangup, EvStartRead True, EvHangup] sample_conn = Inl AssertFail"
    by (simp add: sample_conn_def call_user_def ch_interest_def TcpConnection_new_def Channel_new_def tie_def isNoneEvent_def
        handleClose_def startRead_def startReadInLoop_def isReading_def kNoneEvent_def kReadEvent_def poll_bits)
qed

subsection \<open>Output drains\<close>

text \<open>What a writability event does when the kernel takes some bytes.\<close>

lemma handleWrite_some:
  assumes inv: "tc_inv c" and w: "content (outputBuffer c) \<noteq> []" and st: "tc_state c \<noteq> kDisconnected"
    and n: "0 < n" "n \<le> length (content (outputBuffer c))"
  defines "rest \<equiv> drop n (content (outputBuffer c))"
  shows "\<exists>c'. handleWrite (Wrote n) c = Inr c' \<and> tc_inv c' \<and> tc_state c' = tc_state c \<and> content (outputBuffer c') = rest \<and>
    accepted c' = accepted c \<and> hasWriteComplete c' = hasWriteComplete c \<and>
    (rest \<noteq> [] \<longrightarrow> todo c' = todo c \<and> wr_shutdown c' = wr_shutdown c) \<and>
    (rest = [] \<longrightarrow> todo c' = todo c @ (if hasWriteComplete c then [TWriteComplete] else []) \<and> \<not> isWriting (tc_channel c') \<and>
       (tc_state c = kDisconnecting \<longrightarrow> wr_shutdown c'))"
proof -
  note i = tc_invD [OF inv]
  have wr: "isWriting (tc_channel c)" using inv w st by (simp add: tc_inv_def)
  have "wrote_at_most (readableBytes (outputBuffer c)) (Wrote n)" using n(2) i(2) by (simp add: wrote_at_most_def)
  from handleWrite_ok [OF inv this] obtain d where d: "handleWrite (Wrote n) c = Inr d" "tc_inv d" "tc_state d = tc_state c" by blast
  obtain b where b: "retrieve n (outputBuffer c) = Inr b" "buffer_inv b" "content b = rest"
    using retrieve_ok [OF i(2) n(2)] rest_def by blast
  let ?c = "c\<lparr>wire := wire c @ take n (content (outputBuffer c)), outputBuffer := b\<rparr>"
  let ?e = "ch_interest DisableWriting ?c"
  let ?f = "if hasWriteComplete ?e then queue_task TWriteComplete ?e else ?e"
  have eq: "d = (if rest = [] then (if tc_state ?f = kDisconnecting then shutdownInLoop ?f else ?f) else ?c)"
    using d(1) wr n(1) b(1,3) readable_content [OF b(2)] by (simp add: handleWrite_def Let_def split: if_splits)
  have idle: "\<not> isWriting (tc_channel ?f)"
    using write_bit(2) [OF i(3)] by (simp add: ch_interest_def queue_task_def)
  have f: "content (outputBuffer ?f) = rest" "accepted ?f = accepted c" "hasWriteComplete ?f = hasWriteComplete c" "tc_state ?f = tc_state c"
      "todo ?f = todo c @ (if hasWriteComplete c then [TWriteComplete] else [])"
    using b(3) by (simp_all add: ch_interest_def queue_task_def)
  show ?thesis
  proof (cases "rest = []")
    case True
    with d(2,3) f idle show ?thesis unfolding d(1) eq
      by (cases "tc_state c = kDisconnecting") (auto simp: shutdownInLoop_def)
  next
    case False
    with d(2,3) eq b(3) show ?thesis unfolding d(1) by simp
  qed
qed

text \<open>The kernel reports the socket writable again and again and takes at most the given numbers of bytes.\<close>

fun writable_rounds :: "nat list \<Rightarrow> tcpconn \<Rightarrow> tcpconn res" where
  "writable_rounds [] c = Inr c"
| "writable_rounds (n # ns) c =
     rbind (conn_step (EvWritable (Wrote (min n (readableBytes (outputBuffer c))))) c) (writable_rounds ns)"

lemma rounds_drained:
  assumes "tc_inv c" and "content (outputBuffer c) = []"
  shows "writable_rounds ns c = Inr c"
proof (induction ns)
  case (Cons n ns)
  have "readableBytes (outputBuffer c) = 0" using readable_content [OF tc_invD(2) [OF assms(1)]] assms(2) by simp
  then have "handleWrite (Wrote (min n (readableBytes (outputBuffer c)))) c = Inr c" by (simp add: handleWrite_def)
  with Cons show ?case by simp
qed simp

text \<open>C5: Waiting output is sent. On a connection that is up and has bytes waiting, if the kernel keeps reporting the socket writable
  and takes at least one byte each time, then once it has offered room for the waiting bytes every accepted byte is on
  the wire, in order; the channel no longer asks for writability; the write-complete callback is queued exactly once; and a
  shutdown that was requested meanwhile has been carried out.\<close>

theorem output_drains:
  assumes "tc_inv c" and "tc_state c \<noteq> kDisconnected" and "content (outputBuffer c) \<noteq> []"
    and "0 \<notin> set ns" and "length (content (outputBuffer c)) \<le> sum_list ns"
  shows "\<exists>c'. writable_rounds ns c = Inr c' \<and> wire c' = accepted c \<and> content (outputBuffer c') = [] \<and>
    \<not> isWriting (tc_channel c') \<and> tc_state c' = tc_state c \<and>
    todo c' = todo c @ (if hasWriteComplete c then [TWriteComplete] else []) \<and> (tc_state c = kDisconnecting \<longrightarrow> wr_shutdown c')"
  using assms
proof (induction ns arbitrary: c)
  case (Cons n ns)
  let ?out = "content (outputBuffer c)"
  define k where "k = min n (length ?out)"
  have len: "length ?out = readableBytes (outputBuffer c)" using tc_invD(2) [OF Cons.prems(1)] by simp
  have k: "0 < k" "k \<le> length ?out" using Cons.prems(3,4) by (auto simp: k_def)
  from handleWrite_some [OF Cons.prems(1,3,2) k] obtain d where d: "handleWrite (Wrote k) c = Inr d" "tc_inv d" "tc_state d = tc_state c"
      "content (outputBuffer d) = drop k ?out" "accepted d = accepted c" "hasWriteComplete d = hasWriteComplete c"
      "drop k ?out \<noteq> [] \<Longrightarrow> todo d = todo c"
      "drop k ?out = [] \<Longrightarrow> todo d = todo c @ (if hasWriteComplete c then [TWriteComplete] else []) \<and> \<not> isWriting (tc_channel d) \<and>
         (tc_state c = kDisconnecting \<longrightarrow> wr_shutdown d)"
    by blast
  have step: "writable_rounds (n # ns) c = writable_rounds ns d" using d(1) len by (simp add: k_def)
  show ?case
  proof (cases "drop k ?out = []")
    case True
    then have empty: "content (outputBuffer d) = []" using d(4) by simp
    have "wire d = accepted c" using tc_invD(5) [OF d(2)] d(5) empty by simp
    with d(3) d(8) [OF True] empty show ?thesis unfolding step rounds_drained [OF d(2) empty] by simp
  next
    case False
    then have "k = n" by (auto simp: k_def)
    then have "tc_state d \<noteq> kDisconnected" "content (outputBuffer d) \<noteq> []" "0 \<notin> set ns"
        "length (content (outputBuffer d)) \<le> sum_list ns"
      using False Cons.prems(2,4,5) d(3,4) by auto
    from Cons.IH [OF d(2) this] show ?thesis unfolding step d(3,5,6) d(7) [OF False] .
  qed
qed simp

text \<open>Five bytes wait, of which the kernel takes two at a time, while a shutdown is pending.\<close>

theorem output_drains_witness:
  "\<exists>c c'. content (outputBuffer c) = ''hello'' \<and> tc_state c = kDisconnecting \<and> \<not> wr_shutdown c \<and>
     writable_rounds [2, 2, 2] c = Inr c' \<and> wire c' = ''hello'' \<and> wr_shutdown c'"
proof -
  obtain b where b: "buffer_inv b" "content b = ''hello''"
    using append_buf_ok [of "empty_buffer kInitialSize" "''hello''"] by auto
  let ?c = "(ch_interest EnableWriting sample_conn)\<lparr>outputBuffer := b, accepted := ''hello'', tc_state := kDisconnecting\<rparr>"
  have c: "tc_state ?c \<noteq> kDisconnected" "content (outputBuffer ?c) = ''hello''" "accepted ?c = ''hello''" "tc_state ?c = kDisconnecting"
      "\<not> wr_shutdown ?c" "wire ?c = []"
    using b by (simp_all add: sample_conn_def call_user_def ch_interest_def TcpConnection_new_def)
  have m: "ch_events (tc_channel sample_conn) \<in> set ev_masks" using tc_invD(3) [OF sample_conn_inv] .
  have inv: "tc_inv ?c"
    using sample_conn_inv b write_bit(1) [OF m] change_events_masks [OF m, of EnableWriting]
    by (simp add: tc_inv_def ch_interest_def) (simp add: sample_conn_def call_user_def ch_interest_def TcpConnection_new_def)
  have "content (outputBuffer ?c) \<noteq> []" "length (content (outputBuffer ?c)) \<le> sum_list [2, 2, 2]" using c(2) by simp_all
  from output_drains [OF inv c(1) this(1) _ this(2)] obtain c' where "writable_rounds [2, 2, 2] ?c = Inr c'" "wire c' = ''hello''" "wr_shutdown c'"
    using c(3,4) by (auto simp del: writable_rounds.simps)
  with c(2,4,5) show ?thesis by blast
qed

text \<open>C36: Graceful shutdown: the writing side of a live connection is shut down only once every accepted
  byte has been handed to the kernel, whichever event triggers it.\<close>

theorem shutdown_after_all_sent:
  assumes "tc_inv c" and "ev_legal e c" and "conn_step e c = Inr c'" and "\<not> wr_shutdown c" and "wr_shutdown c'"
    and "tc_state c' \<noteq> kDisconnected"
  shows "wire c' = accepted c'"
proof -
  obtain c1 where "conn_step e c = Inr c1" "tc_inv c1" "shut_clean c c1" using conn_step_ok [OF assms(1,2)] assms(3) by auto
  with assms(3-6) show ?thesis using tc_invD(5) [of c'] by (auto simp: shut_clean_def)
qed

theorem shutdown_after_all_sent_witness:
  "\<exists>c'. conn_step (EvShutdown True) sample_conn = Inr c' \<and> wr_shutdown c' \<and> wire c' = accepted c'"
proof -
  let ?c = "(sample_conn\<lparr>tc_state := kDisconnecting\<rparr>)\<lparr>wr_shutdown := True\<rparr>"
  have nw: "\<not> isWriting (tc_channel sample_conn)"
    by (simp add: sample_conn_def call_user_def ch_interest_def TcpConnection_new_def Channel_new_def tie_def
        isWriting_def kReadEvent_def kWriteEvent_def poll_bits)
  have step: "conn_step (EvShutdown True) sample_conn = Inr ?c"
    using nw by (simp add: tc_shutdown_def shutdownInLoop_def) (simp add: sample_conn_def call_user_def ch_interest_def TcpConnection_new_def)
  have "wire ?c = accepted ?c"
    by (rule shutdown_after_all_sent [OF sample_conn_inv _ step])
      (simp_all add: sample_conn_def call_user_def ch_interest_def TcpConnection_new_def)
  with step show ?thesis by auto
qed


text \<open>A half-closed connection cannot be torn down. \<open>connectDestroyed\<close> disables the channel only in the
  state \<open>kConnected\<close>: for an established connection on which \<open>shutdown\<close> was called and which still
  watches any event, it fails the assertion in \<open>Channel::remove\<close>. The destructor of the server calls it for
  every connection.\<close>

theorem destroy_half_closed_asserts:
  assumes "tc_state c = kConnected" and "ch_events (tc_channel c) \<noteq> 0"
  shows "connectDestroyed (tc_shutdown inLoop c) = Inl AssertFail"
proof -
  have "tc_state (tc_shutdown inLoop c) = kDisconnecting" "tc_channel (tc_shutdown inLoop c) = tc_channel c"
    using assms(1) by (auto simp: tc_shutdown_def shutdownInLoop_def queue_task_def Let_def)
  then show ?thesis using assms(2) by (simp add: connectDestroyed_def isNoneEvent_def kNoneEvent_def)
qed

theorem destroy_half_closed_asserts_witness:
  "connectDestroyed (tc_shutdown True sample_conn) = Inl AssertFail"
  by (rule destroy_half_closed_asserts)
    (simp_all add: sample_conn_def call_user_def ch_interest_def TcpConnection_new_def Channel_new_def tie_def
      kReadEvent_def poll_bits)

text \<open>Reading can be re-enabled on a connection that is down, and then it cannot be destroyed either.\<close>

lemma startRead_after_close:
  assumes "tc_inv c" and "tc_state c = kDisconnected"
  shows "connectDestroyed (startReadInLoop c) = Inl AssertFail"
proof -
  have "isReading (tc_channel (startReadInLoop c))" "tc_state (startReadInLoop c) = kDisconnected"
    using change_events_effect(1) [OF tc_invD(3) [OF assms(1)], of EnableReading] assms(2)
    by (auto simp: startReadInLoop_def ch_interest_def isReading_def)
  then show ?thesis
    using connectDestroyed_ok [of "startReadInLoop c"] stop_start_ok(1) [OF assms(1)] by (auto simp: reads_when_down_def)
qed

lemma closed_can_be_destroyed:
  assumes "tc_inv c" and "tc_state c = kDisconnected" and "\<not> reads_when_down c"
  shows "\<exists>c'. connectDestroyed c = Inr c' \<and> TcpConnection_dtor c' = Inr ()"
  using connectDestroyed_ok [OF assms(1)] assms(2,3) by (auto simp: TcpConnection_dtor_def)


subsection \<open>The functors of a connection\<close>

text \<open>A step takes at most the first functor and adds some at the end; on a connection that is down only those of \<open>startRead\<close>
  and \<open>stopRead\<close> are added.\<close>

definition task_rest :: "conn_event \<Rightarrow> tcpconn \<Rightarrow> conn_task list" where
  "task_rest e c = (case e of EvRunTask w \<Rightarrow> tl (todo c) | _ \<Rightarrow> todo c)"

definition runs_destroy :: "conn_event \<Rightarrow> tcpconn \<Rightarrow> bool" where
  "runs_destroy e c \<longleftrightarrow> (\<exists>w ts. e = EvRunTask w \<and> todo c = TConnectDestroyed # ts)"

lemma sendInLoop_todo:
  "sendInLoop w d c = Inr c' \<Longrightarrow> \<exists>new. todo c' = todo c @ new \<and> set new \<subseteq> {t. owns t \<and> t \<noteq> TConnectDestroyed} \<and>
     (tc_state c = kDisconnected \<longrightarrow> new = []) \<and> tc_destroyed c' = tc_destroyed c"
  by (auto simp: sendInLoop_def try_write_def queue_task_def ch_interest_def Let_def split: if_splits sys_write.splits)

lemma handleClose_todo: "handleClose c = Inr c' \<Longrightarrow> todo c' = todo c \<and> tc_destroyed c' = tc_destroyed c"
  by (auto simp: handleClose_def ch_interest_def call_user_def Let_def)

lemma handleRead_todo: "tc_handleRead r c = Inr c' \<Longrightarrow> todo c' = todo c \<and> tc_destroyed c' = tc_destroyed c"
  using handleClose_todo by (fastforce simp: tc_handleRead_def handleError_def call_user_def Let_def split: if_splits)

lemma handleWrite_todo:
  "handleWrite w c = Inr c' \<Longrightarrow> \<exists>new. todo c' = todo c @ new \<and> set new \<subseteq> {TWriteComplete} \<and> tc_destroyed c' = tc_destroyed c \<and>
     (\<not> isWriting (tc_channel c) \<longrightarrow> new = [])"
  by (auto simp: handleWrite_def queue_task_def ch_interest_def shutdownInLoop_def Let_def split: if_splits sys_write.splits)

lemma run_task_todo:
  "run_task w t c = Inr c' \<Longrightarrow> \<exists>new. todo c' = todo c @ new \<and> TConnectDestroyed \<notin> set new \<and> (tc_state c = kDisconnected \<longrightarrow> new = []) \<and>
     tc_destroyed c' = (tc_destroyed c \<or> t = TConnectDestroyed)"
proof (cases t)
  case (TSend d)
  assume "run_task w t c = Inr c'"
  with TSend sendInLoop_todo [of w d c c'] show ?thesis by auto
next
  case TForceClose
  assume "run_task w t c = Inr c'"
  with TForceClose handleClose_todo [of c c'] show ?thesis by (auto simp: forceCloseInLoop_def split: if_splits)
qed (auto simp: shutdownInLoop_def startReadInLoop_def stopReadInLoop_def connectDestroyed_def ch_interest_def call_user_def Let_def
    split: if_splits)

lemma conn_step_todo:
  assumes "conn_step e c = Inr c'" and inv: "tc_inv c"
  shows "\<exists>new. todo c' = task_rest e c @ new \<and> TConnectDestroyed \<notin> set new \<and>
     (tc_state c = kDisconnected \<longrightarrow> set new \<subseteq> {TStartRead, TStopRead}) \<and> tc_destroyed c' = (tc_destroyed c \<or> runs_destroy e c)"
proof (cases e)
  case (EvSend inLoop d w)
  with assms(1) show ?thesis using sendInLoop_todo [of w d c c']
    by (fastforce simp: tc_send_def queue_task_def task_rest_def runs_destroy_def split: if_splits)
next
  case (EvReadable r)
  with assms(1) show ?thesis using handleRead_todo [of r c c']
    by (auto simp: task_rest_def runs_destroy_def split: if_splits)
next
  case (EvWritable w)
  with assms(1) show ?thesis using handleWrite_todo [of w c c'] tc_invD(6) [OF inv]
    by (auto simp: task_rest_def runs_destroy_def)
next
  case EvHangup
  with assms(1) show ?thesis using handleClose_todo [of c c']
    by (auto simp: task_rest_def runs_destroy_def split: if_splits)
next
  case (EvRunTask w)
  show ?thesis
  proof (cases "todo c")
    case Nil
    with assms(1) EvRunTask show ?thesis by (auto simp: task_rest_def runs_destroy_def)
  next
    case (Cons t ts)
    with assms(1) EvRunTask have "run_task w t (c\<lparr>todo := ts\<rparr>) = Inr c'" by simp
    from run_task_todo [OF this] Cons EvRunTask show ?thesis by (auto simp: task_rest_def runs_destroy_def)
  qed
qed (use assms(1) in \<open>auto simp: task_rest_def runs_destroy_def tc_shutdown_def shutdownInLoop_def forceClose_def forceCloseWithDelay_def
  startRead_def stopRead_def startReadInLoop_def stopReadInLoop_def defaultMessageCallback_def handleError_def queue_task_def ch_interest_def
  Let_def split: if_splits\<close>)

text \<open>A connection that is being given up: its destruction is due, after the functors that were queued before it, or is done. Releasing
  such a connection fails only after a late request to start or stop reading.\<close>

definition leaving :: "tcpconn \<Rightarrow> bool" where
  "leaving c \<longleftrightarrow> tc_inv c \<and> tc_state c = kDisconnected \<and>
     (if tc_destroyed c then set (todo c) \<subseteq> {TStartRead, TStopRead}
      else \<exists>xs ys. todo c = xs @ TConnectDestroyed # ys \<and> TConnectDestroyed \<notin> set xs \<and> set ys \<subseteq> {TStartRead, TStopRead})"

lemma conn_step_down:
  assumes "conn_step e c = Inr c'" and "tc_inv c" and "tc_state c = kDisconnected"
  shows "tc_state c' = kDisconnected"
proof (cases e)
  case (EvReadable r)
  with assms(1) tc_handleRead_down(1) [OF assms(2,3)] tc_handleRead_down(2) [OF assms(2,3), of r] assms(3) show ?thesis
    by (cases "r = ReadData []") (auto split: if_splits)
next
  case (EvWritable w)
  with assms tc_invD(6) [OF assms(2,3)] show ?thesis by (auto simp: handleWrite_def)
next
  case (EvRunTask w)
  show ?thesis
  proof (cases "todo c")
    case (Cons t ts)
    with EvRunTask assms show ?thesis
      by (cases t) (auto simp: sendInLoop_def shutdownInLoop_def forceCloseInLoop_def startReadInLoop_def stopReadInLoop_def
          connectDestroyed_def ch_interest_def Let_def split: if_splits)
  qed (use EvRunTask assms in simp)
qed (use assms in \<open>auto simp: tc_send_def tc_shutdown_def forceClose_def forceCloseWithDelay_def startRead_def stopRead_def
  startReadInLoop_def stopReadInLoop_def defaultMessageCallback_def handleError_def handleClose_def queue_task_def ch_interest_def
  Let_def split: if_splits\<close>)

lemma leaving_step:
  assumes "leaving c" and "ev_legal e c" and "conn_step e c = Inr c'"
  shows "leaving c'"
proof -
  have c: "tc_inv c" "tc_state c = kDisconnected" using assms(1) by (auto simp: leaving_def)
  have inv': "tc_inv c'" using conn_step_ok [OF c(1) assms(2)] assms(3) by auto
  note st' = conn_step_down [OF assms(3) c]
  obtain new where new: "todo c' = task_rest e c @ new" "set new \<subseteq> {TStartRead, TStopRead}" "tc_destroyed c' = (tc_destroyed c \<or> runs_destroy e c)"
    using conn_step_todo [OF assms(3) c(1)] c(2) by blast
  show ?thesis
  proof (cases "tc_destroyed c")
    case True
    have "set (task_rest e c) \<subseteq> set (todo c)" by (cases e; cases "todo c") (auto simp: task_rest_def)
    moreover have "set (todo c) \<subseteq> {TStartRead, TStopRead}" using assms(1) True by (simp add: leaving_def)
    ultimately have "set (task_rest e c) \<subseteq> {TStartRead, TStopRead}" by (rule subset_trans)
    with True new inv' st' show ?thesis by (auto simp: leaving_def)
  next
    case False
    with assms(1) obtain xs ys where t: "todo c = xs @ TConnectDestroyed # ys" "TConnectDestroyed \<notin> set xs" "set ys \<subseteq> {TStartRead, TStopRead}"
      by (auto simp: leaving_def)
    show ?thesis
    proof (cases "runs_destroy e c")
      case True
      with t have "xs = []" "task_rest e c = ys" by (cases xs; auto simp: runs_destroy_def task_rest_def)+
      with True new t(3) inv' st' show ?thesis by (auto simp: leaving_def)
    next
      case nr: False
      have "\<exists>zs. task_rest e c = zs @ TConnectDestroyed # ys \<and> TConnectDestroyed \<notin> set zs"
      proof (cases "\<exists>w. e = EvRunTask w")
        case True
        with nr t obtain x xs' where "xs = x # xs'" by (cases xs) (auto simp: runs_destroy_def)
        with t True show ?thesis by (auto simp: task_rest_def)
      next
        case False
        then have "task_rest e c = todo c" by (cases e) (auto simp: task_rest_def)
        with t show ?thesis by auto
      qed
      then obtain zs where "task_rest e c = zs @ TConnectDestroyed # ys" "TConnectDestroyed \<notin> set zs" by blast
      with new t(3) have "\<exists>xs ys. todo c' = xs @ TConnectDestroyed # ys \<and> TConnectDestroyed \<notin> set xs \<and> set ys \<subseteq> {TStartRead, TStopRead}"
        by (intro exI [of _ zs] exI [of _ "ys @ new"]) simp
      with new(3) False nr inv' st' show ?thesis by (simp add: leaving_def)
    qed
  qed
qed

text \<open>A connection that nobody has asked to destroy.\<close>

definition staying :: "tcpconn \<Rightarrow> bool" where "staying c \<longleftrightarrow> TConnectDestroyed \<notin> set (todo c) \<and> \<not> tc_destroyed c"

lemma staying_step: "conn_step e c = Inr c' \<Longrightarrow> tc_inv c \<Longrightarrow> staying c \<Longrightarrow> staying c'"
proof -
  assume a: "conn_step e c = Inr c'" "tc_inv c" "staying c"
  have "set (task_rest e c) \<subseteq> set (todo c)" by (cases e; cases "todo c") (auto simp: task_rest_def)
  with conn_step_todo [OF a(1,2)] a(3) show ?thesis by (auto simp: staying_def runs_destroy_def)
qed

lemma staying_leaving:
  assumes "tc_inv c" and "tc_state c = kDisconnected" and "staying c"
  shows "leaving (queue_task TConnectDestroyed c)"
proof -
  let ?c = "queue_task TConnectDestroyed c"
  have "todo ?c = todo c @ TConnectDestroyed # []" "tc_state ?c = kDisconnected" "\<not> tc_destroyed ?c" "TConnectDestroyed \<notin> set (todo c)"
    using assms by (simp_all add: queue_task_def staying_def)
  moreover have "tc_inv ?c" using assms(1) by (simp add: tc_inv_queue)
  ultimately show ?thesis unfolding leaving_def by fastforce
qed

lemma leaving_release:
  assumes "leaving c" and "\<forall>t \<in> set (todo c). \<not> owns t"
  shows "conn_release c = Inr () \<or> late_reading c \<and> conn_release c \<in> {Inl AssertFail, Inl UndefinedBehaviour}"
proof -
  have d: "tc_destroyed c" "tc_state c = kDisconnected" "set (todo c) \<subseteq> {TStartRead, TStopRead}"
    using assms by (auto simp: leaving_def split: if_splits)
  show ?thesis
  proof (cases "todo c")
    case Nil
    with d show ?thesis by (auto simp: conn_release_def TcpConnection_dtor_def late_reading_def)
  next
    case (Cons t ts)
    with d show ?thesis by (auto simp: conn_release_def late_reading_def)
  qed
qed

lemma leaving_fails:
  assumes "leaving c" and "ev_legal e c" and "conn_step e c = Inl x"
  shows "x = AssertFail \<and> late_reading c"
proof -
  have c: "tc_inv c" "tc_state c = kDisconnected" using assms(1) by (auto simp: leaving_def)
  with conn_step_ok [OF c(1) assms(2)] assms(3) show ?thesis
    by (auto simp: reads_when_down_def destroys_half_closed_def late_reading_def)
qed


subsection \<open>Dispatch of one poll result\<close>

text \<open>The callbacks the connection gave its channel, run in the order of \<open>handleEvent\<close>.\<close>

fun run_callback :: "sys_read \<Rightarrow> sys_write \<Rightarrow> callback \<Rightarrow> tcpconn \<Rightarrow> tcpconn res" where
  "run_callback r w ReadCallback c = tc_handleRead r c"
| "run_callback r w WriteCallback c = handleWrite w c"
| "run_callback r w CloseCallback c = handleClose c"
| "run_callback r w ErrorCallback c = Inr (handleError c)"

fun run_callbacks :: "sys_read \<Rightarrow> sys_write \<Rightarrow> callback list \<Rightarrow> tcpconn \<Rightarrow> tcpconn res" where
  "run_callbacks r w [] c = Inr c"
| "run_callbacks r w (cb # cbs) c = rbind (run_callback r w cb c) (run_callbacks r w cbs)"

text \<open>C35: Dispatching a poll result, for a connection that is up and whatever bits \<open>poll\<close> reports: the callbacks that
  \<open>Channel::handleEvent\<close> invokes (close, error, read, write, in this order) run without a failed assertion with one
  exception. When a hang-up without readable data comes together with urgent data or a half-close, the close callback is followed by the
  read callback; if that read then finds the end of the stream, it closes a second time and the assertion of \<open>handleClose\<close>
  fails. In all other cases a close seen by one callback does not make a later one fail.\<close>

theorem dispatch_safe:
  assumes "tc_inv c" and "tc_state c \<noteq> kDisconnected" and "wrote_at_most (readableBytes (outputBuffer c)) w"
    and "callbacks (tc_channel c) = [ReadCallback, WriteCallback, CloseCallback, ErrorCallback]"
  shows "if (tied (tc_channel c) \<longrightarrow> alive) \<and> has_ev r POLLHUP \<and> \<not> has_ev r POLLIN \<and> has_ev r (POLLPRI OR POLLRDHUP) \<and> d = ReadData []
    then run_callbacks d w (handleEvent alive ((tc_channel c)\<lparr>ch_revents := r\<rparr>)) c = Inl AssertFail
    else \<exists>c'. run_callbacks d w (handleEvent alive ((tc_channel c)\<lparr>ch_revents := r\<rparr>)) c = Inr c' \<and> tc_inv c'"
proof -
  have wr: "\<exists>c''. handleWrite w c' = Inr c'' \<and> tc_inv c''"
    if "tc_inv c'" "tc_state c' = kDisconnected \<or> outputBuffer c' = outputBuffer c" for c'
  proof (cases "tc_state c' = kDisconnected")
    case True
    then show ?thesis using that(1) tc_invD(6) [OF that(1)] by (simp add: handleWrite_def)
  next
    case False
    then show ?thesis using handleWrite_ok [OF that(1), of w] that(2) assms(3) by auto
  qed
  obtain cl where cl: "handleClose c = Inr cl" "tc_inv cl" "tc_state cl = kDisconnected"
    using handleClose_ok [OF assms(1,2)] by blast
  obtain rc where rc: "tc_handleRead d c = Inr rc" "tc_inv rc" "tc_state rc = kDisconnected \<or> outputBuffer rc = outputBuffer c"
    using tc_handleRead_ok [OF assms(1,2), of d] by blast
  let ?h = "has_ev r POLLHUP \<and> \<not> has_ev r POLLIN" and ?i = "has_ev r (POLLIN OR POLLPRI OR POLLRDHUP)"
    and ?e = "has_ev r (POLLERR OR POLLNVAL)" and ?o = "has_ev r POLLOUT"
  have cbs: "handleEventWithGuard ((tc_channel c)\<lparr>ch_revents := r\<rparr>) =
      (if ?h then [CloseCallback] else []) @ (if ?e then [ErrorCallback] else []) @
      (if ?i then [ReadCallback] else []) @ (if ?o then [WriteCallback] else [])"
    by (simp add: handleEventWithGuard_def fire_def assms(4) Let_def)
  have both: "?h \<Longrightarrow> ?i \<longleftrightarrow> has_ev r (POLLPRI OR POLLRDHUP)" by (simp add: has_ev_or)
  have "if ?h \<and> ?i \<and> d = ReadData []
    then run_callbacks d w (handleEventWithGuard ((tc_channel c)\<lparr>ch_revents := r\<rparr>)) c = Inl AssertFail
    else \<exists>c'. run_callbacks d w (handleEventWithGuard ((tc_channel c)\<lparr>ch_revents := r\<rparr>)) c = Inr c' \<and> tc_inv c'"
  proof (cases ?h)
    case h: True
    show ?thesis
    proof (cases "?i \<and> d \<noteq> ReadData []")
      case True
      then obtain c1 where c1: "tc_handleRead d cl = Inr c1" "tc_inv c1" "tc_state c1 = kDisconnected"
        using tc_handleRead_down(2) [OF cl(2,3)] by blast
      with h True cl wr [OF c1(2)] show ?thesis unfolding cbs by (cases ?e; cases ?o) (simp_all add: handleError_def)
    next
      case False
      with h cl wr [OF cl(2)] tc_handleRead_down(1) [OF cl(2,3)] show ?thesis
        unfolding cbs by (cases ?e; cases ?o; cases ?i) (simp_all add: handleError_def)
    qed
  next
    case False
    show ?thesis
    proof (cases ?i)
      case True
      with False rc wr [OF rc(2)] show ?thesis
        unfolding cbs if_not_P [OF False] by (cases ?e; cases ?o) (auto simp: handleError_def)
    next
      case nr: False
      with False assms(1) wr [OF assms(1)] show ?thesis
        unfolding cbs if_not_P [OF False] by (cases ?e; cases ?o) (auto simp: handleError_def)
    qed
  qed
  with assms(1) both show ?thesis by (auto simp: handleEvent_def split: if_splits)
qed

theorem dispatch_safe_witness:
  "(\<exists>c'. run_callbacks (ReadData []) (Wrote 0) (handleEvent True ((tc_channel sample_conn)\<lparr>ch_revents := POLLIN OR POLLHUP OR POLLOUT\<rparr>))
     sample_conn = Inr c' \<and> tc_inv c') \<and>
   run_callbacks (ReadData []) (Wrote 0) (handleEvent True ((tc_channel sample_conn)\<lparr>ch_revents := POLLHUP OR POLLRDHUP\<rparr>)) sample_conn =
     Inl AssertFail"
proof -
  have c: "tc_state sample_conn \<noteq> kDisconnected" "wrote_at_most (readableBytes (outputBuffer sample_conn)) (Wrote 0)"
      "callbacks (tc_channel sample_conn) = [ReadCallback, WriteCallback, CloseCallback, ErrorCallback]"
    by (simp_all add: sample_conn_def call_user_def ch_interest_def TcpConnection_new_def Channel_new_def tie_def wrote_at_most_def)
  show ?thesis
    using dispatch_safe [OF sample_conn_inv c, of True "POLLIN OR POLLHUP OR POLLOUT" "ReadData []"]
      dispatch_safe [OF sample_conn_inv c, of True "POLLHUP OR POLLRDHUP" "ReadData []"]
    by (simp add: has_ev_def poll_bits)
qed

end
