(* ===== verification/SocketOps.thy ===== *)
theory SocketOps
  imports Sockets
begin

section \<open>Socket options, errors and statistics (\<open>net/Socket.cc\<close>, \<open>net/SocketsOps.cc\<close>)\<close>

text \<open>
  The wrappers around the remaining system calls of a socket. What a wrapper asks of the kernel is a value of the type \<open>sockcall\<close>; what the
  kernel answers is a parameter; an error line that is logged is part of the result.
\<close>

datatype sockopt = TCP_NODELAY | SO_REUSEADDR | SO_REUSEPORT | SO_KEEPALIVE

datatype sockcall = SetSockOpt sockopt int | ShutdownWr | CloseFd

definition optval :: "bool \<Rightarrow> int" where "optval on = (if on then 1 else 0)"

definition Socket_setTcpNoDelay :: "bool \<Rightarrow> sockcall" where "Socket_setTcpNoDelay on = SetSockOpt TCP_NODELAY (optval on)"
definition Socket_setReuseAddr :: "bool \<Rightarrow> sockcall" where "Socket_setReuseAddr on = SetSockOpt SO_REUSEADDR (optval on)"
definition Socket_setKeepAlive :: "bool \<Rightarrow> sockcall" where "Socket_setKeepAlive on = SetSockOpt SO_KEEPALIVE (optval on)"

definition Socket_setReusePort :: "sysret \<Rightarrow> bool \<Rightarrow> sockcall \<times> string list" where
  "Socket_setReusePort ret on =
     (SetSockOpt SO_REUSEPORT (optval on),
      case ret of SysErr _ \<Rightarrow> if on then [''SO_REUSEPORT failed.''] else [] | SysOk _ \<Rightarrow> [])"

definition sockets_close :: "sysret \<Rightarrow> sockcall \<times> string list" where
  "sockets_close ret = (CloseFd, case ret of SysErr _ \<Rightarrow> [''sockets::close''] | SysOk _ \<Rightarrow> [])"

definition sockets_shutdownWrite :: "sysret \<Rightarrow> sockcall \<times> string list" where
  "sockets_shutdownWrite ret = (ShutdownWr, case ret of SysErr _ \<Rightarrow> [''sockets::shutdownWrite''] | SysOk _ \<Rightarrow> [])"

definition Socket_dtor :: "sysret \<Rightarrow> sockcall \<times> string list" where "Socket_dtor ret = sockets_close ret"

definition Socket_shutdownWrite :: "sysret \<Rightarrow> sockcall \<times> string list" where "Socket_shutdownWrite ret = sockets_shutdownWrite ret"

text \<open>The error pending on a socket: the value of the option, or the error of asking for it.\<close>

definition getSocketError :: "int + int \<Rightarrow> int" where
  "getSocketError answer = (case answer of Inl err \<Rightarrow> err | Inr val \<Rightarrow> val)"

text \<open>The addresses of a socket. The kernel overwrites as much of the zeroed structure as the family has; after an error it
  stays zero.\<close>

definition getLocalAddr :: "(inetaddress \<Rightarrow> inetaddress) option \<Rightarrow> inetaddress \<Rightarrow> inetaddress \<times> string list" where
  "getLocalAddr answer raw =
     (case answer of None \<Rightarrow> (memZero_in6 raw, [''sockets::getLocalAddr'']) | Some fill \<Rightarrow> (fill (memZero_in6 raw), []))"

definition getPeerAddr :: "(inetaddress \<Rightarrow> inetaddress) option \<Rightarrow> inetaddress \<Rightarrow> inetaddress \<times> string list" where
  "getPeerAddr answer raw =
     (case answer of None \<Rightarrow> (memZero_in6 raw, [''sockets::getPeerAddr'']) | Some fill \<Rightarrow> (fill (memZero_in6 raw), []))"

definition selfConnected :: "(inetaddress \<Rightarrow> inetaddress) option \<Rightarrow> (inetaddress \<Rightarrow> inetaddress) option \<Rightarrow> inetaddress \<Rightarrow> bool" where
  "selfConnected l p raw = isSelfConnect (fst (getLocalAddr l raw)) (fst (getPeerAddr p raw))"

text \<open>What the kernel writes for an IPv4 socket: the first 16 bytes, \<open>sin_zero\<close> cleared.\<close>

definition fill_in :: "16 word \<Rightarrow> 32 word \<Rightarrow> inetaddress \<Rightarrow> inetaddress" where
  "fill_in port addr a = a\<lparr>sin_family := AF_INET, sin_port := port, sin_addr := addr, sin6_addr := replicate 8 NUL @ drop 8 (sin6_addr a)\<rparr>"

lemma selfConnected_IPv4:
  "selfConnected (Some (fill_in port addr)) (Some (fill_in port' addr')) raw \<longleftrightarrow> port = port' \<and> addr = addr'"
  by (simp add: selfConnected_def getLocalAddr_def getPeerAddr_def isSelfConnect_def fill_in_def)

text \<open>A socket whose own address cannot be read is never taken for one that is connected to itself.\<close>

lemma selfConnected_error: "\<not> selfConnected None p raw"
  by (simp add: selfConnected_def getLocalAddr_def isSelfConnect_def memZero_in6_def AF_INET_def AF_INET6_def)


subsection \<open>Statistics\<close>

record tcp_info =
  tcpi_retransmits :: "8 word"
  tcpi_rto :: "32 word"
  tcpi_ato :: "32 word"
  tcpi_snd_mss :: "32 word"
  tcpi_rcv_mss :: "32 word"
  tcpi_lost :: "32 word"
  tcpi_retrans :: "32 word"
  tcpi_rtt :: "32 word"
  tcpi_rttvar :: "32 word"
  tcpi_snd_ssthresh :: "32 word"
  tcpi_snd_cwnd :: "32 word"
  tcpi_total_retrans :: "32 word"

definition tcp_fields :: "tcp_info \<Rightarrow> (string \<times> nat) list" where
  "tcp_fields i =
     [(''unrecovered='', unat (tcpi_retransmits i)), ('' rto='', unat (tcpi_rto i)), ('' ato='', unat (tcpi_ato i)),
      ('' snd_mss='', unat (tcpi_snd_mss i)), ('' rcv_mss='', unat (tcpi_rcv_mss i)), ('' lost='', unat (tcpi_lost i)),
      ('' retrans='', unat (tcpi_retrans i)), ('' rtt='', unat (tcpi_rtt i)), ('' rttvar='', unat (tcpi_rttvar i)),
      ('' sshthresh='', unat (tcpi_snd_ssthresh i)), ('' cwnd='', unat (tcpi_snd_cwnd i)), ('' total_retrans='', unat (tcpi_total_retrans i))]"

definition tcp_text :: "tcp_info \<Rightarrow> string" where
  "tcp_text i = concat (map (\<lambda>(name, n). name @ show_nat n) (tcp_fields i))"

definition Socket_getTcpInfo :: "tcp_info option \<Rightarrow> tcp_info \<Rightarrow> bool \<times> tcp_info" where
  "Socket_getTcpInfo answer zero = (case answer of None \<Rightarrow> (False, zero) | Some i \<Rightarrow> (True, i))"

definition tcp_zero :: tcp_info where
  "tcp_zero = \<lparr>tcpi_retransmits = 0, tcpi_rto = 0, tcpi_ato = 0, tcpi_snd_mss = 0, tcpi_rcv_mss = 0, tcpi_lost = 0, tcpi_retrans = 0,
     tcpi_rtt = 0, tcpi_rttvar = 0, tcpi_snd_ssthresh = 0, tcpi_snd_cwnd = 0, tcpi_total_retrans = 0\<rparr>"

text \<open>The text in the buffer of length \<open>len\<close> afterwards; \<open>buf\<close> is what it held.\<close>

definition Socket_getTcpInfoString :: "tcp_info option \<Rightarrow> nat \<Rightarrow> string \<Rightarrow> bool \<times> string" where
  "Socket_getTcpInfoString answer len buf =
     (let (ok, tcpi) = Socket_getTcpInfo answer tcp_zero in (ok, if ok then snprintf len (tcp_text tcpi) else buf))"

definition conn_getTcpInfoString :: "tcp_info option \<Rightarrow> string" where
  "conn_getTcpInfoString answer = snd (Socket_getTcpInfoString answer 1024 [])"

lemma show_u32: "length (show_nat (unat (w :: 32 word))) \<le> 10"
proof -
  have "unat w < 2 ^ LENGTH(32)" by (rule unsigned_less)
  then show ?thesis by (intro length_show_nat) simp_all
qed

lemma show_u8: "length (show_nat (unat (w :: 8 word))) \<le> 3"
proof -
  have "unat w < 2 ^ LENGTH(8)" by (rule unsigned_less)
  then show ?thesis by (intro length_show_nat) simp_all
qed

text \<open>The buffer of the connection is large enough: no statistics of a connection are ever cut off.\<close>

lemma tcp_text_fits: "length (tcp_text i) \<le> 218"
  using show_u8 [of "tcpi_retransmits i"] show_u32 [of "tcpi_rto i"] show_u32 [of "tcpi_ato i"] show_u32 [of "tcpi_snd_mss i"]
    show_u32 [of "tcpi_rcv_mss i"] show_u32 [of "tcpi_lost i"] show_u32 [of "tcpi_retrans i"] show_u32 [of "tcpi_rtt i"]
    show_u32 [of "tcpi_rttvar i"] show_u32 [of "tcpi_snd_ssthresh i"] show_u32 [of "tcpi_snd_cwnd i"] show_u32 [of "tcpi_total_retrans i"]
  by (simp add: tcp_text_def tcp_fields_def)

lemma conn_tcp_info_complete: "conn_getTcpInfoString answer = (case answer of None \<Rightarrow> [] | Some i \<Rightarrow> tcp_text i)"
proof (cases answer)
  case (Some i)
  have "length (tcp_text i) \<le> 1023" using tcp_text_fits [of i] by simp
  with Some show ?thesis
    by (simp add: conn_getTcpInfoString_def Socket_getTcpInfoString_def Socket_getTcpInfo_def snprintf_def)
qed (simp add: conn_getTcpInfoString_def Socket_getTcpInfoString_def Socket_getTcpInfo_def)

end
