(* ===== verification/Date.thy ===== *)
theory Date
  imports Text
begin

section \<open>Calendar dates (\<open>base/Date.cc\<close>, \<open>base/Date.h\<close>)\<close>

text \<open>
  The conversions between a year, month and day and the Julian day number. C++ division truncates
  toward zero, hence \<open>sdiv\<close> and \<open>smod\<close>. The intermediate results are mathematical integers;
  \<open>julian_no_overflow\<close> shows that they fit 32 bits for every day up to number 500 million, well past
  the range 1900 to 2500 the header promises. The reference is the Gregorian calendar itself:
  \<open>days_in_month\<close> and the successor of a date.
\<close>

record YearMonthDay =
  year :: int
  month :: int
  day :: int

definition getJulianDayNumber :: "int \<Rightarrow> int \<Rightarrow> int \<Rightarrow> int" where
  "getJulianDayNumber yr mon dy =
     (let a = (14 - mon) sdiv 12;
          y = yr + 4800 - a;
          m = mon + 12 * a - 3
      in dy + (153 * m + 2) sdiv 5 + y * 365 + y sdiv 4 - y sdiv 100 + y sdiv 400 - 32045)"

definition getYearMonthDay :: "int \<Rightarrow> YearMonthDay" where
  "getYearMonthDay julianDayNumber =
     (let a = julianDayNumber + 32044;
          b = (4 * a + 3) sdiv 146097;
          c = a - (b * 146097) sdiv 4;
          d = (4 * c + 3) sdiv 1461;
          e = c - (1461 * d) sdiv 4;
          m = (5 * e + 2) sdiv 153
      in \<lparr>year = b * 100 + d - 4800 + m sdiv 10,
          month = m + 3 - 12 * (m sdiv 10),
          day = e - (153 * m + 2) sdiv 5 + 1\<rparr>)"

definition kJulianDayOf1970_01_01 :: int where
  "kJulianDayOf1970_01_01 = getJulianDayNumber 1970 1 1"

definition kDaysPerWeek :: int where "kDaysPerWeek = 7"

definition date_valid :: "int \<Rightarrow> bool" where "date_valid julianDayNumber \<longleftrightarrow> 0 < julianDayNumber"

definition weekDay :: "int \<Rightarrow> int" where
  "weekDay julianDayNumber = (julianDayNumber + 1) smod kDaysPerWeek"

definition toIsoString :: "int \<Rightarrow> string" where
  "toIsoString julianDayNumber =
     (let ymd = getYearMonthDay julianDayNumber
      in snprintf 32 (fmt_d 4 (year ymd) @ ''-'' @ fmt_0d 2 (month ymd) @ ''-'' @ fmt_0d 2 (day ymd)))"


subsection \<open>The Gregorian calendar\<close>

definition leap :: "int \<Rightarrow> bool" where
  "leap y \<longleftrightarrow> y mod 4 = 0 \<and> (y mod 100 \<noteq> 0 \<or> y mod 400 = 0)"

definition days_in_month :: "int \<Rightarrow> int \<Rightarrow> int" where
  "days_in_month y m =
     (if m = 2 then (if leap y then 29 else 28) else if m \<in> {4, 6, 9, 11} then 30 else 31)"

definition valid_ymd :: "YearMonthDay \<Rightarrow> bool" where
  "valid_ymd d \<longleftrightarrow> 1 \<le> month d \<and> month d \<le> 12 \<and> 1 \<le> day d \<and> day d \<le> days_in_month (year d) (month d)"

definition next_ymd :: "YearMonthDay \<Rightarrow> YearMonthDay" where
  "next_ymd d =
     (if day d < days_in_month (year d) (month d) then d\<lparr>day := day d + 1\<rparr>
      else if month d < 12 then d\<lparr>month := month d + 1, day := 1\<rparr>
      else \<lparr>year = year d + 1, month = 1, day = 1\<rparr>)"

definition julian :: "YearMonthDay \<Rightarrow> int" where
  "julian d = getJulianDayNumber (year d) (month d) (day d)"

lemma int_range_cases:
  assumes "l \<le> (m :: int)" and "m \<le> l + int n"
  shows "m \<in> set (map (\<lambda>i. l + int i) [0..<Suc n])"
proof -
  have "m = l + int (nat (m - l))" "nat (m - l) < Suc n" using assms by linarith+
  then show ?thesis by (metis atLeast0LessThan image_eqI lessThan_iff list.set_map set_upt)
qed

lemma leap_shift: "leap (y + 4800) = leap y"
proof -
  have "(y + 4800) mod 4 = y mod 4" "(y + 4800) mod 100 = y mod 100" "(y + 4800) mod 400 = y mod 400"
    using mod_mult_self2 [of y 4 1200] mod_mult_self2 [of y 100 48] mod_mult_self2 [of y 400 12] by simp_all
  then show ?thesis by (simp add: leap_def)
qed

lemma leap_shift_left: "leap (4800 + y) = leap y"
  using leap_shift [of y] by (simp add: add.commute)

text \<open>The year of the algorithm starts in March; its day \<open>e\<close> is counted from there.\<close>

lemma march_day:
  assumes "0 \<le> m" "m \<le> (11 :: int)" "0 \<le> d" "d < (if m = 11 then 29 else if m \<in> {1, 3, 6, 8} then 30 else 31)"
  shows "(5 * ((153 * m + 2) div 5 + d) + 2) div 153 = m"
proof (rule int_div_pos_eq)
  have m: "m \<in> set (map (\<lambda>i. 0 + int i) [0..<Suc 11])" using assms by (intro int_range_cases) simp_all
  let ?r = "5 * ((153 * m + 2) div 5 + d) + 2 - 153 * m"
  show "5 * ((153 * m + 2) div 5 + d) + 2 = 153 * m + ?r" by simp
  have "0 \<le> ?r \<and> ?r < 153" using m assms(3,4) by (auto simp: upt_rec)
  then show "0 \<le> ?r" "?r < 153" by blast+
qed

lemma century_of:
  assumes "0 \<le> (x :: int)" "x < 36524 \<or> x = 36524 \<and> c mod 4 = 3"
  shows "(4 * (146097 * c div 4 + x) + 3) div 146097 = c"
proof (rule int_div_pos_eq)
  have "146097 * c = c + 4 * (36524 * c)" by simp
  then have m: "146097 * c mod 4 = c mod 4" by (simp only: mod_mult_self2)
  have "4 * (146097 * c div 4) = 146097 * c - c mod 4" using minus_mod_eq_mult_div [of "146097 * c" 4] m by simp
  then show "4 * (146097 * c div 4 + x) + 3 = 146097 * c + (4 * x + 3 - c mod 4)" by simp
  show "0 \<le> 4 * x + 3 - c mod 4" "4 * x + 3 - c mod 4 < 146097"
    using assms pos_mod_bound [of 4 c] pos_mod_sign [of 4 c] by auto
qed

lemma year_of_century:
  assumes "0 \<le> (e :: int)" "e < 365 \<or> e = 365 \<and> r mod 4 = 3"
  shows "(4 * (1461 * r div 4 + e) + 3) div 1461 = r"
proof (rule int_div_pos_eq)
  have "1461 * r = r + 4 * (365 * r)" by simp
  then have m: "1461 * r mod 4 = r mod 4" by (simp only: mod_mult_self2)
  have "4 * (1461 * r div 4) = 1461 * r - r mod 4" using minus_mod_eq_mult_div [of "1461 * r" 4] m by simp
  then show "4 * (1461 * r div 4 + e) + 3 = 1461 * r + (4 * e + 3 - r mod 4)" by simp
  show "0 \<le> 4 * e + 3 - r mod 4" "4 * e + 3 - r mod 4 < 1461"
    using assms pos_mod_bound [of 4 r] pos_mod_sign [of 4 r] by auto
qed

lemma years_split:
  assumes "(y :: int) = 100 * c + r" "0 \<le> r" "r < 100"
  shows "365 * y + y div 4 - y div 100 + y div 400 = 146097 * c div 4 + 1461 * r div 4"
proof -
  have e: "c + 4 * (36524 * c) = 146097 * c" "r + 4 * (365 * r) = 1461 * r" "r + 4 * (25 * c) = y" using assms(1) by simp_all
  have "146097 * c div 4 = 36524 * c + c div 4" by (subst e(1) [symmetric], rule div_mult_self2) simp
  moreover have "1461 * r div 4 = 365 * r + r div 4" by (subst e(2) [symmetric], rule div_mult_self2) simp
  moreover have "y div 4 = 25 * c + r div 4"
    using div_mult_self2 [of 4 r "25 * c"] unfolding e(3) by (simp del: div_mult_self2)
  moreover have c: "y div 100 = c" using assms by simp
  moreover have "y div 400 = c div 4" using zdiv_zmult2_eq [of 4 y 100] by (simp add: c)
  moreover have "cc = 36524 * c + dc \<Longrightarrow> rr = 365 * r + dr \<Longrightarrow> y4 = 25 * c + dr \<Longrightarrow> y1 = c \<Longrightarrow> y3 = dc \<Longrightarrow>
      365 * y + y4 - y1 + y3 = cc + rr" for cc dc rr dr y4 y1 y3 :: int
    using assms(1) by simp
  ultimately show ?thesis by blast
qed


text \<open>The March-based form of a valid date: year \<open>y\<close>, month \<open>m\<close> and zero-based day \<open>d\<close>.\<close>

definition march_valid :: "int \<Rightarrow> int \<Rightarrow> int \<Rightarrow> bool" where
  "march_valid y m d \<longleftrightarrow> 0 \<le> y \<and> 0 \<le> m \<and> m \<le> 11 \<and> 0 \<le> d \<and>
     d < (if m = 11 then if leap (y + 1) then 29 else 28 else if m \<in> {1, 3, 6, 8} then 30 else 31)"

definition march_number :: "int \<Rightarrow> int \<Rightarrow> int \<Rightarrow> int" where
  "march_number y m d = (153 * m + 2) div 5 + d + (365 * y + y div 4 - y div 100 + y div 400)"

lemma march_doy:
  assumes "march_valid y m d"
  shows "0 \<le> (153 * m + 2) div 5 + d" and "(153 * m + 2) div 5 + d < 365 \<or> (153 * m + 2) div 5 + d = 365 \<and> leap (y + 1)"
proof -
  have m: "m \<in> set (map (\<lambda>i. 0 + int i) [0..<Suc 11])"
    using assms by (intro int_range_cases) (simp_all add: march_valid_def)
  have "0 \<le> (153 * m + 2) div 5 + d \<and> ((153 * m + 2) div 5 + d < 365 \<or> (153 * m + 2) div 5 + d = 365 \<and> leap (y + 1))"
    using m assms by (auto simp: upt_rec march_valid_def split: if_splits)
  then show "0 \<le> (153 * m + 2) div 5 + d" "(153 * m + 2) div 5 + d < 365 \<or> (153 * m + 2) div 5 + d = 365 \<and> leap (y + 1)"
    by blast+
qed

lemma leap_end_of_century:
  assumes "(y :: int) = 100 * c + r" "0 \<le> r" "r < 100" "leap (y + 1)"
  shows "r mod 4 = 3" and "r = 99 \<Longrightarrow> c mod 4 = 3"
proof -
  have "y + 1 = (r + 1) + 4 * (25 * c)" using assms(1) by simp
  then have "(y + 1) mod 4 = (r + 1) mod 4" by (metis mod_mult_self2)
  with assms(4) have "(r + 1) mod 4 = 0" by (simp add: leap_def)
  then show "r mod 4 = 3" by presburger
  assume r: "r = 99"
  then have y: "y + 1 = 100 * (c + 1)" using assms(1) by simp
  then have "(y + 1) mod 100 = 0" by (simp del: distrib_left_numeral)
  with assms(4) have "(y + 1) mod 400 = 0" by (simp add: leap_def)
  then obtain k where "y + 1 = 400 * k" by auto
  with y have "c + 1 = 4 * k" by simp
  then show "c mod 4 = 3" by presburger
qed


text \<open>The forward and the backward formula on March-based dates.\<close>

lemma getYearMonthDay_march:
  assumes v: "march_valid y m d"
  shows "getYearMonthDay (march_number y m d - 32044) =
    \<lparr>year = y - 4800 + m div 10, month = m + 3 - 12 * (m div 10), day = d + 1\<rparr>"
proof -
  define c r where "c = y div 100" and "r = y mod 100"
  have y: "y = 100 * c + r" "0 \<le> r" "r < 100" by (simp_all add: c_def r_def)
  have c0: "0 \<le> c" using v by (simp add: c_def march_valid_def pos_imp_zdiv_nonneg_iff)
  define e where "e = (153 * m + 2) div 5 + d"
  have e: "0 \<le> e" "e < 365 \<or> e = 365 \<and> leap (y + 1)" using march_doy [OF v] by (simp_all add: e_def)
  have m: "0 \<le> m" "m \<le> 11" "0 \<le> d" using v by (simp_all add: march_valid_def)
  define x where "x = 1461 * r div 4 + e"
  have x0: "0 \<le> x" using y e by (simp add: x_def pos_imp_zdiv_nonneg_iff)
  have r4: "e = 365 \<longrightarrow> r mod 4 = 3" using e(2) leap_end_of_century(1) [OF y] by auto
  have xr: "4 * (1461 * r div 4) = 1461 * r - r mod 4"
  proof -
    have "1461 * r = r + 4 * (365 * r)" by simp
    then have "1461 * r mod 4 = r mod 4" by (simp only: mod_mult_self2)
    then show ?thesis using minus_mod_eq_mult_div [of "1461 * r" 4] by simp
  qed
  have x1: "x < 36524 \<or> x = 36524 \<and> c mod 4 = 3"
  proof (cases "r = 99 \<and> e = 365")
    case True
    then show ?thesis using e(2) leap_end_of_century(2) [OF y] by (auto simp: x_def)
  next
    case False
    then have "r \<le> 98 \<and> e \<le> 365 \<or> r = 99 \<and> e \<le> 364" using y(3) e(2) by linarith
    then show ?thesis using xr pos_mod_sign [of 4 r] by (auto simp: x_def)
  qed
  have a: "march_number y m d = 146097 * c div 4 + x"
    unfolding march_number_def years_split [OF y] by (simp add: e_def x_def)
  have nn: "0 \<le> 146097 * c div 4" "0 \<le> 1461 * r div 4" using c0 y by (simp_all add: pos_imp_zdiv_nonneg_iff)
  have b: "(4 * (march_number y m d) + 3) sdiv 146097 = c"
    using century_of [OF x0 x1] x0 nn a by (simp add: sdiv_nonneg)
  have bc: "(c * 146097) sdiv 4 = 146097 * c div 4" using c0 by (simp add: sdiv_nonneg mult.commute)
  have cc: "march_number y m d - (c * 146097) sdiv 4 = x" using a bc by simp
  have dd: "(4 * x + 3) sdiv 1461 = r"
    using year_of_century [OF e(1), of r] e(2) r4 x0 by (auto simp: sdiv_nonneg x_def)
  have ee: "x - (1461 * r) sdiv 4 = e" using y by (simp add: sdiv_nonneg x_def)
  have "(5 * e + 2) div 153 = m" unfolding e_def
    by (rule march_day) (use v in \<open>auto simp: march_valid_def split: if_splits\<close>)
  then have mm: "(5 * e + 2) sdiv 153 = m" using e(1) by (simp add: sdiv_nonneg)
  have "e - (153 * m + 2) sdiv 5 + 1 = d + 1" "m sdiv 10 = m div 10" using m by (simp_all add: sdiv_nonneg e_def)
  then show ?thesis
    unfolding getYearMonthDay_def Let_def diff_add_cancel b cc dd ee mm using y(1) by simp
qed


text \<open>From a date to its March-based form, and back from a day number.\<close>

lemma julian_march:
  assumes "valid_ymd d" and "-4799 \<le> year d"
  obtains y m where "march_valid y m (day d - 1)" "julian d = march_number y m (day d - 1) - 32044"
    "year d = y - 4800 + m div 10" "month d = m + 3 - 12 * (m div 10)"
proof -
  let ?a = "if month d \<le> 2 then 1 else (0 :: int)"
  let ?y = "year d + 4800 - ?a" and ?m = "month d + 12 * ?a - 3"
  have m: "month d \<in> set (map (\<lambda>i. 1 + int i) [0..<Suc 11])"
    using assms by (intro int_range_cases) (simp_all add: valid_ymd_def)
  then have a: "(14 - month d) sdiv 12 = ?a" and q: "?m div 10 = ?a" "0 \<le> ?m" "?m \<le> 11"
    by (auto simp: upt_rec sdiv_nonneg)
  have y0: "0 \<le> ?y" using assms by simp
  have "march_valid ?y ?m (day d - 1)"
    using m assms by (auto simp: upt_rec march_valid_def valid_ymd_def days_in_month_def leap_shift leap_shift_left split: if_splits)
  moreover have "julian d = march_number ?y ?m (day d - 1) - 32044"
    using y0 q(2) unfolding julian_def getJulianDayNumber_def a Let_def march_number_def
    by (simp add: sdiv_nonneg split del: if_split)
  moreover have "year d = ?y - 4800 + ?m div 10" "month d = ?m + 3 - 12 * (?m div 10)" using q(1) by simp_all
  ultimately show thesis using that by blast
qed

lemma getYearMonthDay_julian:
  assumes "valid_ymd d" and "-4799 \<le> year d"
  shows "getYearMonthDay (julian d) = d"
proof -
  obtain y m where "march_valid y m (day d - 1)" "julian d = march_number y m (day d - 1) - 32044"
    "year d = y - 4800 + m div 10" "month d = m + 3 - 12 * (m div 10)"
    using julian_march [OF assms] .
  then show ?thesis using getYearMonthDay_march [of y m "day d - 1"] by (cases d) simp
qed

lemma valid_next: "valid_ymd d \<Longrightarrow> valid_ymd (next_ymd d)"
proof -
  assume "valid_ymd d"
  then have m: "month d \<in> set (map (\<lambda>i. 1 + int i) [0..<Suc 11])"
    by (intro int_range_cases) (simp_all add: valid_ymd_def)
  with \<open>valid_ymd d\<close> show ?thesis
    by (auto simp: upt_rec valid_ymd_def next_ymd_def days_in_month_def)
qed


text \<open>The day number counts days: the next day of the calendar has the next number.\<close>

lemma div_step: "0 < n \<Longrightarrow> (y :: int) div n = (y - 1) div n + (if y mod n = 0 then 1 else 0)"
proof (cases "y mod n = 0")
  case True
  assume n: "0 < n"
  have "y = n * (y div n)" using True mult_div_mod_eq [of n y] by linarith
  then have "y - 1 = n * (y div n - 1) + (n - 1)" by (simp add: algebra_simps)
  from int_div_pos_eq [OF this] have "(y - 1) div n = y div n - 1" using n by simp
  with True show ?thesis by simp
next
  case False
  assume n: "0 < n"
  have "y - 1 = n * (y div n) + (y mod n - 1)" using mult_div_mod_eq [of n y] by linarith
  moreover have "0 \<le> y mod n - 1" "y mod n - 1 < n"
    using False pos_mod_sign [OF n, of y] pos_mod_bound [OF n, of y] by linarith+
  ultimately have "(y - 1) div n = y div n" by (rule int_div_pos_eq)
  with False show ?thesis by simp
qed

lemma leap_step:
  "365 * y + y div 4 - y div 100 + y div 400 =
   365 * (y - 1) + (y - 1) div 4 - (y - 1) div 100 + (y - 1) div 400 + (if leap y then 366 else (365 :: int))"
proof -
  have p: "(q \<longrightarrow> c) \<Longrightarrow> (c \<longrightarrow> f) \<Longrightarrow> (if f \<and> (\<not> c \<or> q) then 366 else (365 :: int)) =
      365 + (if f then 1 else 0) - (if c then 1 else 0) + (if q then 1 else 0)" for f c q by (cases f; cases c; cases q) simp_all
  have "100 dvd y" if "400 dvd y" by (rule dvd_trans [OF _ that]) simp
  moreover have "4 dvd y" if "100 dvd y" by (rule dvd_trans [OF _ that]) simp
  ultimately have "y mod 400 = 0 \<longrightarrow> y mod 100 = 0" "y mod 100 = 0 \<longrightarrow> y mod 4 = 0"
    unfolding dvd_eq_mod_eq_0 by blast+
  then have "(if leap y then 366 else (365 :: int)) =
      365 + (if y mod 4 = 0 then 1 else 0) - (if y mod 100 = 0 then 1 else 0) + (if y mod 400 = 0 then 1 else 0)"
    unfolding leap_def by (rule p)
  moreover have sums: "d4 = e4 + i4 \<Longrightarrow> dc = ec + ic \<Longrightarrow> dq = eq + iq \<Longrightarrow> len = 365 + i4 - ic + iq \<Longrightarrow>
      365 * y + d4 - dc + dq = 365 * (y - 1) + e4 - ec + eq + len" for d4 e4 i4 dc ec ic dq eq iq len :: int
    by simp
  ultimately show ?thesis by (intro sums [OF div_step [of 4 y] div_step [of 100 y] div_step [of 400 y]]) simp_all
qed


lemma julian_Suc_day: "julian (d\<lparr>day := day d + 1\<rparr>) = julian d + 1"
  by (simp add: julian_def getJulianDayNumber_def Let_def)

definition year_days :: "int \<Rightarrow> int" where
  "year_days y = y * 365 + y sdiv 4 - y sdiv 100 + y sdiv 400 - 32045"

lemma julian_form:
  "3 \<le> mon \<Longrightarrow> mon \<le> 12 \<Longrightarrow> getJulianDayNumber yr mon dy = dy + (153 * mon - 457) div 5 + year_days (yr + 4800)"
  "1 \<le> mon \<Longrightarrow> mon \<le> 2 \<Longrightarrow> getJulianDayNumber yr mon dy = dy + (153 * mon + 1379) div 5 + year_days (yr + 4799)"
proof -
  have "(14 - mon) sdiv 12 = 0" if "3 \<le> mon" "mon \<le> 12" using that by (simp add: sdiv_nonneg)
  then show "3 \<le> mon \<Longrightarrow> mon \<le> 12 \<Longrightarrow> getJulianDayNumber yr mon dy = dy + (153 * mon - 457) div 5 + year_days (yr + 4800)"
    by (simp add: getJulianDayNumber_def year_days_def Let_def sdiv_nonneg)
  have "(14 - mon) sdiv 12 = 1" if "1 \<le> mon" "mon \<le> 2" using that by (simp add: sdiv_nonneg)
  then show "1 \<le> mon \<Longrightarrow> mon \<le> 2 \<Longrightarrow> getJulianDayNumber yr mon dy = dy + (153 * mon + 1379) div 5 + year_days (yr + 4799)"
    by (simp add: getJulianDayNumber_def year_days_def Let_def sdiv_nonneg add.commute)
qed

lemma julian_next:
  assumes v: "valid_ymd d" and y: "-4799 \<le> year d"
  shows "julian (next_ymd d) = julian d + 1"
proof (cases "day d < days_in_month (year d) (month d)")
  case True
  then show ?thesis by (simp add: next_ymd_def julian_Suc_day)
next
  case False
  then have dd: "day d = days_in_month (year d) (month d)" using v by (simp add: valid_ymd_def)
  have m: "month d \<in> set (map (\<lambda>i. 1 + int i) [0..<Suc 11])"
    using v by (intro int_range_cases) (simp_all add: valid_ymd_def)
  show ?thesis
  proof (cases "month d = 2")
    case feb: True
    let ?y = "year d + 4800"
    have nx: "julian (next_ymd d) = (365 * ?y + ?y div 4 - ?y div 100 + ?y div 400) - 32044"
      using feb False y by (simp add: next_ymd_def julian_def getJulianDayNumber_def sdiv_nonneg Let_def)
    have jd: "julian d = day d + 337 + (365 * (?y - 1) + (?y - 1) div 4 - (?y - 1) div 100 + (?y - 1) div 400) - 32045"
      using feb y by (simp add: julian_def getJulianDayNumber_def sdiv_nonneg Let_def)
    have "(if leap ?y then 366 else 365) = day d + 337" using dd feb by (simp add: days_in_month_def leap_shift)
    moreover have "nx = A - 32044 \<Longrightarrow> A = B + len \<Longrightarrow> len = dy + 337 \<Longrightarrow> jd = dy + 337 + B - 32045 \<Longrightarrow> nx = jd + 1"
      for nx jd A B len dy :: int by simp
    ultimately show ?thesis using nx jd leap_step [of ?y] by blast
  next
    case False
    with m \<open>\<not> day d < _\<close> dd y show ?thesis
      by (auto simp: upt_rec next_ymd_def julian_def julian_form days_in_month_def add.commute [of 4800])
  qed
qed

lemma next_year_mono: "year d \<le> year (next_ymd d)"
  by (simp add: next_ymd_def)

text \<open>Every day number from the first of January of the year -4799 on is the number of a date.\<close>

lemma day_number_of_date:
  "\<exists>d. valid_ymd d \<and> -4799 \<le> year d \<and> julian d = - 31738 + int k"
proof (induction k)
  case 0
  show ?case
    by (rule exI [of _ "\<lparr>year = -4799, month = 1, day = 1\<rparr>"])
      (simp add: valid_ymd_def days_in_month_def julian_def getJulianDayNumber_def sdiv_nonneg Let_def)
next
  case (Suc k)
  then obtain d where "valid_ymd d" "-4799 \<le> year d" "julian d = - 31738 + int k" by blast
  then show ?case
    using valid_next julian_next next_year_mono [of d] by (intro exI [of _ "next_ymd d"]) auto
qed

lemma julian_getYearMonthDay:
  assumes "- 31738 \<le> n"
  shows "julian (getYearMonthDay n) = n" and "valid_ymd (getYearMonthDay n)" and "-4799 \<le> year (getYearMonthDay n)"
proof -
  obtain d where "valid_ymd d" "-4799 \<le> year d" "julian d = n"
    using day_number_of_date [of "nat (n + 31738)"] assms by auto
  then show "julian (getYearMonthDay n) = n" "valid_ymd (getYearMonthDay n)" "-4799 \<le> year (getYearMonthDay n)"
    using getYearMonthDay_julian by auto
qed

text \<open>No 32-bit overflow: up to day 500 million every product of the backward formula stays in range.\<close>

lemma julian_no_overflow:
  assumes "- 31738 \<le> n" and "n \<le> 500000000"
  shows "fits_int (4 * (n + 32044) + 3)" and "fits_int ((4 * (n + 32044) + 3) div 146097 * 146097)"
proof -
  let ?k = "4 * (n + 32044) + 3"
  show "fits_int ?k" using assms by (simp add: fits_int_def int_min_def int_max_def)
  have "0 \<le> ?k div 146097 * 146097" using assms by (simp add: pos_imp_zdiv_nonneg_iff)
  moreover have "?k div 146097 * 146097 \<le> ?k" using minus_mod_eq_div_mult [of ?k 146097] pos_mod_sign [of 146097 ?k] by simp
  ultimately show "fits_int (?k div 146097 * 146097)"
    using assms by (simp add: fits_int_def int_min_def int_max_def)
qed

lemma julian_1970 [simp]: "kJulianDayOf1970_01_01 = 2440588"
  by (simp add: kJulianDayOf1970_01_01_def getJulianDayNumber_def sdiv_nonneg Let_def)

text \<open>The day number is the calendar. The number of a date and the date of a number are inverse to each
  other, and stepping to the next day of the Gregorian calendar, across month ends, leap days and century
  rules, adds one to the number.\<close>

theorem julian_day_is_calendar:
  assumes "valid_ymd d" and "-4799 \<le> year d" and "- 31738 \<le> n"
  shows "getYearMonthDay (julian d) = d \<and> julian (next_ymd d) = julian d + 1 \<and>
    julian (getYearMonthDay n) = n \<and> valid_ymd (getYearMonthDay n)"
  using assms julian_next getYearMonthDay_julian julian_getYearMonthDay by auto

theorem julian_day_is_calendar_witness:
  "getYearMonthDay (julian \<lparr>year = 2000, month = 2, day = 29\<rparr>) = \<lparr>year = 2000, month = 2, day = 29\<rparr>"
  using julian_day_is_calendar [of "\<lparr>year = 2000, month = 2, day = 29\<rparr>" 0]
  by (simp add: valid_ymd_def days_in_month_def leap_def)

end
