(* ===== verification/LogStream.thy ===== *)
theory LogStream
  imports Date
begin

section \<open>Formatting log messages (\<open>base/LogStream.cc\<close>, \<open>base/LogStream.h\<close>)\<close>

text \<open>
  A \<open>FixedBuffer\<close> is the bytes before its cursor and its capacity. The integer conversion works on the
  digits of the possibly negative number with truncating division and a table that is symmetric around
  zero, so that the most negative number needs no negation; it is proved equal to plain decimal notation.
  A floating point number is given by the text the C library makes of it.
\<close>

record fixedbuf =
  fb_size :: nat
  fb_content :: bytes

definition kSmallBuffer :: nat where "kSmallBuffer = 4000"
definition kLargeBuffer :: nat where "kLargeBuffer = 4000 * 1000"
definition kMaxNumericSize :: nat where "kMaxNumericSize = 32"

definition FixedBuffer_new :: "nat \<Rightarrow> fixedbuf" where
  "FixedBuffer_new n = \<lparr>fb_size = n, fb_content = []\<rparr>"

definition fb_length :: "fixedbuf \<Rightarrow> nat" where "fb_length b = length (fb_content b)"

definition fb_avail :: "fixedbuf \<Rightarrow> nat" where "fb_avail b = fb_size b - length (fb_content b)"

definition fb_append :: "bytes \<Rightarrow> fixedbuf \<Rightarrow> fixedbuf" where
  "fb_append buf b = (if length buf < fb_avail b then b\<lparr>fb_content := fb_content b @ buf\<rparr> else b)"

definition fb_reset :: "fixedbuf \<Rightarrow> fixedbuf" where "fb_reset b = b\<lparr>fb_content := []\<rparr>"

text \<open>Writing at the cursor and moving it: the text and its terminating NUL must fit.\<close>

definition fb_write :: "bytes \<Rightarrow> fixedbuf \<Rightarrow> fixedbuf res" where
  "fb_write s b = (if length s + 1 \<le> fb_avail b then Inr (b\<lparr>fb_content := fb_content b @ s\<rparr>) else Inl UndefinedBehaviour)"


subsection \<open>Integers\<close>

definition digits :: string where "digits = ''9876543210123456789''"

definition digitsHex :: string where "digitsHex = ''0123456789ABCDEF''"

function convert_loop :: "int \<Rightarrow> string" where
  "convert_loop i =
     (let lsd = i smod 10; i' = i sdiv 10; c = digits ! nat (9 + lsd)
      in if i' \<noteq> 0 then c # convert_loop i' else [c])"
  by pat_completeness auto

lemma sdiv10_less: "(i :: int) sdiv 10 \<noteq> 0 \<Longrightarrow> nat \<bar>i sdiv 10\<bar> < nat \<bar>i\<bar>"
  by (simp add: signed_divide_int_def abs_mult split: if_splits) (auto simp: sgn_if)

termination convert_loop
  by (relation "measure (\<lambda>i. nat \<bar>i\<bar>)") (simp, use sdiv10_less in fastforce)

declare convert_loop.simps [simp del]

definition convert :: "int \<Rightarrow> string" where
  "convert v = rev (convert_loop v @ (if v < 0 then ''-'' else []))"

fun convertHex_loop :: "nat \<Rightarrow> string" where
  "convertHex_loop i =
     (let lsd = i mod 16; i' = i div 16; c = digitsHex ! lsd
      in if i' \<noteq> 0 then c # convertHex_loop i' else [c])"

declare convertHex_loop.simps [simp del]

definition convertHex :: "nat \<Rightarrow> string" where
  "convertHex v = rev (convertHex_loop v)"

lemma digits_nth: "d < 10 \<Longrightarrow> digits ! (9 + d) = digit_char d" "d < 10 \<Longrightarrow> digits ! (9 - d) = digit_char d"
proof -
  assume "d < 10"
  then have "d = 0 \<or> d = 1 \<or> d = 2 \<or> d = 3 \<or> d = 4 \<or> d = 5 \<or> d = 6 \<or> d = 7 \<or> d = 8 \<or> d = 9" by presburger
  then show "digits ! (9 + d) = digit_char d" "digits ! (9 - d) = digit_char d"
    by (elim disjE; simp add: digits_def digit_chars)+
qed

lemma convert_loop_show: "rev (convert_loop i) = show_nat (nat \<bar>i\<bar>)"
proof (induction i rule: convert_loop.induct)
  case (1 i)
  define n where "n = nat \<bar>i\<bar>"
  have dv: "nat \<bar>i sdiv 10\<bar> = n div 10" and md: "nat \<bar>i smod 10\<bar> = n mod 10"
    by (cases "i = 0"; simp add: n_def signed_divide_int_def signed_modulo_int_def abs_mult nat_div_distrib nat_mod_distrib)+
  have "0 \<le> i smod 10 \<or> i smod 10 < 0" by linarith
  then have "digits ! nat (9 + i smod 10) = digit_char (n mod 10)"
  proof
    assume "0 \<le> i smod 10"
    then have "nat (9 + i smod 10) = 9 + n mod 10" using md by linarith
    then show ?thesis using digits_nth(1) [of "n mod 10"] by simp
  next
    assume "i smod 10 < 0"
    then have "nat (9 + i smod 10) = 9 - n mod 10" using md by linarith
    then show ?thesis using digits_nth(2) [of "n mod 10"] by simp
  qed
  moreover have "i sdiv 10 = 0 \<longleftrightarrow> nat \<bar>i sdiv 10\<bar> = 0" by simp
  then have "i sdiv 10 = 0 \<longleftrightarrow> n < 10" unfolding dv by (simp add: div_eq_0_iff)
  ultimately show ?case
    using 1 dv by (simp add: convert_loop.simps [of i] show_nat.simps [of n] Let_def flip: n_def)
qed

lemma convert_show_int: "convert v = show_int v"
  using convert_loop_show [of v] by (simp add: convert_def show_int_def)


text \<open>The longest 64-bit number has twenty characters.\<close>

lemma length_convert:
  assumes "- (2 ^ 63) \<le> v" and "v < 2 ^ 64"
  shows "length (convert v) \<le> 20"
proof (cases "v < 0")
  case True
  have "nat (- v) < 10 ^ 19" using assms(1) by simp
  then have "length (show_nat (nat (- v))) \<le> 19" by (rule length_show_nat) simp
  with True show ?thesis by (simp add: convert_show_int show_int_def)
next
  case False
  have "nat v < 10 ^ 20" using assms(2) by simp
  then have "length (show_nat (nat v)) \<le> 20" by (rule length_show_nat) simp
  with False show ?thesis by (simp add: convert_show_int show_int_def)
qed

lemma length_convertHex_loop: "v < 16 ^ k \<Longrightarrow> 0 < k \<Longrightarrow> length (convertHex_loop v) \<le> k"
proof (induction v arbitrary: k rule: convertHex_loop.induct)
  case (1 v)
  show ?case
  proof (cases "v div 16 = 0")
    case True
    with 1 show ?thesis by (simp add: convertHex_loop.simps [of v])
  next
    case False
    then have "1 < k" using 1 by (cases "k = 1") auto
    then obtain j where j: "k = Suc j" "0 < j" by (cases k) auto
    with 1 have "v div 16 < 16 ^ j" by (simp add: less_mult_imp_div_less mult.commute)
    with 1 False j have "length (convertHex_loop (v div 16)) \<le> j" by simp
    with False j show ?thesis by (simp add: convertHex_loop.simps [of v] Let_def)
  qed
qed

text \<open>Hexadecimal text denotes the number.\<close>

definition hex_digit_val :: "char \<Rightarrow> nat" where "hex_digit_val c = find_idx ((=) c) digitsHex"

definition hex_val :: "string \<Rightarrow> nat" where "hex_val s = foldl (\<lambda>a c. 16 * a + hex_digit_val c) 0 s"

lemma hex_digit_val_nth: "d < 16 \<Longrightarrow> hex_digit_val (digitsHex ! d) = d"
proof -
  assume "d < 16"
  then have "d \<in> set [0..<16]" by simp
  then show ?thesis by (auto simp: upt_rec hex_digit_val_def digitsHex_def)
qed

lemma hex_val_convertHex: "hex_val (convertHex v) = v"
proof (induction v rule: convertHex_loop.induct)
  case (1 v)
  then show ?case
    by (cases "v div 16 = 0") (simp_all add: convertHex_def hex_val_def convertHex_loop.simps [of v] Let_def hex_digit_val_nth)
qed


subsection \<open>The stream\<close>

definition formatInteger :: "int \<Rightarrow> fixedbuf \<Rightarrow> fixedbuf res" where
  "formatInteger v b = (if kMaxNumericSize \<le> fb_avail b then fb_write (convert v) b else Inr b)"

definition out_ptr :: "nat \<Rightarrow> fixedbuf \<Rightarrow> fixedbuf res" where
  "out_ptr p b = (if kMaxNumericSize \<le> fb_avail b then fb_write (''0x'' @ convertHex p) b else Inr b)"

text \<open>A floating point number is given by its text in the format \<open>%.12g\<close>. \<open>snprintf\<close> would cut a text that does not
  fit the numeric field and still return its full length.\<close>

definition out_double :: "string \<Rightarrow> fixedbuf \<Rightarrow> fixedbuf res" where
  "out_double text b =
     (if kMaxNumericSize \<le> fb_avail b
      then if length text < kMaxNumericSize then fb_write text b else Inl UndefinedBehaviour
      else Inr b)"

text \<open>\<open>Fmt\<close> formats one number into 32 characters.\<close>

definition Fmt_new :: "string \<Rightarrow> string res" where "Fmt_new text = cassert (length text < 32) (Inr text)"

text \<open>The arguments of \<open>operator<<\<close>; short integers are widened first.\<close>

datatype log_arg = ABool bool | AInteger int | APointer nat | AChar char | ACString "string option" | AString string
  | AFmt string | ADouble string

fun log_out :: "log_arg \<Rightarrow> fixedbuf \<Rightarrow> fixedbuf res" where
  "log_out (ABool v) b = Inr (fb_append (if v then ''1'' else ''0'') b)"
| "log_out (AInteger v) b = formatInteger v b"
| "log_out (APointer p) b = out_ptr p b"
| "log_out (AChar v) b = Inr (fb_append [v] b)"
| "log_out (ACString s) b = Inr (fb_append (case s of Some s \<Rightarrow> s | None \<Rightarrow> ''(null)'') b)"
| "log_out (AString v) b = Inr (fb_append v b)"
| "log_out (AFmt s) b = rbind (Fmt_new s) (\<lambda>s. Inr (fb_append s b))"
| "log_out (ADouble s) b = out_double s b"

fun log_outs :: "log_arg list \<Rightarrow> fixedbuf \<Rightarrow> fixedbuf res" where
  "log_outs [] b = Inr b"
| "log_outs (a # as) b = rbind (log_out a b) (log_outs as)"

text \<open>The text of an argument, and the values its C++ type admits.\<close>

fun arg_text :: "log_arg \<Rightarrow> string" where
  "arg_text (ABool v) = (if v then ''1'' else ''0'')"
| "arg_text (AInteger v) = show_int v"
| "arg_text (APointer p) = ''0x'' @ convertHex p"
| "arg_text (AChar v) = [v]"
| "arg_text (ACString s) = (case s of Some s \<Rightarrow> s | None \<Rightarrow> ''(null)'')"
| "arg_text (AString v) = v"
| "arg_text (AFmt s) = s"
| "arg_text (ADouble s) = s"

fun arg_ok :: "log_arg \<Rightarrow> bool" where
  "arg_ok (AInteger v) \<longleftrightarrow> - (2 ^ 63) \<le> v \<and> v < 2 ^ 64"
| "arg_ok (APointer p) \<longleftrightarrow> p < 2 ^ 64"
| "arg_ok (AFmt s) \<longleftrightarrow> length s < 32"
| "arg_ok (ADouble s) \<longleftrightarrow> length s < 32"
| "arg_ok _ \<longleftrightarrow> True"

definition fb_inv :: "fixedbuf \<Rightarrow> bool" where "fb_inv b \<longleftrightarrow> length (fb_content b) \<le> fb_size b"

lemma length_ptr: "p < 2 ^ 64 \<Longrightarrow> length (''0x'' @ convertHex p) \<le> 18"
  using length_convertHex_loop [of p 16] by (simp add: convertHex_def)

lemma log_out_ok:
  assumes "fb_inv b" and "arg_ok a"
  shows "\<exists>b'. log_out a b = Inr b' \<and> fb_inv b' \<and> fb_size b' = fb_size b \<and>
    (fb_content b' = fb_content b @ arg_text a \<or> fb_content b' = fb_content b) \<and>
    (length (arg_text a) + 32 \<le> fb_avail b \<longrightarrow> fb_content b' = fb_content b @ arg_text a)"
proof (cases a)
  case (AInteger v)
  with assms length_convert [of v] show ?thesis
    by (auto simp: formatInteger_def fb_write_def fb_avail_def fb_inv_def kMaxNumericSize_def convert_show_int)
next
  case (APointer p)
  with assms length_ptr [of p] show ?thesis
    by (auto simp: out_ptr_def fb_write_def fb_avail_def fb_inv_def kMaxNumericSize_def)
next
  case (ADouble t)
  with assms show ?thesis
    by (auto simp: out_double_def fb_write_def fb_avail_def fb_inv_def kMaxNumericSize_def)
qed (use assms in \<open>auto simp: Fmt_new_def fb_append_def fb_avail_def fb_inv_def split: option.splits\<close>)

lemma log_outs_ok:
  assumes "fb_inv b" and "\<forall>a \<in> set as. arg_ok a"
  shows "\<exists>b'. log_outs as b = Inr b' \<and> fb_inv b' \<and> fb_size b' = fb_size b \<and>
    (length (concat (map arg_text as)) + 32 \<le> fb_avail b \<longrightarrow> fb_content b' = fb_content b @ concat (map arg_text as))"
  using assms
proof (induction as arbitrary: b)
  case (Cons a as)
  then obtain b1 where b1: "log_out a b = Inr b1" "fb_inv b1" "fb_size b1 = fb_size b"
      "length (arg_text a) + 32 \<le> fb_avail b \<longrightarrow> fb_content b1 = fb_content b @ arg_text a"
    using log_out_ok [of b a] by auto
  obtain b2 where "log_outs as b1 = Inr b2" "fb_inv b2" "fb_size b2 = fb_size b1"
      "length (concat (map arg_text as)) + 32 \<le> fb_avail b1 \<longrightarrow> fb_content b2 = fb_content b1 @ concat (map arg_text as)"
    using Cons.IH [OF b1(2)] Cons.prems(2) by auto
  with b1 show ?case by (auto simp: fb_avail_def)
qed simp

lemma log_outs_append: "log_outs (as @ bs) b = rbind (log_outs as b) (log_outs bs)"
  by (induction as arbitrary: b) (auto simp: rbind_def split: sum.splits)

text \<open>C38: Formatting never overruns. For any sequence of arguments no write leaves the buffer and no
  assertion fails, and while the texts leave a numeric field of 32 bytes free
  the buffer holds exactly their concatenation: integers of every type in plain decimal, the smallest
  64-bit number included.\<close>

theorem log_stream_exact:
  assumes "fb_inv b" and "\<forall>a \<in> set as. arg_ok a"
  shows "\<exists>b'. log_outs as b = Inr b' \<and> length (fb_content b') \<le> fb_size b \<and>
    (length (concat (map arg_text as)) + 32 \<le> fb_avail b \<longrightarrow> fb_content b' = fb_content b @ concat (map arg_text as))"
  using log_outs_ok [OF assms] by (auto simp: fb_inv_def)

theorem log_stream_exact_witness:
  "\<exists>b'. log_outs [ACString (Some ''x=''), AInteger (- 9223372036854775808), AChar (CHR 0x0A)] (FixedBuffer_new kSmallBuffer) = Inr b' \<and>
     length (fb_content b') \<le> kSmallBuffer"
proof -
  have "fb_inv (FixedBuffer_new kSmallBuffer)"
    "\<forall>a \<in> set [ACString (Some ''x=''), AInteger (- 9223372036854775808), AChar (CHR 0x0A)]. arg_ok a"
    by (simp_all add: fb_inv_def FixedBuffer_new_def)
  from log_stream_exact [OF this] show ?thesis by (auto simp: FixedBuffer_new_def)
qed

end
