(* ===== verification/AsyncLogging.thy ===== *)
theory AsyncLogging
  imports LogStream
begin

section \<open>The logging thread (\<open>base/AsyncLogging.cc\<close>)\<close>

text \<open>
  Any number of threads append lines under the mutex; the logging thread swaps the full buffers and the
  current one out under the mutex and writes them without it. A step is one such critical section, or the
  writing in between. \<open>logged\<close> records the lines handed in and \<open>written\<close> what reached the file;
  \<open>discarded\<close> tells whether the thread has given up buffers because more than 25 had piled up.
\<close>

datatype async_phase = AtTop | Writing | Exited

record async =
  running :: bool
  currentBuffer :: fixedbuf
  nextBuffer :: "fixedbuf option"
  full :: "fixedbuf list"
  newBuffer1 :: "fixedbuf option"
  newBuffer2 :: "fixedbuf option"
  buffersToWrite :: "fixedbuf list"
  phase :: async_phase
  logged :: "bytes list"
  written :: bytes
  discarded :: bool

definition Async_new :: async where
  "Async_new = (let b = FixedBuffer_new kLargeBuffer in
     \<lparr>running = True, currentBuffer = b, nextBuffer = Some b, full = [], newBuffer1 = Some b, newBuffer2 = Some b,
      buffersToWrite = [], phase = AtTop, logged = [], written = [], discarded = False\<rparr>)"

definition async_append :: "bytes \<Rightarrow> async \<Rightarrow> async" where
  "async_append logline s =
     (let s = s\<lparr>logged := logged s @ [logline]\<rparr> in
      if length logline < fb_avail (currentBuffer s)
      then s\<lparr>currentBuffer := fb_append logline (currentBuffer s)\<rparr>
      else
        let s = s\<lparr>full := full s @ [currentBuffer s]\<rparr>;
            s = (case nextBuffer s of
                   Some b \<Rightarrow> s\<lparr>currentBuffer := b, nextBuffer := None\<rparr>
                 | None \<Rightarrow> s\<lparr>currentBuffer := FixedBuffer_new kLargeBuffer\<rparr>)
        in s\<lparr>currentBuffer := fb_append logline (currentBuffer s)\<rparr>)"

definition is_fresh :: "fixedbuf option \<Rightarrow> bool" where
  "is_fresh b = (case b of Some b \<Rightarrow> fb_content b = [] | None \<Rightarrow> False)"

text \<open>The head of the loop and the critical section that takes the buffers.\<close>

definition async_swap :: "async \<Rightarrow> async res" where
  "async_swap s =
     cassert (is_fresh (newBuffer1 s)) (cassert (is_fresh (newBuffer2 s)) (cassert (buffersToWrite s = [])
     (let s = s\<lparr>full := full s @ [currentBuffer s]\<rparr>;
          s = s\<lparr>currentBuffer := the (newBuffer1 s), newBuffer1 := None\<rparr>;
          s = s\<lparr>buffersToWrite := full s, full := []\<rparr>;
          s = (if nextBuffer s = None then s\<lparr>nextBuffer := newBuffer2 s, newBuffer2 := None\<rparr> else s)
      in cassert (buffersToWrite s \<noteq> []) (Inr (s\<lparr>phase := Writing\<rparr>)))))"

definition dropNote :: "string \<Rightarrow> nat \<Rightarrow> bytes" where
  "dropNote now n = snprintf 256 (''Dropped log messages at '' @ now @ '', '' @ show_nat n @ '' larger buffers'' @ [CHR 0x0A])"

text \<open>Taking a written buffer back for reuse.\<close>

definition refill :: "fixedbuf option \<Rightarrow> fixedbuf list \<Rightarrow> (fixedbuf option \<times> fixedbuf list) res" where
  "refill nb bs = (if nb = None then cassert (bs \<noteq> []) (Inr (Some (fb_reset (last bs)), butlast bs)) else Inr (nb, bs))"

definition async_write :: "string \<Rightarrow> async \<Rightarrow> async res" where
  "async_write now s =
     (let bs = buffersToWrite s;
          s = (if 25 < length bs
               then s\<lparr>written := written s @ dropNote now (length bs - 2), buffersToWrite := take 2 bs, discarded := True\<rparr> else s);
          s = s\<lparr>written := written s @ concat (map fb_content (buffersToWrite s))\<rparr>;
          bs = (if 2 < length (buffersToWrite s) then take 2 (buffersToWrite s) else buffersToWrite s)
      in rbind (refill (newBuffer1 s) bs) (\<lambda>(nb1, bs). rbind (refill (newBuffer2 s) bs) (\<lambda>(nb2, bs).
         Inr (s\<lparr>newBuffer1 := nb1, newBuffer2 := nb2, buffersToWrite := [], phase := AtTop\<rparr>))))"

text \<open>The interleavings. A line is shorter than a buffer. \<open>Stuck\<close> is a failed assertion.\<close>

inductive async_step :: "async \<Rightarrow> async res \<Rightarrow> bool" where
  Append: "length line < kLargeBuffer \<Longrightarrow> async_step s (Inr (async_append line s))"
| Stop: "async_step s (Inr (s\<lparr>running := False\<rparr>))"
| Swap: "phase s = AtTop \<Longrightarrow> running s \<Longrightarrow> async_step s (async_swap s)"
| Write: "phase s = Writing \<Longrightarrow> async_step s (async_write now s)"
| Exit: "phase s = AtTop \<Longrightarrow> \<not> running s \<Longrightarrow> async_step s (Inr (s\<lparr>phase := Exited\<rparr>))"

inductive async_reach :: "async res \<Rightarrow> bool" where
  Start: "async_reach (Inr Async_new)"
| Step: "async_reach (Inr s) \<Longrightarrow> async_step s r \<Longrightarrow> async_reach r"



subsection \<open>Invariant\<close>

definition opt_fresh :: "fixedbuf option \<Rightarrow> bool" where
  "opt_fresh b = (case b of Some b \<Rightarrow> fb_size b = kLargeBuffer \<and> fb_content b = [] | None \<Rightarrow> True)"

definition in_memory :: "async \<Rightarrow> bytes" where
  "in_memory s = concat (map fb_content (buffersToWrite s)) @ concat (map fb_content (full s)) @ fb_content (currentBuffer s)"

definition async_inv :: "async \<Rightarrow> bool" where
  "async_inv s \<longleftrightarrow>
     fb_size (currentBuffer s) = kLargeBuffer \<and> opt_fresh (nextBuffer s) \<and> opt_fresh (newBuffer1 s) \<and> opt_fresh (newBuffer2 s) \<and>
     (\<forall>b \<in> set (buffersToWrite s) \<union> set (full s). fb_size b = kLargeBuffer) \<and>
     (nextBuffer s = None \<longrightarrow> full s \<noteq> []) \<and>
     (if phase s = Writing
      then buffersToWrite s \<noteq> [] \<and> newBuffer1 s = None \<and> (newBuffer2 s = None \<longrightarrow> 2 \<le> length (buffersToWrite s))
      else buffersToWrite s = [] \<and> newBuffer1 s \<noteq> None \<and> newBuffer2 s \<noteq> None) \<and>
     (\<not> discarded s \<longrightarrow> concat (logged s) = written s @ in_memory s)"


lemma async_append_inv:
  assumes "async_inv s" and "length line < kLargeBuffer"
  shows "async_inv (async_append line s)"
proof (cases "length line < fb_avail (currentBuffer s)")
  case True
  with assms(1) show ?thesis
    by (simp add: async_append_def async_inv_def fb_append_def in_memory_def Let_def fb_avail_def)
next
  case False
  have fresh: "fb_append line b = b\<lparr>fb_content := line\<rparr>" if "fb_size b = kLargeBuffer" "fb_content b = []" for b
    using that assms(2) by (simp add: fb_append_def fb_avail_def)
  show ?thesis
  proof (cases "nextBuffer s")
    case None
    with False assms(1) show ?thesis
      by (auto simp: async_append_def async_inv_def in_memory_def fresh FixedBuffer_new_def opt_fresh_def Let_def)
  next
    case (Some b)
    then have "fb_size b = kLargeBuffer" "fb_content b = []" using assms(1) by (auto simp: async_inv_def opt_fresh_def)
    with Some False assms(1) show ?thesis
      by (auto simp: async_append_def async_inv_def in_memory_def fresh opt_fresh_def Let_def)
  qed
qed

lemma async_swap_inv:
  assumes inv: "async_inv s" and ph: "phase s = AtTop"
  shows "\<exists>s'. async_swap s = Inr s' \<and> async_inv s'"
proof -
  obtain b1 b2 where b: "newBuffer1 s = Some b1" "newBuffer2 s = Some b2" "buffersToWrite s = []"
    using inv ph by (auto simp: async_inv_def)
  then have "fb_content b1 = []" "fb_content b2 = []" "fb_size b1 = kLargeBuffer" "fb_size b2 = kLargeBuffer"
    using inv by (auto simp: async_inv_def opt_fresh_def)
  with b inv ph show ?thesis
    by (auto simp: async_swap_def is_fresh_def async_inv_def in_memory_def opt_fresh_def Let_def Suc_le_eq)
qed

lemma refill_ok:
  assumes "opt_fresh nb" and "\<forall>b \<in> set bs. fb_size b = kLargeBuffer" and "nb = None \<longrightarrow> bs \<noteq> []"
  shows "\<exists>nb' bs'. refill nb bs = Inr (nb', bs') \<and> nb' \<noteq> None \<and> opt_fresh nb' \<and> (\<forall>b \<in> set bs'. fb_size b = kLargeBuffer) \<and>
    length bs \<le> length bs' + 1"
proof (cases nb)
  case None
  with assms obtain xs x where "bs = xs @ [x]" by (cases bs rule: rev_cases) auto
  with None assms show ?thesis by (simp add: refill_def opt_fresh_def fb_reset_def)
next
  case (Some b)
  with assms show ?thesis by (simp add: refill_def)
qed

lemma async_write_inv:
  assumes inv: "async_inv s" and ph: "phase s = Writing"
  shows "\<exists>s'. async_write now s = Inr s' \<and> async_inv s'"
proof -
  define bs where "bs = buffersToWrite s"
  define cs where "cs = (if 25 < length bs then take 2 bs else bs)"
  define ds where "ds = (if 2 < length cs then take 2 cs else cs)"
  have bs: "bs \<noteq> []" "newBuffer2 s = None \<longrightarrow> 2 \<le> length bs" "newBuffer1 s = None" "\<forall>b \<in> set bs. fb_size b = kLargeBuffer"
    using inv ph by (simp_all add: async_inv_def bs_def)
  then have ds: "ds \<noteq> []" "newBuffer2 s = None \<longrightarrow> 2 \<le> length ds" "\<forall>b \<in> set ds. fb_size b = kLargeBuffer"
    by (auto simp: ds_def cs_def dest: in_set_takeD)
  have f: "opt_fresh (newBuffer1 s)" "opt_fresh (newBuffer2 s)" using inv by (simp_all add: async_inv_def)
  obtain nb1 es where r1: "refill (newBuffer1 s) ds = Inr (nb1, es)" "nb1 \<noteq> None" "opt_fresh nb1"
      "\<forall>b \<in> set es. fb_size b = kLargeBuffer" "length ds \<le> length es + 1"
    using refill_ok [OF f(1) ds(3)] ds(1) by blast
  then have ne: "newBuffer2 s = None \<longrightarrow> es \<noteq> []" using ds(2) by (cases es) auto
  obtain nb2 fs where r2: "refill (newBuffer2 s) es = Inr (nb2, fs)" "nb2 \<noteq> None" "opt_fresh nb2"
    using refill_ok [OF f(2) r1(4) ne] by auto
  let ?w = "written s @ (if 25 < length bs then dropNote now (length bs - 2) else []) @ concat (map fb_content cs)"
  let ?s = "s\<lparr>written := ?w, discarded := (25 < length bs \<or> discarded s),
      newBuffer1 := nb1, newBuffer2 := nb2, buffersToWrite := [], phase := AtTop\<rparr>"
  have "async_write now s = Inr ?s"
    using r1(1) r2(1) by (auto simp: async_write_def Let_def bs_def cs_def ds_def split del: if_split split: if_splits)
  moreover have "async_inv ?s"
    using inv ph r1 r2 by (auto simp: async_inv_def in_memory_def bs_def cs_def)
  ultimately show ?thesis by blast
qed

lemma async_step_inv:
  assumes "async_inv s" and "async_step s r"
  shows "\<exists>s'. r = Inr s' \<and> async_inv s'"
  using assms(2)
proof (cases rule: async_step.cases)
  case (Append line)
  then show ?thesis using async_append_inv assms(1) by blast
next
  case Stop
  then show ?thesis using assms(1) by (auto simp: async_inv_def in_memory_def)
next
  case Swap
  then show ?thesis using async_swap_inv assms(1) by auto
next
  case (Write now)
  then show ?thesis using async_write_inv assms(1) by auto
next
  case Exit
  then show ?thesis using assms(1) by (auto simp: async_inv_def in_memory_def)
qed

lemma async_reach_inv: "async_reach r \<Longrightarrow> \<exists>s. r = Inr s \<and> async_inv s"
proof (induction rule: async_reach.induct)
  case Start
  then show ?case
    by (simp add: Async_new_def async_inv_def in_memory_def FixedBuffer_new_def opt_fresh_def Let_def)
next
  case (Step s r)
  then show ?case using async_step_inv by blast
qed

text \<open>The logging thread keeps every line. In every interleaving of logging threads with the writer no
  assertion of the loop fails, the writer always gets its two spare buffers back, and as long as no more than
  25 buffers pile up, what was written followed by what is in memory is exactly the lines in the order they
  were handed in.\<close>

theorem async_keeps_lines:
  assumes "async_reach r"
  shows "\<exists>s. r = Inr s \<and> (\<not> discarded s \<longrightarrow> concat (logged s) = written s @ in_memory s) \<and>
    (phase s = AtTop \<longrightarrow> is_fresh (newBuffer1 s) \<and> is_fresh (newBuffer2 s))"
proof -
  obtain s where s: "r = Inr s" "async_inv s" using async_reach_inv [OF assms] by blast
  then have "phase s = AtTop \<longrightarrow> is_fresh (newBuffer1 s) \<and> is_fresh (newBuffer2 s)"
    by (auto simp: async_inv_def is_fresh_def opt_fresh_def split: option.splits)
  with s show ?thesis by (auto simp: async_inv_def)
qed

lemma lost_state:
  "async_reach (Inr (async_append ''bye'' Async_new\<lparr>running := False, phase := Exited\<rparr>))"
proof -
  have "async_reach (Inr (async_append ''bye'' Async_new))"
    by (rule async_reach.Step [OF async_reach.Start]) (rule async_step.Append, simp add: kLargeBuffer_def)
  then have "async_reach (Inr ((async_append ''bye'' Async_new)\<lparr>running := False\<rparr>))"
    by (rule async_reach.Step) (rule async_step.Stop)
  then have "async_reach (Inr ((async_append ''bye'' Async_new)\<lparr>running := False, phase := Exited\<rparr>))"
    by (rule async_reach.Step) (use async_step.Exit [of "(async_append ''bye'' Async_new)\<lparr>running := False\<rparr>"]
      in \<open>simp add: async_append_def Async_new_def FixedBuffer_new_def fb_avail_def kLargeBuffer_def Let_def\<close>)
  then show ?thesis by simp
qed

theorem async_keeps_lines_witness:
  "\<exists>s. Inr Async_new = (Inr s :: async res) \<and> (\<not> discarded s \<longrightarrow> concat (logged s) = written s @ in_memory s)"
  using async_keeps_lines [OF async_reach.Start] by auto

text \<open>Lines can be lost at shutdown: there is an execution in which a line is handed in before \<open>stop\<close>, the
  thread leaves its loop on seeing \<open>running\<close> false, and the line stays in memory, never written.\<close>

theorem stop_loses_lines:
  "\<exists>s. async_reach (Inr s) \<and> phase s = Exited \<and> logged s = [''bye''] \<and> written s = []"
proof -
  let ?s = "async_append ''bye'' Async_new\<lparr>running := False, phase := Exited\<rparr>"
  have "async_reach (Inr ?s)" by (rule lost_state)
  moreover have "phase ?s = Exited \<and> logged ?s = [''bye''] \<and> written ?s = []"
    by (simp add: async_append_def Async_new_def FixedBuffer_new_def fb_avail_def kLargeBuffer_def Let_def)
  ultimately show ?thesis by blast
qed

end
