(* ===== verification/TimeZone.thy ===== *)
theory TimeZone
  imports Date Endian
begin

section \<open>Time stamps and time zones (\<open>base/Timestamp.cc\<close>, \<open>base/TimeZone.cc\<close>)\<close>

text \<open>
  Broken-down time, the conversion between it and seconds since the epoch, the rules of a zone and the
  reader of compiled zone files. A time is a mathematical integer; a narrowing cast is \<open>cast_int\<close>. A zone
  file is its bytes, or \<open>None\<close> when \<open>fopen\<close> fails. \<open>gmtime_r\<close> and \<open>timegm\<close> of the C library are
  the POSIX conversions, for which \<open>toUtcTime\<close> and \<open>fromUtcTime\<close> are this code's own implementations.
\<close>

record tm =
  tm_sec :: int
  tm_min :: int
  tm_hour :: int
  tm_mday :: int
  tm_mon :: int
  tm_year :: int
  tm_wday :: int
  tm_yday :: int
  tm_isdst :: bool
  tm_gmtoff :: int
  tm_zone :: string

definition zero_tm :: tm where
  "zero_tm = \<lparr>tm_sec = 0, tm_min = 0, tm_hour = 0, tm_mday = 0, tm_mon = 0, tm_year = 0, tm_wday = 0, tm_yday = 0,
     tm_isdst = False, tm_gmtoff = 0, tm_zone = []\<rparr>"

definition cast_int :: "int \<Rightarrow> int" where "cast_int i = (i + 2 ^ 31) mod 2 ^ 32 - 2 ^ 31"

definition kSecondsPerDay :: int where "kSecondsPerDay = 24 * 60 * 60"

definition date_of_tm :: "tm \<Rightarrow> int" where
  "date_of_tm t = getJulianDayNumber (tm_year t + 1900) (tm_mon t + 1) (tm_mday t)"


subsection \<open>UTC\<close>

definition fillHMS :: "int \<Rightarrow> tm \<Rightarrow> tm" where
  "fillHMS seconds utc =
     (let minutes = seconds div 60
      in utc\<lparr>tm_sec := seconds mod 60, tm_min := minutes mod 60, tm_hour := minutes div 60\<rparr>)"

definition toUtcTime :: "int \<Rightarrow> bool \<Rightarrow> tm" where
  "toUtcTime secondsSinceEpoch yday =
     (let utc = zero_tm\<lparr>tm_zone := ''GMT''\<rparr>;
          seconds = cast_int (secondsSinceEpoch smod kSecondsPerDay);
          days = cast_int (secondsSinceEpoch sdiv kSecondsPerDay);
          (seconds, days) = (if seconds < 0 then (seconds + kSecondsPerDay, days - 1) else (seconds, days));
          utc = fillHMS seconds utc;
          date = days + kJulianDayOf1970_01_01;
          ymd = getYearMonthDay date;
          utc = utc\<lparr>tm_year := year ymd - 1900, tm_mon := month ymd - 1, tm_mday := day ymd, tm_wday := weekDay date\<rparr>
      in if yday then utc\<lparr>tm_yday := date - getJulianDayNumber (year ymd) 1 1\<rparr> else utc)"

definition fromUtcTime6 :: "int \<Rightarrow> int \<Rightarrow> int \<Rightarrow> int \<Rightarrow> int \<Rightarrow> int \<Rightarrow> int" where
  "fromUtcTime6 yr mon dy hour minute seconds =
     (let secondsInDay = hour * 3600 + minute * 60 + seconds;
          days = getJulianDayNumber yr mon dy - kJulianDayOf1970_01_01
      in days * kSecondsPerDay + secondsInDay)"

definition fromUtcTime :: "tm \<Rightarrow> int" where
  "fromUtcTime utc =
     fromUtcTime6 (tm_year utc + 1900) (tm_mon utc + 1) (tm_mday utc) (tm_hour utc) (tm_min utc) (tm_sec utc)"

definition gmtime_r :: "int \<Rightarrow> tm" where "gmtime_r t = toUtcTime t True"

definition timegm :: "tm \<Rightarrow> int" where "timegm t = fromUtcTime t"


subsection \<open>Time stamps\<close>

type_synonym timestamp_us = int

definition kMicroSecondsPerSecond :: int where "kMicroSecondsPerSecond = 1000 * 1000"

definition ts_valid :: "timestamp_us \<Rightarrow> bool" where "ts_valid t \<longleftrightarrow> 0 < t"

definition secondsSinceEpoch :: "timestamp_us \<Rightarrow> int" where
  "secondsSinceEpoch t = t sdiv kMicroSecondsPerSecond"

definition fromUnixTime :: "int \<Rightarrow> int \<Rightarrow> timestamp_us" where
  "fromUnixTime t microseconds = t * kMicroSecondsPerSecond + microseconds"

text \<open>\<open>now\<close>, from the seconds and microseconds \<open>gettimeofday\<close> reports; \<open>invalid\<close> is the default time stamp.\<close>

definition ts_now :: "int \<Rightarrow> int \<Rightarrow> timestamp_us" where
  "ts_now tv_sec tv_usec = tv_sec * kMicroSecondsPerSecond + tv_usec"

definition ts_invalid :: timestamp_us where "ts_invalid = 0"

definition ts_less :: "timestamp_us \<Rightarrow> timestamp_us \<Rightarrow> bool" where "ts_less lhs rhs \<longleftrightarrow> lhs < rhs"

lemma ts_now_parts:
  assumes "0 \<le> tv_sec" and "0 \<le> tv_usec" and "tv_usec < 1000000"
  shows "secondsSinceEpoch (ts_now tv_sec tv_usec) = tv_sec"
    and "ts_now tv_sec tv_usec smod kMicroSecondsPerSecond = tv_usec"
    and "ts_valid (ts_now tv_sec tv_usec) \<longleftrightarrow> ts_now tv_sec tv_usec \<noteq> ts_invalid"
  using assms
  by (auto simp: secondsSinceEpoch_def ts_now_def ts_invalid_def ts_valid_def kMicroSecondsPerSecond_def signed_divide_int_def
      signed_modulo_int_def zsgn_def)

text \<open>Time stamps of \<open>now\<close> are ordered like the clock readings they come from.\<close>

lemma ts_now_less:
  assumes "0 \<le> u" "u < 1000000" "0 \<le> u'" "u' < 1000000"
  shows "ts_less (ts_now s u) (ts_now s' u') \<longleftrightarrow> s < s' \<or> s = s' \<and> u < u'"
  using assms by (auto simp: ts_less_def ts_now_def kMicroSecondsPerSecond_def)

definition ts_toString :: "timestamp_us \<Rightarrow> string" where
  "ts_toString t =
     (let seconds = t sdiv kMicroSecondsPerSecond; microseconds = t smod kMicroSecondsPerSecond
      in snprintf 31 (show_int seconds @ ''.'' @ fmt_0d 6 microseconds))"

definition ts_toFormattedString :: "bool \<Rightarrow> timestamp_us \<Rightarrow> string" where
  "ts_toFormattedString showMicroseconds t =
     (let tm_time = gmtime_r (t sdiv kMicroSecondsPerSecond);
          s = fmt_d 4 (tm_year tm_time + 1900) @ fmt_0d 2 (tm_mon tm_time + 1) @ fmt_0d 2 (tm_mday tm_time) @ '' '' @
              fmt_0d 2 (tm_hour tm_time) @ '':'' @ fmt_0d 2 (tm_min tm_time) @ '':'' @ fmt_0d 2 (tm_sec tm_time)
      in snprintf 64 (if showMicroseconds then s @ ''.'' @ fmt_0d 6 (cast_int (t smod kMicroSecondsPerSecond)) else s))"


subsection \<open>Zone data and its lookup\<close>

record transition =
  gmttime :: int
  tr_localtime :: int
  localtimeIdx :: nat

record localtime =
  gmtOffset :: int
  isDst :: bool
  arrbIdx :: nat

record tzdata =
  transitions :: "transition list"
  localtimes :: "localtime list"
  tz_abbreviation :: string

definition tz_comp :: "bool \<Rightarrow> transition \<Rightarrow> transition \<Rightarrow> bool" where
  "tz_comp compareGmt l r = (if compareGmt then gmttime l < gmttime r else tr_localtime l < tr_localtime r)"

definition tz_equal :: "bool \<Rightarrow> transition \<Rightarrow> transition \<Rightarrow> bool" where
  "tz_equal compareGmt l r = (if compareGmt then gmttime l = gmttime r else tr_localtime l = tr_localtime r)"

text \<open>\<open>std::vector::operator[]\<close> and \<open>front\<close> outside the vector are undefined.\<close>

definition at_vec :: "'a list \<Rightarrow> nat \<Rightarrow> 'a res" where
  "at_vec xs i = (if i < length xs then Inr (xs ! i) else Inl UndefinedBehaviour)"

definition findLocaltime :: "tzdata \<Rightarrow> transition \<Rightarrow> bool \<Rightarrow> localtime res" where
  "findLocaltime data sentry compareGmt =
     (if transitions data = [] \<or> tz_comp compareGmt sentry (hd (transitions data))
      then at_vec (localtimes data) 0
      else
        let ts = transitions data; i = find_idx (\<lambda>t. \<not> tz_comp compareGmt t sentry) ts in
        if i \<noteq> length ts
        then if \<not> tz_equal compareGmt sentry (ts ! i)
             then cassert (i \<noteq> 0) (at_vec (localtimes data) (localtimeIdx (ts ! (i - 1))))
             else at_vec (localtimes data) (localtimeIdx (ts ! i))
        else at_vec (localtimes data) (localtimeIdx (last ts)))"

definition TimeZone_fixed :: "int \<Rightarrow> string \<Rightarrow> tzdata option" where
  "TimeZone_fixed eastOfUtc name =
     Some \<lparr>transitions = [], localtimes = [\<lparr>gmtOffset = eastOfUtc, isDst = False, arrbIdx = 0\<rparr>], tz_abbreviation = name\<rparr>"

definition toLocalTime :: "tzdata option \<Rightarrow> int \<Rightarrow> tm res" where
  "toLocalTime zone seconds =
     (case zone of None \<Rightarrow> Inl AssertFail
      | Some data \<Rightarrow>
          rbind (findLocaltime data \<lparr>gmttime = seconds, tr_localtime = 0, localtimeIdx = 0\<rparr> True) (\<lambda>local.
          if length (tz_abbreviation data) < arrbIdx local then Inl UndefinedBehaviour
          else Inr ((gmtime_r (seconds + gmtOffset local))\<lparr>tm_isdst := isDst local, tm_gmtoff := gmtOffset local,
                 tm_zone := takeWhile (\<lambda>c. c \<noteq> CHR 0x00) (drop (arrbIdx local) (tz_abbreviation data))\<rparr>)))"

definition fromLocalTime :: "tzdata option \<Rightarrow> tm \<Rightarrow> int res" where
  "fromLocalTime zone localTm =
     (case zone of None \<Rightarrow> Inl AssertFail
      | Some data \<Rightarrow>
          let seconds = timegm localTm in
          rbind (findLocaltime data \<lparr>gmttime = 0, tr_localtime = seconds, localtimeIdx = 0\<rparr> False) (\<lambda>local.
          if tm_isdst localTm
          then rbind (toLocalTime zone (seconds - gmtOffset local)) (\<lambda>tryTm.
               if \<not> tm_isdst tryTm \<and> tm_hour tryTm = tm_hour localTm \<and> tm_min tryTm = tm_min localTm
               then Inr (seconds - 3600 - gmtOffset local) else Inr (seconds - gmtOffset local))
          else Inr (seconds - gmtOffset local)))"


subsection \<open>Zone files\<close>

definition readBytes :: "int \<Rightarrow> bytes \<Rightarrow> (bytes \<times> bytes) res" where
  "readBytes n f =
     (if n < 0 then Inl UndefinedBehaviour
      else if length f < nat n then Inl LogicError else Inr (take (nat n) f, drop (nat n) f))"

definition file_readInt32 :: "bytes \<Rightarrow> (int \<times> bytes) res" where
  "file_readInt32 f =
     (if length f < 4 then Inl LogicError
      else Inr (sint (networkToHost32 (load (take 4 f))), drop 4 f))"

definition readUInt8 :: "bytes \<Rightarrow> (nat \<times> bytes) res" where
  "readUInt8 f = (case f of [] \<Rightarrow> Inl LogicError | c # f \<Rightarrow> Inr (of_char c, f))"

fun read_many :: "(bytes \<Rightarrow> ('a \<times> bytes) res) \<Rightarrow> nat \<Rightarrow> bytes \<Rightarrow> ('a list \<times> bytes) res" where
  "read_many rd 0 f = Inr ([], f)"
| "read_many rd (Suc n) f = rbind (rd f) (\<lambda>(x, f). rbind (read_many rd n f) (\<lambda>(xs, f). Inr (x # xs, f)))"

definition read_type :: "bytes \<Rightarrow> (localtime \<times> bytes) res" where
  "read_type f =
     rbind (file_readInt32 f) (\<lambda>(gmtoff, f). rbind (readUInt8 f) (\<lambda>(isdst, f). rbind (readUInt8 f) (\<lambda>(abbrind, f).
     Inr (\<lparr>gmtOffset = gmtoff, isDst = isdst \<noteq> 0, arrbIdx = abbrind\<rparr>, f))))"

text \<open>The third loop appends to the zone's data: an exception keeps what was read before it.\<close>

fun read_types :: "nat \<Rightarrow> bytes \<Rightarrow> localtime list \<Rightarrow> localtime list \<times> bytes res" where
  "read_types 0 f acc = (acc, Inr f)"
| "read_types (Suc n) f acc =
     (case read_type f of Inl e \<Rightarrow> (acc, Inl e) | Inr (lt, f) \<Rightarrow> read_types n f (acc @ [lt]))"

fun make_transitions :: "(int \<times> nat) list \<Rightarrow> localtime list \<Rightarrow> transition list res" where
  "make_transitions [] lts = Inr []"
| "make_transitions ((t, idx) # rest) lts =
     rbind (at_vec lts idx) (\<lambda>lt. rbind (make_transitions rest lts) (\<lambda>ts.
     Inr (\<lparr>gmttime = t, tr_localtime = t + gmtOffset lt, localtimeIdx = idx\<rparr> # ts)))"

text \<open>A negative \<open>timecnt\<close> makes \<open>reserve\<close> throw \<open>std::length_error\<close>, which is a \<open>logic_error\<close>.\<close>

definition read_head :: "bytes \<Rightarrow> ((int \<times> int) \<times> (int \<times> nat) list \<times> bytes) res" where
  "read_head f =
     rbind (readBytes 4 f) (\<lambda>(head, f).
     if head \<noteq> ''TZif'' then Inl LogicError else
     rbind (readBytes 1 f) (\<lambda>(version, f). rbind (readBytes 15 f) (\<lambda>(_, f).
     rbind (read_many file_readInt32 6 f) (\<lambda>(cnts, f).
     let timecnt = cnts ! 3; typecnt = cnts ! 4; charcnt = cnts ! 5 in
     if timecnt < 0 then Inl LogicError else
     rbind (read_many file_readInt32 (nat timecnt) f) (\<lambda>(trans, f).
     rbind (read_many readUInt8 (nat timecnt) f) (\<lambda>(idx, f).
     Inr ((typecnt, charcnt), zip trans idx, f)))))))"

definition empty_tzdata :: tzdata where
  "empty_tzdata = \<lparr>transitions = [], localtimes = [], tz_abbreviation = []\<rparr>"

definition read_tz :: "bytes \<Rightarrow> tzdata \<times> unit res" where
  "read_tz f =
     (case read_head f of Inl e \<Rightarrow> (empty_tzdata, Inl e)
      | Inr ((typecnt, charcnt), tr, f) \<Rightarrow>
          let (lts, r) = read_types (nat typecnt) f []; data = empty_tzdata\<lparr>localtimes := lts\<rparr> in
          case r of Inl e \<Rightarrow> (data, Inl e)
          | Inr f \<Rightarrow>
              case make_transitions tr lts of Inl e \<Rightarrow> (data, Inl e)
              | Inr ts \<Rightarrow>
                  let data = data\<lparr>transitions := ts\<rparr> in
                  case readBytes charcnt f of Inl e \<Rightarrow> (data, Inl e)
                  | Inr (s, _) \<Rightarrow> (data\<lparr>tz_abbreviation := s\<rparr>, Inr ()))"

definition readTimeZoneFile :: "bytes option \<Rightarrow> (bool \<times> tzdata) res" where
  "readTimeZoneFile zonefile =
     (case zonefile of None \<Rightarrow> Inr (True, empty_tzdata)
      | Some f \<Rightarrow>
          (case read_tz f of
             (data, Inr _) \<Rightarrow> Inr (True, data)
           | (data, Inl e) \<Rightarrow> if e = LogicError then Inr (True, data) else Inl e))"

definition TimeZone_file :: "bytes option \<Rightarrow> tzdata option res" where
  "TimeZone_file zonefile =
     rbind (readTimeZoneFile zonefile) (\<lambda>(ok, data). Inr (if ok then Some data else None))"


subsection \<open>UTC round trip\<close>

lemma cast_int_id: "fits_int i \<Longrightarrow> cast_int i = i"
  by (simp add: cast_int_def fits_int_def int_min_def int_max_def)

text \<open>The split of a time into a day and the seconds in it, rounding down also before 1970.\<close>

lemma day_split:
  assumes "\<bar>t\<bar> \<le> 40000000000000"
  shows "(let seconds = cast_int (t smod kSecondsPerDay); days = cast_int (t sdiv kSecondsPerDay)
          in if seconds < 0 then (seconds + kSecondsPerDay, days - 1) else (seconds, days)) =
     (t mod 86400, t div 86400)"
proof (cases "0 \<le> t")
  case True
  have "t div 86400 \<le> 462962962" using assms zdiv_mono1 [of t 40000000000000 86400] by simp
  then have "cast_int (t sdiv 86400) = t div 86400" "cast_int (t smod 86400) = t mod 86400"
    using True pos_imp_zdiv_nonneg_iff [of 86400 t] pos_mod_bound [of 86400 t] pos_mod_sign [of 86400 t]
    by (auto intro!: cast_int_id simp: sdiv_nonneg smod_nonneg fits_int_def int_min_def int_max_def)
  then show ?thesis by (simp add: kSecondsPerDay_def Let_def)
next
  case False
  let ?u = "- t"
  have u: "0 < ?u" using False by simp
  have sd: "t sdiv 86400 = - (?u div 86400)" and sm: "t smod 86400 = - (?u mod 86400)"
    using u by (simp_all add: signed_divide_int_def signed_modulo_int_def)
  have "0 \<le> ?u div 86400" "?u div 86400 \<le> 462962962"
    using assms u pos_imp_zdiv_nonneg_iff [of 86400 ?u] zdiv_mono1 [of ?u 40000000000000 86400] by simp_all
  then have c: "cast_int (t sdiv 86400) = - (?u div 86400)" "cast_int (t smod 86400) = - (?u mod 86400)"
    using pos_mod_bound [of 86400 ?u] pos_mod_sign [of 86400 ?u]
    by (auto intro!: cast_int_id simp: sd sm fits_int_def int_min_def int_max_def)
  have "?u mod 86400 = 0 \<Longrightarrow> t mod 86400 = 0 \<and> t div 86400 = - (?u div 86400)"
    using zmod_zminus1_not_zero zdiv_zminus1_eq_if [of 86400 ?u] zmod_zminus1_eq_if [of ?u 86400] by simp
  moreover have "?u mod 86400 \<noteq> 0 \<Longrightarrow> t mod 86400 = 86400 - ?u mod 86400 \<and> t div 86400 = - (?u div 86400) - 1"
    using zdiv_zminus1_eq_if [of 86400 ?u] zmod_zminus1_eq_if [of ?u 86400] by simp
  ultimately show ?thesis using c pos_mod_sign [of 86400 ?u] by (auto simp: kSecondsPerDay_def Let_def)
qed


lemma fillHMS_seconds:
  "0 \<le> s \<Longrightarrow> tm_hour (fillHMS s u) * 3600 + tm_min (fillHMS s u) * 60 + tm_sec (fillHMS s u) = s"
proof -
  have "s = 60 * (s div 60) + s mod 60" "s div 60 = 60 * (s div 60 div 60) + s div 60 mod 60" by simp_all
  moreover have "s = 60 * m + r \<Longrightarrow> m = 60 * h + q \<Longrightarrow> h * 3600 + q * 60 + r = s" for m r h q :: int by simp
  ultimately have "s div 60 div 60 * 3600 + s div 60 mod 60 * 60 + s mod 60 = s" by blast
  then show ?thesis by (simp add: fillHMS_def Let_def)
qed

lemma toUtcTime_parts:
  assumes "\<bar>t\<bar> \<le> 40000000000000"
  shows "toUtcTime t yd =
    (let utc = fillHMS (t mod 86400) (zero_tm\<lparr>tm_zone := ''GMT''\<rparr>);
         date = t div 86400 + 2440588; ymd = getYearMonthDay date;
         utc = utc\<lparr>tm_year := year ymd - 1900, tm_mon := month ymd - 1, tm_mday := day ymd, tm_wday := weekDay date\<rparr>
     in if yd then utc\<lparr>tm_yday := date - getJulianDayNumber (year ymd) 1 1\<rparr> else utc)"
  using day_split [OF assms] by (simp add: toUtcTime_def Let_def)

lemma toUtcTime_fields:
  assumes "- 213608000000 \<le> t" and "t \<le> 40000000000000"
  shows "tm_sec (toUtcTime t yd) = t mod 86400 mod 60" "tm_min (toUtcTime t yd) = t mod 86400 div 60 mod 60" "tm_hour (toUtcTime t yd) = t mod 86400 div 60 div 60"
    and "\<lparr>year = tm_year (toUtcTime t yd) + 1900, month = tm_mon (toUtcTime t yd) + 1, day = tm_mday (toUtcTime t yd)\<rparr> = getYearMonthDay (t div 86400 + 2440588)"
proof -
  have t: "\<bar>t\<bar> \<le> 40000000000000" using assms by simp
  show "tm_sec (toUtcTime t yd) = t mod 86400 mod 60" "tm_min (toUtcTime t yd) = t mod 86400 div 60 mod 60" "tm_hour (toUtcTime t yd) = t mod 86400 div 60 div 60"
    "\<lparr>year = tm_year (toUtcTime t yd) + 1900, month = tm_mon (toUtcTime t yd) + 1, day = tm_mday (toUtcTime t yd)\<rparr> = getYearMonthDay (t div 86400 + 2440588)"
    unfolding toUtcTime_parts [OF t] by (simp_all add: Let_def fillHMS_def)
qed

lemma first_day: "- 213608000000 \<le> (t :: int) \<Longrightarrow> - 31738 \<le> t div 86400 + 2440588"
  using zdiv_mono1 [of "- 213608000000" t 86400] by simp

lemma fromUtcTime_toUtcTime:
  assumes "- 213608000000 \<le> t" and "t \<le> 40000000000000"
  shows "fromUtcTime (toUtcTime t yd) = t"
proof -
  let ?n = "t div 86400 + 2440588" and ?u = "toUtcTime t yd"
  note f = toUtcTime_fields [OF assms, of yd]
  have "getJulianDayNumber (tm_year ?u + 1900) (tm_mon ?u + 1) (tm_mday ?u) = julian (getYearMonthDay ?n)"
    by (simp add: julian_def flip: f(4))
  also have "\<dots> = ?n" using julian_getYearMonthDay(1) [OF first_day [OF assms(1)]] .
  finally have jd: "getJulianDayNumber (tm_year ?u + 1900) (tm_mon ?u + 1) (tm_mday ?u) = ?n" .
  have "tm_hour ?u * 3600 + tm_min ?u * 60 + tm_sec ?u = t mod 86400"
    using fillHMS_seconds [of "t mod 86400" zero_tm] unfolding f(1-3) by (simp add: fillHMS_def Let_def)
  then show ?thesis
    unfolding fromUtcTime_def fromUtcTime6_def Let_def jd julian_1970 kSecondsPerDay_def
    using div_mult_mod_eq [of t 86400] by (simp only: add_diff_cancel_right')
qed

text \<open>Seconds and calendar time are inverse. From the year -4799 on (long before 1970) and up to a
  million years ahead, \<open>toUtcTime\<close> yields a valid calendar date and a time of day in range, and
  \<open>fromUtcTime\<close> gives back the seconds; the same holds through the local time of a zone with a fixed offset.\<close>

theorem utc_roundtrip:
  assumes "- 213608000000 \<le> t" and "t \<le> 40000000000000"
  shows "fromUtcTime (toUtcTime t yd) = t \<and>
    rbind (toLocalTime (TimeZone_fixed off name) (t - off)) (fromLocalTime (TimeZone_fixed off name)) = Inr (t - off) \<and>
    valid_ymd \<lparr>year = tm_year (toUtcTime t yd) + 1900, month = tm_mon (toUtcTime t yd) + 1, day = tm_mday (toUtcTime t yd)\<rparr> \<and>
    0 \<le> tm_sec (toUtcTime t yd) \<and> tm_sec (toUtcTime t yd) < 60 \<and> 0 \<le> tm_min (toUtcTime t yd) \<and>
    tm_min (toUtcTime t yd) < 60 \<and> 0 \<le> tm_hour (toUtcTime t yd) \<and> tm_hour (toUtcTime t yd) < 24"
proof -
  note f = toUtcTime_fields [OF assms, of yd]
  have "rbind (toLocalTime (TimeZone_fixed off name) (t - off)) (fromLocalTime (TimeZone_fixed off name)) = Inr (t - off)"
    using fromUtcTime_toUtcTime [OF assms, of True]
    by (simp add: toLocalTime_def TimeZone_fixed_def fromLocalTime_def findLocaltime_def at_vec_def timegm_def
        gmtime_r_def fromUtcTime_def)
  moreover have "valid_ymd \<lparr>year = tm_year (toUtcTime t yd) + 1900, month = tm_mon (toUtcTime t yd) + 1, day = tm_mday (toUtcTime t yd)\<rparr>"
    unfolding f(4) using julian_getYearMonthDay(2) [OF first_day [OF assms(1)]] .
  moreover have "t mod 86400 div 60 < 1440" "0 \<le> t mod 86400 div 60"
    using zdiv_mono1 [of "t mod 86400" 86399 60] by (simp_all add: pos_imp_zdiv_nonneg_iff)
  then have "0 \<le> tm_sec (toUtcTime t yd) \<and> tm_sec (toUtcTime t yd) < 60 \<and> 0 \<le> tm_min (toUtcTime t yd) \<and>
      tm_min (toUtcTime t yd) < 60 \<and> 0 \<le> tm_hour (toUtcTime t yd) \<and> tm_hour (toUtcTime t yd) < 24"
    unfolding f(1-3) using zdiv_mono1 [of "t mod 86400 div 60" 1439 60] by (simp add: pos_imp_zdiv_nonneg_iff)
  ultimately show ?thesis using fromUtcTime_toUtcTime [OF assms] by blast
qed

theorem utc_roundtrip_witness: "fromUtcTime (toUtcTime 951782400 True) = 951782400"
  using utc_roundtrip [of 951782400 True] by simp


subsection \<open>Which rule of a zone applies\<close>

text \<open>The type in force at a time: that of the last transition not after it, the first type of the zone
  before the first transition.\<close>

fun in_force :: "nat \<Rightarrow> transition list \<Rightarrow> int \<Rightarrow> nat" where
  "in_force cur [] t = cur"
| "in_force cur (tr # trs) t = (if gmttime tr \<le> t then in_force (localtimeIdx tr) trs t else cur)"

definition tz_wf :: "tzdata \<Rightarrow> bool" where
  "tz_wf data \<longleftrightarrow> localtimes data \<noteq> [] \<and> sorted (map gmttime (transitions data)) \<and> distinct (map gmttime (transitions data)) \<and>
     (\<forall>tr \<in> set (transitions data). localtimeIdx tr < length (localtimes data))"


lemma in_force_later: "\<forall>tr \<in> set ts. t < gmttime tr \<Longrightarrow> in_force cur ts t = cur"
  by (cases ts) auto

lemma in_force_find_idx:
  assumes "sorted (map gmttime ts)" and "distinct (map gmttime ts)"
  shows "in_force cur ts t =
    (let i = find_idx (\<lambda>tr. \<not> gmttime tr < t) ts
     in if i < length ts \<and> gmttime (ts ! i) = t then localtimeIdx (ts ! i)
        else if i = 0 then cur else localtimeIdx (ts ! (i - 1)))"
  using assms
proof (induction ts arbitrary: cur)
  case (Cons x xs)
  show ?case
  proof (cases "gmttime x < t")
    case True
    with Cons show ?thesis by (cases "find_idx (\<lambda>tr. \<not> gmttime tr < t) xs") (auto simp: Let_def)
  next
    case False
    moreover have "in_force (localtimeIdx x) xs t = localtimeIdx x" if "gmttime x = t"
      using Cons.prems that by (intro in_force_later) (force simp: order_less_le)
    ultimately show ?thesis by auto
  qed
qed simp

text \<open>The rule of a zone in force. In a well-formed zone \<open>findLocaltime\<close> on a UTC time returns the local
  time type of the last transition at or before it, and the first type before all transitions; no access
  is out of range and no assertion fails.\<close>

theorem findLocaltime_in_force:
  assumes "tz_wf data"
  shows "findLocaltime data \<lparr>gmttime = t, tr_localtime = l, localtimeIdx = k\<rparr> True =
    Inr (localtimes data ! in_force 0 (transitions data) t)"
proof -
  let ?ts = "transitions data" and ?i = "find_idx (\<lambda>tr. \<not> gmttime tr < t) (transitions data)"
  have wf: "localtimes data \<noteq> []" "sorted (map gmttime ?ts)" "distinct (map gmttime ?ts)"
    and idx: "\<And>j. j < length ?ts \<Longrightarrow> localtimeIdx (?ts ! j) < length (localtimes data)"
    using assms by (auto simp: tz_wf_def)
  note f = in_force_find_idx [OF wf(2,3), of 0 t]
  show ?thesis
  proof (cases "?ts = [] \<or> t < gmttime (hd ?ts)")
    case True
    then have "in_force 0 ?ts t = 0" by (cases ?ts) auto
    with True wf(1) show ?thesis by (auto simp: findLocaltime_def tz_comp_def at_vec_def)
  next
    case False
    then obtain x xs where ts: "?ts = x # xs" "gmttime x \<le> t" by (cases ?ts) auto
    have le: "?i \<le> length ?ts" by simp
    have pos: "?i \<noteq> 0 \<or> gmttime (?ts ! ?i) = t" using ts by auto
    have "?i - 1 < length ?ts" if "?i \<noteq> 0" using le that by linarith
    then have lt: "localtimeIdx (?ts ! (?i - 1)) < length (localtimes data)" if "?i \<noteq> 0" using idx that by blast
    define i where "i = ?i"
    have find: "findLocaltime data \<lparr>gmttime = t, tr_localtime = l, localtimeIdx = k\<rparr> True =
        (if i \<noteq> length ?ts
         then if t \<noteq> gmttime (?ts ! i) then cassert (i \<noteq> 0) (at_vec (localtimes data) (localtimeIdx (?ts ! (i - 1))))
              else at_vec (localtimes data) (localtimeIdx (?ts ! i))
         else at_vec (localtimes data) (localtimeIdx (last ?ts)))"
      using False by (simp add: findLocaltime_def tz_comp_def tz_equal_def Let_def i_def)
    have f': "in_force 0 ?ts t = (if i < length ?ts \<and> gmttime (?ts ! i) = t then localtimeIdx (?ts ! i)
        else if i = 0 then 0 else localtimeIdx (?ts ! (i - 1)))"
      unfolding f Let_def i_def by (rule refl)
    note lt' = lt [folded i_def] and pos' = pos [folded i_def]
    show ?thesis
    proof (cases "i = length ?ts")
      case True
      moreover have "last ?ts = ?ts ! (length ?ts - 1)" using ts(1) by (simp add: last_conv_nth)
      moreover have "i \<noteq> 0" using True ts(1) by auto
      ultimately show ?thesis using lt' unfolding find f' by (simp add: at_vec_def)
    next
      case False
      then have "i < length ?ts" using le unfolding i_def by linarith
      with pos' lt' idx show ?thesis
        unfolding find f' by (cases "t = gmttime (?ts ! i)") (auto simp: at_vec_def)
    qed
  qed
qed

theorem findLocaltime_in_force_witness:
  "findLocaltime \<lparr>transitions = [\<lparr>gmttime = 10, tr_localtime = 20, localtimeIdx = 1\<rparr>],
      localtimes = [\<lparr>gmtOffset = 0, isDst = False, arrbIdx = 0\<rparr>, \<lparr>gmtOffset = 10, isDst = True, arrbIdx = 0\<rparr>],
      tz_abbreviation = []\<rparr> \<lparr>gmttime = 12, tr_localtime = 0, localtimeIdx = 0\<rparr> True =
   Inr \<lparr>gmtOffset = 10, isDst = True, arrbIdx = 0\<rparr>"
  by (subst findLocaltime_in_force) (simp_all add: tz_wf_def)


subsection \<open>Zone files round trip\<close>

definition enc32 :: "int \<Rightarrow> bytes" where "enc32 i = rev (store (word_of_int i :: 32 word))"

definition enc_type :: "localtime \<Rightarrow> bytes" where
  "enc_type lt = enc32 (gmtOffset lt) @ [char_of (of_bool (isDst lt) :: nat), char_of (arrbIdx lt)]"

definition tz_encode :: "tzdata \<Rightarrow> bytes" where
  "tz_encode d = ''TZif'' @ ''2'' @ replicate 15 (CHR 0x00) @
     enc32 0 @ enc32 0 @ enc32 0 @ enc32 (int (length (transitions d))) @ enc32 (int (length (localtimes d))) @
     enc32 (int (length (tz_abbreviation d))) @
     concat (map (enc32 \<circ> gmttime) (transitions d)) @ map (char_of \<circ> localtimeIdx) (transitions d) @
     concat (map enc_type (localtimes d)) @ tz_abbreviation d"

definition tz_encodable :: "tzdata \<Rightarrow> bool" where
  "tz_encodable d \<longleftrightarrow>
     (\<forall>tr \<in> set (transitions d). fits_int (gmttime tr) \<and> localtimeIdx tr < length (localtimes d) \<and> localtimeIdx tr < 256 \<and>
        tr_localtime tr = gmttime tr + gmtOffset (localtimes d ! localtimeIdx tr)) \<and>
     (\<forall>lt \<in> set (localtimes d). fits_int (gmtOffset lt) \<and> arrbIdx lt < 256) \<and>
     length (transitions d) < 2 ^ 31 \<and> length (localtimes d) < 2 ^ 31 \<and> length (tz_abbreviation d) < 2 ^ 31"

lemma file_readInt32_enc: "fits_int i \<Longrightarrow> file_readInt32 (enc32 i @ rest) = Inr (i, rest)"
proof -
  assume "fits_int i"
  then have "sint (word_of_int i :: 32 word) = i"
    by (simp add: fits_int_def int_min_def int_max_def sint_sbintrunc' signed_take_bit_int_eq_self)
  then show ?thesis by (simp add: file_readInt32_def enc32_def load_store)
qed

lemma readUInt8_enc: "n < 256 \<Longrightarrow> readUInt8 (char_of n # rest) = Inr (n, rest)"
  by (simp add: readUInt8_def)

lemma read_type_enc:
  "fits_int (gmtOffset lt) \<Longrightarrow> arrbIdx lt < 256 \<Longrightarrow> read_type (enc_type lt @ rest) = Inr (lt, rest)"
  by (simp add: read_type_def enc_type_def file_readInt32_enc readUInt8_def)

lemma read_many_enc:
  assumes "\<And>x rest. x \<in> set xs \<Longrightarrow> rd (enc x @ rest) = Inr (x, rest)"
  shows "read_many rd (length xs) (concat (map enc xs) @ rest) = Inr (xs, rest)"
  using assms by (induction xs) auto

lemma read_types_enc:
  assumes "\<forall>lt \<in> set lts. fits_int (gmtOffset lt) \<and> arrbIdx lt < 256"
  shows "read_types (length lts) (concat (map enc_type lts) @ rest) acc = (acc @ lts, Inr rest)"
  using assms by (induction lts arbitrary: acc) (auto simp: read_type_enc)

lemma make_transitions_enc:
  assumes "\<forall>tr \<in> set ts. localtimeIdx tr < length lts \<and> tr_localtime tr = gmttime tr + gmtOffset (lts ! localtimeIdx tr)"
  shows "make_transitions (zip (map gmttime ts) (map localtimeIdx ts)) lts = Inr ts"
  using assms by (induction ts) (auto simp: at_vec_def)


lemma read_head_enc:
  assumes "tz_encodable d"
  shows "read_head (tz_encode d @ rest) = Inr ((int (length (localtimes d)), int (length (tz_abbreviation d))),
    zip (map gmttime (transitions d)) (map localtimeIdx (transitions d)),
    concat (map enc_type (localtimes d)) @ tz_abbreviation d @ rest)"
proof -
  have f: "fits_int 0" "fits_int (int (length (transitions d)))" "fits_int (int (length (localtimes d)))"
      "fits_int (int (length (tz_abbreviation d)))"
    using assms by (simp_all add: tz_encodable_def fits_int_def int_min_def int_max_def)
  have t: "read_many file_readInt32 (length (transitions d)) (concat (map (enc32 \<circ> gmttime) (transitions d)) @ r) =
      Inr (map gmttime (transitions d), r)" for r
  proof -
    have "file_readInt32 (enc32 x @ r) = Inr (x, r)" if "x \<in> set (map gmttime (transitions d))" for x r
      using that assms by (auto simp: tz_encodable_def file_readInt32_enc)
    from read_many_enc [OF this] show ?thesis by fastforce
  qed
  have l: "read_many readUInt8 (length (transitions d)) (map (char_of \<circ> localtimeIdx) (transitions d) @ r) =
      Inr (map localtimeIdx (transitions d), r)" for r
  proof -
    have "readUInt8 ([char_of x] @ r) = Inr (x, r)" if "x \<in> set (map localtimeIdx (transitions d))" for x r
      using that assms by (auto simp: tz_encodable_def readUInt8_enc)
    from read_many_enc [of "map localtimeIdx (transitions d)" readUInt8 "\<lambda>x. [char_of x]", OF this] show ?thesis
      by (simp add: concat_map_singleton comp_def)
  qed
  show ?thesis
    by (simp add: read_head_def tz_encode_def readBytes_def numeral_eq_Suc file_readInt32_enc f t l)
qed

text \<open>Compiled zone files are read back. For every zone whose times and offsets fit 32 bits and whose
  indices fit a byte, reading the file that encodes it, whatever follows the first block, yields exactly
  the zone: transitions with their local times, types and abbreviations.\<close>

theorem zone_file_roundtrip:
  assumes "tz_encodable d"
  shows "TimeZone_file (Some (tz_encode d @ rest)) = Inr (Some d)"
proof -
  have "make_transitions (zip (map gmttime (transitions d)) (map localtimeIdx (transitions d))) (localtimes d) =
      Inr (transitions d)"
    using assms by (intro make_transitions_enc) (simp add: tz_encodable_def)
  moreover have "read_types (length (localtimes d)) (concat (map enc_type (localtimes d)) @ r) [] = (localtimes d, Inr r)" for r
    using assms read_types_enc [of "localtimes d" r "[]"] by (simp add: tz_encodable_def)
  ultimately have "read_tz (tz_encode d @ rest) = (d, Inr ())"
    by (simp add: read_tz_def read_head_enc [OF assms] readBytes_def empty_tzdata_def)
  then show ?thesis by (simp add: TimeZone_file_def readTimeZoneFile_def)
qed

theorem zone_file_roundtrip_witness:
  "TimeZone_file (Some (tz_encode \<lparr>transitions = [\<lparr>gmttime = -5, tr_localtime = 3595, localtimeIdx = 0\<rparr>],
      localtimes = [\<lparr>gmtOffset = 3600, isDst = False, arrbIdx = 0\<rparr>], tz_abbreviation = ''CET''\<rparr> @ []))
   = Inr (Some \<lparr>transitions = [\<lparr>gmttime = -5, tr_localtime = 3595, localtimeIdx = 0\<rparr>],
      localtimes = [\<lparr>gmtOffset = 3600, isDst = False, arrbIdx = 0\<rparr>], tz_abbreviation = ''CET''\<rparr>)"
  by (rule zone_file_roundtrip) (simp add: tz_encodable_def fits_int_def int_min_def int_max_def)

text \<open>A file that cannot be opened, or that is not a zone file, still makes a zone that claims to be valid, and
  its first use is undefined: \<open>readTimeZoneFile\<close> never returns false.\<close>

lemma missing_zone_file: "rbind (TimeZone_file None) (\<lambda>z. toLocalTime z t) = Inl UndefinedBehaviour"
  by (simp add: TimeZone_file_def readTimeZoneFile_def empty_tzdata_def toLocalTime_def findLocaltime_def at_vec_def)

lemma not_a_zone_file:
  assumes "4 \<le> length f" and "take 4 f \<noteq> ''TZif''"
  shows "rbind (TimeZone_file (Some f)) (\<lambda>z. toLocalTime z t) = Inl UndefinedBehaviour"
  using assms
  by (simp add: TimeZone_file_def readTimeZoneFile_def read_tz_def read_head_def readBytes_def empty_tzdata_def
      toLocalTime_def findLocaltime_def at_vec_def)

end
