(* ===== verification/Logging.thy ===== *)
theory Logging
  imports LogStream TimeZone
begin

section \<open>Log records (\<open>base/Logging.cc\<close>, \<open>base/Logging.h\<close>)\<close>

text \<open>
  One log statement: the constructor writes the time, the thread id, the level and the error text, the
  user streams the message, the destructor adds the place in the source and hands the line to the output.
  The formatted second is cached per thread. The time, the thread id text and the text of \<open>strerror_r\<close>
  are parameters; what was handed to the output function is a list of lines.
\<close>

datatype LogLevel = TRACE | DEBUG | INFO | WARN | ERROR | FATAL

fun LogLevelName :: "LogLevel \<Rightarrow> string" where
  "LogLevelName TRACE = ''TRACE ''"
| "LogLevelName DEBUG = ''DEBUG ''"
| "LogLevelName INFO = ''INFO  ''"
| "LogLevelName WARN = ''WARN  ''"
| "LogLevelName ERROR = ''ERROR ''"
| "LogLevelName FATAL = ''FATAL ''"

definition initLogLevel :: "(string \<Rightarrow> bool) \<Rightarrow> LogLevel" where
  "initLogLevel getenv = (if getenv ''MUDUO_LOG_TRACE'' then TRACE else if getenv ''MUDUO_LOG_DEBUG'' then DEBUG else INFO)"

record log_thread =
  t_time :: string
  t_lastSecond :: int

record log_impl =
  li_stream :: fixedbuf
  li_level :: LogLevel
  li_line :: int
  li_basename :: string

text \<open>\<open>SourceFile\<close>: what follows the last slash.\<close>

definition SourceFile :: "string \<Rightarrow> string" where
  "SourceFile filename =
     (if CHR ''/'' \<in> set filename then rev (takeWhile (\<lambda>c. c \<noteq> CHR ''/'') (rev filename)) else filename)"

text \<open>The helper class \<open>T\<close> asserts the length of the text it wraps.\<close>

definition out_T :: "nat \<Rightarrow> string \<Rightarrow> fixedbuf \<Rightarrow> fixedbuf res" where
  "out_T n str b = cassert (length str = n) (Inr (fb_append str b))"

definition log_tm :: "tzdata option \<Rightarrow> int \<Rightarrow> tm res" where
  "log_tm zone seconds = (if zone \<noteq> None then toLocalTime zone seconds else Inr (gmtime_r seconds))"

definition log_time_text :: "tm \<Rightarrow> string" where
  "log_time_text t =
     fmt_d 4 (tm_year t + 1900) @ fmt_0d 2 (tm_mon t + 1) @ fmt_0d 2 (tm_mday t) @ '' '' @
     fmt_0d 2 (tm_hour t) @ '':'' @ fmt_0d 2 (tm_min t) @ '':'' @ fmt_0d 2 (tm_sec t)"

definition formatTime :: "tzdata option \<Rightarrow> int \<Rightarrow> log_thread \<Rightarrow> fixedbuf \<Rightarrow> (log_thread \<times> fixedbuf) res" where
  "formatTime zone microSecondsSinceEpoch th b =
     (let seconds = microSecondsSinceEpoch sdiv kMicroSecondsPerSecond;
          microseconds = cast_int (microSecondsSinceEpoch smod kMicroSecondsPerSecond)
      in rbind (if seconds \<noteq> t_lastSecond th
                then rbind (log_tm zone seconds) (\<lambda>tm_time.
                     cassert (length (log_time_text tm_time) = 17)
                       (Inr \<lparr>t_time = snprintf 64 (log_time_text tm_time), t_lastSecond = seconds\<rparr>))
                else Inr th) (\<lambda>th.
         let (us, n) = (if zone \<noteq> None then (''.'' @ fmt_0d 6 microseconds @ '' '', 8)
                        else (''.'' @ fmt_0d 6 microseconds @ ''Z '', 9))
         in cassert (length us = n)
            (rbind (out_T 17 (t_time th) b) (\<lambda>b. rbind (out_T n us b) (\<lambda>b. Inr (th, b))))))"

definition Impl_new :: "tzdata option \<Rightarrow> int \<Rightarrow> string \<Rightarrow> (int \<Rightarrow> string) \<Rightarrow> LogLevel \<Rightarrow> int \<Rightarrow> string \<Rightarrow> int \<Rightarrow> log_thread \<Rightarrow>
    (log_thread \<times> log_impl) res" where
  "Impl_new zone now tidString strerror level savedErrno file line th =
     rbind (formatTime zone now th (FixedBuffer_new kSmallBuffer)) (\<lambda>(th, b).
     rbind (out_T (length tidString) tidString b) (\<lambda>b.
     rbind (out_T 6 (LogLevelName level) b) (\<lambda>b.
     rbind (if savedErrno \<noteq> 0
            then log_outs [ACString (Some (strerror savedErrno)), ACString (Some '' (errno=''), AInteger savedErrno, ACString (Some '') '')] b
            else Inr b) (\<lambda>b.
     Inr (th, \<lparr>li_stream = b, li_level = level, li_line = line, li_basename = file\<rparr>)))))"

definition finish :: "log_impl \<Rightarrow> log_impl res" where
  "finish i =
     rbind (log_outs [ACString (Some '' - ''), AString (li_basename i), AChar (CHR '':''), AInteger (li_line i), AChar (CHR 0x0A)]
              (li_stream i)) (\<lambda>b. Inr (i\<lparr>li_stream := b\<rparr>))"

text \<open>The three kinds of logger: plain, with the function name, and with the error number of the last call.\<close>

datatype log_kind = LogPlain LogLevel | LogFunc LogLevel string | LogSys bool

definition Logger_new :: "tzdata option \<Rightarrow> int \<Rightarrow> string \<Rightarrow> (int \<Rightarrow> string) \<Rightarrow> int \<Rightarrow> string \<Rightarrow> int \<Rightarrow> log_kind \<Rightarrow> log_thread \<Rightarrow>
    (log_thread \<times> log_impl) res" where
  "Logger_new zone now tid strerror err file line kind th =
     (case kind of
        LogPlain level \<Rightarrow> Impl_new zone now tid strerror level 0 file line th
      | LogFunc level func \<Rightarrow>
          rbind (Impl_new zone now tid strerror level 0 file line th) (\<lambda>(th, i).
          rbind (log_outs [ACString (Some func), AChar (CHR '' '')] (li_stream i)) (\<lambda>b. Inr (th, i\<lparr>li_stream := b\<rparr>)))
      | LogSys toAbort \<Rightarrow> Impl_new zone now tid strerror (if toAbort then FATAL else ERROR) err file line th)"

text \<open>The destructor: the line goes to the output in any case; a fatal one then aborts the program.\<close>

definition Logger_dtor :: "log_impl \<Rightarrow> string list \<Rightarrow> string list \<times> unit res" where
  "Logger_dtor i output =
     (case finish i of Inl e \<Rightarrow> (output, Inl e)
      | Inr i \<Rightarrow> (output @ [fb_content (li_stream i)], if li_level i = FATAL then Inl Abort else Inr ()))"

definition log_statement :: "tzdata option \<Rightarrow> int \<Rightarrow> string \<Rightarrow> (int \<Rightarrow> string) \<Rightarrow> int \<Rightarrow> string \<Rightarrow> int \<Rightarrow> log_kind \<Rightarrow> log_arg list \<Rightarrow>
    log_thread \<Rightarrow> string list \<Rightarrow> (log_thread \<times> string list \<times> unit res) res" where
  "log_statement zone now tid strerror err file line kind args th output =
     rbind (Logger_new zone now tid strerror err (SourceFile file) line kind th) (\<lambda>(th, i).
     rbind (log_outs args (li_stream i)) (\<lambda>b.
     let (output, r) = Logger_dtor (i\<lparr>li_stream := b\<rparr>) output in Inr (th, output, r)))"


subsection \<open>What a log line contains\<close>

fun kind_level :: "log_kind \<Rightarrow> LogLevel" where
  "kind_level (LogPlain l) = l"
| "kind_level (LogFunc l f) = l"
| "kind_level (LogSys toAbort) = (if toAbort then FATAL else ERROR)"

fun kind_args :: "(int \<Rightarrow> string) \<Rightarrow> int \<Rightarrow> log_kind \<Rightarrow> log_arg list" where
  "kind_args strerror err (LogPlain l) = []"
| "kind_args strerror err (LogFunc l f) = [ACString (Some f), AChar (CHR '' '')]"
| "kind_args strerror err (LogSys toAbort) =
     (if err \<noteq> 0 then [ACString (Some (strerror err)), ACString (Some '' (errno=''), AInteger err, ACString (Some '') '')] else [])"

definition us_text :: "tzdata option \<Rightarrow> int \<Rightarrow> string" where
  "us_text zone now = ''.'' @ fmt_0d 6 (now mod 1000000) @ (if zone \<noteq> None then '' '' else ''Z '')"

definition record_args :: "string \<Rightarrow> string \<Rightarrow> string \<Rightarrow> (int \<Rightarrow> string) \<Rightarrow> int \<Rightarrow> string \<Rightarrow> int \<Rightarrow> log_kind \<Rightarrow> log_arg list \<Rightarrow> log_arg list" where
  "record_args tt us tid strerror err file line kind args =
     [AString tt, AString us, AString tid, AString (LogLevelName (kind_level kind))] @ kind_args strerror err kind @ args @
     [ACString (Some '' - ''), AString (SourceFile file), AChar (CHR '':''), AInteger line, AChar (CHR 0x0A)]"

lemma out_T_log_out: "out_T n str b = cassert (length str = n) (log_out (AString str) b)"
  by (simp add: out_T_def)

lemma length_LogLevelName [simp]: "length (LogLevelName l) = 6"
  by (cases l) simp_all

definition cache_ok :: "tzdata option \<Rightarrow> log_thread \<Rightarrow> bool" where
  "cache_ok zone th \<longleftrightarrow>
     (\<exists>t. log_tm zone (t_lastSecond th) = Inr t \<and> length (log_time_text t) = 17 \<and> t_time th = log_time_text t)"

lemma formatTime_text:
  assumes "0 \<le> now" and "log_tm zone (now div 1000000) = Inr t" and "length (log_time_text t) = 17"
    and "t_lastSecond th = now div 1000000 \<longrightarrow> t_time th = log_time_text t"
  shows "\<exists>th'. cache_ok zone th' \<and> formatTime zone now th b =
    Inr (th', fb_append (us_text zone now) (fb_append (log_time_text t) b))"
proof -
  let ?s = "now div 1000000"
  have s: "now sdiv kMicroSecondsPerSecond = ?s" and us: "cast_int (now smod kMicroSecondsPerSecond) = now mod 1000000"
    using assms(1) pos_mod_bound [of 1000000 now] pos_mod_sign [of 1000000 now]
    by (auto simp: kMicroSecondsPerSecond_def sdiv_nonneg smod_nonneg fits_int_def int_min_def int_max_def intro!: cast_int_id)
  have len: "length (fmt_0d 6 (now mod 1000000)) = 6"
    using length_fmt_0d [of "nat (now mod 1000000)" 6] pos_mod_bound [of 1000000 now] pos_mod_sign [of 1000000 now] by simp
  let ?th = "\<lparr>t_time = log_time_text t, t_lastSecond = ?s\<rparr>"
  have "cache_ok zone ?th" using assms by (auto simp: cache_ok_def)
  moreover have "formatTime zone now th b = Inr (?th, fb_append (us_text zone now) (fb_append (log_time_text t) b))"
    using assms(2-4) len unfolding formatTime_def s us Let_def
    by (cases "t_lastSecond th = ?s"; cases th) (auto simp: out_T_def us_text_def snprintf_def)
  ultimately show ?thesis by blast
qed

lemma log_statement_record:
  assumes "formatTime zone now th (FixedBuffer_new kSmallBuffer) =
      Inr (th', fb_append us (fb_append tt (FixedBuffer_new kSmallBuffer)))"
    and "log_outs (record_args tt us tid strerror err file line kind args) (FixedBuffer_new kSmallBuffer) = Inr b"
  shows "log_statement zone now tid strerror err file line kind args th output =
    Inr (th', output @ [fb_content b], if kind_level kind = FATAL then Inl Abort else Inr ())"
  using assms
  by (cases kind) (auto simp: log_statement_def Logger_new_def Impl_new_def record_args_def log_outs_append out_T_def
      Logger_dtor_def finish_def)


text \<open>What a log statement writes. With a cache that is right for the zone, at any time whose year has four
  digits, and a record that fits the buffer, one statement hands to the output exactly one line: the time
  to the microsecond, the thread, the level, the error text, the message and the place in the source; it keeps
  the cache right and aborts the program exactly when the level is fatal.\<close>

theorem log_statement_line:
  assumes "0 \<le> now" and "log_tm zone (now div 1000000) = Inr t" and "length (log_time_text t) = 17"
    and "cache_ok zone th"
    and "\<forall>a \<in> set (record_args (log_time_text t) (us_text zone now) tid strerror err file line kind args). arg_ok a"
    and "length (concat (map arg_text (record_args (log_time_text t) (us_text zone now) tid strerror err file line kind args))) \<le> 3968"
  shows "\<exists>th'. cache_ok zone th' \<and> log_statement zone now tid strerror err file line kind args th output =
    Inr (th', output @ [concat (map arg_text (record_args (log_time_text t) (us_text zone now) tid strerror err file line kind args))],
      if kind_level kind = FATAL then Inl Abort else Inr ())"
proof -
  let ?as = "record_args (log_time_text t) (us_text zone now) tid strerror err file line kind args"
  have "t_lastSecond th = now div 1000000 \<longrightarrow> t_time th = log_time_text t"
    using assms(2,4) by (auto simp: cache_ok_def)
  from formatTime_text [OF assms(1-3) this] obtain th' where th': "cache_ok zone th'"
      "formatTime zone now th (FixedBuffer_new kSmallBuffer) =
       Inr (th', fb_append (us_text zone now) (fb_append (log_time_text t) (FixedBuffer_new kSmallBuffer)))"
    by blast
  have "fb_inv (FixedBuffer_new kSmallBuffer)" by (simp add: fb_inv_def FixedBuffer_new_def)
  from log_outs_ok [OF this assms(5)] obtain b where b: "log_outs ?as (FixedBuffer_new kSmallBuffer) = Inr b"
      "fb_content b = concat (map arg_text ?as)"
    using assms(6) by (auto simp: fb_avail_def FixedBuffer_new_def kSmallBuffer_def)
  from log_statement_record [OF th'(2) b(1)] b(2) th'(1) show ?thesis by auto
qed

definition epoch_thread :: log_thread where
  "epoch_thread = \<lparr>t_time = ''19700101 00:00:00'', t_lastSecond = 0\<rparr>"

lemma epoch_text:
  "gmtime_r 0 = \<lparr>tm_sec = 0, tm_min = 0, tm_hour = 0, tm_mday = 1, tm_mon = 0, tm_year = 70, tm_wday = 4, tm_yday = 0,
     tm_isdst = False, tm_gmtoff = 0, tm_zone = ''GMT''\<rparr>" "log_time_text (gmtime_r 0) = ''19700101 00:00:00''"
proof -
  have j: "getJulianDayNumber 1970 1 1 = 2440588" using julian_1970 unfolding kJulianDayOf1970_01_01_def .
  have y: "getYearMonthDay 2440588 = \<lparr>year = 1970, month = 1, day = 1\<rparr>"
    using getYearMonthDay_julian [of "\<lparr>year = 1970, month = 1, day = 1\<rparr>"]
    by (simp add: julian_def j valid_ymd_def days_in_month_def)
  show g: "gmtime_r 0 = \<lparr>tm_sec = 0, tm_min = 0, tm_hour = 0, tm_mday = 1, tm_mon = 0, tm_year = 70, tm_wday = 4, tm_yday = 0,
     tm_isdst = False, tm_gmtoff = 0, tm_zone = ''GMT''\<rparr>"
    by (simp add: gmtime_r_def toUtcTime_parts fillHMS_def zero_tm_def y j weekDay_def kDaysPerWeek_def smod_nonneg Let_def)
  show "log_time_text (gmtime_r 0) = ''19700101 00:00:00''"
    unfolding g by (simp add: log_time_text_def fmt_d_def fmt_0d_def pad_left_def show_int_def show_nat.simps digit_chars)
qed

theorem log_statement_line_witness:
  "\<exists>th'. cache_ok None th' \<and> log_statement None 5 ''1 '' (\<lambda>e. []) 0 ''a/b.cc'' 7 (LogPlain WARN) [ACString (Some ''hi'')] epoch_thread [] =
     Inr (th', [concat (map arg_text (record_args ''19700101 00:00:00'' (us_text None 5) ''1 '' (\<lambda>e. []) 0 ''a/b.cc'' 7
        (LogPlain WARN) [ACString (Some ''hi'')]))], Inr ())"
proof -
  have "us_text None 5 = ''.000005Z ''"
    by (simp add: us_text_def fmt_0d_def pad_left_def show_nat.simps digit_chars) (simp add: numeral_eq_Suc)
  moreover have "show_int 7 = ''7''" by (simp add: show_int_def show_nat.simps digit_chars)
  ultimately show ?thesis
    using log_statement_line [of 5 None "gmtime_r 0" epoch_thread "''1 ''" "\<lambda>e. []" 0 "''a/b.cc''" 7 "LogPlain WARN" "[ACString (Some ''hi'')]" "[]"]
    by (simp add: epoch_text(2) cache_ok_def epoch_thread_def log_tm_def record_args_def SourceFile_def)
qed

text \<open>Changing the time zone does not invalidate the cached second: until the second changes, lines show the
  time of the old zone.\<close>

lemma stale_cache_after_setTimeZone:
  assumes "0 \<le> now" and "t_lastSecond th = now div 1000000" and "length (t_time th) = 17"
  shows "formatTime zone now th b = Inr (th, fb_append (us_text zone now) (fb_append (t_time th) b))"
proof -
  have "now sdiv kMicroSecondsPerSecond = t_lastSecond th" "cast_int (now smod kMicroSecondsPerSecond) = now mod 1000000"
    using assms pos_mod_bound [of 1000000 now] pos_mod_sign [of 1000000 now]
    by (auto simp: kMicroSecondsPerSecond_def sdiv_nonneg smod_nonneg fits_int_def int_min_def int_max_def intro!: cast_int_id)
  moreover have "length (fmt_0d 6 (now mod 1000000)) = 6"
    using length_fmt_0d [of "nat (now mod 1000000)" 6] pos_mod_bound [of 1000000 now] pos_mod_sign [of 1000000 now] by simp
  ultimately show ?thesis using assms(3) by (simp add: formatTime_def Let_def out_T_def us_text_def)
qed

end
