(* ===== verification/LogFile.thy ===== *)
theory LogFile
  imports Logging
begin

section \<open>Log files (\<open>base/FileUtil.cc\<close>, \<open>base/LogFile.cc\<close>)\<close>

text \<open>
  An append-only file is its name and the bytes written. Whether \<open>fopen\<close> opens the file is a parameter of the constructor. The results of
  \<open>fwrite\<close> are a list of counts; when it is used up every write is complete. The clock readings of \<open>time\<close>, the host name and the process
  id are parameters.\<close>

record appendfile =
  af_name :: string
  af_data :: bytes
  writtenBytes :: nat

definition AppendFile_new :: "bool \<Rightarrow> string \<Rightarrow> appendfile res" where
  "AppendFile_new opened filename = cassert opened (Inr \<lparr>af_name = filename, af_data = [], writtenBytes = 0\<rparr>)"

fun append_loop :: "nat list \<Rightarrow> bytes \<Rightarrow> bytes \<Rightarrow> bytes" where
  "append_loop ans [] data = data"
| "append_loop [] rest data = data @ rest"
| "append_loop (x # ans) rest data = (if x = 0 then data else append_loop ans (drop x rest) (data @ take x rest))"

definition af_append :: "nat list \<Rightarrow> bytes \<Rightarrow> appendfile \<Rightarrow> appendfile" where
  "af_append ans logline f =
     (let data = (case ans of [] \<Rightarrow> af_data f @ logline
                  | n # ans \<Rightarrow> append_loop ans (drop n logline) (af_data f @ take n logline))
      in f\<lparr>af_data := data, writtenBytes := writtenBytes f + length logline\<rparr>)"

text \<open>Reading a small file: the answers of \<open>read\<close> in order, a chunk or an error.\<close>

fun readToString_loop :: "nat \<Rightarrow> (bytes + int) list \<Rightarrow> bytes \<Rightarrow> int \<Rightarrow> bytes \<times> int" where
  "readToString_loop maxSize [] content err = (content, err)"
| "readToString_loop maxSize (r # rs) content err =
     (if length content < maxSize
      then let toRead = min (maxSize - length content) (64 * 1024) in
           case r of
             Inl chunk \<Rightarrow> (let buf = take toRead chunk in
                           if buf \<noteq> [] then readToString_loop maxSize rs (content @ buf) err else (content, err))
           | Inr e \<Rightarrow> (content, e)
      else (content, err))"

text \<open>What \<open>fstat\<close> says of the descriptor: size, modification and creation time of a regular file; the
  two times of a directory or of anything else.\<close>

datatype stat_result = StatError int | StatRegular int int int | StatDirectory int int | StatOther int int

record file_info =
  fi_size :: "int option"
  fi_modify :: "int option"
  fi_create :: "int option"

definition eISDIR :: int where "eISDIR = 21"

definition read_stat :: "stat_result \<Rightarrow> int \<Rightarrow> int \<times> file_info" where
  "read_stat st err =
     (case st of
        StatError e \<Rightarrow> (e, \<lparr>fi_size = None, fi_modify = None, fi_create = None\<rparr>)
      | StatRegular n m c \<Rightarrow> (err, \<lparr>fi_size = Some n, fi_modify = Some m, fi_create = Some c\<rparr>)
      | StatDirectory m c \<Rightarrow> (eISDIR, \<lparr>fi_size = None, fi_modify = Some m, fi_create = Some c\<rparr>)
      | StatOther m c \<Rightarrow> (err, \<lparr>fi_size = None, fi_modify = Some m, fi_create = Some c\<rparr>))"

text \<open>The descriptor is the error of \<open>open\<close>, or the answers of \<open>read\<close>; the caller passes pointers for all of the
  file's data or for none.\<close>

definition readToString :: "(int + (bytes + int) list) \<Rightarrow> stat_result option \<Rightarrow> nat \<Rightarrow> bytes \<Rightarrow> bytes \<times> int \<times> file_info" where
  "readToString fd wanted maxSize content =
     (let none = \<lparr>fi_size = None, fi_modify = None, fi_create = None\<rparr> in
      case fd of Inl err \<Rightarrow> (content, err, none)
      | Inr rs \<Rightarrow>
          (let (err, info) = (case wanted of None \<Rightarrow> (0, none) | Some st \<Rightarrow> read_stat st 0);
               (content, err) = readToString_loop maxSize rs [] err
           in (content, err, info)))"

lemma readToString_bounded: "length content \<le> maxSize \<Longrightarrow> length (fst (readToString_loop maxSize rs content err)) \<le> maxSize"
  by (induction maxSize rs content err rule: readToString_loop.induct) (auto simp: Let_def split: sum.splits)


text \<open>Reading into the buffer of the object, with one \<open>pread\<close> of at most one byte less than the buffer has and a
  terminating zero.\<close>

definition kBufferSize :: nat where "kBufferSize = 64 * 1024"

definition ReadSmallFile_new :: "bytes \<Rightarrow> bytes" where "ReadSmallFile_new garbage = garbage[0 := CHR 0x00]"

definition readToBuffer :: "(int + (bytes + int)) \<Rightarrow> bytes \<Rightarrow> int \<times> nat option \<times> bytes" where
  "readToBuffer fd buf =
     (case fd of Inl err \<Rightarrow> (err, None, buf)
      | Inr (Inr e) \<Rightarrow> (e, None, buf)
      | Inr (Inl chunk) \<Rightarrow>
          (let got = take (kBufferSize - 1) chunk; n = length got in (0, Some n, (overwrite buf 0 got)[n := CHR 0x00])))"

lemma readToBuffer_fits:
  assumes "length buf = kBufferSize" and "readToBuffer fd (ReadSmallFile_new buf) = (err, got_size, buf')"
  shows "length buf' = kBufferSize \<and> CHR 0x00 \<in> set buf' \<and>
    (\<forall>n. got_size = Some n \<longrightarrow> n < kBufferSize \<and> buf' ! n = CHR 0x00 \<and> (\<exists>chunk. fd = Inr (Inl chunk) \<and> take n buf' = take (kBufferSize - 1) chunk))"
proof (cases "\<exists>chunk. fd = Inr (Inl chunk)")
  case True
  then obtain chunk where fd: "fd = Inr (Inl chunk)" by blast
  define got where "got = take (kBufferSize - 1) chunk"
  have n: "length got < kBufferSize" by (simp add: got_def kBufferSize_def)
  define b where "b = overwrite (ReadSmallFile_new buf) 0 got"
  have b: "length b = kBufferSize" "take (length got) b = got"
    using n assms(1) by (simp_all add: b_def overwrite_def ReadSmallFile_new_def)
  have r: "err = 0" "got_size = Some (length got)" "buf' = b[length got := CHR 0x00]"
    using assms(2) by (auto simp: readToBuffer_def fd Let_def got_def b_def)
  have "b[length got := CHR 0x00] ! length got = CHR 0x00" using n b(1) by simp
  moreover have "CHR 0x00 \<in> set (b[length got := CHR 0x00])" using n b(1) by (simp add: set_update_memI)
  ultimately show ?thesis using r n b fd by (simp add: got_def)
next
  case False
  then have "buf' = ReadSmallFile_new buf" "got_size = None"
    using assms(2) by (auto simp: readToBuffer_def split: sum.splits)
  moreover have "0 < length buf" using assms(1) by (simp add: kBufferSize_def)
  ultimately show ?thesis using assms(1) by (simp add: ReadSmallFile_new_def set_update_memI)
qed


subsection \<open>Rolling log files\<close>

definition kRollPerSeconds :: int where "kRollPerSeconds = 60 * 60 * 24"

record logfile =
  lf_basename :: string
  rollSize :: nat
  flushInterval :: int
  checkEveryN :: nat
  lf_count :: nat
  startOfPeriod :: int
  lastRoll :: int
  lastFlush :: int
  lf_old :: "appendfile list"
  lf_file :: "appendfile option"

definition getLogFileName :: "string \<Rightarrow> string \<Rightarrow> int \<Rightarrow> int \<Rightarrow> string" where
  "getLogFileName hostname basename pid now =
     (let tm = gmtime_r now
      in basename @ ''.'' @ show_int (tm_year tm + 1900) @ fmt_0d 2 (tm_mon tm + 1) @ fmt_0d 2 (tm_mday tm) @ ''-'' @
         fmt_0d 2 (tm_hour tm) @ fmt_0d 2 (tm_min tm) @ fmt_0d 2 (tm_sec tm) @ ''.'' @
         hostname @ ''.'' @ show_int pid @ ''.log'')"

definition rollFile :: "(int \<Rightarrow> string) \<Rightarrow> bool \<Rightarrow> int \<Rightarrow> logfile \<Rightarrow> (bool \<times> logfile) res" where
  "rollFile fname opened now l =
     (let start = now sdiv kRollPerSeconds * kRollPerSeconds
      in if lastRoll l < now
         then let l = l\<lparr>lastRoll := now, lastFlush := now, startOfPeriod := start\<rparr>
              in rbind (AppendFile_new opened (fname now)) (\<lambda>f.
                 Inr (True, l\<lparr>lf_old := lf_old l @ (case lf_file l of Some f \<Rightarrow> [f] | None \<Rightarrow> []), lf_file := Some f\<rparr>))
         else Inr (False, l))"

definition LogFile_new :: "bool \<Rightarrow> string \<Rightarrow> string \<Rightarrow> int \<Rightarrow> int \<Rightarrow> nat \<Rightarrow> int \<Rightarrow> nat \<Rightarrow> logfile res" where
  "LogFile_new opened hostname basename pid now rsize interval everyN =
     cassert (CHR ''/'' \<notin> set basename)
     (rbind (rollFile (getLogFileName hostname basename pid) opened now
        \<lparr>lf_basename = basename, rollSize = rsize, flushInterval = interval, checkEveryN = everyN, lf_count = 0,
         startOfPeriod = 0, lastRoll = 0, lastFlush = 0, lf_old = [], lf_file = None\<rparr>) (\<lambda>(_, l). Inr l))"

text \<open>The surroundings of one call of \<open>append\<close>: the two clock readings, whether \<open>fopen\<close> succeeds if the file is rolled, and the answers of \<open>fwrite\<close>.\<close>

type_synonym append_env = "int \<times> int \<times> bool \<times> nat list"

definition append_unlocked :: "(int \<Rightarrow> string) \<Rightarrow> append_env \<Rightarrow> bytes \<Rightarrow> logfile \<Rightarrow> logfile res" where
  "append_unlocked fname env logline l =
     (case env of (now, rnow, opened, ans) \<Rightarrow>
      case lf_file l of None \<Rightarrow> Inl UndefinedBehaviour
      | Some f \<Rightarrow>
          let f = af_append ans logline f; l = l\<lparr>lf_file := Some f\<rparr> in
          if rollSize l < writtenBytes f then rbind (rollFile fname opened rnow l) (\<lambda>(_, l). Inr l)
          else
            let l = l\<lparr>lf_count := lf_count l + 1\<rparr> in
            if checkEveryN l \<le> lf_count l
            then let l = l\<lparr>lf_count := 0\<rparr>; thisPeriod = now sdiv kRollPerSeconds * kRollPerSeconds in
                 if thisPeriod \<noteq> startOfPeriod l then rbind (rollFile fname opened rnow l) (\<lambda>(_, l). Inr l)
                 else if flushInterval l < now - lastFlush l then Inr (l\<lparr>lastFlush := now\<rparr>)
                 else Inr l
            else Inr l)"

fun lf_appends :: "(int \<Rightarrow> string) \<Rightarrow> (append_env \<times> bytes) list \<Rightarrow> logfile \<Rightarrow> logfile res" where
  "lf_appends fname [] l = Inr l"
| "lf_appends fname ((env, line) # calls) l = rbind (append_unlocked fname env line l) (lf_appends fname calls)"

definition lf_files :: "logfile \<Rightarrow> appendfile list" where
  "lf_files l = lf_old l @ (case lf_file l of Some f \<Rightarrow> [f] | None \<Rightarrow> [])"

text \<open>What reaches the file. Short writes lose nothing as long as each makes progress.\<close>

definition af_written :: "nat list \<Rightarrow> bytes \<Rightarrow> bytes" where
  "af_written ans line = (case ans of [] \<Rightarrow> line | n # ans \<Rightarrow> append_loop ans (drop n line) (take n line))"

fun call_opens :: "append_env \<times> bytes \<Rightarrow> bool" where "call_opens ((now, rnow, opened, ans), line) = opened"

fun cut_short :: "append_env \<times> bytes \<Rightarrow> bool" where "cut_short ((now, rnow, opened, ans), line) = (af_written ans line \<noteq> line)"

lemma append_loop_complete: "0 \<notin> set ans \<Longrightarrow> append_loop ans rest data = data @ rest"
  by (induction ans rest data rule: append_loop.induct) auto

lemma append_loop_acc: "append_loop ans rest (d @ data) = d @ append_loop ans rest data"
  by (induction ans rest data rule: append_loop.induct) auto

lemma af_written_complete: "0 \<notin> set (tl ans) \<Longrightarrow> af_written ans line = line"
  by (cases ans) (auto simp: af_written_def append_loop_complete)

lemma af_append_data: "af_data (af_append ans line f) = af_data f @ af_written ans line"
  by (cases ans) (auto simp: af_append_def af_written_def append_loop_acc)

lemma rollFile_files:
  assumes "lf_file l \<noteq> None"
  shows "(\<exists>b l'. rollFile fname opened now l = Inr (b, l') \<and> lf_file l' \<noteq> None \<and>
      (map af_data (lf_files l') = map af_data (lf_files l) \<or> map af_data (lf_files l') = map af_data (lf_files l) @ [[]])) \<or>
    rollFile fname opened now l = Inl AssertFail \<and> \<not> opened"
  using assms by (cases opened) (auto simp: rollFile_def lf_files_def AppendFile_new_def Let_def)

lemma append_unlocked_files:
  assumes "lf_file l = Some f"
  shows "(\<exists>l'. append_unlocked fname env line l = Inr l' \<and> lf_file l' \<noteq> None \<and>
    (map af_data (lf_files l') = map af_data (lf_old l) @ [af_data f @ af_written (snd (snd (snd env))) line] \<or>
     map af_data (lf_files l') = map af_data (lf_old l) @ [af_data f @ af_written (snd (snd (snd env))) line] @ [[]])) \<or>
    append_unlocked fname env line l = Inl AssertFail \<and> \<not> call_opens (env, line)"
proof -
  obtain now rnow opened ans where env: "env = (now, rnow, opened, ans)" by (cases env)
  let ?l = "l\<lparr>lf_file := Some (af_append ans line f)\<rparr>"
  have data: "map af_data (lf_files ?l) = map af_data (lf_old l) @ [af_data f @ af_written ans line]"
    by (simp add: lf_files_def af_append_data)
  have same: "lf_files (?l\<lparr>lf_count := n\<rparr>) = lf_files ?l" "lf_files (?l\<lparr>lf_count := n, lastFlush := t\<rparr>) = lf_files ?l" for n t
    by (simp_all add: lf_files_def)
  note roll = rollFile_files [of ?l fname opened rnow] rollFile_files [of "?l\<lparr>lf_count := 0\<rparr>" fname opened rnow]
  consider "append_unlocked fname env line l = rbind (rollFile fname opened rnow ?l) (\<lambda>(_, l). Inr l)"
    | "append_unlocked fname env line l = rbind (rollFile fname opened rnow (?l\<lparr>lf_count := 0\<rparr>)) (\<lambda>(_, l). Inr l)"
    | n where "append_unlocked fname env line l = Inr (?l\<lparr>lf_count := n\<rparr>)"
    | n t where "append_unlocked fname env line l = Inr (?l\<lparr>lf_count := n, lastFlush := t\<rparr>)"
  proof -
    have "append_unlocked fname env line l = rbind (rollFile fname opened rnow ?l) (\<lambda>(_, l). Inr l) \<or>
      append_unlocked fname env line l = rbind (rollFile fname opened rnow (?l\<lparr>lf_count := 0\<rparr>)) (\<lambda>(_, l). Inr l) \<or>
      append_unlocked fname env line l = Inr (?l\<lparr>lf_count := lf_count l + 1\<rparr>) \<or>
      append_unlocked fname env line l = Inr (?l\<lparr>lf_count := 0\<rparr>) \<or>
      append_unlocked fname env line l = Inr (?l\<lparr>lf_count := 0, lastFlush := now\<rparr>)"
      using assms by (simp add: append_unlocked_def env Let_def)
    then show thesis using that by blast
  qed
  then show ?thesis
  proof cases
    case 1
    with roll(1) data show ?thesis by (auto simp: env)
  next
    case 2
    with roll(2) data show ?thesis by (auto simp: env same)
  qed (use data in \<open>auto simp: env same\<close>)
qed

text \<open>A sequence of appends fails only when a file cannot be opened.\<close>

lemma lf_appends_file:
  assumes "lf_file l \<noteq> None"
  shows "(\<exists>l'. lf_appends fname calls l = Inr l' \<and> lf_file l' \<noteq> None) \<or>
    lf_appends fname calls l = Inl AssertFail \<and> (\<exists>c \<in> set calls. \<not> call_opens c)"
  using assms
proof (induction calls arbitrary: l)
  case (Cons c calls)
  obtain env line where c: "c = (env, line)" by (cases c)
  obtain f where "lf_file l = Some f" using Cons.prems by blast
  from append_unlocked_files [OF this, of fname env line] consider l' where "append_unlocked fname env line l = Inr l'" "lf_file l' \<noteq> None"
    | "append_unlocked fname env line l = Inl AssertFail" "\<not> call_opens (env, line)" by blast
  then show ?case
  proof cases
    case (1 l')
    with Cons.IH [of l'] c show ?thesis by auto
  qed (use c in simp)
qed simp

text \<open>What is appended in one call stays together: pieces that each consist of several lines end up whole in one file, if no write failed.\<close>

lemma lf_appends_groups:
  assumes "lf_file l \<noteq> None" and "map af_data (lf_files l) = map concat groups"
    and "map snd calls = map concat pieces" and "lf_appends fname calls l = Inr l'" and "\<not> list_ex cut_short calls"
  shows "\<exists>groups'. map af_data (lf_files l') = map concat groups' \<and> concat groups' = concat groups @ concat pieces"
  using assms
proof (induction calls arbitrary: l groups pieces)
  case (Cons c calls)
  obtain env line where c: "c = (env, line)" by (cases c)
  obtain p ps where ps: "pieces = p # ps" "line = concat p" "map snd calls = map concat ps"
    using Cons.prems(3) c by (cases pieces) auto
  obtain f where f: "lf_file l = Some f" using Cons.prems by blast
  then obtain gs g where g: "groups = gs @ [g]" "map af_data (lf_old l) = map concat gs" "af_data f = concat g"
    using Cons.prems(2) by (cases groups rule: rev_cases) (auto simp: lf_files_def)
  have w: "af_written (snd (snd (snd env))) line = line" using Cons.prems(5) c by (cases env) auto
  obtain l1 where l1: "append_unlocked fname env line l = Inr l1" "lf_appends fname calls l1 = Inr l'"
    using Cons.prems(4) c by auto
  then have l1': "lf_file l1 \<noteq> None"
      "map af_data (lf_files l1) = map af_data (lf_old l) @ [af_data f @ line] \<or>
       map af_data (lf_files l1) = map af_data (lf_old l) @ [af_data f @ line] @ [[]]"
    using append_unlocked_files [OF f, of fname env line] w by auto
  have "\<exists>groups1. map af_data (lf_files l1) = map concat groups1 \<and> concat groups1 = concat groups @ p"
    using l1'(2)
  proof
    assume "map af_data (lf_files l1) = map af_data (lf_old l) @ [af_data f @ line]"
    then show ?thesis using g ps(2) by (intro exI [of _ "gs @ [g @ p]"]) simp
  next
    assume "map af_data (lf_files l1) = map af_data (lf_old l) @ [af_data f @ line] @ [[]]"
    then show ?thesis using g ps(2) by (intro exI [of _ "gs @ [g @ p, []]"]) simp
  qed
  then obtain groups1 where g1: "map af_data (lf_files l1) = map concat groups1" "concat groups1 = concat groups @ p"
    by blast
  from Cons.IH [OF l1'(1) g1(1) ps(3) l1(2)] g1(2) ps(1) Cons.prems(5) show ?case by auto
qed auto

text \<open>No log line is lost or split. However the clock moves and whenever the file is rolled, by size or
  by day, after any sequence of appends in which every file could be opened and no write failed, the files in the order they were opened
  hold the lines in order, each line whole in one file.\<close>

theorem log_lines_complete:
  assumes "lf_file l \<noteq> None" and "map af_data (lf_files l) = map concat groups"
    and "\<forall>c \<in> set calls. call_opens c" and "\<not> list_ex cut_short calls"
  shows "\<exists>l' groups'. lf_appends fname calls l = Inr l' \<and> map af_data (lf_files l') = map concat groups' \<and>
    concat groups' = concat groups @ map snd calls"
proof -
  have p: "map snd calls = map concat (map (\<lambda>c. [snd c]) calls)" "concat (map (\<lambda>c. [snd c]) calls) = map snd calls"
    by (induction calls) auto
  from lf_appends_file [OF assms(1)] assms(3) obtain l' where "lf_appends fname calls l = Inr l'" by blast
  with lf_appends_groups [OF assms(1,2) p(1) this assms(4)] p(2) show ?thesis by auto
qed

lemma concat_map_concat: "concat (map concat xss) = concat (concat xss)"
  by (induction xss) auto

definition sample_logfile :: logfile where
  "sample_logfile = \<lparr>lf_basename = [], rollSize = 1, flushInterval = 3, checkEveryN = 9, lf_count = 0,
         startOfPeriod = 0, lastRoll = 4, lastFlush = 4, lf_old = [], lf_file = Some \<lparr>af_name = [], af_data = [], writtenBytes = 0\<rparr>\<rparr>"

theorem log_lines_complete_witness:
  "\<exists>l'. lf_appends (\<lambda>t. []) [((5, 5, True, []), ''ab''), ((6, 6, True, [0, 1]), ''c'')] sample_logfile = Inr l' \<and>
     concat (map af_data (lf_files l')) = ''abc''"
proof -
  have "lf_file sample_logfile \<noteq> None" "map af_data (lf_files sample_logfile) = map concat [[]]"
    by (simp_all add: sample_logfile_def lf_files_def)
  from log_lines_complete [OF this, of "[((5, 5, True, []), ''ab''), ((6, 6, True, [0, 1]), ''c'')]" "\<lambda>t. []"]
  obtain l' groups' where "lf_appends (\<lambda>t. []) [((5, 5, True, []), ''ab''), ((6, 6, True, [0, 1]), ''c'')] sample_logfile = Inr l'"
      "map af_data (lf_files l') = map concat groups'" "concat groups' = [''ab'', ''c'']"
    by (auto simp: af_written_def)
  moreover then have "concat (map af_data (lf_files l')) = concat (concat groups')" by (simp add: concat_map_concat)
  ultimately show ?thesis by auto
qed

end
