(* ===== verification/Runs.thy ===== *)
theory Runs
  imports Prelude
begin

section \<open>Runs of concurrent components\<close>

text \<open>
  The concurrent components are step relations: a state is related to the result of a step, which may be a failed
  assertion or undefined behaviour. A run is a sequence of steps that goes on as long as the result is a
  state. In a component of the locale \<open>checked_steps\<close> a step from a state with the invariant keeps the invariant or fails in
  a way that is named; then every run keeps it or ends with a named failure. A component is safe when no
  step from a state with its invariant fails; then no run fails.
\<close>

inductive runs :: "('s \<Rightarrow> 's res \<Rightarrow> bool) \<Rightarrow> 's \<Rightarrow> 's res \<Rightarrow> bool" for step s0 where
  Start: "runs step s0 (Inr s0)"
| Step: "runs step s0 (Inr s) \<Longrightarrow> step s r \<Longrightarrow> runs step s0 r"

lemma runs_one: "step s0 r \<Longrightarrow> runs step s0 r"
  by (rule runs.Step [OF runs.Start])

lemma runs_next:
  assumes "runs step s0 (Inr s)" and "step s r" and "r = Inr t"
  shows "runs step s0 (Inr t)"
  using runs.Step [of step, OF assms(1,2)] assms(3) by simp

lemma runs_trans:
  assumes "runs step s r" and "runs step s0 (Inr s)"
  shows "runs step s0 r"
  using assms by (induction rule: runs.induct) (auto intro: runs.Step)

lemma runs_bind:
  assumes "runs step s0 r" and "\<And>s. step s (f s) \<or> f s = Inr s"
  shows "runs step s0 (rbind r f)"
proof (cases r)
  case (Inr s)
  with assms(1) runs.Step [of step s0 s "f s"] assms(2) [of s] show ?thesis by auto
qed (use assms(1) in simp)

text \<open>A component that can always do a step towards its goal, as measured by a number, can reach it.\<close>

lemma runs_progress:
  assumes "P s" and "\<And>s. P s \<Longrightarrow> \<not> goal s \<Longrightarrow> \<exists>s'. step s (Inr s') \<and> P s' \<and> (rank s' :: nat) < rank s"
  shows "\<exists>s'. runs step s (Inr s') \<and> P s' \<and> goal s'"
  using assms(1)
proof (induction "rank s" arbitrary: s rule: less_induct)
  case less
  show ?case
  proof (cases "goal s")
    case True
    then show ?thesis by (intro exI conjI) (rule runs.Start, rule less.prems, assumption)
  next
    case False
    from assms(2) [OF less.prems False] obtain s' where s': "step s (Inr s')" "P s'" "rank s' < rank s" by blast
    from less.hyps [OF s'(3,2)] obtain t where t: "runs step s' (Inr t)" "P t" "goal t" by blast
    have "runs step s (Inr t)" by (rule runs_trans [OF t(1)]) (rule runs_one, rule s'(1))
    with t(2,3) show ?thesis by blast
  qed
qed

locale checked_steps =
  fixes step :: "'s \<Rightarrow> 's res \<Rightarrow> bool" and inv :: "'s \<Rightarrow> bool" and bad :: "'s \<Rightarrow> cpp_error \<Rightarrow> bool"
  assumes step_checked: "step s r \<Longrightarrow> inv s \<Longrightarrow> (\<exists>s'. r = Inr s' \<and> inv s') \<or> (\<exists>e. r = Inl e \<and> bad s e)"
begin

lemma runs_checked:
  assumes "runs step s0 r" and "inv s0"
  shows "(\<exists>s. r = Inr s \<and> inv s) \<or> (\<exists>s e. runs step s0 (Inr s) \<and> inv s \<and> r = Inl e \<and> bad s e)"
  using assms
proof (induction rule: runs.induct)
  case (Step s r)
  then have "inv s" by auto
  with step_checked [OF Step.hyps(2)] Step.hyps(1) show ?case by blast
qed simp

lemma runs_inv: "runs step s0 (Inr s) \<Longrightarrow> inv s0 \<Longrightarrow> inv s"
  using runs_checked [of s0 "Inr s"] by auto

end

locale safe_steps =
  fixes step :: "'s \<Rightarrow> 's res \<Rightarrow> bool" and inv :: "'s \<Rightarrow> bool"
  assumes step_safe: "step s r \<Longrightarrow> inv s \<Longrightarrow> \<exists>s'. r = Inr s' \<and> inv s'"
begin

lemma runs_safe:
  assumes "runs step s0 r" and "inv s0"
  shows "\<exists>s. r = Inr s \<and> inv s"
  using assms
proof (induction rule: runs.induct)
  case (Step s r)
  then show ?case using step_safe by auto
qed simp

end

sublocale safe_steps \<subseteq> checked_steps step inv "\<lambda>s e. False"
  by unfold_locales (blast dest: step_safe)

end
