(* ===== verification/LogPipeline.thy ===== *)
theory LogPipeline
  imports AsyncLogging LogFile Runs
begin

section \<open>From a log statement to the log files\<close>

text \<open>
  The parts of logging put together, as the programs that use the library do it: the output function of \<open>Logger\<close> is
  \<open>AsyncLogging::append\<close>, and the logging thread writes to a \<open>LogFile\<close> of its own. A step is a log statement of some thread, up to and
  including the call of \<open>append\<close>, or a step of the logging thread. Each thread has its own cache of the formatted second, empty at first. The files are
  written inside \<open>Write\<close>: first the note on dropped messages, if there is one, then each buffer with one call of
  \<open>LogFile::append\<close>; whether \<open>fopen\<close> succeeds and how much each \<open>fwrite\<close> takes is arbitrary, and \<open>pl_cut\<close> records that some
  buffer was not written to its end. A log statement can fail: \<open>Fmt\<close> and \<open>formatTime\<close> have assertions, and a fatal one aborts.
\<close>

record pipeline =
  pl_async :: async
  pl_file :: logfile
  pl_threads :: "nat \<Rightarrow> log_thread"
  pl_cut :: bool

record log_call =
  lc_thread :: nat
  lc_zone :: "tzdata option"
  lc_now :: int
  lc_tid :: string
  lc_strerror :: "int \<Rightarrow> string"
  lc_errno :: int
  lc_source :: string
  lc_line :: int
  lc_kind :: log_kind
  lc_args :: "log_arg list"

text \<open>What the logging thread hands to \<open>LogFile::append\<close> in one round, in order.\<close>

definition async_chunks :: "string \<Rightarrow> async \<Rightarrow> bytes list" where
  "async_chunks now s =
     (let bs = buffersToWrite s in
      if 25 < length bs then dropNote now (length bs - 2) # map fb_content (take 2 bs) else map fb_content bs)"

definition pl_write :: "(int \<Rightarrow> string) \<Rightarrow> string \<Rightarrow> append_env list \<Rightarrow> pipeline \<Rightarrow> pipeline res" where
  "pl_write fname now envs p =
     (let calls = zip envs (async_chunks now (pl_async p)) in
      rbind (async_write now (pl_async p)) (\<lambda>s.
      rbind (lf_appends fname calls (pl_file p)) (\<lambda>l.
      Inr (p\<lparr>pl_async := s, pl_file := l, pl_cut := pl_cut p \<or> list_ex cut_short calls\<rparr>))))"

definition pl_log :: "string list \<Rightarrow> pipeline \<Rightarrow> pipeline" where
  "pl_log lines p = p\<lparr>pl_async := fold async_append lines (pl_async p)\<rparr>"

definition log_call_result :: "log_call \<Rightarrow> log_thread \<Rightarrow> (log_thread \<times> string list \<times> unit res) res" where
  "log_call_result q th = log_statement (lc_zone q) (lc_now q) (lc_tid q) (lc_strerror q) (lc_errno q) (lc_source q) (lc_line q) (lc_kind q) (lc_args q) th []"

definition pl_statement :: "log_call \<Rightarrow> pipeline \<Rightarrow> pipeline res" where
  "pl_statement q p =
     rbind (log_call_result q (pl_threads p (lc_thread q))) (\<lambda>(th, lines, r).
     rbind r (\<lambda>_. Inr (pl_log lines (p\<lparr>pl_threads := (pl_threads p)(lc_thread q := th)\<rparr>))))"

inductive pl_step :: "(int \<Rightarrow> string) \<Rightarrow> pipeline \<Rightarrow> pipeline res \<Rightarrow> bool" for fname where
  Statement: "pl_step fname p (pl_statement q p)"
| Swap: "phase (pl_async p) = AtTop \<Longrightarrow> running (pl_async p) \<Longrightarrow>
    pl_step fname p (rbind (async_swap (pl_async p)) (\<lambda>s. Inr (p\<lparr>pl_async := s\<rparr>)))"
| Write: "phase (pl_async p) = Writing \<Longrightarrow> length envs = length (async_chunks now (pl_async p)) \<Longrightarrow>
    pl_step fname p (pl_write fname now envs p)"
| Stop: "pl_step fname p (Inr (p\<lparr>pl_async := (pl_async p)\<lparr>running := False\<rparr>\<rparr>))"
| Exit: "phase (pl_async p) = AtTop \<Longrightarrow> \<not> running (pl_async p) \<Longrightarrow>
    pl_step fname p (Inr (p\<lparr>pl_async := (pl_async p)\<lparr>phase := Exited\<rparr>\<rparr>))"

text \<open>Log statements that do not fail: not fatal, executed after the first second of 1970 at a time that the zone can convert and whose year has at
  most four digits, with formatted numbers of less than 32 characters; the other conditions hold for values of the C++ types.\<close>

definition statement_ok :: "log_call \<Rightarrow> bool" where
  "statement_ok q \<longleftrightarrow> kind_level (lc_kind q) \<noteq> FATAL \<and> 1000000 \<le> lc_now q \<and>
     (\<exists>t. log_tm (lc_zone q) (lc_now q div 1000000) = Inr t \<and> length (log_time_text t) = 17) \<and>
     (\<forall>a \<in> set (lc_args q). arg_ok a) \<and> fits_int (lc_errno q) \<and> fits_int (lc_line q)"


subsection \<open>Lines are shorter than the buffers of the logging thread\<close>

lemma log_out_inv: "log_out a b = Inr b' \<Longrightarrow> fb_inv b \<Longrightarrow> fb_inv b' \<and> fb_size b' = fb_size b"
  by (cases a) (auto simp: fb_inv_def fb_append_def fb_avail_def formatInteger_def out_ptr_def out_double_def fb_write_def
      split: if_splits option.splits)

lemma log_outs_inv: "log_outs as b = Inr b' \<Longrightarrow> fb_inv b \<Longrightarrow> fb_inv b' \<and> fb_size b' = fb_size b"
proof (induction as arbitrary: b)
  case (Cons a as)
  then obtain c where "log_out a b = Inr c" "log_outs as c = Inr b'" by auto
  with log_out_inv [of a b c] Cons show ?case by simp
qed simp

lemma fb_append_inv: "fb_inv b \<Longrightarrow> fb_inv (fb_append s b) \<and> fb_size (fb_append s b) = fb_size b"
  using log_out_inv [of "AString s" b "fb_append s b"] by simp

lemma out_T_inv: "out_T n s b = Inr b' \<Longrightarrow> fb_inv b \<Longrightarrow> fb_inv b' \<and> fb_size b' = fb_size b"
  using fb_append_inv [of b s] by (auto simp: out_T_def)

lemma formatTime_inv: "formatTime zone now th b = Inr (th', b') \<Longrightarrow> fb_inv b \<Longrightarrow> fb_inv b' \<and> fb_size b' = fb_size b"
proof -
  assume b: "formatTime zone now th b = Inr (th', b')" "fb_inv b"
  then obtain n t m u c where "out_T n t b = Inr c" "out_T m u c = Inr b'"
    by (cases zone) (auto simp: formatTime_def Let_def)
  with out_T_inv [of n t b c] out_T_inv [of m u c b'] b(2) show ?thesis by simp
qed

lemma Impl_new_inv:
  assumes "Impl_new zone now tid strerror level err file line th = Inr (th', i)"
  shows "fb_inv (li_stream i) \<and> fb_size (li_stream i) = kSmallBuffer"
proof -
  have 0: "fb_inv (FixedBuffer_new kSmallBuffer)" "fb_size (FixedBuffer_new kSmallBuffer) = kSmallBuffer"
    by (simp_all add: fb_inv_def FixedBuffer_new_def)
  let ?as = "[ACString (Some (strerror err)), ACString (Some '' (errno=''), AInteger err, ACString (Some '') '')]"
  from assms obtain b1 b2 b3 where b: "formatTime zone now th (FixedBuffer_new kSmallBuffer) = Inr (th', b1)"
      "out_T (length tid) tid b1 = Inr b2" "out_T 6 (LogLevelName level) b2 = Inr b3"
      "li_stream i = b3 \<or> log_outs ?as b3 = Inr (li_stream i)"
    by (cases "err = 0") (auto simp: Impl_new_def simp del: log_outs.simps)
  from formatTime_inv [OF b(1) 0(1)] out_T_inv [OF b(2)] out_T_inv [OF b(3)] 0(2)
  have "fb_inv b3 \<and> fb_size b3 = kSmallBuffer" by auto
  with b(4) log_outs_inv [of ?as b3 "li_stream i"] show ?thesis by (auto simp del: log_outs.simps)
qed

lemma Logger_new_inv:
  assumes "Logger_new zone now tid strerror err file line kind th = Inr (th', i)"
  shows "fb_inv (li_stream i) \<and> fb_size (li_stream i) = kSmallBuffer"
proof (cases kind)
  case (LogFunc level func)
  with assms obtain j as where "Impl_new zone now tid strerror level 0 file line th = Inr (th', j)"
      "log_outs as (li_stream j) = Inr (li_stream i)"
    by (auto simp: Logger_new_def simp del: log_outs.simps)
  with Impl_new_inv log_outs_inv show ?thesis by metis
qed (use assms Impl_new_inv in \<open>auto simp: Logger_new_def\<close>)

lemma log_statement_short:
  assumes "log_statement zone now tid strerror err file line kind args th [] = Inr (th', lines, Inr ())"
  shows "\<exists>l. lines = [l] \<and> length l < kLargeBuffer"
proof -
  from assms obtain i b where i: "Logger_new zone now tid strerror err (SourceFile file) line kind th = Inr (th', i)"
      "log_outs args (li_stream i) = Inr b" "Logger_dtor (i\<lparr>li_stream := b\<rparr>) [] = (lines, Inr ())"
    by (auto simp: log_statement_def split: prod.splits)
  then obtain as c where c: "log_outs as b = Inr c" "lines = [fb_content c]"
    by (auto simp: Logger_dtor_def finish_def split: sum.splits if_splits simp del: log_outs.simps)
  from Logger_new_inv [OF i(1)] log_outs_inv [OF i(2)] log_outs_inv [OF c(1)] c(2) show ?thesis
    by (auto simp: fb_inv_def kSmallBuffer_def kLargeBuffer_def)
qed


subsection \<open>Statements that do not fail\<close>

definition thread_ok :: "log_thread \<Rightarrow> bool" where
  "thread_ok th \<longleftrightarrow> length (t_time th) = 17 \<or> t_lastSecond th = 0"

lemma formatTime_ok:
  assumes "thread_ok th" and "1000000 \<le> now" and "log_tm zone (now div 1000000) = Inr t" and "length (log_time_text t) = 17"
  shows "\<exists>th' us tt. formatTime zone now th b = Inr (th', fb_append us (fb_append tt b))"
proof (cases "t_lastSecond th = now div 1000000")
  case True
  have "1 \<le> now div 1000000" using assms(2) by simp
  with True assms(1) have "length (t_time th) = 17" unfolding thread_ok_def by linarith
  with stale_cache_after_setTimeZone [OF _ True this] assms(2) show ?thesis by auto
next
  case False
  with formatTime_text [OF _ assms(3,4)] assms(2) show ?thesis by fastforce
qed

lemma statement_succeeds:
  assumes "statement_ok q" and "thread_ok th"
  shows "\<exists>th' l. log_call_result q th = Inr (th', [l], Inr ())"
proof -
  have q: "kind_level (lc_kind q) \<noteq> FATAL" "1000000 \<le> lc_now q" "\<forall>a \<in> set (lc_args q). arg_ok a"
      "fits_int (lc_errno q)" "fits_int (lc_line q)"
    using assms(1) by (simp_all add: statement_ok_def)
  obtain t where t: "log_tm (lc_zone q) (lc_now q div 1000000) = Inr t" "length (log_time_text t) = 17"
    using assms(1) by (auto simp: statement_ok_def)
  from formatTime_ok [OF assms(2) q(2) t] obtain th' us tt where f:
    "formatTime (lc_zone q) (lc_now q) th (FixedBuffer_new kSmallBuffer) = Inr (th', fb_append us (fb_append tt (FixedBuffer_new kSmallBuffer)))"
    by blast
  have int: "arg_ok (AInteger v)" if "fits_int v" for v using that by (auto simp: fits_int_def int_min_def int_max_def)
  have "\<forall>a \<in> set (record_args tt us (lc_tid q) (lc_strerror q) (lc_errno q) (lc_source q) (lc_line q) (lc_kind q) (lc_args q)). arg_ok a"
    using q(3) int [OF q(4)] int [OF q(5)] by (cases "lc_kind q") (auto simp: record_args_def simp del: arg_ok.simps(1) intro: arg_ok.simps(2-))
  moreover have "fb_inv (FixedBuffer_new kSmallBuffer)" by (simp add: fb_inv_def FixedBuffer_new_def)
  ultimately obtain b where "log_outs (record_args tt us (lc_tid q) (lc_strerror q) (lc_errno q) (lc_source q) (lc_line q) (lc_kind q) (lc_args q))
      (FixedBuffer_new kSmallBuffer) = Inr b"
    using log_outs_ok by blast
  from log_statement_record [OF f this] q(1) show ?thesis by (auto simp: log_call_result_def)
qed

lemma statement_thread:
  assumes "log_call_result q th = Inr (th', lines, x)"
  shows "thread_ok th'"
proof -
  have "formatTime zone now th b = Inr (th', b') \<Longrightarrow> length (t_time th') = 17" for zone now b b'
    by (cases zone) (auto simp: formatTime_def Let_def out_T_def cassert_def split: if_splits)
  then have "Impl_new zone now tid strerror level err src line th = Inr (th', i) \<Longrightarrow> thread_ok th'" for zone now tid strerror level err src line i
    by (auto simp: Impl_new_def thread_ok_def split: if_splits)
  then have "Logger_new zone now tid strerror err src line kind th = Inr (th', i) \<Longrightarrow> thread_ok th'" for zone now tid strerror err src line kind i
    by (cases kind) (auto simp: Logger_new_def)
  with assms show ?thesis by (auto simp: log_call_result_def log_statement_def Let_def split: prod.splits)
qed


subsection \<open>Every line stays whole on its way\<close>

text \<open>The buffers in memory and the files consist of whole lines, which in order are the lines logged so far.\<close>

definition whole_lines :: "pipeline \<Rightarrow> bool" where
  "whole_lines p \<longleftrightarrow>
     (let s = pl_async p in
      \<exists>groups gw gf gc. map af_data (lf_files (pl_file p)) = map concat groups \<and>
        map fb_content (buffersToWrite s) = map concat gw \<and> map fb_content (full s) = map concat gf \<and>
        fb_content (currentBuffer s) = concat gc \<and> logged s = concat groups @ concat gw @ concat gf @ gc)"

lemma whole_linesI:
  assumes "map af_data (lf_files (pl_file p)) = map concat groups" and "map fb_content (buffersToWrite (pl_async p)) = map concat gw"
    and "map fb_content (full (pl_async p)) = map concat gf" and "fb_content (currentBuffer (pl_async p)) = concat gc"
    and "logged (pl_async p) = concat groups @ concat gw @ concat gf @ gc"
  shows "whole_lines p"
  using assms unfolding whole_lines_def Let_def by blast

lemma whole_lines_cong:
  "whole_lines (p\<lparr>pl_async := (pl_async p)\<lparr>running := b\<rparr>\<rparr>) = whole_lines p"
  "whole_lines (p\<lparr>pl_async := (pl_async p)\<lparr>phase := ph\<rparr>\<rparr>) = whole_lines p"
  by (simp_all add: whole_lines_def Let_def)

definition pl_inv :: "pipeline \<Rightarrow> bool" where
  "pl_inv p \<longleftrightarrow> async_inv (pl_async p) \<and> lf_file (pl_file p) \<noteq> None \<and> (\<forall>t. thread_ok (pl_threads p t)) \<and>
     (\<not> discarded (pl_async p) \<longrightarrow> \<not> pl_cut p \<longrightarrow> whole_lines p)"

lemma append_discarded: "discarded (async_append line s) = discarded s"
  by (simp add: async_append_def Let_def split: option.splits)

lemma append_whole:
  assumes inv: "async_inv s" and len: "length line < kLargeBuffer" and "whole_lines (p\<lparr>pl_async := s\<rparr>)"
  shows "whole_lines (p\<lparr>pl_async := async_append line s\<rparr>)"
proof -
  from assms(3) obtain groups gw gf gc where g: "map af_data (lf_files (pl_file p)) = map concat groups"
      "map fb_content (buffersToWrite s) = map concat gw" "map fb_content (full s) = map concat gf"
      "fb_content (currentBuffer s) = concat gc" "logged s = concat groups @ concat gw @ concat gf @ gc"
    by (auto simp: whole_lines_def Let_def)
  show ?thesis
  proof (cases "length line < fb_avail (currentBuffer s)")
    case True
    with g show ?thesis
      by (intro whole_linesI [of _ groups gw gf "gc @ [line]"]) (simp_all add: async_append_def fb_append_def)
  next
    case False
    define t where "t = async_append line s"
    have fresh: "fb_content (fb_append line b) = line" if "fb_size b = kLargeBuffer" "fb_content b = []" for b
      using that len by (simp add: fb_append_def fb_avail_def)
    have n: "nextBuffer s = Some b \<Longrightarrow> fb_size b = kLargeBuffer \<and> fb_content b = []" for b
      using inv by (simp add: async_inv_def opt_fresh_def)
    have t: "buffersToWrite t = buffersToWrite s" "full t = full s @ [currentBuffer s]" "logged t = logged s @ [line]"
        "fb_content (currentBuffer t) = line"
      using False n fresh [of "FixedBuffer_new kLargeBuffer"] fresh
      by (auto simp: t_def async_append_def Let_def FixedBuffer_new_def split: option.splits)
    with g have "whole_lines (p\<lparr>pl_async := t\<rparr>)"
      by (intro whole_linesI [of _ groups gw "gf @ [gc]" "[line]"]) simp_all
    then show ?thesis by (simp add: t_def)
  qed
qed

lemma swap_whole:
  assumes inv: "async_inv (pl_async p)" and ph: "phase (pl_async p) = AtTop" and "async_swap (pl_async p) = Inr t" and "whole_lines p"
  shows "discarded t = discarded (pl_async p) \<and> whole_lines (p\<lparr>pl_async := t\<rparr>)"
proof -
  let ?s = "pl_async p"
  from assms(4) obtain groups gw gf gc where g: "map af_data (lf_files (pl_file p)) = map concat groups"
      "map fb_content (buffersToWrite ?s) = map concat gw" "map fb_content (full ?s) = map concat gf"
      "fb_content (currentBuffer ?s) = concat gc" "logged ?s = concat groups @ concat gw @ concat gf @ gc"
    by (auto simp: whole_lines_def Let_def)
  have w: "buffersToWrite ?s = []" using inv ph by (simp add: async_inv_def)
  with g(2) have "gw = []" by simp
  obtain b where b: "newBuffer1 ?s = Some b" "fb_content b = []" using inv ph by (auto simp: async_inv_def opt_fresh_def)
  have t: "buffersToWrite t = full ?s @ [currentBuffer ?s]" "full t = []" "logged t = logged ?s" "fb_content (currentBuffer t) = []"
      "discarded t = discarded ?s"
    using assms(3) b w by (auto simp: async_swap_def Let_def split: if_splits)
  with g \<open>gw = []\<close> show ?thesis
    by (intro conjI whole_linesI [of _ groups "gf @ [gc]" "[]" "[]"]) simp_all
qed

lemma async_write_effect:
  assumes "async_write now s = Inr t"
  shows "buffersToWrite t = [] \<and> full t = full s \<and> currentBuffer t = currentBuffer s \<and> logged t = logged s \<and>
    discarded t = (25 < length (buffersToWrite s) \<or> discarded s)"
  using assms by (cases "25 < length (buffersToWrite s)") (auto simp: async_write_def Let_def)

text \<open>What can fail: a statement that is not one of the above, and the opening of a file.\<close>

definition pl_bad :: "(int \<Rightarrow> string) \<Rightarrow> pipeline \<Rightarrow> cpp_error \<Rightarrow> bool" where
  "pl_bad fname p e \<longleftrightarrow> (\<exists>q. \<not> statement_ok q \<and> pl_statement q p = Inl e) \<or>
     (\<exists>now envs. (\<exists>(now, rnow, opened, ans) \<in> set envs. \<not> opened) \<and> pl_write fname now envs p = Inl e \<and> e = AssertFail)"

lemma pl_write_inv:
  assumes inv: "pl_inv p" and ph: "phase (pl_async p) = Writing" and len: "length envs = length (async_chunks now (pl_async p))"
  shows "(\<exists>p'. pl_write fname now envs p = Inr p' \<and> pl_inv p') \<or> (\<exists>e. pl_write fname now envs p = Inl e \<and> pl_bad fname p e)"
proof -
  let ?s = "pl_async p" and ?calls = "zip envs (async_chunks now (pl_async p))"
  have ok: "async_inv ?s" "lf_file (pl_file p) \<noteq> None" using inv by (simp_all add: pl_inv_def)
  obtain t where t: "async_write now ?s = Inr t" "async_inv t" using async_write_inv [OF ok(1) ph] by blast
  note e = async_write_effect [OF t(1)]
  from lf_appends_file [OF ok(2), of fname ?calls] show ?thesis
  proof
    assume f: "lf_appends fname ?calls (pl_file p) = Inl AssertFail \<and> (\<exists>c \<in> set ?calls. \<not> call_opens c)"
    then obtain env c where "(env, c) \<in> set ?calls" "\<not> call_opens (env, c)" by auto
    then have "env \<in> set envs" "\<not> fst (snd (snd env))" by (auto dest: set_zip_leftD) (cases env, simp)
    then have "\<exists>(now, rnow, opened, ans) \<in> set envs. \<not> opened" by (intro bexI [of _ env]) (simp_all add: case_prod_unfold)
    moreover have "pl_write fname now envs p = Inl AssertFail" using f t(1) by (simp add: pl_write_def)
    ultimately show ?thesis unfolding pl_bad_def by blast
  next
    assume "\<exists>l'. lf_appends fname ?calls (pl_file p) = Inr l' \<and> lf_file l' \<noteq> None"
    then obtain l where l: "lf_appends fname ?calls (pl_file p) = Inr l" "lf_file l \<noteq> None" by blast
    let ?p = "p\<lparr>pl_async := t, pl_file := l, pl_cut := pl_cut p \<or> list_ex cut_short ?calls\<rparr>"
    have "whole_lines ?p" if "\<not> discarded t" and c: "\<not> pl_cut p" "\<not> list_ex cut_short ?calls"
    proof -
      from that e inv have few: "\<not> 25 < length (buffersToWrite ?s)" and "whole_lines p" by (auto simp: pl_inv_def)
      then obtain groups gw gf gc where g: "map af_data (lf_files (pl_file p)) = map concat groups"
          "map fb_content (buffersToWrite ?s) = map concat gw" "map fb_content (full ?s) = map concat gf"
          "fb_content (currentBuffer ?s) = concat gc" "logged ?s = concat groups @ concat gw @ concat gf @ gc"
        by (auto simp: whole_lines_def Let_def)
      have "map snd ?calls = map concat gw"
        unfolding map_snd_zip [OF len] using few g(2) by (simp add: async_chunks_def)
      from lf_appends_groups [OF ok(2) g(1) this l(1) c(2)] obtain groups' where
        "map af_data (lf_files l) = map concat groups'" "concat groups' = concat groups @ concat gw" by auto
      with g e show ?thesis by (intro whole_linesI [of _ groups' "[]" gf gc]) simp_all
    qed
    with t l inv have "pl_inv ?p" by (simp add: pl_inv_def)
    with t l show ?thesis by (simp add: pl_write_def)
  qed
qed

lemma pl_log_inv:
  assumes "pl_inv p" and "length line < kLargeBuffer" and "thread_ok th"
  shows "pl_inv (pl_log [line] (p\<lparr>pl_threads := (pl_threads p)(t := th)\<rparr>))"
proof -
  let ?p = "p\<lparr>pl_threads := (pl_threads p)(t := th)\<rparr>"
  have "whole_lines ?p = whole_lines p" by (simp add: whole_lines_def)
  with assms append_whole [of "pl_async p" line ?p] async_append_inv [of "pl_async p" line] show ?thesis
    by (simp add: pl_inv_def pl_log_def append_discarded)
qed

lemma pl_statement_inv:
  assumes inv: "pl_inv p"
  shows "(\<exists>p'. pl_statement q p = Inr p' \<and> pl_inv p') \<or> (\<exists>e. pl_statement q p = Inl e \<and> pl_bad fname p e)"
proof (cases "pl_statement q p")
  case (Inl e)
  have "\<not> statement_ok q"
  proof
    assume "statement_ok q"
    with statement_succeeds [of q "pl_threads p (lc_thread q)"] inv Inl show False by (auto simp: pl_statement_def pl_inv_def)
  qed
  with Inl show ?thesis by (auto simp: pl_bad_def)
next
  case (Inr p')
  then obtain th lines where l: "log_call_result q (pl_threads p (lc_thread q)) = Inr (th, lines, Inr ())"
      "p' = pl_log lines (p\<lparr>pl_threads := (pl_threads p)(lc_thread q := th)\<rparr>)"
    by (auto simp: pl_statement_def)
  then obtain line where "lines = [line]" "length line < kLargeBuffer" using log_statement_short [OF l(1) [unfolded log_call_result_def]] by blast
  with pl_log_inv [OF inv _ statement_thread [OF l(1)]] l(2) Inr show ?thesis by simp
qed

lemma pl_step_checked:
  assumes "pl_step fname p r" and inv: "pl_inv p"
  shows "(\<exists>p'. r = Inr p' \<and> pl_inv p') \<or> (\<exists>e. r = Inl e \<and> pl_bad fname p e)"
  using assms(1)
proof (cases rule: pl_step.cases)
  case (Statement q)
  with pl_statement_inv [OF inv] show ?thesis by simp
next
  case Swap
  have a: "async_inv (pl_async p)" using inv by (simp add: pl_inv_def)
  from async_swap_inv [OF a Swap(2)] obtain t where t: "async_swap (pl_async p) = Inr t" "async_inv t" by blast
  have "discarded t = discarded (pl_async p)" using t(1) by (cases "nextBuffer (pl_async p)") (auto simp: async_swap_def Let_def)
  with swap_whole [OF a Swap(2) t(1)] t inv Swap(1) show ?thesis by (auto simp: pl_inv_def)
next
  case (Write envs now)
  with pl_write_inv [OF inv] show ?thesis by simp
next
  case Stop
  with inv show ?thesis by (simp add: pl_inv_def whole_lines_cong async_inv_def in_memory_def)
next
  case Exit
  with inv show ?thesis by (simp add: pl_inv_def whole_lines_cong async_inv_def in_memory_def)
qed

interpretation pl: checked_steps "pl_step fname" pl_inv "pl_bad fname" for fname
  by unfold_locales (rule pl_step_checked)

definition pl_start :: "logfile \<Rightarrow> pipeline" where
  "pl_start l = \<lparr>pl_async = Async_new, pl_file = l, pl_threads = (\<lambda>t. \<lparr>t_time = [], t_lastSecond = 0\<rparr>), pl_cut = False\<rparr>"

lemma LogFile_new_empty:
  assumes "LogFile_new opened hostname basename pid t0 rsize interval n = Inr l" and "0 < t0"
  shows "lf_file l \<noteq> None \<and> map af_data (lf_files l) = [[]]"
  using assms by (auto simp: LogFile_new_def rollFile_def lf_files_def AppendFile_new_def)

lemma pl_start_inv:
  assumes "LogFile_new opened hostname basename pid t0 rsize interval n = Inr l" and "0 < t0"
  shows "pl_inv (pl_start l)"
proof -
  have "async_inv Async_new"
    by (simp add: Async_new_def async_inv_def in_memory_def FixedBuffer_new_def opt_fresh_def Let_def)
  moreover have "whole_lines (pl_start l)"
    by (rule whole_linesI [of _ "[[]]" "[]" "[]" "[]"])
      (use LogFile_new_empty [OF assms] in \<open>simp_all add: pl_start_def Async_new_def FixedBuffer_new_def Let_def\<close>)
  ultimately show ?thesis using LogFile_new_empty [OF assms] by (simp add: pl_inv_def pl_start_def thread_ok_def)
qed

text \<open>C33: Logging is complete. A log file was made at a time after 1970 began; threads execute any log statements, interleaved in any way with the
  logging thread. As long as no more than 25 buffers have piled up and no \<open>fwrite\<close> has failed, the log files in the
  order of their opening followed by the buffers in memory hold exactly the lines of the statements in the order in which
  they were logged; each line is whole in one file. Between the statement and the file only two things fail: a log statement that is fatal, or
  formats a number with more than 31 characters, or has a time in the first second of 1970 or one that is not formatted with 17
  characters; and the opening of a log file.\<close>

theorem log_pipeline_complete:
  assumes "LogFile_new opened hostname basename pid t0 rsize interval n = Inr l" and "0 < t0"
    and "runs (pl_step fname) (pl_start l) r"
  shows "(\<exists>p. r = Inr p \<and> (\<not> discarded (pl_async p) \<longrightarrow> \<not> pl_cut p \<longrightarrow>
      (\<exists>groups rest. map af_data (lf_files (pl_file p)) = map concat groups \<and> logged (pl_async p) = concat groups @ rest \<and>
         concat rest = in_memory (pl_async p)))) \<or>
    (\<exists>p. runs (pl_step fname) (pl_start l) (Inr p) \<and>
      ((\<exists>q. \<not> statement_ok q \<and> r = pl_statement q p \<and> (\<exists>e. r = Inl e)) \<or>
       (\<exists>now envs. (\<exists>(now, rnow, opened, ans) \<in> set envs. \<not> opened) \<and> r = pl_write fname now envs p \<and> r = Inl AssertFail)))"
proof -
  from pl.runs_checked [OF assms(3) pl_start_inv [OF assms(1,2)]] show ?thesis
  proof (elim disjE exE conjE)
    fix p
    assume p: "r = Inr p" "pl_inv p"
    have "\<exists>groups rest. map af_data (lf_files (pl_file p)) = map concat groups \<and> logged (pl_async p) = concat groups @ rest \<and>
        concat rest = in_memory (pl_async p)" if "\<not> discarded (pl_async p)" "\<not> pl_cut p"
    proof -
      from that p(2) obtain groups gw gf gc where g: "map af_data (lf_files (pl_file p)) = map concat groups"
          "map fb_content (buffersToWrite (pl_async p)) = map concat gw" "map fb_content (full (pl_async p)) = map concat gf"
          "fb_content (currentBuffer (pl_async p)) = concat gc" "logged (pl_async p) = concat groups @ concat gw @ concat gf @ gc"
        by (auto simp: pl_inv_def whole_lines_def Let_def)
      then show ?thesis
        by (intro exI [of _ groups] exI [of _ "concat gw @ concat gf @ gc"]) (simp add: in_memory_def concat_map_concat)
    qed
    with p(1) show ?thesis by blast
  next
    fix p e
    assume run: "runs (pl_step fname) (pl_start l) (Inr p)" and r: "r = Inl e" and "pl_bad fname p e"
    then consider q where "\<not> statement_ok q" "pl_statement q p = Inl e"
      | now envs where "\<exists>(now, rnow, opened, ans) \<in> set envs. \<not> opened" "pl_write fname now envs p = Inl e" "e = AssertFail"
      unfolding pl_bad_def by blast
    then show ?thesis
    proof cases
      case (1 q)
      with run r show ?thesis by (intro disjI2 exI [of _ p] conjI disjI1 exI [of _ q]) simp_all
    next
      case (2 now envs)
      with run r show ?thesis by (intro disjI2 exI [of _ p] conjI exI [of _ now] exI [of _ envs]) simp_all
    qed
  qed
qed

text \<open>A statement in the second second of 1970.\<close>

lemma epoch_second: "length (log_time_text (gmtime_r 1)) = 17"
proof -
  have j: "getJulianDayNumber 1970 1 1 = 2440588" using julian_1970 unfolding kJulianDayOf1970_01_01_def .
  have y: "getYearMonthDay 2440588 = \<lparr>year = 1970, month = 1, day = 1\<rparr>"
    using getYearMonthDay_julian [of "\<lparr>year = 1970, month = 1, day = 1\<rparr>"]
    by (simp add: julian_def j valid_ymd_def days_in_month_def)
  have g: "gmtime_r 1 = \<lparr>tm_sec = 1, tm_min = 0, tm_hour = 0, tm_mday = 1, tm_mon = 0, tm_year = 70, tm_wday = 4, tm_yday = 0,
     tm_isdst = False, tm_gmtoff = 0, tm_zone = ''GMT''\<rparr>"
    by (simp add: gmtime_r_def toUtcTime_parts fillHMS_def zero_tm_def y j weekDay_def kDaysPerWeek_def smod_nonneg Let_def)
  show ?thesis
    unfolding g by (simp add: log_time_text_def fmt_d_def fmt_0d_def pad_left_def show_int_def show_nat.simps digit_chars)
qed

definition sample_call :: "log_arg list \<Rightarrow> log_call" where
  "sample_call args = \<lparr>lc_thread = 0, lc_zone = None, lc_now = 1000005, lc_tid = ''1 '', lc_strerror = (\<lambda>e. []), lc_errno = 0, lc_source = ''a/b.cc'',
     lc_line = 7, lc_kind = LogPlain WARN, lc_args = args\<rparr>"

theorem log_pipeline_complete_witness:
  "\<exists>l p. LogFile_new True ''host'' ''log'' 7 100 1000 3 10 = Inr l \<and> runs (pl_step (\<lambda>t. [])) (pl_start l) (Inr p) \<and>
     length (logged (pl_async p)) = 1 \<and>
     (\<exists>groups rest. map af_data (lf_files (pl_file p)) = map concat groups \<and> logged (pl_async p) = concat groups @ rest \<and>
       concat rest = in_memory (pl_async p))"
proof -
  obtain l where l: "LogFile_new True ''host'' ''log'' 7 100 1000 3 10 = Inr l"
    by (simp add: LogFile_new_def rollFile_def AppendFile_new_def Let_def)
  have "statement_ok (sample_call [ACString (Some ''hi'')])"
    using epoch_second by (simp add: statement_ok_def sample_call_def fits_int_def int_min_def int_max_def log_tm_def)
  then obtain th line where s: "log_call_result (sample_call [ACString (Some ''hi'')]) \<lparr>t_time = [], t_lastSecond = 0\<rparr> = Inr (th, [line], Inr ())"
    using statement_succeeds [of "sample_call [ACString (Some ''hi'')]" "\<lparr>t_time = [], t_lastSecond = 0\<rparr>"] by (auto simp: thread_ok_def)
  let ?p = "pl_log [line] ((pl_start l)\<lparr>pl_threads := (pl_threads (pl_start l))(0 := th)\<rparr>)"
  have "pl_statement (sample_call [ACString (Some ''hi'')]) (pl_start l) = Inr ?p"
    using s by (simp add: pl_statement_def pl_start_def) (simp add: sample_call_def)
  then have "pl_step (\<lambda>t. []) (pl_start l) (Inr ?p)" using pl_step.Statement by metis
  then have run: "runs (pl_step (\<lambda>t. [])) (pl_start l) (Inr ?p)" by (rule runs_one)
  have "\<not> discarded (pl_async ?p)" "length (logged (pl_async ?p)) = 1" "\<not> pl_cut ?p"
    by (simp_all add: pl_log_def append_discarded pl_start_def Async_new_def Let_def)
      (simp add: async_append_def Let_def split: option.splits)
  with log_pipeline_complete [OF l _ run] l run show ?thesis by auto
qed

end
