(* ===== verification/LogConfig.thy ===== *)
theory LogConfig
  imports LogPipeline
begin

section \<open>The log macros and their global configuration (\<open>base/Logging.h\<close>, \<open>base/Logging.cc\<close>)\<close>

text \<open>
  The macros \<open>LOG_TRACE\<close> to \<open>LOG_SYSFATAL\<close> look at the global level and make a \<open>Logger\<close> of the right kind; the line goes to the global
  output function. The configuration is the record of the four global variables. The output and the flush function change a state of
  type \<open>'w\<close>: the standard output, a log file, the asynchronous log.
\<close>

fun level_rank :: "LogLevel \<Rightarrow> nat" where
  "level_rank TRACE = 0" | "level_rank DEBUG = 1" | "level_rank INFO = 2"
| "level_rank WARN = 3" | "level_rank ERROR = 4" | "level_rank FATAL = 5"

lemma level_rank_inj: "level_rank a = level_rank b \<Longrightarrow> a = b"
  by (cases a; cases b) simp_all

instantiation LogLevel :: linorder
begin

definition less_eq_LogLevel :: "LogLevel \<Rightarrow> LogLevel \<Rightarrow> bool" where "less_eq_LogLevel a b \<longleftrightarrow> level_rank a \<le> level_rank b"

definition less_LogLevel :: "LogLevel \<Rightarrow> LogLevel \<Rightarrow> bool" where "less_LogLevel a b \<longleftrightarrow> level_rank a < level_rank b"

instance
  by standard (auto simp: less_eq_LogLevel_def less_LogLevel_def dest: level_rank_inj)

end

record 'w log_config =
  g_logLevel :: LogLevel
  g_output :: "string \<Rightarrow> 'w \<Rightarrow> 'w"
  g_flush :: "'w \<Rightarrow> 'w"
  g_logTimeZone :: "tzdata option"

definition setLogLevel :: "LogLevel \<Rightarrow> 'w log_config \<Rightarrow> 'w log_config" where "setLogLevel level cfg = cfg\<lparr>g_logLevel := level\<rparr>"
definition setOutput :: "(string \<Rightarrow> 'w \<Rightarrow> 'w) \<Rightarrow> 'w log_config \<Rightarrow> 'w log_config" where "setOutput out cfg = cfg\<lparr>g_output := out\<rparr>"
definition setFlush :: "('w \<Rightarrow> 'w) \<Rightarrow> 'w log_config \<Rightarrow> 'w log_config" where "setFlush fl cfg = cfg\<lparr>g_flush := fl\<rparr>"
definition setTimeZone :: "tzdata option \<Rightarrow> 'w log_config \<Rightarrow> 'w log_config" where "setTimeZone tz cfg = cfg\<lparr>g_logTimeZone := tz\<rparr>"

text \<open>The defaults write to the standard output: the bytes written, and how many of them were flushed.\<close>

definition defaultOutput :: "string \<Rightarrow> bytes \<times> nat \<Rightarrow> bytes \<times> nat" where "defaultOutput msg = (\<lambda>(out, flushed). (out @ msg, flushed))"
definition defaultFlush :: "bytes \<times> nat \<Rightarrow> bytes \<times> nat" where "defaultFlush = (\<lambda>(out, flushed). (out, length out))"

definition default_config :: "(string \<Rightarrow> bool) \<Rightarrow> (bytes \<times> nat) log_config" where
  "default_config getenv = \<lparr>g_logLevel = initLogLevel getenv, g_output = defaultOutput, g_flush = defaultFlush, g_logTimeZone = None\<rparr>"

datatype log_macro = LOG_TRACE string | LOG_DEBUG string | LOG_INFO | LOG_WARN | LOG_ERROR | LOG_FATAL | LOG_SYSERR | LOG_SYSFATAL

fun macro_kind :: "log_macro \<Rightarrow> log_kind" where
  "macro_kind (LOG_TRACE func) = LogFunc TRACE func"
| "macro_kind (LOG_DEBUG func) = LogFunc DEBUG func"
| "macro_kind LOG_INFO = LogPlain INFO"
| "macro_kind LOG_WARN = LogPlain WARN"
| "macro_kind LOG_ERROR = LogPlain ERROR"
| "macro_kind LOG_FATAL = LogPlain FATAL"
| "macro_kind LOG_SYSERR = LogSys False"
| "macro_kind LOG_SYSFATAL = LogSys True"

text \<open>Only the macros up to \<open>LOG_INFO\<close> have a guard.\<close>

fun macro_enabled :: "LogLevel \<Rightarrow> log_macro \<Rightarrow> bool" where
  "macro_enabled level (LOG_TRACE func) \<longleftrightarrow> level \<le> TRACE"
| "macro_enabled level (LOG_DEBUG func) \<longleftrightarrow> level \<le> DEBUG"
| "macro_enabled level LOG_INFO \<longleftrightarrow> level \<le> INFO"
| "macro_enabled level _ \<longleftrightarrow> True"

text \<open>A statement: what it does to the thread's cache and to the state behind the output, and whether the program goes on.\<close>

definition log_line :: "'w log_config \<Rightarrow> int \<Rightarrow> string \<Rightarrow> (int \<Rightarrow> string) \<Rightarrow> int \<Rightarrow> string \<Rightarrow> int \<Rightarrow> log_macro \<Rightarrow> log_arg list \<Rightarrow>
    log_thread \<Rightarrow> 'w \<Rightarrow> (log_thread \<times> 'w \<times> unit res) res" where
  "log_line cfg now tid strerror err file line mac args th w =
     (if macro_enabled (g_logLevel cfg) mac
      then rbind (log_statement (g_logTimeZone cfg) now tid strerror err file line (macro_kind mac) args th []) (\<lambda>(th, lines, r).
        let w = fold (g_output cfg) lines w in
        Inr (th, if r = Inl Abort then g_flush cfg w else w, r))
      else Inr (th, w, Inr ()))"


subsection \<open>Levels\<close>

text \<open>A guarded macro logs exactly when its level is at least the global one; warnings and errors are never filtered, whatever
  the level is.\<close>

lemma macro_enabled_iff:
  "macro_enabled level mac \<longleftrightarrow> level \<le> kind_level (macro_kind mac) \<or> WARN \<le> kind_level (macro_kind mac)"
  by (cases mac; cases level) (simp_all add: less_eq_LogLevel_def)

lemma log_line_filtered:
  "kind_level (macro_kind mac) < g_logLevel cfg \<Longrightarrow> kind_level (macro_kind mac) < WARN \<Longrightarrow>
   log_line cfg now tid strerror err file line mac args th w = Inr (th, w, Inr ())"
  unfolding log_line_def macro_enabled_iff by auto

lemma default_level: "macro_enabled (g_logLevel (default_config (\<lambda>_. False))) mac \<longleftrightarrow> INFO \<le> kind_level (macro_kind mac)"
  by (cases mac) (simp_all add: default_config_def initLogLevel_def less_eq_LogLevel_def)


subsection \<open>Fatal statements\<close>

text \<open>A fatal statement flushes the output after its line and ends the program; no other statement does.\<close>

lemma Logger_new_level: "Logger_new zone now tid strerror err file line kind th = Inr (th', i) \<Longrightarrow> li_level i = kind_level kind"
  by (cases kind) (auto simp: Logger_new_def Impl_new_def simp del: log_outs.simps split: if_splits)

lemma log_statement_abort:
  assumes "log_statement zone now tid strerror err file line kind args th [] = Inr (th', lines, r)" and "r = Inr () \<or> r = Inl Abort"
  shows "\<exists>l. lines = [l]" and "r = Inl Abort \<longleftrightarrow> kind_level kind = FATAL"
proof -
  from assms(1) obtain i b where i: "Logger_new zone now tid strerror err (SourceFile file) line kind th = Inr (th', i)"
      "Logger_dtor (i\<lparr>li_stream := b\<rparr>) [] = (lines, r)"
    by (auto simp: log_statement_def split: prod.splits)
  from i(2) assms(2) have "(\<exists>l. lines = [l]) \<and> (r = Inl Abort \<longleftrightarrow> li_level i = FATAL) \<or> finish (i\<lparr>li_stream := b\<rparr>) = Inl Abort"
    by (auto simp: Logger_dtor_def finish_def split: sum.splits if_splits simp del: log_outs.simps)
  moreover have "finish (i\<lparr>li_stream := b\<rparr>) \<noteq> Inl Abort"
    by (auto simp: finish_def fb_append_def formatInteger_def fb_write_def)
  ultimately show "\<exists>l. lines = [l]" "r = Inl Abort \<longleftrightarrow> kind_level kind = FATAL"
    using Logger_new_level [OF i(1)] by auto
qed

lemma fatal_line_flushed:
  assumes "log_line (default_config getenv) now tid strerror err file line mac args th (out, flushed) = Inr (th', (out', flushed'), Inl Abort)"
  shows "kind_level (macro_kind mac) = FATAL \<and> flushed' = length out' \<and> (\<exists>l. out' = out @ l)"
proof -
  let ?zone = "g_logTimeZone (default_config getenv)"
  from assms obtain lines where l: "log_statement ?zone now tid strerror err file line (macro_kind mac) args th [] = Inr (th', lines, Inl Abort)"
      "(out', flushed') = defaultFlush (fold defaultOutput lines (out, flushed))"
    by (auto simp: log_line_def default_config_def Let_def split: if_splits)
  from log_statement_abort [OF l(1)] l(2) show ?thesis
    by (auto simp: defaultFlush_def defaultOutput_def)
qed


subsection \<open>Hooks\<close>

text \<open>The steps of the logging pipeline are the statements of a program whose output function is \<open>AsyncLogging::append\<close>.\<close>

lemma log_line_pipeline:
  assumes "log_line (setOutput (\<lambda>l p. pl_log [l] p) cfg) now tid strerror err file line mac args (pl_threads p t) p = Inr (th', p', Inr ())"
  shows "p' = p \<or> pl_step fname p (Inr (p'\<lparr>pl_threads := (pl_threads p)(t := th')\<rparr>))"
proof (cases "macro_enabled (g_logLevel cfg) mac")
  case True
  with assms obtain lines where l: "log_statement (g_logTimeZone cfg) now tid strerror err file line (macro_kind mac) args (pl_threads p t) [] = Inr (th', lines, Inr ())"
      "p' = fold (\<lambda>l p. pl_log [l] p) lines p"
    by (auto simp: log_line_def setOutput_def Let_def split: if_splits)
  from log_statement_abort [OF l(1)] l(2) have "p' = pl_log lines p" by auto
  moreover have "pl_log lines (p\<lparr>pl_threads := ths\<rparr>) = (pl_log lines p)\<lparr>pl_threads := ths\<rparr>" for ths by (simp add: pl_log_def)
  ultimately show ?thesis
    using pl_step.Statement [of fname p "\<lparr>lc_thread = t, lc_zone = g_logTimeZone cfg, lc_now = now, lc_tid = tid, lc_strerror = strerror,
      lc_errno = err, lc_source = file, lc_line = line, lc_kind = macro_kind mac, lc_args = args\<rparr>"] l(1)
    by (simp add: pl_statement_def log_call_result_def)
next
  case False
  with assms show ?thesis by (simp add: log_line_def setOutput_def)
qed

text \<open>The text of the second is cached for each thread and does not depend on the zone it was made for: a statement in the same
  second as the one before, after \<open>setTimeZone\<close>, shows the old time with the new suffix.\<close>

lemma setTimeZone_stale:
  assumes "t_lastSecond th = now sdiv kMicroSecondsPerSecond" and "length (t_time th) = 17"
    and "formatTime (g_logTimeZone (setTimeZone tz cfg)) now th (FixedBuffer_new kSmallBuffer) = Inr (th', b)"
  shows "th' = th" and "take 17 (fb_content b) = t_time th"
  using assms
  by (cases tz; auto simp: formatTime_def out_T_def setTimeZone_def Let_def fb_append_def fb_avail_def FixedBuffer_new_def
      kSmallBuffer_def split: if_splits)+

end
