(* ===== verification/Http.thy ===== *)
theory Http
  imports TcpConnection Text "HOL-Library.Char_ord" "HOL-Library.List_Lexorder"
begin

section \<open>HTTP (\<open>net/http\<close>)\<close>

text \<open>
  The request parser over a \<open>Buffer\<close>, the response printer and the handler of the server on a
  connection. The parser's loop may not end (it has no branch for two of its states), so it is a partial
  function: \<open>None\<close> is an endless loop. \<open>http_run\<close> is the same parser on the bytes alone; it is total and
  the proofs reason about it.
\<close>

datatype http_method = kInvalid | kGet | kPost | kHead | kPut | kDelete

datatype http_version = kUnknown | kHttp10 | kHttp11

record http_request =
  hr_method :: http_method
  hr_version :: http_version
  hr_path :: string
  hr_query :: string
  hr_receiveTime :: int
  hr_headers :: "string \<rightharpoonup> string"

definition HttpRequest_new :: http_request where
  "HttpRequest_new = \<lparr>hr_method = kInvalid, hr_version = kUnknown, hr_path = [], hr_query = [], hr_receiveTime = 0,
     hr_headers = Map.empty\<rparr>"

definition method_of :: "string \<Rightarrow> http_method" where
  "method_of m =
     (if m = ''GET'' then kGet else if m = ''POST'' then kPost else if m = ''HEAD'' then kHead
      else if m = ''PUT'' then kPut else if m = ''DELETE'' then kDelete else kInvalid)"

definition setMethod :: "string \<Rightarrow> http_request \<Rightarrow> (bool \<times> http_request) res" where
  "setMethod m r =
     cassert (hr_method r = kInvalid) (let r = r\<lparr>hr_method := method_of m\<rparr> in Inr (hr_method r \<noteq> kInvalid, r))"

fun methodString :: "http_method \<Rightarrow> string" where
  "methodString kGet = ''GET''"
| "methodString kPost = ''POST''"
| "methodString kHead = ''HEAD''"
| "methodString kPut = ''PUT''"
| "methodString kDelete = ''DELETE''"
| "methodString kInvalid = ''UNKNOWN''"

text \<open>\<open>addHeader\<close> on a line and the position of its colon: white space around the value is dropped.\<close>

definition trim_right :: "string \<Rightarrow> string" where "trim_right s = rev (dropWhile isspace (rev s))"

definition addHeader :: "nat \<Rightarrow> string \<Rightarrow> http_request \<Rightarrow> http_request" where
  "addHeader colon line r =
     (let field = take colon line;
          v = trim_right (dropWhile isspace (drop (colon + 1) line))
      in r\<lparr>hr_headers := (hr_headers r)(field \<mapsto> v)\<rparr>)"

definition getHeader :: "string \<Rightarrow> http_request \<Rightarrow> string" where
  "getHeader field r = (case hr_headers r field of Some v \<Rightarrow> v | None \<Rightarrow> [])"


subsection \<open>The parser\<close>

datatype parse_state = kExpectRequestLine | kExpectHeaders | kExpectBody | kGotAll

record http_context =
  hc_state :: parse_state
  hc_request :: http_request

definition HttpContext_new :: http_context where
  "HttpContext_new = \<lparr>hc_state = kExpectRequestLine, hc_request = HttpRequest_new\<rparr>"

definition gotAll :: "http_context \<Rightarrow> bool" where "gotAll c \<longleftrightarrow> hc_state c = kGotAll"

definition hc_reset :: "http_context \<Rightarrow> http_context" where
  "hc_reset c = c\<lparr>hc_state := kExpectRequestLine, hc_request := HttpRequest_new\<rparr>"

definition set_target :: "string \<Rightarrow> http_request \<Rightarrow> http_request" where
  "set_target uri r =
     (let question = find_idx ((=) (CHR ''?'')) uri
      in if question \<noteq> length uri then r\<lparr>hr_path := take question uri, hr_query := drop question uri\<rparr>
         else r\<lparr>hr_path := uri\<rparr>)"

definition set_http_version :: "string \<Rightarrow> http_request \<Rightarrow> bool \<times> http_request" where
  "set_http_version v r =
     (if length v = 8 \<and> take 7 v = ''HTTP/1.''
      then if v ! 7 = CHR ''1'' then (True, r\<lparr>hr_version := kHttp11\<rparr>)
           else if v ! 7 = CHR ''0'' then (True, r\<lparr>hr_version := kHttp10\<rparr>) else (False, r)
      else (False, r))"

definition processRequestLine :: "string \<Rightarrow> http_request \<Rightarrow> (bool \<times> http_request) res" where
  "processRequestLine line r =
     (let space = find_idx ((=) (CHR '' '')) line in
      if space = length line then Inr (False, r)
      else rbind (setMethod (take space line) r) (\<lambda>(ok, r).
        if \<not> ok then Inr (False, r)
        else
          let line = drop (space + 1) line; space = find_idx ((=) (CHR '' '')) line in
          if space = length line then Inr (False, r)
          else Inr (set_http_version (drop (space + 1) line) (set_target (take space line) r))))"

partial_function (option) parseRequest :: "int \<Rightarrow> http_context \<Rightarrow> buffer \<Rightarrow> (bool \<times> http_context \<times> buffer) res option" where
  "parseRequest receiveTime c b =
     (if hc_state c = kExpectRequestLine
      then case findCRLF b of
          None \<Rightarrow> Some (Inr (True, c, b))
        | Some crlf \<Rightarrow>
            (case processRequestLine (window (buf_data b) (peek b) crlf) (hc_request c) of
               Inl e \<Rightarrow> Some (Inl e)
             | Inr (ok, r) \<Rightarrow>
                 if ok
                 then case retrieveUntil (crlf + 2) b of
                     Inl e \<Rightarrow> Some (Inl e)
                   | Inr b \<Rightarrow> parseRequest receiveTime
                       (c\<lparr>hc_request := r\<lparr>hr_receiveTime := receiveTime\<rparr>, hc_state := kExpectHeaders\<rparr>) b
                 else Some (Inr (False, c\<lparr>hc_request := r\<rparr>, b)))
      else if hc_state c = kExpectHeaders
      then case findCRLF b of
          None \<Rightarrow> Some (Inr (True, c, b))
        | Some crlf \<Rightarrow>
            (let line = window (buf_data b) (peek b) crlf; colon = find_idx ((=) (CHR '':'')) line in
             case retrieveUntil (crlf + 2) b of
               Inl e \<Rightarrow> Some (Inl e)
             | Inr b \<Rightarrow>
                 if colon \<noteq> length line
                 then parseRequest receiveTime (c\<lparr>hc_request := addHeader colon line (hc_request c)\<rparr>) b
                 else Some (Inr (True, c\<lparr>hc_state := kGotAll\<rparr>, b)))
      else parseRequest receiveTime c b)"

lemma search_CRLF_shrinks: "search_idx kCRLF bs = Some i \<Longrightarrow> length (drop (i + 2) bs) < length bs"
  using search_idx_Some [of kCRLF bs i] by (auto simp: kCRLF_def)

function http_run :: "int \<Rightarrow> http_context \<Rightarrow> bytes \<Rightarrow> (bool \<times> http_context \<times> bytes) res" where
  "http_run t c bs =
     (case search_idx kCRLF bs of
        None \<Rightarrow> Inr (True, c, bs)
      | Some i \<Rightarrow>
          if hc_state c = kExpectRequestLine
          then rbind (processRequestLine (take i bs) (hc_request c)) (\<lambda>(ok, r).
               if ok then http_run t (c\<lparr>hc_request := r\<lparr>hr_receiveTime := t\<rparr>, hc_state := kExpectHeaders\<rparr>) (drop (i + 2) bs)
               else Inr (False, c\<lparr>hc_request := r\<rparr>, bs))
          else
            let line = take i bs; colon = find_idx ((=) (CHR '':'')) line in
            if colon \<noteq> length line then http_run t (c\<lparr>hc_request := addHeader colon line (hc_request c)\<rparr>) (drop (i + 2) bs)
            else Inr (True, c\<lparr>hc_state := kGotAll\<rparr>, drop (i + 2) bs))"
  by pat_completeness auto

termination http_run
  by (relation "measure (\<lambda>(t, c, bs). length bs)") (simp, use search_CRLF_shrinks in fastforce, use search_CRLF_shrinks in fastforce)

declare http_run.simps [simp del]


subsection \<open>Responses\<close>

record http_response =
  hp_headers :: "(string \<times> string) list"
  hp_statusCode :: int
  hp_statusMessage :: string
  hp_close :: bool
  hp_body :: string

definition HttpResponse_new :: "bool \<Rightarrow> http_response" where
  "HttpResponse_new close = \<lparr>hp_headers = [], hp_statusCode = 0, hp_statusMessage = [], hp_close = close, hp_body = []\<rparr>"

text \<open>The headers are a \<open>std::map\<close>: sorted by name, the last value wins.\<close>

fun insert_header :: "string \<Rightarrow> string \<Rightarrow> (string \<times> string) list \<Rightarrow> (string \<times> string) list" where
  "insert_header k v [] = [(k, v)]"
| "insert_header k v ((k', v') # hs) =
     (if k = k' then (k, v) # hs else if k < k' then (k, v) # (k', v') # hs else (k', v') # insert_header k v hs)"

definition hp_addHeader :: "string \<Rightarrow> string \<Rightarrow> http_response \<Rightarrow> http_response" where
  "hp_addHeader k v r = r\<lparr>hp_headers := insert_header k v (hp_headers r)\<rparr>"

definition setContentType :: "string \<Rightarrow> http_response \<Rightarrow> http_response" where
  "setContentType ct r = hp_addHeader ''Content-Type'' ct r"

fun append_all :: "bytes list \<Rightarrow> buffer \<Rightarrow> buffer res" where
  "append_all [] b = Inr b"
| "append_all (s # ss) b = rbind (append_buf s b) (append_all ss)"

definition response_pieces :: "http_response \<Rightarrow> bytes list" where
  "response_pieces r =
     [snprintf 32 (''HTTP/1.1 '' @ show_int (hp_statusCode r) @ '' ''), hp_statusMessage r, kCRLF] @
     (if hp_close r then [''Connection: close'' @ kCRLF]
      else [snprintf 32 (''Content-Length: '' @ show_int (int (length (hp_body r))) @ kCRLF), ''Connection: Keep-Alive'' @ kCRLF]) @
     concat (map (\<lambda>(k, v). [k, '': '', v, kCRLF]) (hp_headers r)) @ [kCRLF, hp_body r]"

definition appendToBuffer :: "http_response \<Rightarrow> buffer \<Rightarrow> buffer res" where
  "appendToBuffer r output = append_all (response_pieces r) output"


subsection \<open>The server\<close>

definition defaultHttpCallback :: "http_request \<Rightarrow> http_response \<Rightarrow> http_response" where
  "defaultHttpCallback req resp = resp\<lparr>hp_statusCode := 404, hp_statusMessage := ''Not Found'', hp_close := True\<rparr>"

text \<open>The handlers run in the loop of the connection; \<open>w\<close> is the kernel's answer to the direct write.\<close>

definition onRequest :: "(http_request \<Rightarrow> http_response \<Rightarrow> http_response) \<Rightarrow> sys_write \<Rightarrow> http_request \<Rightarrow> tcpconn \<Rightarrow> tcpconn res" where
  "onRequest httpCallback w req conn =
     (let connection = getHeader ''Connection'' req;
          close = (connection = ''close'' \<or> hr_version req = kHttp10 \<and> connection \<noteq> ''Keep-Alive'');
          response = httpCallback req (HttpResponse_new close)
      in rbind (Buffer_new kInitialSize) (\<lambda>buf. rbind (appendToBuffer response buf) (\<lambda>buf.
         rbind (tc_send_buffer True w buf conn) (\<lambda>(buf, conn).
         Inr (if hp_close response then tc_shutdown True conn else conn)))))"

definition badRequest :: bytes where "badRequest = ''HTTP/1.1 400 Bad Request'' @ kCRLF @ kCRLF"

definition http_onMessage :: "(http_request \<Rightarrow> http_response \<Rightarrow> http_response) \<Rightarrow> int \<Rightarrow> sys_write \<Rightarrow> sys_write \<Rightarrow>
    http_context \<Rightarrow> tcpconn \<Rightarrow> (http_context \<times> tcpconn) res option" where
  "http_onMessage httpCallback receiveTime w1 w2 context conn =
     (case parseRequest receiveTime context (inputBuffer conn) of
        None \<Rightarrow> None
      | Some (Inl e) \<Rightarrow> Some (Inl e)
      | Some (Inr (ok, context, buf)) \<Rightarrow>
          Some (let conn = conn\<lparr>inputBuffer := buf\<rparr> in
            rbind (if \<not> ok then rbind (tc_send True w1 badRequest conn) (\<lambda>conn. Inr (tc_shutdown True conn)) else Inr conn)
              (\<lambda>conn.
               if gotAll context
               then rbind (onRequest httpCallback w2 (hc_request context) conn) (\<lambda>conn. Inr (hc_reset context, conn))
               else Inr (context, conn))))"


subsection \<open>The parser on buffers is the parser on bytes\<close>

lemma findCRLF_content: "buffer_inv b \<Longrightarrow> findCRLF b = map_option ((+) (peek b)) (search_idx kCRLF (content b))"
  by (simp add: findCRLF_def content_def peek_def beginWrite_def)

lemma line_ok:
  assumes "buffer_inv b" and "search_idx kCRLF (content b) = Some i"
  shows "window (buf_data b) (peek b) (peek b + i) = take i (content b)"
    and "\<exists>b'. retrieveUntil (peek b + i + 2) b = Inr b' \<and> buffer_inv b' \<and> content b' = drop (i + 2) (content b)"
proof -
  have le: "i + 2 \<le> readableBytes b"
    using search_idx_Some [OF assms(2)] assms(1) by (auto simp: kCRLF_def)
  then show "window (buf_data b) (peek b) (peek b + i) = take i (content b)"
    using peek_window [OF assms(1), of i] by simp
  obtain b' where "retrieve (i + 2) b = Inr b'" "buffer_inv b'" "content b' = drop (i + 2) (content b)"
    using retrieve_ok [OF assms(1), of "i + 2"] le assms(1) by auto
  then show "\<exists>b'. retrieveUntil (peek b + i + 2) b = Inr b' \<and> buffer_inv b' \<and> content b' = drop (i + 2) (content b)"
    using le assms(1) by (auto simp: retrieveUntil_def peek_def beginWrite_def readableBytes_def buffer_inv_def)
qed

definition same_result :: "(bool \<times> http_context \<times> bytes) res \<Rightarrow> (bool \<times> http_context \<times> buffer) res option \<Rightarrow> bool" where
  "same_result r p =
     (case r of Inl e \<Rightarrow> p = Some (Inl e)
      | Inr (ok, c, bs) \<Rightarrow> \<exists>b. p = Some (Inr (ok, c, b)) \<and> buffer_inv b \<and> content b = bs)"

lemma parse_line:
  "hc_state c = kExpectRequestLine \<Longrightarrow> parseRequest t c b =
     (case findCRLF b of
        None \<Rightarrow> Some (Inr (True, c, b))
      | Some crlf \<Rightarrow>
          (case processRequestLine (window (buf_data b) (peek b) crlf) (hc_request c) of
             Inl e \<Rightarrow> Some (Inl e)
           | Inr (ok, r) \<Rightarrow>
               if ok
               then case retrieveUntil (crlf + 2) b of
                   Inl e \<Rightarrow> Some (Inl e)
                 | Inr b \<Rightarrow> parseRequest t (c\<lparr>hc_request := r\<lparr>hr_receiveTime := t\<rparr>, hc_state := kExpectHeaders\<rparr>) b
               else Some (Inr (False, c\<lparr>hc_request := r\<rparr>, b))))"
  by (subst parseRequest.simps) simp

lemma parse_headers:
  "hc_state c = kExpectHeaders \<Longrightarrow> parseRequest t c b =
     (case findCRLF b of
        None \<Rightarrow> Some (Inr (True, c, b))
      | Some crlf \<Rightarrow>
          (let line = window (buf_data b) (peek b) crlf; colon = find_idx ((=) (CHR '':'')) line in
           case retrieveUntil (crlf + 2) b of
             Inl e \<Rightarrow> Some (Inl e)
           | Inr b \<Rightarrow>
               if colon \<noteq> length line
               then parseRequest t (c\<lparr>hc_request := addHeader colon line (hc_request c)\<rparr>) b
               else Some (Inr (True, c\<lparr>hc_state := kGotAll\<rparr>, b))))"
  by (subst parseRequest.simps) simp

lemma parseRequest_refines:
  assumes "buffer_inv b" and "hc_state c = kExpectRequestLine \<or> hc_state c = kExpectHeaders"
  shows "same_result (http_run t c (content b)) (parseRequest t c b)"
  using assms
proof (induction t c "content b" arbitrary: b rule: http_run.induct)
  case (1 t c)
  note f = findCRLF_content [OF \<open>buffer_inv b\<close>]
  show ?case
  proof (cases "search_idx kCRLF (content b)")
    case None
    then show ?thesis
      using 1(3,4) f parse_line [of c t b] parse_headers [of c t b]
      by (auto simp: http_run.simps [of t c] same_result_def)
  next
    case (Some i)
    note l = line_ok [OF 1(3) Some]
    obtain b' where b': "retrieveUntil (peek b + i + 2) b = Inr b'" "buffer_inv b'" "content b' = drop (i + 2) (content b)"
      using l(2) by blast
    show ?thesis
    proof (cases "hc_state c = kExpectRequestLine")
      case True
      show ?thesis
      proof (cases "processRequestLine (take i (content b)) (hc_request c)")
        case (Inl e)
        then show ?thesis
          using Some f l(1) parse_line [OF True, of t b] by (simp add: http_run.simps [of t c] True same_result_def)
      next
        case (Inr p)
        obtain ok r where p: "p = (ok, r)" by force
        show ?thesis
          using 1(1) [OF Some True _ b'(3) [symmetric] b'(2), of ok r] Inr p Some f l(1) b' 1(3) parse_line [OF True, of t b]
          by (cases ok) (simp_all add: http_run.simps [of t c] True same_result_def)
      qed
    next
      case False
      with 1(4) have st: "hc_state c = kExpectHeaders" by simp
      then show ?thesis
        using 1(2) [OF Some False refl refl _ b'(3) [symmetric] b'(2)] Some f l(1) b' parse_headers [OF st, of t b]
        by (simp add: http_run.simps [of t c] same_result_def Let_def)
    qed
  qed
qed

lemma parseRequest_diverges: "parseRequest t c b = Some r \<Longrightarrow> hc_state c = kExpectRequestLine \<or> hc_state c = kExpectHeaders"
  by (rule parseRequest.raw_induct [where P = "\<lambda>t c b r. hc_state c = kExpectRequestLine \<or> hc_state c = kExpectHeaders"])
    (auto split: if_splits)

text \<open>C37: When the parser returns. On every well-formed buffer \<open>parseRequest\<close> ends exactly in the two states that
  have a branch; entered with a request already complete, or expecting a body, it loops for ever.\<close>

theorem parseRequest_returns_iff:
  assumes "buffer_inv b"
  shows "(\<exists>r. parseRequest t c b = Some r) \<longleftrightarrow> hc_state c = kExpectRequestLine \<or> hc_state c = kExpectHeaders"
  using parseRequest_refines [OF assms, of c t] parseRequest_diverges [of t c b]
  by (auto simp: same_result_def split: sum.splits)

theorem parseRequest_returns_iff_witness:
  "\<not> (\<exists>r. parseRequest 0 (HttpContext_new\<lparr>hc_state := kGotAll\<rparr>) (empty_buffer kInitialSize) = Some r)"
  using parseRequest_returns_iff [of "empty_buffer kInitialSize" 0 "HttpContext_new\<lparr>hc_state := kGotAll\<rparr>"] by simp



subsection \<open>Chunks\<close>

lemma is_prefix_of_append_long: "length xs \<le> length ys \<Longrightarrow> is_prefix_of xs (ys @ zs) = is_prefix_of xs ys"
  by (induction xs ys rule: is_prefix_of.induct) auto

lemma search_idx_append: "search_idx pat ys = Some i \<Longrightarrow> search_idx pat (ys @ zs) = Some i"
proof (induction ys arbitrary: i)
  case Nil
  then show ?case by (cases zs) (auto split: if_splits)
next
  case (Cons y ys)
  show ?case
  proof (cases "is_prefix_of pat (y # ys)")
    case True
    then have "is_prefix_of pat (y # ys @ zs)" by (metis append_Cons append_assoc is_prefix_of_append)
    with True Cons.prems show ?thesis by simp
  next
    case False
    with Cons.prems obtain j where j: "search_idx pat ys = Some j" "i = Suc j" by auto
    have "length pat \<le> length (y # ys)" using search_idx_Some [OF j(1)] by auto
    then have "\<not> is_prefix_of pat (y # ys @ zs)" using False is_prefix_of_append_long [of pat "y # ys" zs] by simp
    with j Cons.IH show ?thesis by simp
  qed
qed

lemma http_run_state:
  "http_run t c bs = Inr (ok, c1, bs1) \<Longrightarrow> hc_state c = kExpectRequestLine \<or> hc_state c = kExpectHeaders \<Longrightarrow>
   hc_state c1 = kExpectRequestLine \<or> hc_state c1 = kExpectHeaders \<or> hc_state c1 = kGotAll"
proof (induction t c bs rule: http_run.induct)
  case (1 t c bs)
  then show ?case
    by (auto simp: http_run.simps [of t c bs] Let_def split: option.splits if_splits prod.splits)
qed

lemma http_run_headers_ok: "http_run t c bs = Inr (ok, c1, bs1) \<Longrightarrow> hc_state c \<noteq> kExpectRequestLine \<Longrightarrow> ok"
proof (induction t c bs rule: http_run.induct)
  case (1 t c bs)
  then show ?case
    by (auto simp: http_run.simps [of t c bs] Let_def split: option.splits if_splits)
qed

text \<open>What the parser does with more input, in terms of what it did with less.\<close>

lemma http_run_append:
  "hc_state c = kExpectRequestLine \<or> hc_state c = kExpectHeaders \<Longrightarrow> http_run t c (bs @ ext) =
     (case http_run t c bs of
        Inl e \<Rightarrow> Inl e
      | Inr (ok, c1, bs1) \<Rightarrow>
          if \<not> ok \<or> hc_state c1 = kGotAll then Inr (ok, c1, bs1 @ ext)
          else http_run t c1 (bs1 @ ext))"
proof (induction t c bs rule: http_run.induct)
  case (1 t c bs)
  show ?case
  proof (cases "search_idx kCRLF bs")
    case None
    then show ?thesis using 1(3) by (auto simp: http_run.simps [of t c bs])
  next
    case (Some i)
    note more = search_idx_append [OF Some, of ext]
    have le: "i + 2 \<le> length bs" using search_idx_Some [OF Some] by (auto simp: kCRLF_def)
    have tk: "take i (bs @ ext) = take i bs" "drop (i + 2) (bs @ ext) = drop (i + 2) bs @ ext" using le by simp_all
    show ?thesis
    proof (cases "hc_state c = kExpectRequestLine")
      case True
      show ?thesis
      proof (cases "processRequestLine (take i bs) (hc_request c)")
        case (Inl e)
        with True Some more tk show ?thesis by (simp add: http_run.simps [of t c] del: take_append drop_append)
      next
        case (Inr p)
        then obtain ok r where p: "processRequestLine (take i bs) (hc_request c) = Inr (ok, r)" by (cases p) auto
        show ?thesis
          using 1(1) [OF Some True, of ok r] p True Some more tk 
          by (cases ok) (simp_all add: http_run.simps [of t c] del: take_append drop_append)
      qed
    next
      case False
      show ?thesis
        using 1(2) [OF Some False refl refl] 1(3) False Some more tk
        by (simp add: http_run.simps [of t c] Let_def del: take_append drop_append)
    qed
  qed
qed

text \<open>The parser does not look at the time.\<close>

definition at_time :: "int \<Rightarrow> http_context \<Rightarrow> http_context" where
  "at_time x c = c\<lparr>hc_request := (hc_request c)\<lparr>hr_receiveTime := x\<rparr>\<rparr>"

lemma processRequestLine_time:
  "processRequestLine line (r\<lparr>hr_receiveTime := x\<rparr>) =
     rbind (processRequestLine line r) (\<lambda>(ok, r). Inr (ok, r\<lparr>hr_receiveTime := x\<rparr>))"
  by (cases "hr_method r = kInvalid") (simp_all add: processRequestLine_def setMethod_def set_http_version_def set_target_def Let_def)

lemma processRequestLine_receiveTime: "processRequestLine line r = Inr (ok, r') \<Longrightarrow> hr_receiveTime r' = hr_receiveTime r"
  by (auto simp: processRequestLine_def setMethod_def set_http_version_def set_target_def Let_def split: if_splits)

lemma addHeader_receiveTime [simp]: "hr_receiveTime (addHeader colon line r) = hr_receiveTime r"
  by (simp add: addHeader_def Let_def)

lemma addHeader_time: "addHeader colon line (r\<lparr>hr_receiveTime := x\<rparr>) = (addHeader colon line r)\<lparr>hr_receiveTime := x\<rparr>"
  by (simp add: addHeader_def Let_def)

lemma request_state: "(c\<lparr>hc_request := r\<rparr>)\<lparr>hc_state := s\<rparr> = c\<lparr>hc_state := s, hc_request := r\<rparr>"
  by (cases c) simp

lemma http_run_time:
  assumes "http_run t c bs = Inr (ok, c1, bs1)"
  shows "\<exists>y. http_run t' (at_time x c) bs = Inr (ok, at_time y c1, bs1)"
  using assms
proof (induction t c bs arbitrary: x rule: http_run.induct)
  case (1 t c bs)
  show ?case
  proof (cases "search_idx kCRLF bs")
    case None
    with 1(3) show ?thesis by (auto simp: http_run.simps [of t c] http_run.simps [of t' "at_time x _"])
  next
    case (Some i)
    show ?thesis
    proof (cases "hc_state c = kExpectRequestLine")
      case True
      obtain ok' r where p: "processRequestLine (take i bs) (hc_request c) = Inr (ok', r)"
        using 1(3) Some True by (auto simp: http_run.simps [of t c])
      have p': "processRequestLine (take i bs) ((hc_request c)\<lparr>hr_receiveTime := x\<rparr>) = Inr (ok', r\<lparr>hr_receiveTime := x\<rparr>)"
        using p by (simp add: processRequestLine_time)
      show ?thesis
      proof (cases ok')
        case True
        let ?c = "c\<lparr>hc_request := r\<lparr>hr_receiveTime := t\<rparr>, hc_state := kExpectHeaders\<rparr>"
        from 1(1) [OF Some \<open>hc_state c = kExpectRequestLine\<close> True, of r t'] 1(3) p True Some \<open>hc_state c = kExpectRequestLine\<close>
        obtain y where "http_run t' (at_time t' ?c) (drop (i + 2) bs) = Inr (ok, at_time y c1, bs1)"
          by (auto simp: http_run.simps [of t c])
        with p' True Some \<open>hc_state c = kExpectRequestLine\<close> show ?thesis
          unfolding http_run.simps [of t' "at_time x c"] by (auto simp: at_time_def request_state)
      next
        case False
        with p p' 1(3) Some \<open>hc_state c = kExpectRequestLine\<close> show ?thesis
          unfolding http_run.simps [of t' "at_time x c"] by (auto simp: http_run.simps [of t c] at_time_def)
      qed
    next
      case False
      show ?thesis
        using 1(2) [OF Some False refl refl, of x] 1(3) Some False
        unfolding http_run.simps [of t' "at_time x c"]
        by (auto simp: http_run.simps [of t c] at_time_def addHeader_time request_state Let_def split: if_splits)
    qed
  qed
qed

lemma http_run_fails:
  "http_run t c bs = Inl e \<Longrightarrow> e = AssertFail \<and> hc_state c = kExpectRequestLine \<and> hr_method (hc_request c) \<noteq> kInvalid"
proof (induction t c bs rule: http_run.induct)
  case (1 t c bs)
  show ?case
  proof (cases "search_idx kCRLF bs")
    case (Some i)
    show ?thesis
    proof (cases "hc_state c = kExpectRequestLine")
      case True
      show ?thesis
      proof (cases "processRequestLine (take i bs) (hc_request c)")
        case (Inl e')
        with 1(3) Some True show ?thesis
          by (auto simp: http_run.simps [of t c bs] processRequestLine_def setMethod_def cassert_def Let_def split: if_splits)
      next
        case (Inr p)
        obtain ok r where "p = (ok, r)" by force
        with Inr 1(1) [OF Some True, of ok r] 1(3) Some True show ?thesis by (auto simp: http_run.simps [of t c bs] split: if_splits)
      qed
    next
      case False
      with 1(2) [OF Some False refl refl] 1(3) Some show ?thesis by (auto simp: http_run.simps [of t c bs] Let_def split: if_splits)
    qed
  qed (use 1(3) in \<open>simp add: http_run.simps [of t c bs]\<close>)
qed

text \<open>What a caller sees of a parse: the result, the context without the time, and the bytes left.\<close>

definition run_seen :: "(bool \<times> http_context \<times> bytes) res \<Rightarrow> (bool \<times> http_context \<times> bytes) res" where
  "run_seen r = map_sum id (\<lambda>(ok, c, bs). (ok, at_time 0 c, bs)) r"

definition parse_seen :: "(bool \<times> http_context \<times> buffer) res option \<Rightarrow> (bool \<times> http_context \<times> bytes) res option" where
  "parse_seen p = map_option (map_sum id (\<lambda>(ok, c, b). (ok, at_time 0 c, content b))) p"

lemma at_time_simps [simp]: "at_time x (at_time y c) = at_time x c" "at_time (hr_receiveTime (hc_request c)) c = c"
  by (simp_all add: at_time_def)

lemma run_seen_time: "run_seen (http_run t' c bs) = run_seen (http_run t c bs)"
proof (cases "http_run t c bs")
  case (Inr p)
  obtain ok c1 bs1 where "p = (ok, c1, bs1)" by (cases p)
  with Inr http_run_time [of t c bs ok c1 bs1 t' "hr_receiveTime (hc_request c)"] show ?thesis by (auto simp: run_seen_def)
next
  case (Inl e)
  have "\<exists>e'. http_run t' c bs = Inl e'"
  proof (rule ccontr)
    assume "\<nexists>e'. http_run t' c bs = Inl e'"
    then obtain ok c1 bs1 where "http_run t' c bs = Inr (ok, c1, bs1)" by (cases "http_run t' c bs") auto
    from http_run_time [OF this, of t "hr_receiveTime (hc_request c)"] Inl show False by auto
  qed
  with Inl http_run_fails [of t c bs] http_run_fails [of t' c bs] show ?thesis by auto
qed

lemma parse_seen_run:
  assumes "buffer_inv b" and "hc_state c = kExpectRequestLine \<or> hc_state c = kExpectHeaders"
  shows "parse_seen (parseRequest t c b) = Some (run_seen (http_run t c (content b)))"
  using parseRequest_refines [OF assms, of t] by (cases "http_run t c (content b)") (auto simp: same_result_def parse_seen_def run_seen_def)

lemma processRequestLine_refused:
  assumes "processRequestLine line r = Inr (False, r')" and "hr_method r = kInvalid"
  shows "processRequestLine line r' = (if hr_method r' = kInvalid then Inr (False, r') else Inl AssertFail)"
proof (cases "find_idx ((=) (CHR '' '')) line = length line")
  case True
  with assms show ?thesis by (auto simp: processRequestLine_def Let_def)
next
  case False
  let ?m = "method_of (take (find_idx ((=) (CHR '' '')) line) line)"
  have keep: "hr_method (snd (set_http_version v (set_target u q))) = hr_method q" for u v q
    by (simp add: set_http_version_def set_target_def Let_def)
  have m: "hr_method r' = ?m \<and> (?m = kInvalid \<longrightarrow> r' = r\<lparr>hr_method := kInvalid\<rparr>)"
  proof (cases "?m = kInvalid")
    case True
    with assms False show ?thesis by (auto simp: processRequestLine_def setMethod_def Let_def)
  next
    case known: False
    let ?l = "drop (find_idx ((=) (CHR '' '')) line + 1) line"
    let ?s = "find_idx ((=) (CHR '' '')) ?l"
    have "(False, r') = (if ?s = length ?l then (False, r\<lparr>hr_method := ?m\<rparr>)
        else set_http_version (drop (?s + 1) ?l) (set_target (take ?s ?l) (r\<lparr>hr_method := ?m\<rparr>)))"
      using assms False known by (simp add: processRequestLine_def setMethod_def Let_def split: if_splits)
    then have "r' = r\<lparr>hr_method := ?m\<rparr> \<or> r' = snd (set_http_version (drop (?s + 1) ?l) (set_target (take ?s ?l) (r\<lparr>hr_method := ?m\<rparr>)))"
      by (metis snd_conv)
    with known keep show ?thesis by auto
  qed
  then show ?thesis
    using False by (cases "?m = kInvalid") (auto simp: processRequestLine_def setMethod_def Let_def)
qed

lemma http_run_refused:
  assumes "http_run t c bs = Inr (False, c1, bs1)" and "hc_state c = kExpectRequestLine \<longrightarrow> hr_method (hc_request c) = kInvalid"
  shows "hc_state c1 = kExpectRequestLine \<and>
    http_run t' c1 (bs1 @ ext) = (if hr_method (hc_request c1) = kInvalid then Inr (False, c1, bs1 @ ext) else Inl AssertFail)"
proof -
  have st: "hc_state c = kExpectRequestLine" using http_run_headers_ok [OF assms(1)] by blast
  obtain i where i: "search_idx kCRLF bs = Some i"
    using assms(1) by (cases "search_idx kCRLF bs") (auto simp: http_run.simps [of t c bs])
  obtain ok r where pr: "processRequestLine (take i bs) (hc_request c) = Inr (ok, r)"
    using assms(1) i st by (cases "processRequestLine (take i bs) (hc_request c)") (auto simp: http_run.simps [of t c bs])
  have "\<not> ok"
    using assms(1) i st pr http_run_headers_ok [of t "c\<lparr>hc_request := r\<lparr>hr_receiveTime := t\<rparr>, hc_state := kExpectHeaders\<rparr>" "drop (i + 2) bs" False c1 bs1]
    by (auto simp: http_run.simps [of t c bs])
  with pr assms(1) i st have p: "processRequestLine (take i bs) (hc_request c) = Inr (False, r)"
    and c1: "c1 = c\<lparr>hc_request := r\<rparr>" "bs1 = bs"
    by (simp_all add: http_run.simps [of t c bs])
  have m: "search_idx kCRLF (bs @ ext) = Some i" "take i (bs @ ext) = take i bs"
    using search_idx_append [OF i, of ext] search_idx_Some [OF i] by auto
  have "processRequestLine (take i bs) r = (if hr_method r = kInvalid then Inr (False, r) else Inl AssertFail)"
    using processRequestLine_refused [OF p] assms(2) st by simp
  then show ?thesis using m c1 st by (simp add: http_run.simps [of t' _ "bs @ ext"] del: take_append drop_append)
qed

text \<open>C20: How the cuts between the pieces of the input matter. A context expects a request line, with no method stored yet, or headers; it is given a prefix
  of the input and, at another time, with the bytes that were not consumed, the rest. The first call returns. If it reports success
  and the request is not complete, the two calls together give exactly what one call with all the input gives (the receive time aside), wherever
  the cut is, also inside a line end. If the prefix already completes the request or is refused, one call with all the input
  has the same outcome and leaves the rest untouched. Calling the parser again after a refusal is where cuts matter:
  it refuses again if the method was unknown, and fails the assertion in \<open>setMethod\<close> if the method was known.\<close>

theorem http_chunking:
  assumes "buffer_inv b" and "buffer_inv b'" and "content b' = content b @ ext"
    and "hc_state c = kExpectRequestLine \<and> hr_method (hc_request c) = kInvalid \<or> hc_state c = kExpectHeaders"
  shows "\<exists>ok c1 b1. parseRequest t c b = Some (Inr (ok, c1, b1)) \<and>
    (\<forall>b1'. buffer_inv b1' \<longrightarrow> content b1' = content b1 @ ext \<longrightarrow>
      (if ok \<and> \<not> gotAll c1 then parse_seen (parseRequest t' c1 b1') = parse_seen (parseRequest t c b')
       else parse_seen (parseRequest t c b') = parse_seen (Some (Inr (ok, c1, b1')))) \<and>
      (\<not> ok \<longrightarrow> parse_seen (parseRequest t' c1 b1') =
         (if hr_method (hc_request c1) = kInvalid then parse_seen (Some (Inr (False, c1, b1'))) else Some (Inl AssertFail))))"
proof -
  have st: "hc_state c = kExpectRequestLine \<or> hc_state c = kExpectHeaders" using assms(4) by blast
  obtain ok c1 bs1 where run: "http_run t c (content b) = Inr (ok, c1, bs1)"
    using http_run_fails [of t c "content b"] assms(4) by (cases "http_run t c (content b)") auto
  then obtain b1 where b1: "parseRequest t c b = Some (Inr (ok, c1, b1))" "content b1 = bs1"
    using parseRequest_refines [OF assms(1) st, of t] by (auto simp: same_result_def)
  note whole = parse_seen_run [OF assms(2) st, of t, unfolded assms(3) http_run_append [OF st] run, simplified]
  have "(if ok \<and> \<not> gotAll c1 then parse_seen (parseRequest t' c1 b1') = parse_seen (parseRequest t c b')
       else parse_seen (parseRequest t c b') = parse_seen (Some (Inr (ok, c1, b1')))) \<and>
      (\<not> ok \<longrightarrow> parse_seen (parseRequest t' c1 b1') =
         (if hr_method (hc_request c1) = kInvalid then parse_seen (Some (Inr (False, c1, b1'))) else Some (Inl AssertFail)))"
    if b1': "buffer_inv b1'" "content b1' = content b1 @ ext" for b1'
  proof (intro conjI impI)
    show "if ok \<and> \<not> gotAll c1 then parse_seen (parseRequest t' c1 b1') = parse_seen (parseRequest t c b')
       else parse_seen (parseRequest t c b') = parse_seen (Some (Inr (ok, c1, b1')))"
    proof (cases "ok \<and> \<not> gotAll c1")
      case True
      with http_run_state [OF run st] have "hc_state c1 = kExpectRequestLine \<or> hc_state c1 = kExpectHeaders" by (auto simp: gotAll_def)
      from parse_seen_run [OF b1'(1) this, of t'] whole True show ?thesis
        using b1'(2) b1(2) run_seen_time [of t' c1 "bs1 @ ext" t] by (simp add: gotAll_def)
    next
      case False
      with whole b1'(2) b1(2) show ?thesis by (auto simp: gotAll_def parse_seen_def run_seen_def)
    qed
    assume "\<not> ok"
    with run http_run_refused [of t c "content b" c1 bs1 t' ext] assms(4)
    have r: "hc_state c1 = kExpectRequestLine"
      "http_run t' c1 (bs1 @ ext) = (if hr_method (hc_request c1) = kInvalid then Inr (False, c1, bs1 @ ext) else Inl AssertFail)" by auto
    from parse_seen_run [OF b1'(1) disjI1 [OF r(1)], of t'] r(2) b1'(2) b1(2)
    show "parse_seen (parseRequest t' c1 b1') =
         (if hr_method (hc_request c1) = kInvalid then parse_seen (Some (Inr (False, c1, b1'))) else Some (Inl AssertFail))"
      by (auto simp: parse_seen_def run_seen_def)
  qed
  with b1(1) show ?thesis by blast
qed


definition buf_of :: "bytes \<Rightarrow> buffer" where
  "buf_of bs = \<lparr>buf_data = replicate kCheapPrepend (CHR 0x00) @ bs, readerIndex = kCheapPrepend,
     writerIndex = kCheapPrepend + length bs\<rparr>"

lemma buf_of_ok [simp]: "buffer_inv (buf_of bs)" "content (buf_of bs) = bs"
  by (simp_all add: buf_of_def buffer_inv_def content_def window_def)

lemma half_request:
  "http_run 0 HttpContext_new (''GET / HTTP/1.1'' @ kCRLF @ ''Ho'') = Inr (True,
     \<lparr>hc_state = kExpectHeaders, hc_request = HttpRequest_new\<lparr>hr_method := kGet, hr_version := kHttp11, hr_path := ''/''\<rparr>\<rparr>, ''Ho'')"
  by (simp add: http_run.simps kCRLF_def HttpContext_new_def HttpRequest_new_def processRequestLine_def setMethod_def
      method_of_def set_http_version_def set_target_def Let_def)

lemma bad_line_run:
  "http_run 0 HttpContext_new (''GET x HTTP/2.0'' @ kCRLF) = Inr (False,
     \<lparr>hc_state = kExpectRequestLine, hc_request = HttpRequest_new\<lparr>hr_method := kGet, hr_path := ''x''\<rparr>\<rparr>, ''GET x HTTP/2.0'' @ kCRLF)"
  by (simp add: http_run.simps kCRLF_def HttpContext_new_def HttpRequest_new_def processRequestLine_def setMethod_def
      method_of_def set_http_version_def set_target_def Let_def)

theorem http_chunking_witness:
  "(\<exists>c1 b1. parseRequest 0 HttpContext_new (buf_of (''GET / HTTP/1.1'' @ kCRLF @ ''Ho'')) = Some (Inr (True, c1, b1)) \<and>
     parse_seen (parseRequest 0 HttpContext_new (buf_of ((''GET / HTTP/1.1'' @ kCRLF @ ''Ho'') @ ''st: x'' @ kCRLF))) =
     parse_seen (parseRequest 1 c1 (buf_of (content b1 @ ''st: x'' @ kCRLF)))) \<and>
   (\<exists>c1 b1. parseRequest 0 HttpContext_new (buf_of (''GET x HTTP/2.0'' @ kCRLF)) = Some (Inr (False, c1, b1)) \<and>
     parse_seen (parseRequest 1 c1 (buf_of (content b1 @ ''y''))) = Some (Inl AssertFail))"
proof
  have st: "hc_state HttpContext_new = kExpectRequestLine \<and> hr_method (hc_request HttpContext_new) = kInvalid \<or>
      hc_state HttpContext_new = kExpectHeaders"
    by (simp add: HttpContext_new_def HttpRequest_new_def)
  note ref = parseRequest_refines [OF buf_of_ok(1) disjI1, of HttpContext_new 0] and ch = http_chunking [OF buf_of_ok(1) buf_of_ok(1) _ st]
  obtain c1 b1 where p: "parseRequest 0 HttpContext_new (buf_of (''GET / HTTP/1.1'' @ kCRLF @ ''Ho'')) = Some (Inr (True, c1, b1))" "\<not> gotAll c1"
    using ref [of "''GET / HTTP/1.1'' @ kCRLF @ ''Ho''"] half_request by (auto simp: same_result_def gotAll_def HttpContext_new_def)
  with ch [of "(''GET / HTTP/1.1'' @ kCRLF @ ''Ho'') @ ''st: x'' @ kCRLF" "''GET / HTTP/1.1'' @ kCRLF @ ''Ho''" "''st: x'' @ kCRLF" 0 1]
  show "\<exists>c1 b1. parseRequest 0 HttpContext_new (buf_of (''GET / HTTP/1.1'' @ kCRLF @ ''Ho'')) = Some (Inr (True, c1, b1)) \<and>
     parse_seen (parseRequest 0 HttpContext_new (buf_of ((''GET / HTTP/1.1'' @ kCRLF @ ''Ho'') @ ''st: x'' @ kCRLF))) =
     parse_seen (parseRequest 1 c1 (buf_of (content b1 @ ''st: x'' @ kCRLF)))"
    by auto
  obtain c2 b2 where q: "parseRequest 0 HttpContext_new (buf_of (''GET x HTTP/2.0'' @ kCRLF)) = Some (Inr (False, c2, b2))"
      "hr_method (hc_request c2) = kGet"
    using ref [of "''GET x HTTP/2.0'' @ kCRLF"] bad_line_run by (auto simp: same_result_def HttpContext_new_def)
  with ch [of "(''GET x HTTP/2.0'' @ kCRLF) @ ''y''" "''GET x HTTP/2.0'' @ kCRLF" "''y''" 0 1]
  show "\<exists>c1 b1. parseRequest 0 HttpContext_new (buf_of (''GET x HTTP/2.0'' @ kCRLF)) = Some (Inr (False, c1, b1)) \<and>
     parse_seen (parseRequest 1 c1 (buf_of (content b1 @ ''y''))) = Some (Inl AssertFail)"
    by auto
qed


subsection \<open>Printing and parsing requests\<close>

definition version_text :: "http_version \<Rightarrow> string" where
  "version_text v = (if v = kHttp11 then ''HTTP/1.1'' else ''HTTP/1.0'')"

definition header_text :: "string \<times> string \<Rightarrow> bytes" where
  "header_text h = fst h @ '': '' @ snd h @ kCRLF"

definition http_print :: "http_request \<Rightarrow> (string \<times> string) list \<Rightarrow> bytes" where
  "http_print r hs = methodString (hr_method r) @ '' '' @ hr_path r @ hr_query r @ '' '' @ version_text (hr_version r) @ kCRLF @
     concat (map header_text hs) @ kCRLF"

definition plain :: "string \<Rightarrow> bool" where "plain s \<longleftrightarrow> CHR 0x0D \<notin> set s"

definition header_ok :: "string \<times> string \<Rightarrow> bool" where
  "header_ok h \<longleftrightarrow> plain (fst h) \<and> plain (snd h) \<and> CHR '':'' \<notin> set (fst h) \<and>
     (snd h = [] \<or> \<not> isspace (hd (snd h)) \<and> \<not> isspace (last (snd h)))"

definition request_ok :: "http_request \<Rightarrow> bool" where
  "request_ok r \<longleftrightarrow> hr_method r \<noteq> kInvalid \<and> hr_version r \<noteq> kUnknown \<and> plain (hr_path r) \<and> plain (hr_query r) \<and>
     CHR '' '' \<notin> set (hr_path r) \<and> CHR ''?'' \<notin> set (hr_path r) \<and> CHR '' '' \<notin> set (hr_query r) \<and>
     (hr_query r = [] \<or> hd (hr_query r) = CHR ''?'')"

lemma search_CRLF_line: "plain line \<Longrightarrow> search_idx kCRLF (line @ kCRLF @ rest) = Some (length line)"
  by (induction line) (auto simp: plain_def kCRLF_def)

lemma find_idx_none: "\<forall>x \<in> set xs. \<not> p x \<Longrightarrow> find_idx p xs = length xs"
  by (induction xs) auto

lemma method_of_methodString: "m \<noteq> kInvalid \<Longrightarrow> method_of (methodString m) = m"
  by (cases m) (simp_all add: method_of_def)

lemma methodString_plain: "plain (methodString m)" "CHR '' '' \<notin> set (methodString m)"
  by (cases m; simp add: plain_def)+

lemma version_text_facts:
  "plain (version_text v)" "length (version_text v) = 8"
  "v \<noteq> kUnknown \<Longrightarrow> set_http_version (version_text v) r = (True, r\<lparr>hr_version := v\<rparr>)"
  by (cases v; simp add: version_text_def plain_def set_http_version_def)+

lemma set_target_split:
  assumes "CHR ''?'' \<notin> set p" and "q = [] \<or> hd q = CHR ''?''" and "hr_query r = []"
  shows "set_target (p @ q) r = r\<lparr>hr_path := p, hr_query := q\<rparr>"
proof (cases q)
  case Nil
  have "find_idx ((=) (CHR ''?'')) p = length p" by (rule find_idx_none) (use assms(1) in auto)
  with Nil assms(3) show ?thesis by (simp add: set_target_def)
next
  case (Cons x xs)
  have "find_idx ((=) (CHR ''?'')) (p @ x # xs) = length p"
    by (rule find_idx_stop) (use assms(1,2) Cons in auto)
  with Cons show ?thesis by (simp add: set_target_def)
qed

lemma processRequestLine_print:
  assumes "request_ok r"
  shows "processRequestLine (methodString (hr_method r) @ '' '' @ hr_path r @ hr_query r @ '' '' @ version_text (hr_version r)) HttpRequest_new =
    Inr (True, HttpRequest_new\<lparr>hr_method := hr_method r, hr_path := hr_path r, hr_query := hr_query r, hr_version := hr_version r\<rparr>)"
proof -
  let ?m = "methodString (hr_method r)" and ?u = "hr_path r @ hr_query r" and ?v = "version_text (hr_version r)"
  have s1: "find_idx ((=) (CHR '' '')) (?m @ '' '' @ ?u @ '' '' @ ?v) = length ?m"
    using find_idx_stop [of ?m "(=) (CHR '' '')" "CHR '' ''"] methodString_plain(2) by auto
  have s2: "find_idx ((=) (CHR '' '')) (?u @ '' '' @ ?v) = length ?u"
    using find_idx_stop [of ?u "(=) (CHR '' '')" "CHR '' ''"] assms by (auto simp: request_ok_def)
  have t: "set_target ?u (HttpRequest_new\<lparr>hr_method := hr_method r\<rparr>) =
      HttpRequest_new\<lparr>hr_method := hr_method r, hr_path := hr_path r, hr_query := hr_query r\<rparr>"
    using assms by (subst set_target_split) (auto simp: request_ok_def HttpRequest_new_def)
  have m: "setMethod ?m HttpRequest_new = Inr (True, HttpRequest_new\<lparr>hr_method := hr_method r\<rparr>)"
    using assms by (simp add: setMethod_def method_of_methodString request_ok_def) (simp add: HttpRequest_new_def)
  have "set_http_version ?v q = (True, q\<lparr>hr_version := hr_version r\<rparr>)" for q
    using assms version_text_facts(3) by (simp add: request_ok_def)
  with s1 s2 t m show ?thesis by (simp add: processRequestLine_def Let_def)
qed


text \<open>The headers of a printed request are added one by one.\<close>

fun add_headers :: "(string \<times> string) list \<Rightarrow> http_request \<Rightarrow> http_request" where
  "add_headers [] r = r"
| "add_headers (h # hs) r = add_headers hs (r\<lparr>hr_headers := (hr_headers r)(fst h \<mapsto> snd h)\<rparr>)"

lemma add_headers_map: "add_headers hs r = r\<lparr>hr_headers := hr_headers r ++ map_of (rev hs)\<rparr>"
  by (induction hs arbitrary: r) (auto simp: map_add_def fun_eq_iff split: option.splits)

lemma trim_value: "v = [] \<or> \<not> isspace (hd v) \<and> \<not> isspace (last v) \<Longrightarrow> trim_right (dropWhile isspace (CHR '' '' # v)) = v"
proof -
  assume v: "v = [] \<or> \<not> isspace (hd v) \<and> \<not> isspace (last v)"
  have sp: "isspace (CHR '' '')" by (simp add: isspace_def)
  show ?thesis
  proof (cases "v = []")
    case False
    then have "dropWhile isspace v = v" using v by (cases v) auto
    moreover have "dropWhile isspace (rev v) = rev v" using v False by (cases v rule: rev_cases) auto
    ultimately show ?thesis using sp by (simp add: trim_right_def)
  qed (simp add: trim_right_def sp)
qed

lemma header_line:
  assumes "header_ok h"
  shows "plain (fst h @ '': '' @ snd h)" "find_idx ((=) (CHR '':'')) (fst h @ '': '' @ snd h) = length (fst h)"
    "addHeader (length (fst h)) (fst h @ '': '' @ snd h) r = r\<lparr>hr_headers := (hr_headers r)(fst h \<mapsto> snd h)\<rparr>"
proof -
  show "plain (fst h @ '': '' @ snd h)" using assms by (auto simp: header_ok_def plain_def)
  show "find_idx ((=) (CHR '':'')) (fst h @ '': '' @ snd h) = length (fst h)"
    using find_idx_stop [of "fst h" "(=) (CHR '':'')" "CHR '':''"] assms by (auto simp: header_ok_def)
  show "addHeader (length (fst h)) (fst h @ '': '' @ snd h) r = r\<lparr>hr_headers := (hr_headers r)(fst h \<mapsto> snd h)\<rparr>"
    using assms trim_value [of "snd h"] by (simp add: addHeader_def header_ok_def)
qed

lemma line_split: "take (length l) (l @ kCRLF @ r) = l" "drop (length l + 2) (l @ kCRLF @ r) = r"
  by (simp_all add: kCRLF_def)

lemma http_run_headers:
  assumes "\<forall>h \<in> set hs. header_ok h"
  shows "http_run t \<lparr>hc_state = kExpectHeaders, hc_request = r\<rparr> (concat (map header_text hs) @ kCRLF @ rest) =
    Inr (True, \<lparr>hc_state = kGotAll, hc_request = add_headers hs r\<rparr>, rest)"
  using assms
proof (induction hs arbitrary: r)
  case Nil
  have "search_idx kCRLF (kCRLF @ rest) = Some 0" using search_CRLF_line [of "[]" rest] by (simp add: plain_def)
  then show ?case using line_split(2) [of "[]" rest] by (subst http_run.simps) simp
next
  case (Cons h hs)
  let ?line = "fst h @ '': '' @ snd h" and ?rest = "concat (map header_text hs) @ kCRLF @ rest"
  have h: "header_ok h" using Cons.prems by simp
  have bs: "concat (map header_text (h # hs)) @ kCRLF @ rest = ?line @ kCRLF @ ?rest" by (simp add: header_text_def)
  have i: "search_idx kCRLF (?line @ kCRLF @ ?rest) = Some (length ?line)"
    using search_CRLF_line [OF header_line(1) [OF h]] .
  note tk = line_split [of ?line ?rest]
  have "http_run t \<lparr>hc_state = kExpectHeaders, hc_request = r\<rparr> (?line @ kCRLF @ ?rest) =
      http_run t \<lparr>hc_state = kExpectHeaders, hc_request = r\<lparr>hr_headers := (hr_headers r)(fst h \<mapsto> snd h)\<rparr>\<rparr> ?rest"
    by (subst http_run.simps) (simp only: i tk option.case Let_def header_line(2,3) [OF h], simp)
  with Cons.IH [of "r\<lparr>hr_headers := (hr_headers r)(fst h \<mapsto> snd h)\<rparr>"] Cons.prems show ?case unfolding bs by simp
qed

lemma parse_print_buffer:
  assumes "buffer_inv b" and "content b = http_print r hs @ rest" and "request_ok r" and "\<forall>h \<in> set hs. header_ok h"
  shows "\<exists>c b'. parseRequest t HttpContext_new b = Some (Inr (True, c, b')) \<and> gotAll c \<and> content b' = rest \<and> buffer_inv b' \<and>
    hc_request c = r\<lparr>hr_receiveTime := t, hr_headers := map_of (rev hs)\<rparr>"
proof -
  let ?line = "methodString (hr_method r) @ '' '' @ hr_path r @ hr_query r @ '' '' @ version_text (hr_version r)"
  let ?rest = "concat (map header_text hs) @ kCRLF @ rest"
  let ?r = "HttpRequest_new\<lparr>hr_method := hr_method r, hr_path := hr_path r, hr_query := hr_query r, hr_version := hr_version r,
     hr_receiveTime := t\<rparr>"
  have "plain ?line" using assms(3) methodString_plain(1) version_text_facts(1) by (auto simp: plain_def request_ok_def)
  from search_CRLF_line [OF this] have i: "search_idx kCRLF (?line @ kCRLF @ ?rest) = Some (length ?line)" .
  note tk = line_split [of ?line ?rest]
  have bs: "content b = ?line @ kCRLF @ ?rest" using assms(2) by (simp add: http_print_def)
  have "http_run t HttpContext_new (content b) =
      http_run t \<lparr>hc_state = kExpectHeaders, hc_request = ?r\<rparr> ?rest"
    unfolding bs HttpContext_new_def
    by (subst http_run.simps) (simp only: i tk option.case Let_def processRequestLine_print [OF assms(3)] http_context.select_convs, simp)
  also have "\<dots> = Inr (True, \<lparr>hc_state = kGotAll, hc_request = add_headers hs ?r\<rparr>, rest)"
    by (rule http_run_headers [OF assms(4)])
  finally have run: "http_run t HttpContext_new (content b) = Inr (True, \<lparr>hc_state = kGotAll, hc_request = add_headers hs ?r\<rparr>, rest)" .
  have "add_headers hs ?r = r\<lparr>hr_receiveTime := t, hr_headers := map_of (rev hs)\<rparr>"
    by (cases r) (simp add: add_headers_map HttpRequest_new_def)
  with run parseRequest_refines [OF assms(1), of HttpContext_new t] show ?thesis
    by (auto simp: same_result_def HttpContext_new_def gotAll_def)
qed

text \<open>Requests survive the wire. For every request with a known method and version, a path and query without
  spaces and trimmed header values, parsing its text, whatever bytes follow it, yields exactly the request:
  method, path, query, version and the last value of every header; the bytes after it stay in the buffer.\<close>

theorem http_parse_print:
  assumes "buffer_inv b" and "content b = http_print r hs @ rest" and "request_ok r" and "\<forall>h \<in> set hs. header_ok h"
  shows "\<exists>c b'. parseRequest t HttpContext_new b = Some (Inr (True, c, b')) \<and> gotAll c \<and> content b' = rest \<and>
    hc_request c = r\<lparr>hr_receiveTime := t, hr_headers := map_of (rev hs)\<rparr>"
  using parse_print_buffer [OF assms] by blast

definition sample_request :: http_request where
  "sample_request = HttpRequest_new\<lparr>hr_method := kGet, hr_version := kHttp11, hr_path := ''/a'', hr_query := ''?b=1''\<rparr>"

lemma sample_request_ok: "request_ok sample_request" "header_ok (''Host'', ''x'')"
  by (simp_all add: sample_request_def request_ok_def header_ok_def plain_def HttpRequest_new_def isspace_def)

theorem http_parse_print_witness:
  "\<exists>c b'. parseRequest 5 HttpContext_new (buf_of (http_print sample_request [(''Host'', ''x'')] @ ''GET'')) = Some (Inr (True, c, b')) \<and>
     gotAll c \<and> content b' = ''GET'' \<and> hc_request c = sample_request\<lparr>hr_receiveTime := 5, hr_headers := map_of (rev [(''Host'', ''x'')])\<rparr>"
  by (rule http_parse_print [OF buf_of_ok]) (simp_all add: sample_request_ok)



subsection \<open>A request and its response\<close>

lemma append_all_ok:
  "buffer_inv b \<Longrightarrow> \<exists>b'. append_all ss b = Inr b' \<and> buffer_inv b' \<and> content b' = content b @ concat ss"
proof (induction ss arbitrary: b)
  case (Cons s ss)
  then obtain b1 where "append_buf s b = Inr b1" "buffer_inv b1" "content b1 = content b @ s"
    using append_buf_ok by blast
  with Cons.IH [of b1] show ?case by auto
qed auto

lemma sendInLoop_accepts:
  assumes "tc_state c \<noteq> kDisconnected" and "sendInLoop (Wrote n) d c = Inr c'"
  shows "accepted c' = accepted c @ d" "inputBuffer c' = inputBuffer c"
  using assms
  by (auto simp: sendInLoop_def try_write_def queue_task_def ch_interest_def Let_def split: if_splits)

definition wants_close :: "http_request \<Rightarrow> bool" where
  "wants_close req \<longleftrightarrow> getHeader ''Connection'' req = ''close'' \<or>
     hr_version req = kHttp10 \<and> getHeader ''Connection'' req \<noteq> ''Keep-Alive''"

lemma onRequest_ok:
  assumes inv: "tc_inv c" and st: "tc_state c = kConnected"
    and n: "n \<le> length (concat (response_pieces (cb req (HttpResponse_new (wants_close req)))))"
  shows "\<exists>c'. onRequest cb (Wrote n) req c = Inr c' \<and> tc_inv c' \<and> inputBuffer c' = inputBuffer c \<and>
    accepted c' = accepted c @ concat (response_pieces (cb req (HttpResponse_new (wants_close req)))) \<and>
    tc_state c' = (if hp_close (cb req (HttpResponse_new (wants_close req))) then kDisconnecting else kConnected)"
proof -
  let ?resp = "cb req (HttpResponse_new (wants_close req))"
  obtain buf where buf: "appendToBuffer ?resp (empty_buffer kInitialSize) = Inr buf" "buffer_inv buf"
      "content buf = concat (response_pieces ?resp)"
    using append_all_ok [of "empty_buffer kInitialSize" "response_pieces ?resp"] by (auto simp: appendToBuffer_def)
  obtain c1 where c1: "sendInLoop (Wrote n) (concat (response_pieces ?resp)) c = Inr c1" "tc_inv c1" "tc_state c1 = kConnected"
    using sendInLoop_ok [OF inv, of "concat (response_pieces ?resp)" "Wrote n"] n st by (auto simp: wrote_at_most_def)
  note acc = sendInLoop_accepts [OF _ c1(1)]
  have send: "tc_send_buffer True (Wrote n) buf c = Inr (retrieveAll buf, c1)"
    using st c1(1) buf by (simp add: tc_send_buffer_def toStringPiece_content)
  let ?c2 = "tc_shutdown True c1"
  have c2: "tc_inv ?c2" "tc_state ?c2 = kDisconnecting" "accepted ?c2 = accepted c1" "inputBuffer ?c2 = inputBuffer c1"
    using c1(2,3) by (auto simp: tc_shutdown_def shutdownInLoop_def Let_def tc_inv_def)
  have eq: "onRequest cb (Wrote n) req c = Inr (if hp_close ?resp then ?c2 else c1)"
    using buf(1) send by (simp add: onRequest_def wants_close_def Let_def)
  show ?thesis using eq c1 c2 acc st by auto
qed

text \<open>A request gets its response. When the bytes of a well-formed request are in the input buffer of a live
  connection, one call of the handler passes the request to the callback, gives exactly the printed response to
  the connection, resets the parser, shuts the connection down exactly when the response asks for it, and
  leaves the bytes after the request, a pipelined request included, in the buffer.\<close>

theorem http_exchange:
  assumes "tc_inv conn" and "tc_state conn = kConnected"
    and "content (inputBuffer conn) = http_print r hs @ rest" and "request_ok r" and "\<forall>h \<in> set hs. header_ok h"
    and "req = r\<lparr>hr_receiveTime := t, hr_headers := map_of (rev hs)\<rparr>"
    and "resp = cb req (HttpResponse_new (wants_close req))" and "n \<le> length (concat (response_pieces resp))"
  shows "\<exists>conn'. http_onMessage cb t w1 (Wrote n) HttpContext_new conn = Some (Inr (HttpContext_new, conn')) \<and> tc_inv conn' \<and>
    accepted conn' = accepted conn @ concat (response_pieces resp) \<and> content (inputBuffer conn') = rest \<and>
    tc_state conn' = (if hp_close resp then kDisconnecting else kConnected)"
proof -
  obtain c b where p: "parseRequest t HttpContext_new (inputBuffer conn) = Some (Inr (True, c, b))" "gotAll c"
      "content b = rest" "hc_request c = req" "buffer_inv b"
    using parse_print_buffer [OF tc_invD(1) [OF assms(1)] assms(3-5)] assms(6) by blast
  have "tc_inv (conn\<lparr>inputBuffer := b\<rparr>)" using assms(1) p(5) by (simp add: tc_inv_def)
  from onRequest_ok [OF this, of n cb req] assms(2,7,8) obtain conn' where
    "onRequest cb (Wrote n) req (conn\<lparr>inputBuffer := b\<rparr>) = Inr conn'" "tc_inv conn'" "inputBuffer conn' = b"
    "accepted conn' = accepted conn @ concat (response_pieces resp)"
    "tc_state conn' = (if hp_close resp then kDisconnecting else kConnected)"
    by auto
  with p show ?thesis
    by (simp add: http_onMessage_def Let_def hc_reset_def) (simp add: HttpContext_new_def)
qed


theorem http_exchange_witness:
  "\<exists>conn'. http_onMessage defaultHttpCallback 5 (Wrote 0) (Wrote 0) HttpContext_new
      (sample_conn\<lparr>inputBuffer := buf_of (http_print sample_request [(''Host'', ''x'')] @ ''GET'')\<rparr>) = Some (Inr (HttpContext_new, conn')) \<and>
    content (inputBuffer conn') = ''GET'' \<and> tc_state conn' = kDisconnecting"
proof -
  let ?conn = "sample_conn\<lparr>inputBuffer := buf_of (http_print sample_request [(''Host'', ''x'')] @ ''GET'')\<rparr>"
  have "tc_inv ?conn" using sample_conn_inv by (simp add: tc_inv_def)
  moreover have "tc_state ?conn = kConnected"
    by (simp add: sample_conn_def call_user_def ch_interest_def TcpConnection_new_def)
  ultimately show ?thesis
    using http_exchange [of ?conn sample_request "[(''Host'', ''x'')]" "''GET''" _ 5 _ defaultHttpCallback 0 "Wrote 0"] sample_request_ok
    by (auto simp: defaultHttpCallback_def)
qed

lemma processRequestLine_again:
  assumes "processRequestLine line r = Inr (ok, r')" and "hr_method r' \<noteq> kInvalid" and "hr_method r = kInvalid"
  shows "processRequestLine line r' = Inl AssertFail"
  using assms
  by (auto simp: processRequestLine_def setMethod_def Let_def split: if_splits)

text \<open>A bad request can bring the server down. When a request line is refused although its method is known,
  the line stays in the buffer and the method in the context; the handler answers 400 but keeps parsing,
  and whatever bytes arrive next, the second pass over the line fails the assertion in \<open>setMethod\<close>.\<close>

theorem bad_request_line_asserts:
  assumes "buffer_inv b" and "hc_state c = kExpectRequestLine" and "hr_method (hc_request c) = kInvalid"
    and "parseRequest t c b = Some (Inr (False, c1, b1))" and "hr_method (hc_request c1) \<noteq> kInvalid"
    and "buffer_inv b2" and "content b2 = content b1 @ ext"
  shows "parseRequest t' c1 b2 = Some (Inl AssertFail)"
proof -
  have run: "http_run t c (content b) = Inr (False, c1, content b1)"
    using parseRequest_refines [OF assms(1), of c t] assms(2,4) by (auto simp: same_result_def split: sum.splits)
  obtain i where i: "search_idx kCRLF (content b) = Some i"
    using run by (cases "search_idx kCRLF (content b)") (auto simp: http_run.simps [of t c "content b"])
  obtain ok r where pr: "processRequestLine (take i (content b)) (hc_request c) = Inr (ok, r)"
    using run i assms(2) by (cases "processRequestLine (take i (content b)) (hc_request c)") (auto simp: http_run.simps [of t c "content b"])
  have "\<not> ok"
  proof
    assume ok
    then have "http_run t (c\<lparr>hc_request := r\<lparr>hr_receiveTime := t\<rparr>, hc_state := kExpectHeaders\<rparr>) (drop (i + 2) (content b)) =
        Inr (False, c1, content b1)"
      using run i pr assms(2) by (simp add: http_run.simps [of t c "content b"])
    from http_run_headers_ok [OF this] show False by simp
  qed
  with pr run i assms(2) have p: "processRequestLine (take i (content b)) (hc_request c) = Inr (False, r)"
    and c1: "c1 = c\<lparr>hc_request := r\<rparr>" "content b1 = content b"
    by (simp_all add: http_run.simps [of t c "content b"])
  have m: "search_idx kCRLF (content b2) = Some i" "take i (content b2) = take i (content b)"
    using search_idx_append [OF i, of ext] search_idx_Some [OF i] assms(7) c1(2) by auto
  have "processRequestLine (take i (content b)) r = Inl AssertFail"
    using processRequestLine_again [OF p] assms(3,5) c1(1) by simp
  then have "http_run t' c1 (content b2) = Inl AssertFail"
    using m c1(1) assms(2) by (simp add: http_run.simps [of t' _ "content b2"])
  with parseRequest_refines [OF assms(6), of c1 t'] show ?thesis using c1(1) assms(2) by (simp add: same_result_def)
qed


theorem bad_request_line_asserts_witness:
  "\<exists>c1 b1. parseRequest 0 HttpContext_new (buf_of (''GET x HTTP/2.0'' @ kCRLF)) = Some (Inr (False, c1, b1)) \<and>
     parseRequest 1 c1 (buf_of (content b1 @ ''y'')) = Some (Inl AssertFail)"
proof -
  let ?b = "buf_of (''GET x HTTP/2.0'' @ kCRLF)"
  have st: "hc_state HttpContext_new = kExpectRequestLine" "hr_method (hc_request HttpContext_new) = kInvalid"
    by (simp_all add: HttpContext_new_def HttpRequest_new_def)
  obtain c1 b1 where p: "parseRequest 0 HttpContext_new ?b = Some (Inr (False, c1, b1))" "hr_method (hc_request c1) \<noteq> kInvalid"
    using parseRequest_refines [OF buf_of_ok(1) disjI1 [OF st(1)], of 0 "''GET x HTTP/2.0'' @ kCRLF"] bad_line_run
    by (auto simp: same_result_def)
  from bad_request_line_asserts [OF buf_of_ok(1) st p buf_of_ok, where ext = "''y''" and t' = 1] p(1) show ?thesis by auto
qed

end
