(* ===== verification/Inspector.thy ===== *)
theory Inspector
  imports Http
begin

section \<open>The inspector (\<open>net/inspect/Inspector.cc\<close>)\<close>

text \<open>
  An HTTP service about the process: commands are registered under a module and a name and called by the path
  \<open>/module/command/arguments\<close>. A registered callback may be empty. The maps are ordered by key; the help texts are printed in that
  order, so \<open>helps\<close> is a sorted association list. The icon is a constant byte array, a parameter here.
\<close>

type_synonym inspect_callback = "(http_method \<Rightarrow> string list \<Rightarrow> string) option"

record inspector =
  modules :: "string \<rightharpoonup> (string \<rightharpoonup> inspect_callback)"
  helps :: "(string \<times> (string \<times> string) list) list"

text \<open>The loop of \<open>split\<close> looks for the next slash from the position after the last one.\<close>

function inspect_split :: "string \<Rightarrow> string list" where
  "inspect_split str =
     (case dropWhile (\<lambda>c. c \<noteq> CHR ''/'') str of
        [] \<Rightarrow> if str = [] then [] else [str]
      | _ # rest \<Rightarrow>
          (let piece = takeWhile (\<lambda>c. c \<noteq> CHR ''/'') str
           in (if piece \<noteq> [] then [piece] else []) @ inspect_split rest))"
  by pat_completeness auto

termination
proof (relation "measure length")
  fix str rest :: string and c
  assume "dropWhile (\<lambda>c. c \<noteq> CHR ''/'') str = c # rest"
  then have "length (c # rest) \<le> length str" by (metis length_dropWhile_le)
  then show "(rest, str) \<in> measure length" by simp
qed simp

declare inspect_split.simps [simp del]

text \<open>\<open>helps_[module]\<close> creates the list of a module when it is missing; both levels are sorted.\<close>

fun update_at :: "string \<Rightarrow> ((string \<times> string) list \<Rightarrow> (string \<times> string) list) \<Rightarrow>
    (string \<times> (string \<times> string) list) list \<Rightarrow> (string \<times> (string \<times> string) list) list" where
  "update_at m f [] = [(m, f [])]"
| "update_at m f ((m', l) # hs) =
     (if m = m' then (m, f l) # hs else if m < m' then (m, f []) # (m', l) # hs else (m', l) # update_at m f hs)"

definition inspect_add :: "string \<Rightarrow> string \<Rightarrow> inspect_callback \<Rightarrow> string \<Rightarrow> inspector \<Rightarrow> inspector" where
  "inspect_add md cmd cb help s =
     s\<lparr>modules := (modules s)(md \<mapsto> (case modules s md of None \<Rightarrow> Map.empty | Some l \<Rightarrow> l)(cmd \<mapsto> cb)),
       helps := update_at md (insert_header cmd help) (helps s)\<rparr>"

definition inspect_remove :: "string \<Rightarrow> string \<Rightarrow> inspector \<Rightarrow> inspector" where
  "inspect_remove md cmd s =
     (case modules s md of
        None \<Rightarrow> s
      | Some l \<Rightarrow> s\<lparr>modules := (modules s)(md \<mapsto> l(cmd := None)),
                    helps := update_at md (filter (\<lambda>(c, _). c \<noteq> cmd)) (helps s)\<rparr>)"

definition help_line :: "string \<Rightarrow> string \<times> string \<Rightarrow> string" where
  "help_line md e =
     (let len = length md + length (fst e)
      in ''/'' @ md @ ''/'' @ fst e @ replicate (if 25 \<le> len then 1 else 25 - len) CHR '' '' @ snd e @ [CHR 0x0A])"

definition help_page :: "inspector \<Rightarrow> string" where
  "help_page s = concat (map (\<lambda>(md, l). concat (map (help_line md) l)) (helps s))"

definition page :: "string \<Rightarrow> string \<Rightarrow> http_response \<Rightarrow> http_response" where
  "page ct body resp =
     (setContentType ct (resp\<lparr>hp_statusCode := 200, hp_statusMessage := ''OK''\<rparr>))\<lparr>hp_body := body\<rparr>"

definition inspect_onRequest :: "string \<Rightarrow> inspector \<Rightarrow> http_request \<Rightarrow> http_response \<Rightarrow> http_response" where
  "inspect_onRequest favicon s req resp =
     (if hr_path req = ''/'' then page ''text/plain'' (help_page s) resp
      else
        let result = inspect_split (hr_path req);
            notFound = resp\<lparr>hp_statusCode := 404, hp_statusMessage := ''Not Found''\<rparr>
        in case result of
             [] \<Rightarrow> notFound
           | [md] \<Rightarrow> if md = ''favicon.ico'' then page ''image/png'' favicon resp else notFound
           | md # cmd # args \<Rightarrow>
               (case modules s md of
                  None \<Rightarrow> notFound
                | Some commList \<Rightarrow>
                    (case commList cmd of
                       Some (Some cb) \<Rightarrow> page ''text/plain'' (cb (hr_method req) args) resp
                     | _ \<Rightarrow> notFound)))"


subsection \<open>Paths and commands\<close>

definition segment :: "string \<Rightarrow> bool" where "segment s \<longleftrightarrow> s \<noteq> [] \<and> CHR ''/'' \<notin> set s"

definition path_of :: "string list \<Rightarrow> string" where "path_of ss = concat (map (\<lambda>s. CHR ''/'' # s) ss)"

lemma split_slash: "inspect_split (CHR ''/'' # s) = inspect_split s"
  by (subst inspect_split.simps) simp

lemma split_segment: "segment s \<Longrightarrow> inspect_split (s @ CHR ''/'' # t) = s # inspect_split t"
proof -
  assume s: "segment s"
  then have "\<forall>c \<in> set s. c \<noteq> CHR ''/''" by (auto simp: segment_def)
  then have "dropWhile (\<lambda>c. c \<noteq> CHR ''/'') (s @ CHR ''/'' # t) = CHR ''/'' # t"
      "takeWhile (\<lambda>c. c \<noteq> CHR ''/'') (s @ CHR ''/'' # t) = s"
    by (simp_all add: dropWhile_append takeWhile_append)
  with s show ?thesis by (subst inspect_split.simps) (simp add: segment_def)
qed

lemma split_last: "segment s \<Longrightarrow> inspect_split s = [s]"
proof -
  assume s: "segment s"
  then have "dropWhile (\<lambda>c. c \<noteq> CHR ''/'') s = []" by (auto simp: segment_def)
  then have "inspect_split s = (if s = [] then [] else [s])" by (subst inspect_split.simps) (simp only: list.case)
  with s show ?thesis by (simp add: segment_def)
qed

lemma split_path_of: "\<forall>s \<in> set ss. segment s \<Longrightarrow> inspect_split (path_of ss) = ss"
proof (induction ss)
  case Nil
  then show ?case by (subst inspect_split.simps) (simp add: path_of_def)
next
  case (Cons s ss)
  show ?case
  proof (cases ss)
    case Nil
    with Cons.prems show ?thesis by (simp add: path_of_def split_slash split_last)
  next
    case (Cons t ts)
    then have "path_of (s # ss) = CHR ''/'' # s @ CHR ''/'' # tl (path_of ss)" "path_of ss = CHR ''/'' # tl (path_of ss)"
      by (simp_all add: path_of_def)
    with Cons.IH Cons.prems show ?thesis by (metis list.set_intros split_segment split_slash)
  qed
qed

lemma path_not_root: "segment s \<Longrightarrow> path_of (s # ss) \<noteq> ''/''"
  by (simp add: path_of_def segment_def)

text \<open>A registered command is answered by its callback, with the remaining parts of the path as arguments, and a command that was
  removed is not found.\<close>

lemma inspect_add_serves:
  assumes "\<forall>s \<in> set (md # cmd # args). segment s" and "hr_path req = path_of (md # cmd # args)"
  shows "inspect_onRequest favicon (inspect_add md cmd (Some cb) help s) req resp =
    page ''text/plain'' (cb (hr_method req) args) resp"
  using split_path_of [OF assms(1)] path_not_root [of md "cmd # args"] assms
  by (simp add: inspect_onRequest_def inspect_add_def)

lemma inspect_remove_hides:
  assumes "\<forall>s \<in> set (md # cmd # args). segment s" and "hr_path req = path_of (md # cmd # args)"
  shows "inspect_onRequest favicon (inspect_remove md cmd s) req resp =
    resp\<lparr>hp_statusCode := 404, hp_statusMessage := ''Not Found''\<rparr>"
  using split_path_of [OF assms(1)] path_not_root [of md "cmd # args"] assms
  by (simp add: inspect_onRequest_def inspect_remove_def split: option.split)

end
