(* ===== verification/Queues.thy ===== *)
theory Queues
  imports Runs
begin

section \<open>Blocking queues and the latch (\<open>base/BlockingQueue.h\<close>, \<open>base/BoundedBlockingQueue.h\<close>, \<open>base/CountDownLatch.cc\<close>)\<close>

text \<open>
  Each class is a monitor: a mutex and condition variables. What a thread does between taking the mutex and
  releasing it, or waiting, is one step. \<open>notify\<close> wakes one waiting thread of the scheduler's choice if there is one,
  and a thread may also wake up for no reason; a woken thread tests its condition again.
\<close>

subsection \<open>Condition variables\<close>

text \<open>\<open>notified P f ss ss'\<close>: one thread in a state with property \<open>P\<close>, if any, is woken, which changes its state by \<open>f\<close>.\<close>

inductive notified :: "('s \<Rightarrow> bool) \<Rightarrow> ('s \<Rightarrow> 's) \<Rightarrow> 's list \<Rightarrow> 's list \<Rightarrow> bool" for P f where
  Nobody: "\<forall>s \<in> set ss. \<not> P s \<Longrightarrow> notified P f ss ss"
| Somebody: "i < length ss \<Longrightarrow> P (ss ! i) \<Longrightarrow> notified P f ss (ss[i := f (ss ! i)])"

definition how_many :: "('s \<Rightarrow> bool) \<Rightarrow> 's list \<Rightarrow> nat" where "how_many P ss = length (filter P ss)"

lemma how_many_update:
  "i < length ss \<Longrightarrow> how_many P (ss[i := s]) + (if P (ss ! i) then 1 else 0) = how_many P ss + (if P s then 1 else 0)"
proof (induction ss arbitrary: i)
  case (Cons a ss)
  then show ?case by (cases i) (auto simp: how_many_def)
qed simp

lemma how_many_zero: "how_many P ss = 0 \<longleftrightarrow> (\<forall>s \<in> set ss. \<not> P s)"
  by (simp add: how_many_def filter_empty_conv)

lemma how_many_pos: "t \<in> set ss \<Longrightarrow> P t \<Longrightarrow> 0 < how_many P ss"
  using how_many_zero [of P ss] by auto

lemma notified_exists: "\<exists>ss'. notified P f ss ss'"
proof (cases "\<exists>s \<in> set ss. P s")
  case True
  then obtain i where "i < length ss" "P (ss ! i)" by (auto simp: in_set_conv_nth)
  then show ?thesis by (blast intro: notified.Somebody)
next
  case False
  then show ?thesis by (blast intro: notified.Nobody)
qed

lemma notified_counts:
  assumes "notified W f ss ss'" and "\<And>s. W s \<Longrightarrow> R (f s) \<and> \<not> R s \<and> \<not> W (f s)"
  shows "how_many W ss = 0 \<and> ss' = ss \<or>
    how_many W ss = Suc (how_many W ss') \<and> how_many R ss' = Suc (how_many R ss)"
  using assms(1)
proof (cases rule: notified.cases)
  case (Somebody i)
  then show ?thesis
    using how_many_update [of i ss W "f (ss ! i)"] how_many_update [of i ss R "f (ss ! i)"] assms(2) by auto
qed (simp add: how_many_zero)

lemma notified_other:
  assumes "notified W f ss ss'" and "\<And>s. W s \<Longrightarrow> Q (f s) = Q s"
  shows "how_many Q ss' = how_many Q ss"
  using assms(1)
proof (cases rule: notified.cases)
  case (Somebody i)
  then show ?thesis using how_many_update [of i ss Q "f (ss ! i)"] assms(2) by auto
qed simp


subsection \<open>Queues\<close>

definition BlockingQueue_put :: "'a \<Rightarrow> 'a list \<Rightarrow> 'a list" where "BlockingQueue_put x q = q @ [x]"

text \<open>\<open>None\<close>: the thread has to wait.\<close>

definition BlockingQueue_take :: "'a list \<Rightarrow> ('a \<times> 'a list) option res" where
  "BlockingQueue_take q = (if q = [] then Inr None else cassert (q \<noteq> []) (Inr (Some (hd q, tl q))))"

definition BoundedBlockingQueue_put :: "nat \<Rightarrow> 'a \<Rightarrow> 'a list \<Rightarrow> 'a list option res" where
  "BoundedBlockingQueue_put maxSize x q =
     (if length q = maxSize then Inr None else cassert (length q < maxSize) (Inr (Some (q @ [x]))))"

definition BoundedBlockingQueue_take :: "'a list \<Rightarrow> ('a \<times> 'a list) option res" where
  "BoundedBlockingQueue_take q = (if q = [] then Inr None else cassert (q \<noteq> []) (Inr (Some (hd q, tl q))))"

definition queue_full :: "nat \<Rightarrow> 'a list \<Rightarrow> bool" where "queue_full maxSize q \<longleftrightarrow> length q = maxSize"

text \<open>A queue without a bound has the capacity \<open>None\<close>.\<close>

definition try_put :: "nat option \<Rightarrow> 'a \<Rightarrow> 'a list \<Rightarrow> 'a list option res" where
  "try_put cap x q = (case cap of None \<Rightarrow> Inr (Some (BlockingQueue_put x q)) | Some maxSize \<Rightarrow> BoundedBlockingQueue_put maxSize x q)"

definition try_take :: "nat option \<Rightarrow> 'a list \<Rightarrow> ('a \<times> 'a list) option res" where
  "try_take cap q = (case cap of None \<Rightarrow> BlockingQueue_take q | Some maxSize \<Rightarrow> BoundedBlockingQueue_take q)"

datatype 'a q_thread = Outside | Putting 'a | WaitsNotFull 'a | Taking | WaitsNotEmpty

fun wakes :: "'a q_thread \<Rightarrow> 'a q_thread" where
  "wakes (WaitsNotFull x) = Putting x" | "wakes WaitsNotEmpty = Taking" | "wakes s = s"

fun is_putting :: "'a q_thread \<Rightarrow> bool" where "is_putting (Putting x) = True" | "is_putting _ = False"

fun waits_put :: "'a q_thread \<Rightarrow> bool" where "waits_put (WaitsNotFull x) = True" | "waits_put _ = False"

record 'a bqueue =
  bq_queue :: "'a list"
  bq_threads :: "'a q_thread list"
  bq_put :: "'a list"
  bq_taken :: "'a list"

inductive bq_step :: "nat option \<Rightarrow> 'a bqueue \<Rightarrow> 'a bqueue res \<Rightarrow> bool" for cap where
  CallPut: "i < length (bq_threads s) \<Longrightarrow> bq_threads s ! i = Outside \<Longrightarrow>
    bq_step cap s (Inr (s\<lparr>bq_threads := (bq_threads s)[i := Putting x]\<rparr>))"
| CallTake: "i < length (bq_threads s) \<Longrightarrow> bq_threads s ! i = Outside \<Longrightarrow>
    bq_step cap s (Inr (s\<lparr>bq_threads := (bq_threads s)[i := Taking]\<rparr>))"
| PutFails: "i < length (bq_threads s) \<Longrightarrow> bq_threads s ! i = Putting x \<Longrightarrow> try_put cap x (bq_queue s) = Inl e \<Longrightarrow>
    bq_step cap s (Inl e)"
| PutWaits: "i < length (bq_threads s) \<Longrightarrow> bq_threads s ! i = Putting x \<Longrightarrow> try_put cap x (bq_queue s) = Inr None \<Longrightarrow>
    bq_step cap s (Inr (s\<lparr>bq_threads := (bq_threads s)[i := WaitsNotFull x]\<rparr>))"
| Put: "i < length (bq_threads s) \<Longrightarrow> bq_threads s ! i = Putting x \<Longrightarrow> try_put cap x (bq_queue s) = Inr (Some q) \<Longrightarrow>
    notified ((=) WaitsNotEmpty) wakes ((bq_threads s)[i := Outside]) ts \<Longrightarrow>
    bq_step cap s (Inr (s\<lparr>bq_queue := q, bq_threads := ts, bq_put := bq_put s @ [x]\<rparr>))"
| TakeFails: "i < length (bq_threads s) \<Longrightarrow> bq_threads s ! i = Taking \<Longrightarrow> try_take cap (bq_queue s) = Inl e \<Longrightarrow>
    bq_step cap s (Inl e)"
| TakeWaits: "i < length (bq_threads s) \<Longrightarrow> bq_threads s ! i = Taking \<Longrightarrow> try_take cap (bq_queue s) = Inr None \<Longrightarrow>
    bq_step cap s (Inr (s\<lparr>bq_threads := (bq_threads s)[i := WaitsNotEmpty]\<rparr>))"
| Take: "i < length (bq_threads s) \<Longrightarrow> bq_threads s ! i = Taking \<Longrightarrow> try_take cap (bq_queue s) = Inr (Some (x, q)) \<Longrightarrow>
    notified waits_put wakes ((bq_threads s)[i := Outside]) ts \<Longrightarrow>
    bq_step cap s (Inr (s\<lparr>bq_queue := q, bq_threads := ts, bq_taken := bq_taken s @ [x]\<rparr>))"
| Spurious: "i < length (bq_threads s) \<Longrightarrow>
    bq_step cap s (Inr (s\<lparr>bq_threads := (bq_threads s)[i := wakes (bq_threads s ! i)]\<rparr>))"

definition bq_new :: "nat \<Rightarrow> 'a bqueue" where
  "bq_new n = \<lparr>bq_queue = [], bq_threads = replicate n Outside, bq_put = [], bq_taken = []\<rparr>"

definition within :: "nat option \<Rightarrow> 'a list \<Rightarrow> bool" where
  "within cap q = (case cap of None \<Rightarrow> True | Some m \<Rightarrow> length q \<le> m)"

text \<open>No wakeup is lost: while a thread waits for the queue to become non-empty, there are at least as many threads
  about to take as elements, and the same for free places.\<close>

definition bq_inv :: "nat option \<Rightarrow> 'a bqueue \<Rightarrow> bool" where
  "bq_inv cap s \<longleftrightarrow> bq_put s = bq_taken s @ bq_queue s \<and> within cap (bq_queue s) \<and>
     (0 < how_many ((=) WaitsNotEmpty) (bq_threads s) \<longrightarrow> length (bq_queue s) \<le> how_many ((=) Taking) (bq_threads s)) \<and>
     (0 < how_many waits_put (bq_threads s) \<longrightarrow> (case cap of None \<Rightarrow> False
        | Some m \<Rightarrow> m \<le> length (bq_queue s) + how_many is_putting (bq_threads s)))"

lemma try_put_cases:
  assumes "within cap q"
  shows "\<exists>r. try_put cap x q = Inr r \<and> (r = None \<longrightarrow> cap = Some (length q)) \<and>
    (\<forall>q'. r = Some q' \<longrightarrow> q' = q @ [x] \<and> within cap q')"
  using assms by (auto simp: try_put_def within_def BlockingQueue_put_def BoundedBlockingQueue_put_def split: option.splits)

lemma try_take_cases:
  "try_take cap q = (if q = [] then Inr None else Inr (Some (hd q, tl q)))"
  by (simp add: try_take_def BlockingQueue_take_def BoundedBlockingQueue_take_def split: option.split)

text \<open>How the four counts change when one thread changes its state.\<close>

lemma counts_update:
  fixes ss :: "'a q_thread list"
  assumes "i < length ss"
  shows "how_many ((=) WaitsNotEmpty) (ss[i := t]) + (if ss ! i = WaitsNotEmpty then 1 else 0) =
      how_many ((=) WaitsNotEmpty) ss + (if t = WaitsNotEmpty then 1 else 0)"
    "how_many ((=) Taking) (ss[i := t]) + (if ss ! i = Taking then 1 else 0) =
      how_many ((=) Taking) ss + (if t = Taking then 1 else 0)"
    "how_many waits_put (ss[i := t]) + (if waits_put (ss ! i) then 1 else 0) = how_many waits_put ss + (if waits_put t then 1 else 0)"
    "how_many is_putting (ss[i := t]) + (if is_putting (ss ! i) then 1 else 0) = how_many is_putting ss + (if is_putting t then 1 else 0)"
  using how_many_update [OF assms, of "(=) WaitsNotEmpty" t] how_many_update [OF assms, of "(=) Taking" t]
    how_many_update [OF assms, of waits_put t] how_many_update [OF assms, of is_putting t]
  by (simp_all add: eq_commute)

lemma wakes_facts:
  "waits_put t \<Longrightarrow> is_putting (wakes t) \<and> \<not> is_putting t \<and> \<not> waits_put (wakes t)"
  "waits_put t \<Longrightarrow> (Taking = wakes t) = (Taking = t)" "waits_put t \<Longrightarrow> (WaitsNotEmpty = wakes t) = (WaitsNotEmpty = t)"
  by (cases t; simp)+

lemma notify_taker:
  assumes "notified ((=) WaitsNotEmpty) wakes ss ss'"
  shows "how_many ((=) WaitsNotEmpty) ss = 0 \<and> ss' = ss \<or>
      how_many ((=) WaitsNotEmpty) ss = Suc (how_many ((=) WaitsNotEmpty) ss') \<and> how_many ((=) Taking) ss' = Suc (how_many ((=) Taking) ss)"
    and "how_many waits_put ss' = how_many waits_put ss" "how_many is_putting ss' = how_many is_putting ss"
  using notified_counts [OF assms, of "(=) Taking"] notified_other [OF assms, of waits_put]
    notified_other [OF assms, of is_putting] by auto

lemma notify_putter:
  assumes "notified waits_put wakes ss ss'"
  shows "how_many waits_put ss = 0 \<and> ss' = ss \<or>
      how_many waits_put ss = Suc (how_many waits_put ss') \<and> how_many is_putting ss' = Suc (how_many is_putting ss)"
    and "how_many ((=) WaitsNotEmpty) ss' = how_many ((=) WaitsNotEmpty) ss" "how_many ((=) Taking) ss' = how_many ((=) Taking) ss"
  using notified_counts [OF assms, of is_putting] notified_other [OF assms, of "(=) Taking"]
    notified_other [OF assms, of "(=) WaitsNotEmpty"] wakes_facts by auto

lemma bq_step_inv:
  assumes "bq_step cap s r" and inv: "bq_inv cap s"
  shows "\<exists>s'. r = Inr s' \<and> bq_inv cap s'"
  using assms(1)
proof (cases rule: bq_step.cases)
  case (CallPut i x)
  with inv counts_update [OF CallPut(2), of "Putting x"] show ?thesis by (auto simp: bq_inv_def split: option.splits)
next
  case (CallTake i)
  with inv counts_update [OF CallTake(2), of Taking] show ?thesis by (auto simp: bq_inv_def split: option.splits)
next
  case (PutFails i x e)
  with inv try_put_cases [of cap "bq_queue s" x] show ?thesis by (auto simp: bq_inv_def)
next
  case (PutWaits i x)
  then have "cap = Some (length (bq_queue s))" using inv try_put_cases [of cap "bq_queue s" x] by (auto simp: bq_inv_def)
  with PutWaits inv counts_update [OF PutWaits(2), of "WaitsNotFull x"] show ?thesis by (auto simp: bq_inv_def)
next
  case (Put i x q ts)
  have q: "q = bq_queue s @ [x]" "within cap q"
    using inv try_put_cases [of cap "bq_queue s" x] Put(4) by (auto simp: bq_inv_def)
  note n = notify_taker [OF Put(5)]
  have "bq_inv cap (s\<lparr>bq_queue := q, bq_threads := ts, bq_put := bq_put s @ [x]\<rparr>)"
    using n(1)
  proof (elim disjE conjE)
    assume "how_many ((=) WaitsNotEmpty) ((bq_threads s)[i := Outside]) = 0" "ts = (bq_threads s)[i := Outside]"
    then show ?thesis
      using inv q n(2,3) counts_update [OF Put(2), of Outside] Put(3) by (auto simp: bq_inv_def split: option.splits)
  next
    assume "how_many ((=) WaitsNotEmpty) ((bq_threads s)[i := Outside]) = Suc (how_many ((=) WaitsNotEmpty) ts)"
      "how_many ((=) Taking) ts = Suc (how_many ((=) Taking) ((bq_threads s)[i := Outside]))"
    then show ?thesis
      using inv q n(2,3) counts_update [OF Put(2), of Outside] Put(3) by (auto simp: bq_inv_def split: option.splits)
  qed
  with Put show ?thesis by simp
next
  case (TakeFails i e)
  then show ?thesis by (simp add: try_take_cases split: if_splits)
next
  case (TakeWaits i)
  then have "bq_queue s = []" by (simp add: try_take_cases split: if_splits)
  with TakeWaits inv counts_update [OF TakeWaits(2), of WaitsNotEmpty] show ?thesis by (auto simp: bq_inv_def split: option.splits)
next
  case (Take i x q ts)
  then have q: "bq_queue s = x # q" by (cases "bq_queue s") (auto simp: try_take_cases)
  note n = notify_putter [OF Take(5)]
  have w: "within cap q" using inv q by (auto simp: bq_inv_def within_def split: option.splits)
  have "bq_inv cap (s\<lparr>bq_queue := q, bq_threads := ts, bq_taken := bq_taken s @ [x]\<rparr>)"
    using n(1)
  proof (elim disjE conjE)
    assume "how_many waits_put ((bq_threads s)[i := Outside]) = 0" "ts = (bq_threads s)[i := Outside]"
    then show ?thesis
      using inv q w n(2,3) counts_update [OF Take(2), of Outside] Take(3) by (auto simp: bq_inv_def split: option.splits)
  next
    assume "how_many waits_put ((bq_threads s)[i := Outside]) = Suc (how_many waits_put ts)"
      "how_many is_putting ts = Suc (how_many is_putting ((bq_threads s)[i := Outside]))"
    then show ?thesis
      using inv q w n(2,3) counts_update [OF Take(2), of Outside] Take(3) by (auto simp: bq_inv_def split: option.splits)
  qed
  with Take show ?thesis by simp
next
  case (Spurious i)
  have "bq_inv cap (s\<lparr>bq_threads := (bq_threads s)[i := wakes (bq_threads s ! i)]\<rparr>)"
    using inv counts_update [OF Spurious(2), of "wakes (bq_threads s ! i)"]
    by (cases "bq_threads s ! i") (auto simp: bq_inv_def split: option.splits)
  with Spurious show ?thesis by simp
qed

interpretation bqs: safe_steps "bq_step cap" "bq_inv cap"
  by unfold_locales (rule bq_step_inv)

lemma bq_new_inv: "bq_inv cap (bq_new n)"
  by (simp add: bq_new_def bq_inv_def within_def how_many_def split: option.split)

text \<open>C32: Both queues are first-in first-out channels. With any number of producers and consumers, in every interleaving
  and with any spurious wakeups, no assertion fails, what was put is what was taken followed by what is in the queue,
  and a bounded queue never exceeds its size. No wakeup is lost: when every thread inside is asleep, consumers are asleep only if
  the queue is empty, and producers only if it is full.\<close>

theorem blocking_queue_correct:
  assumes "runs (bq_step cap) (bq_new n) r"
  shows "\<exists>s. r = Inr s \<and> bq_put s = bq_taken s @ bq_queue s \<and> (\<forall>m. cap = Some m \<longrightarrow> length (bq_queue s) \<le> m) \<and>
    ((\<forall>t \<in> set (bq_threads s). t \<noteq> Taking \<and> \<not> is_putting t) \<longrightarrow>
       (WaitsNotEmpty \<in> set (bq_threads s) \<longrightarrow> bq_queue s = []) \<and>
       (\<forall>x. WaitsNotFull x \<in> set (bq_threads s) \<longrightarrow> cap = Some (length (bq_queue s))))"
proof -
  obtain s where s: "r = Inr s" "bq_inv cap s" using bqs.runs_safe [OF assms bq_new_inv] by blast
  have "bq_queue s = []" if "\<forall>t \<in> set (bq_threads s). t \<noteq> Taking \<and> \<not> is_putting t" "WaitsNotEmpty \<in> set (bq_threads s)"
  proof -
    have "how_many ((=) Taking) (bq_threads s) = 0" using that(1) by (auto simp: how_many_zero)
    moreover have "0 < how_many ((=) WaitsNotEmpty) (bq_threads s)" by (rule how_many_pos [OF that(2)]) simp
    ultimately show ?thesis using s(2) by (simp add: bq_inv_def)
  qed
  moreover have "cap = Some (length (bq_queue s))"
    if "\<forall>t \<in> set (bq_threads s). t \<noteq> Taking \<and> \<not> is_putting t" "WaitsNotFull x \<in> set (bq_threads s)" for x
  proof -
    have "how_many is_putting (bq_threads s) = 0" using that(1) by (auto simp: how_many_zero)
    moreover have "0 < how_many waits_put (bq_threads s)" by (rule how_many_pos [OF that(2)]) simp
    ultimately show ?thesis using s(2) by (auto simp: bq_inv_def within_def split: option.splits)
  qed
  moreover have "\<forall>m. cap = Some m \<longrightarrow> length (bq_queue s) \<le> m" using s(2) by (auto simp: bq_inv_def within_def)
  moreover have "bq_put s = bq_taken s @ bq_queue s" using s(2) by (simp add: bq_inv_def)
  ultimately show ?thesis using s(1) by blast
qed

definition one_put :: "nat bqueue" where
  "one_put = \<lparr>bq_queue = [], bq_threads = [Putting 7], bq_put = [], bq_taken = []\<rparr>"

lemma one_put_reach: "runs (bq_step (Some 1)) (bq_new 1) (Inr one_put)"
proof (rule runs_one)
  show "bq_step (Some 1) (bq_new 1) (Inr one_put)"
    using bq_step.CallPut [of 0 "bq_new 1" "Some 1" 7] by (simp add: one_put_def bq_new_def)
qed

theorem blocking_queue_correct_witness:
  "bq_put one_put = bq_taken one_put @ bq_queue one_put \<and> length (bq_queue one_put) \<le> 1"
  using blocking_queue_correct [OF one_put_reach] by auto


subsection \<open>The latch\<close>

datatype l_thread = Away | TestingCount | WaitsCount

record latch =
  la_count :: int
  la_threads :: "l_thread list"

definition latch_wait_test :: "nat \<Rightarrow> latch \<Rightarrow> latch" where
  "latch_wait_test i l = l\<lparr>la_threads := (la_threads l)[i := if 0 < la_count l then WaitsCount else Away]\<rparr>"

text \<open>The counter is an \<open>int\<close>: decrementing its smallest value overflows.\<close>

definition countDown :: "latch \<Rightarrow> latch res" where
  "countDown l =
     (if la_count l = - (2 ^ 31) then Inl UndefinedBehaviour
      else let l = l\<lparr>la_count := la_count l - 1\<rparr>
      in Inr (if la_count l = 0
          then l\<lparr>la_threads := map (\<lambda>t. if t = WaitsCount then TestingCount else t) (la_threads l)\<rparr> else l))"

definition latch_getCount :: "latch \<Rightarrow> int" where "latch_getCount l = la_count l"

inductive latch_step :: "latch \<Rightarrow> latch \<Rightarrow> bool" where
  CallWait: "i < length (la_threads l) \<Longrightarrow> la_threads l ! i = Away \<Longrightarrow>
    latch_step l (l\<lparr>la_threads := (la_threads l)[i := TestingCount]\<rparr>)"
| Test: "i < length (la_threads l) \<Longrightarrow> la_threads l ! i = TestingCount \<Longrightarrow> latch_step l (latch_wait_test i l)"
| Wake: "i < length (la_threads l) \<Longrightarrow> la_threads l ! i = WaitsCount \<Longrightarrow>
    latch_step l (l\<lparr>la_threads := (la_threads l)[i := TestingCount]\<rparr>)"
| CountDown: "countDown l = Inr l' \<Longrightarrow> latch_step l l'"

text \<open>No thread sleeps once the count has reached zero, also when it is counted down further.\<close>

lemma latch_releases:
  assumes "latch_step l l'" and "WaitsCount \<in> set (la_threads l) \<longrightarrow> 0 < la_count l"
  shows "WaitsCount \<in> set (la_threads l') \<longrightarrow> 0 < la_count l'"
  using assms(1)
proof (cases rule: latch_step.cases)
  case (CountDown)
  with assms(2) show ?thesis by (auto simp: countDown_def Let_def split: if_splits)
next
  case (CallWait i)
  then show ?thesis
    using assms(2) set_update_subset_insert [of "la_threads l" i TestingCount] by auto
next
  case (Test i)
  then show ?thesis
    using assms(2) set_update_subset_insert [of "la_threads l" i Away] by (auto simp: latch_wait_test_def)
next
  case (Wake i)
  then show ?thesis
    using assms(2) set_update_subset_insert [of "la_threads l" i TestingCount] by auto
qed

end
