(* ===== verification/Thread.thy ===== *)
theory Thread
  imports Queues Text
begin

section \<open>Threads (\<open>base/Thread.cc\<close>, \<open>base/CurrentThread.h\<close>)\<close>

text \<open>
  A \<open>Thread\<close> object starts one thread and waits in \<open>start\<close> until that thread has stored its id in the object.
  The new thread keeps pointers to the id and to the latch of the object, so the object must not go away before.
  The state below joins the object, the thread that owns it (the creator) and the thread it starts (the child);
  \<open>th_step\<close> interleaves the two. \<open>pthread_create\<close>, \<open>pthread_join\<close> and \<open>pthread_detach\<close> follow their specification; the function the
  thread runs returns or throws.
\<close>

subsection \<open>The id of the current thread\<close>

record current_thread =
  t_cachedTid :: int
  t_tidString :: string
  t_tidStringLength :: int
  t_threadName :: string

definition current_new :: current_thread where
  "current_new = \<lparr>t_cachedTid = 0, t_tidString = [], t_tidStringLength = 6, t_threadName = ''unknown''\<rparr>"

definition cacheTid :: "int \<Rightarrow> current_thread \<Rightarrow> current_thread" where
  "cacheTid gettid c =
     (if t_cachedTid c = 0
      then let text = fmt_d 5 gettid @ '' ''
           in c\<lparr>t_cachedTid := gettid, t_tidString := take 31 text, t_tidStringLength := int (length text)\<rparr>
      else c)"

definition current_tid :: "int \<Rightarrow> current_thread \<Rightarrow> int \<times> current_thread" where
  "current_tid gettid c =
     (let c = (if t_cachedTid c = 0 then cacheTid gettid c else c) in (t_cachedTid c, c))"

definition isMainThread :: "int \<Rightarrow> int \<Rightarrow> current_thread \<Rightarrow> bool" where
  "isMainThread getpid gettid c \<longleftrightarrow> fst (current_tid gettid c) = getpid"

definition afterFork :: "int \<Rightarrow> current_thread \<Rightarrow> current_thread" where
  "afterFork gettid c = snd (current_tid gettid (c\<lparr>t_cachedTid := 0, t_threadName := ''main''\<rparr>))"

definition ThreadNameInitializer :: "int \<Rightarrow> current_thread \<Rightarrow> current_thread" where
  "ThreadNameInitializer gettid c = snd (current_tid gettid (c\<lparr>t_threadName := ''main''\<rparr>))"

text \<open>The id is asked of the kernel once, and again after a fork.\<close>

lemma current_tid_cached:
  "gettid \<noteq> 0 \<Longrightarrow> fst (current_tid other (snd (current_tid gettid c))) = fst (current_tid gettid c)"
  by (simp add: current_tid_def cacheTid_def Let_def)

lemma afterFork_tid: "gettid \<noteq> 0 \<Longrightarrow> fst (current_tid other (afterFork gettid c)) = gettid"
  by (simp add: afterFork_def current_tid_def cacheTid_def Let_def)

text \<open>The time \<open>sleepUsec\<close> asks \<open>nanosleep\<close> for, in seconds and nanoseconds.\<close>

definition sleepUsec :: "int \<Rightarrow> int \<times> int" where
  "sleepUsec usec = (usec sdiv 1000000, (usec smod 1000000) * 1000)"

lemma sleepUsec_exact:
  assumes "0 \<le> usec"
  shows "fst (sleepUsec usec) * 1000000000 + snd (sleepUsec usec) = usec * 1000 \<and>
    0 \<le> snd (sleepUsec usec) \<and> snd (sleepUsec usec) < 1000000000"
proof -
  have scale: "q * 1000000000 + r * 1000 = u * 1000" if "q * 1000000 + r = u" for q r u :: int
    using that by linarith
  have "usec div 1000000 * 1000000000 + usec mod 1000000 * 1000 = usec * 1000"
    by (rule scale) (rule div_mult_mod_eq)
  moreover have "0 \<le> usec mod 1000000" "usec mod 1000000 < 1000000" by simp_all
  ultimately show ?thesis using assms by (simp add: sleepUsec_def sdiv_nonneg smod_nonneg)
qed


text \<open>\<open>stackTrace\<close>: \<open>frames\<close> are the strings of \<open>backtrace_symbols\<close>, \<open>None\<close> when it fails, and \<open>cxa_demangle\<close> the
  demangler of the compiler's library. A frame reads \<open>file(symbol+offset) [address]\<close>; the scan keeps the last
  parenthesis and the last plus sign.\<close>

fun last_pos :: "char \<Rightarrow> string \<Rightarrow> nat option" where
  "last_pos c [] = None"
| "last_pos c (x # xs) =
     (case last_pos c xs of Some i \<Rightarrow> Some (Suc i) | None \<Rightarrow> if x = c then Some 0 else None)"

definition trace_frame :: "bool \<Rightarrow> (string \<Rightarrow> string option) \<Rightarrow> string \<Rightarrow> string" where
  "trace_frame demangle cxa_demangle f =
     (case (last_pos (CHR ''('') f, last_pos (CHR ''+'') f) of
        (Some l, Some p) \<Rightarrow>
          if demangle
          then (case cxa_demangle (if l < p then drop (l + 1) (take p f) else drop (l + 1) f) of
                  Some t \<Rightarrow> take (l + 1) f @ t @ drop p f @ [CHR 0x0A]
                | None \<Rightarrow> f @ [CHR 0x0A])
          else f @ [CHR 0x0A]
      | _ \<Rightarrow> f @ [CHR 0x0A])"

definition stackTrace :: "bool \<Rightarrow> (string \<Rightarrow> string option) \<Rightarrow> string list option \<Rightarrow> string" where
  "stackTrace demangle cxa_demangle frames =
     (case frames of None \<Rightarrow> [] | Some fs \<Rightarrow> concat (map (trace_frame demangle cxa_demangle) (tl fs)))"

lemma last_posD: "last_pos c f = Some i \<Longrightarrow> i < length f \<and> f ! i = c"
  by (induction f arbitrary: i) (auto split: option.splits if_splits)

text \<open>A demangler that finds nothing to change leaves every frame that has its offset after the symbol as it is.\<close>

lemma trace_frame_id:
  assumes "\<And>l p. last_pos (CHR ''('') f = Some l \<Longrightarrow> last_pos (CHR ''+'') f = Some p \<Longrightarrow> l < p"
  shows "trace_frame d Some f = f @ [CHR 0x0A]"
proof -
  have "take (l + 1) f @ drop (l + 1) (take p f) @ drop p f = f"
    if "last_pos (CHR ''('') f = Some l" "last_pos (CHR ''+'') f = Some p" for l p
  proof -
    have "take (l + 1) f @ drop (l + 1) (take p f) = take p f"
      using assms [OF that] last_posD [OF that(2)] by (metis append_take_drop_id min.absorb2 Suc_eq_plus1 Suc_leI take_take min.commute)
    then show ?thesis by (metis append.assoc append_take_drop_id)
  qed
  then show ?thesis using assms by (auto simp: trace_frame_def split: option.splits)
qed

subsection \<open>Thread objects\<close>

datatype outcome = Returns | ThrowsException | ThrowsStdException | ThrowsOther

datatype creator_pc = Ready | InStart | Running | Joining | Joined | Gone

datatype child_pc = NotCreated | StoresTid | CountsDown | SetsName | RunsFunc | Finished

record thread =
  th_started :: bool
  th_joined :: bool
  th_tid :: int
  th_name :: string
  th_latch :: latch              \<comment> \<open>the only thread that waits for it is the creator, number 0\<close>
  th_creator :: creator_pc
  th_child :: child_pc
  th_child_name :: string        \<comment> \<open>\<open>t_threadName\<close> of the child\<close>
  th_detached :: bool

text \<open>\<open>num\<close> is the number \<open>setDefaultName\<close> draws from \<open>numCreated_\<close>.\<close>

definition setDefaultName :: "int \<Rightarrow> string \<Rightarrow> string" where
  "setDefaultName num n = (if n = [] then take 31 (''Thread'' @ show_int num) else n)"

definition Thread_new :: "int \<Rightarrow> string \<Rightarrow> thread" where
  "Thread_new num n =
     \<lparr>th_started = False, th_joined = False, th_tid = 0, th_name = setDefaultName num n,
      th_latch = \<lparr>la_count = 1, la_threads = [Away]\<rparr>, th_creator = Ready, th_child = NotCreated,
      th_child_name = ''unknown'', th_detached = False\<rparr>"

text \<open>\<open>start\<close> up to the call of \<open>latch_.wait()\<close>, and its last line.\<close>

definition Thread_start :: "bool \<Rightarrow> thread \<Rightarrow> thread res" where
  "Thread_start created s =
     cassert (\<not> th_started s)
       (let s = s\<lparr>th_started := True\<rparr>
        in if \<not> created then Inl Abort
           else Inr (s\<lparr>th_child := StoresTid, th_creator := InStart,
                       th_latch := (th_latch s)\<lparr>la_threads := [TestingCount]\<rparr>\<rparr>))"

definition Thread_started :: "thread \<Rightarrow> thread res" where
  "Thread_started s = cassert (0 < th_tid s) (Inr (s\<lparr>th_creator := Running\<rparr>))"

definition Thread_join :: "thread \<Rightarrow> thread res" where
  "Thread_join s =
     cassert (th_started s) (cassert (\<not> th_joined s) (Inr (s\<lparr>th_joined := True, th_creator := Joining\<rparr>)))"

definition Thread_delete :: "thread \<Rightarrow> thread" where
  "Thread_delete s = s\<lparr>th_detached := (th_started s \<and> \<not> th_joined s), th_creator := Gone\<rparr>"

text \<open>\<open>runInThread\<close>: the pointers to \<open>tid_\<close> and \<open>latch_\<close> dangle once the object is gone.\<close>

definition run_store_tid :: "int \<Rightarrow> thread \<Rightarrow> thread res" where
  "run_store_tid tid s =
     (if th_creator s = Gone then Inl UndefinedBehaviour else Inr (s\<lparr>th_tid := tid, th_child := CountsDown\<rparr>))"

definition run_count_down :: "thread \<Rightarrow> thread res" where
  "run_count_down s =
     (if th_creator s = Gone then Inl UndefinedBehaviour
      else rbind (countDown (th_latch s)) (\<lambda>l. Inr (s\<lparr>th_latch := l, th_child := SetsName\<rparr>)))"

definition run_set_name :: "thread \<Rightarrow> thread" where
  "run_set_name s = s\<lparr>th_child_name := (if th_name s = [] then ''muduoThread'' else th_name s), th_child := RunsFunc\<rparr>"

definition run_func :: "outcome \<Rightarrow> thread \<Rightarrow> thread res" where
  "run_func out s =
     (case out of
        Returns \<Rightarrow> Inr (s\<lparr>th_child_name := ''finished'', th_child := Finished\<rparr>)
      | _ \<Rightarrow> Inl Abort)"

text \<open>The creator destroys the object when none of its operations is running; \<open>tid\<close> is the id of the child.\<close>

inductive th_step :: "int \<Rightarrow> outcome \<Rightarrow> thread \<Rightarrow> thread res \<Rightarrow> bool" for tid out where
  Start: "th_creator s = Ready \<Longrightarrow> th_step tid out s (Thread_start True s)"
| LatchTest: "th_creator s = InStart \<Longrightarrow> la_threads (th_latch s) ! 0 = TestingCount \<Longrightarrow>
    th_step tid out s (Inr (s\<lparr>th_latch := latch_wait_test 0 (th_latch s)\<rparr>))"
| LatchWake: "th_creator s = InStart \<Longrightarrow> la_threads (th_latch s) ! 0 = WaitsCount \<Longrightarrow>
    th_step tid out s (Inr (s\<lparr>th_latch := (th_latch s)\<lparr>la_threads := [TestingCount]\<rparr>\<rparr>))"
| Started: "th_creator s = InStart \<Longrightarrow> la_threads (th_latch s) ! 0 = Away \<Longrightarrow> th_step tid out s (Thread_started s)"
| Join: "th_creator s = Running \<Longrightarrow> th_step tid out s (Thread_join s)"
| JoinReturns: "th_creator s = Joining \<Longrightarrow> th_child s = Finished \<Longrightarrow> th_step tid out s (Inr (s\<lparr>th_creator := Joined\<rparr>))"
| Delete: "th_creator s \<in> {Ready, Running, Joined} \<Longrightarrow> th_step tid out s (Inr (Thread_delete s))"
| StoreTid: "th_child s = StoresTid \<Longrightarrow> th_step tid out s (run_store_tid tid s)"
| CountDown: "th_child s = CountsDown \<Longrightarrow> th_step tid out s (run_count_down s)"
| SetName: "th_child s = SetsName \<Longrightarrow> th_step tid out s (Inr (run_set_name s))"
| RunFunc: "th_child s = RunsFunc \<Longrightarrow> th_step tid out s (run_func out s)"


subsection \<open>Starting a thread is a handshake\<close>

text \<open>Until the child has counted down, the latch is closed and the creator is still in \<open>start\<close>; after that the
  id is stored and the creator is not asleep.\<close>

definition th_inv :: "int \<Rightarrow> thread \<Rightarrow> bool" where
  "th_inv tid s \<longleftrightarrow>
     (case th_child s of
        NotCreated \<Rightarrow> th_creator s \<in> {Ready, Gone} \<and> \<not> th_started s
      | StoresTid \<Rightarrow> th_creator s = InStart
      | CountsDown \<Rightarrow> th_creator s = InStart
      | _ \<Rightarrow> th_creator s \<noteq> Ready \<and> la_count (th_latch s) = 0 \<and> la_threads (th_latch s) \<noteq> [WaitsCount]) \<and>
     (th_child s \<in> {NotCreated, StoresTid, CountsDown} \<longrightarrow> la_count (th_latch s) = 1) \<and>
     (th_child s \<in> {StoresTid, CountsDown} \<longrightarrow> la_threads (th_latch s) \<noteq> [Away]) \<and>
     (th_child s \<notin> {NotCreated, StoresTid} \<longrightarrow> th_tid s = tid) \<and>
     length (la_threads (th_latch s)) = 1 \<and>
     (th_child s \<noteq> NotCreated \<longrightarrow> th_started s) \<and>
     (th_joined s \<longleftrightarrow> th_creator s \<in> {Joining, Joined} \<or> th_creator s = Gone \<and> th_joined s) \<and>
     (th_creator s = Joined \<or> th_creator s = Gone \<and> th_joined s \<longrightarrow> th_child s = Finished) \<and>
     (th_detached s \<longleftrightarrow> th_creator s = Gone \<and> th_started s \<and> \<not> th_joined s)"

lemma one_thread: "length xs = 1 \<Longrightarrow> xs = [xs ! 0]"
  by (cases xs) auto

lemma th_step_safe:
  assumes "th_step tid Returns s r" and "th_inv tid s" and "0 < tid"
  shows "\<exists>s'. r = Inr s' \<and> th_inv tid s'"
  using assms(1)
proof (cases rule: th_step.cases)
  case Start
  then show ?thesis using assms(2) by (auto simp: th_inv_def Thread_start_def split: child_pc.splits)
next
  case LatchTest
  then show ?thesis
    using assms(2) one_thread [of "la_threads (th_latch s)"]
    by (auto simp: th_inv_def latch_wait_test_def list_update_def split: child_pc.splits list.splits)
next
  case LatchWake
  then show ?thesis using assms(2) by (auto simp: th_inv_def split: child_pc.splits)
next
  case Started
  then show ?thesis
    using assms(2,3) one_thread [of "la_threads (th_latch s)"]
    by (auto simp: th_inv_def Thread_started_def split: child_pc.splits)
next
  case Join
  then show ?thesis using assms(2) by (auto simp: th_inv_def Thread_join_def split: child_pc.splits)
next
  case JoinReturns
  then show ?thesis using assms(2) by (auto simp: th_inv_def split: child_pc.splits)
next
  case Delete
  then show ?thesis using assms(2) by (auto simp: th_inv_def Thread_delete_def split: child_pc.splits)
next
  case StoreTid
  then show ?thesis using assms(2) by (auto simp: th_inv_def run_store_tid_def split: child_pc.splits)
next
  case CountDown
  then show ?thesis
    using assms(2) one_thread [of "la_threads (th_latch s)"]
    by (cases "la_threads (th_latch s)")
      (auto simp: th_inv_def run_count_down_def countDown_def Let_def split: child_pc.splits)
next
  case SetName
  then show ?thesis using assms(2) by (auto simp: th_inv_def run_set_name_def split: child_pc.splits)
next
  case RunFunc
  then show ?thesis using assms(2) by (auto simp: th_inv_def run_func_def split: child_pc.splits)
qed

interpretation th: safe_steps "th_step tid Returns" "\<lambda>s. th_inv tid s \<and> 0 < tid" for tid
  by unfold_locales (use th_step_safe in blast)

lemma th_inv_new: "th_inv tid (Thread_new num n)"
  by (simp add: th_inv_def Thread_new_def)

text \<open>C28: Starting a thread is a handshake: in every interleaving of the creator and the thread it starts, as long as
  the thread's function does not throw, no assertion fails and the child never touches the object after it is
  destroyed; once \<open>start\<close> has returned \<open>tid_\<close> is the id of the child; the creator sleeps in \<open>start\<close> only while the child still has to count
  down; \<open>join\<close> returns only after the child has finished; and every started thread whose object is gone has been either
  joined or detached.\<close>

theorem thread_start_handshake:
  assumes "runs (th_step tid Returns) (Thread_new num n) r" and "0 < tid"
  shows "\<exists>s. r = Inr s \<and> (th_creator s \<in> {Running, Joining, Joined} \<longrightarrow> th_tid s = tid) \<and>
    (th_creator s = InStart \<and> la_threads (th_latch s) = [WaitsCount] \<longrightarrow> th_child s \<in> {StoresTid, CountsDown}) \<and>
    (th_creator s = Joined \<longrightarrow> th_child s = Finished) \<and>
    (th_creator s = Gone \<and> th_started s \<longrightarrow> (th_joined s \<longleftrightarrow> \<not> th_detached s))"
proof -
  obtain s where s: "r = Inr s" "th_inv tid s"
    using th.runs_safe [OF assms(1)] th_inv_new assms(2) by blast
  from s(2) have "th_creator s \<in> {Running, Joining, Joined} \<longrightarrow> th_tid s = tid"
    by (auto simp: th_inv_def split: child_pc.splits)
  moreover from s(2) have "th_creator s = InStart \<and> la_threads (th_latch s) = [WaitsCount] \<longrightarrow>
      th_child s \<in> {StoresTid, CountsDown}" by (auto simp: th_inv_def split: child_pc.splits)
  moreover from s(2) have "th_creator s = Joined \<longrightarrow> th_child s = Finished" by (simp add: th_inv_def)
  moreover from s(2) have "th_creator s = Gone \<and> th_started s \<longrightarrow> (th_joined s \<longleftrightarrow> \<not> th_detached s)"
    by (simp add: th_inv_def)
  ultimately show ?thesis using s(1) by blast
qed

theorem thread_start_handshake_witness:
  "\<exists>s. Thread_start True (Thread_new 1 []) = Inr s \<and> th_child s = StoresTid \<and>
    (th_creator s \<in> {Running, Joining, Joined} \<longrightarrow> th_tid s = 42)"
proof -
  obtain s where s: "Thread_start True (Thread_new 1 []) = Inr s" "th_child s = StoresTid"
    by (simp add: Thread_start_def Thread_new_def)
  have "runs (th_step 42 Returns) (Thread_new 1 []) (Thread_start True (Thread_new 1 []))"
    by (rule runs_one) (rule th_step.Start, simp add: Thread_new_def)
  from thread_start_handshake [OF this] s show ?thesis by auto
qed

text \<open>A thread whose function throws ends the process, and an object is started and joined at most once.\<close>

lemma throwing_thread_aborts: "out \<noteq> Returns \<Longrightarrow> run_func out s = Inl Abort"
  by (cases out) (simp_all add: run_func_def)

lemma start_twice_asserts: "th_started s \<Longrightarrow> Thread_start ok s = Inl AssertFail"
  by (simp add: Thread_start_def)

lemma join_twice_asserts: "Thread_join s = Inr s' \<Longrightarrow> Thread_join s' = Inl AssertFail"
  by (auto simp: Thread_join_def)

lemma join_unstarted_asserts: "Thread_join (Thread_new num n) = Inl AssertFail"
  by (simp add: Thread_join_def Thread_new_def)

text \<open>A default name is the number of the thread, uncut.\<close>

lemma length_show_int: "fits_int i \<Longrightarrow> length (show_int i) \<le> 11"
proof -
  assume "fits_int i"
  then have "nat (- i) < 10 ^ 10" "nat i < 10 ^ 10" by (auto simp: fits_int_def int_min_def int_max_def)
  then have "length (show_nat (nat (- i))) \<le> 10" "length (show_nat (nat i)) \<le> 10"
    by (simp_all add: length_show_nat)
  then show ?thesis by (simp add: show_int_def)
qed

lemma default_name: "fits_int num \<Longrightarrow> th_name (Thread_new num []) = ''Thread'' @ show_int num"
  using length_show_int [of num] by (simp add: Thread_new_def setDefaultName_def)

end
