(* ===== verification/ProcessInfo.thy ===== *)
theory ProcessInfo
  imports Inspector TimeZone Thread
begin

section \<open>Pages about the process and the system (\<open>base/ProcessInfo.cc\<close>, \<open>net/inspect/ProcessInspector.cc\<close>, \<open>SystemInspector.cc\<close>)\<close>

text \<open>
  The pages of the inspector are texts made from files under \<open>/proc\<close> and a few system calls. What the kernel
  answers at one moment is the record \<open>proc_env\<close>; the pages are functions of it. The library's floating point
  output is a parameter: \<open>mib kb\<close> is \<open>%.3f\<close> of \<open>kb / 1024.0\<close> and \<open>secs ticks\<close> is \<open>%12.3f\<close> of the ticks in seconds.
\<close>

record proc_env =
  pe_now :: int
  pe_start :: int
  pe_pid :: int
  pe_pw_name :: "string option"
  pe_hostname :: "string option"
  pe_exe :: string
  pe_debug :: bool
  pe_status :: string                      \<comment> \<open>\<open>/proc/self/status\<close>\<close>
  pe_self_stat :: string                   \<comment> \<open>\<open>/proc/self/stat\<close>\<close>
  pe_fd_names :: "string list"             \<comment> \<open>the entries of \<open>/proc/self/fd\<close>\<close>
  pe_task_names :: "string list"           \<comment> \<open>the entries of \<open>/proc/self/task\<close>\<close>
  pe_task_stat :: "int \<Rightarrow> string option"   \<comment> \<open>\<open>/proc/<pid>/task/<tid>/stat\<close>, if it can be read\<close>
  pe_nofile :: "int option"                \<comment> \<open>the limit \<open>getrlimit\<close> reports\<close>
  pe_times :: "(int \<times> int) option"         \<comment> \<open>user and system ticks \<open>times\<close> reports\<close>
  pe_uname :: "(string \<times> string \<times> string \<times> string \<times> string) option"
  pe_stat :: string
  pe_loadavg :: string
  pe_meminfo :: string
  pe_version :: string
  pe_cpuinfo :: string

text \<open>\<open>strtol\<close> with base 10 saturates at the limits of \<open>long\<close>; \<open>atoi\<close> converts its result to \<open>int\<close>.\<close>

definition strtol :: "string \<Rightarrow> int" where
  "strtol s =
     (let (neg, ds) = split_sign (dropWhile isspace s); v = int (digits_val (takeWhile isdigit ds))
      in max (- (2 ^ 63)) (min (2 ^ 63 - 1) (if neg then - v else v)))"

definition atoi :: "string \<Rightarrow> int" where
  "atoi s = cast_int (strtol s)"

subsection \<open>\<open>ProcessInfo\<close>\<close>

definition pidString :: "proc_env \<Rightarrow> string" where
  "pidString e = snprintf 32 (show_int (pe_pid e))"

definition username :: "proc_env \<Rightarrow> string" where
  "username e = (case pe_pw_name e of Some n \<Rightarrow> n | None \<Rightarrow> ''unknownuser'')"

definition hostname :: "proc_env \<Rightarrow> string" where
  "hostname e = (case pe_hostname e of Some n \<Rightarrow> take 255 n | None \<Rightarrow> ''unknownhost'')"

fun first_pos :: "char \<Rightarrow> string \<Rightarrow> nat option" where
  "first_pos c [] = None"
| "first_pos c (x # xs) = (if x = c then Some 0 else map_option Suc (first_pos c xs))"

text \<open>The name with its position, \<open>None\<close> for the empty piece.\<close>

definition procname_at :: "string \<Rightarrow> (nat \<times> nat) option" where
  "procname_at stat =
     (case (first_pos (CHR ''('') stat, last_pos (CHR '')'') stat) of
        (Some lp, Some rp) \<Rightarrow> if lp < rp then Some (lp + 1, rp) else None
      | _ \<Rightarrow> None)"

definition procname :: "string \<Rightarrow> string" where
  "procname stat = (case procname_at stat of Some (a, b) \<Rightarrow> window stat a b | None \<Rightarrow> [])"

definition exePath :: "proc_env \<Rightarrow> string" where
  "exePath e = take 1024 (pe_exe e)"

definition numeric_name :: "string \<Rightarrow> bool" where
  "numeric_name n \<longleftrightarrow> n \<noteq> [] \<and> isdigit (hd n)"

definition openedFiles :: "proc_env \<Rightarrow> int" where
  "openedFiles e = int (length (filter numeric_name (pe_fd_names e)))"

definition maxOpenFiles :: "proc_env \<Rightarrow> int" where
  "maxOpenFiles e = (case pe_nofile e of None \<Rightarrow> openedFiles e | Some n \<Rightarrow> cast_int n)"

definition cpuTime :: "proc_env \<Rightarrow> int \<times> int" where
  "cpuTime e = (case pe_times e of Some t \<Rightarrow> t | None \<Rightarrow> (0, 0))"

definition numThreads :: "proc_env \<Rightarrow> int" where
  "numThreads e = (case search_idx ''Threads:'' (pe_status e) of Some pos \<Rightarrow> atoi (drop (pos + 8) (pe_status e)) | None \<Rightarrow> 0)"

definition proc_threads :: "proc_env \<Rightarrow> int list" where
  "proc_threads e = sort (map atoi (filter numeric_name (pe_task_names e)))"

subsection \<open>Helpers of the pages\<close>

definition uptime :: "int \<Rightarrow> int \<Rightarrow> bool \<Rightarrow> string" where
  "uptime now start showMicroseconds =
     (let age = now - start;
          seconds = cast_int (age sdiv 1000000);
          days = seconds sdiv 86400; hours = (seconds smod 86400) sdiv 3600; minutes = (seconds smod 3600) sdiv 60;
          text = show_int days @ '' days '' @ fmt_0d 2 hours @ '':'' @ fmt_0d 2 minutes @ '':'' @ fmt_0d 2 (seconds smod 60)
      in snprintf 256 (if showMicroseconds then text @ ''.'' @ fmt_0d 6 (cast_int (age smod 1000000)) else text))"

definition getLong :: "string \<Rightarrow> string \<Rightarrow> int" where
  "getLong procStatus key =
     (case search_idx key procStatus of Some pos \<Rightarrow> strtol (drop (pos + length key) procStatus) | None \<Rightarrow> 0)"

text \<open>\<open>getProcessName\<close> reads up to the next newline; without one it reads past the end of the string.\<close>

definition getProcessName :: "string \<Rightarrow> string res" where
  "getProcessName procStatus =
     (case search_idx ''Name:'' procStatus of
        None \<Rightarrow> Inr []
      | Some pos \<Rightarrow>
          let rest = dropWhile (\<lambda>c. c = CHR 0x09) (drop (pos + 5) procStatus)
          in if CHR 0x0A \<in> set rest then Inr (takeWhile (\<lambda>c. c \<noteq> CHR 0x0A) rest) else Inl UndefinedBehaviour)"

definition next_field :: "string \<Rightarrow> string" where
  "next_field data = (case first_pos (CHR '' '') data of Some i \<Rightarrow> drop (i + 1) data | None \<Rightarrow> [])"

definition getCpuTime :: "string \<Rightarrow> int \<times> int" where
  "getCpuTime data =
     (let data = (next_field ^^ 10) data; utime = strtol data; stime = strtol (next_field data)
      in (utime, stime))"

definition stringPrintf :: "string \<Rightarrow> string \<Rightarrow> string" where
  "stringPrintf out text = out @ snprintf 256 text"

subsection \<open>The pages of the process\<close>

definition proc_overview :: "(int \<Rightarrow> string) \<Rightarrow> (int \<Rightarrow> string) \<Rightarrow> proc_env \<Rightarrow> string res" where
  "proc_overview mib secs e =
     (let nl = [CHR 0x0A]; status = pe_status e; (ut, st) = cpuTime e in
      rbind (getProcessName status) (\<lambda>name.
      let r = ''Page generated at '' @ ts_toFormattedString True (pe_now e) @ '' (UTC)'' @ nl @ ''Started at '' @
              ts_toFormattedString True (pe_start e) @ '' (UTC), up for '' @ uptime (pe_now e) (pe_start e) True @ nl @
              name @ '' ('' @ exePath e @ '') running as '' @ username e @ '' on '' @ hostname e @ nl;
          r = (if pe_debug e then r @ ''WARNING: debug build!'' @ nl else r);
          r = stringPrintf r (''pid '' @ show_int (pe_pid e) @ '', num of threads '' @ show_int (getLong status ''Threads:'') @
                '', bits 64'' @ nl);
          r = stringPrintf (r @ ''Virtual memory: '') (mib (getLong status ''VmSize:'') @ '' MiB, '');
          r = stringPrintf (r @ ''RSS memory: '') (mib (getLong status ''VmRSS:'') @ '' MiB'' @ nl);
          r = stringPrintf r (''Opened files: '' @ show_int (openedFiles e) @ '', limit: '' @ show_int (maxOpenFiles e) @ nl);
          r = stringPrintf r (''User time: '' @ secs ut @ ''s'' @ nl @ ''Sys time:  '' @ secs st @ ''s'' @ nl)
      in Inr r))"

text \<open>One line of the page of threads. The end of the name is a null pointer when the file has no name in parentheses; a file that
  ends right after it is cut beyond its end.\<close>

definition thread_line :: "(int \<Rightarrow> string) \<Rightarrow> int \<Rightarrow> string \<Rightarrow> string res" where
  "thread_line secs tid stat =
     (case procname_at stat of
        None \<Rightarrow> Inl UndefinedBehaviour
      | Some (a, rp) \<Rightarrow>
          cassert (stat ! rp = CHR '')'')
            (if length stat < rp + 4 then Inl UndefinedBehaviour
             else let state = stat ! (rp + 2); (ut, st) = getCpuTime (drop (rp + 4) stat); name = window stat a rp
                  in Inr (snprintf 256 (fmt_d 5 tid @ '' '' @ name @ replicate (16 - length name) (CHR '' '') @ '' '' @ [state] @ '' '' @
                       secs ut @ '' '' @ secs st @ [CHR 0x0A]))))"

fun thread_lines :: "(int \<Rightarrow> string) \<Rightarrow> (int \<Rightarrow> string option) \<Rightarrow> int list \<Rightarrow> string res" where
  "thread_lines secs stats [] = Inr []"
| "thread_lines secs stats (tid # tids) =
     (case stats tid of
        None \<Rightarrow> thread_lines secs stats tids
      | Some stat \<Rightarrow> rbind (thread_line secs tid stat) (\<lambda>l. rbind (thread_lines secs stats tids) (\<lambda>ls. Inr (l @ ls))))"

definition threads_page :: "(int \<Rightarrow> string) \<Rightarrow> proc_env \<Rightarrow> string res" where
  "threads_page secs e =
     rbind (thread_lines secs (pe_task_stat e) (proc_threads e)) (\<lambda>ls.
     Inr (''  TID NAME             S    User Time  System Time'' @ [CHR 0x0A] @ ls))"

definition pid_page :: "proc_env \<Rightarrow> string" where
  "pid_page e = snprintf 32 (show_int (pe_pid e))"

definition openedFiles_page :: "proc_env \<Rightarrow> string" where
  "openedFiles_page e = snprintf 32 (show_int (openedFiles e))"

subsection \<open>The pages of the system\<close>

definition memory_lines :: "string \<Rightarrow> string \<Rightarrow> string" where
  "memory_lines meminfo r =
     (let total = getLong meminfo ''MemTotal:''; free = getLong meminfo ''MemFree:'';
          buffers = getLong meminfo ''Buffers:''; cached = getLong meminfo ''Cached:'';
          line = (\<lambda>label kb r. stringPrintf r (label @ fmt_d 6 (kb sdiv 1024) @ '' MiB'' @ [CHR 0x0A]))
      in line ''Real Free:    '' (free + buffers + cached)
           (line ''Real Used:    '' (total - free - buffers - cached)
           (line ''Cached:       '' cached (line ''Buffers:      '' buffers
           (line ''Free Memory:  '' free (line ''Total Memory: '' total r))))))"

definition sys_overview :: "proc_env \<Rightarrow> string" where
  "sys_overview e =
     (let nl = [CHR 0x0A];
          r = ''Page generated at '' @ ts_toFormattedString True (pe_now e) @ '' (UTC)'' @ nl;
          r = (case pe_uname e of
                 None \<Rightarrow> r
               | Some (nodename, machine, sysname, release, version) \<Rightarrow>
                   stringPrintf (stringPrintf (stringPrintf r (''Hostname: '' @ nodename @ nl)) (''Machine: '' @ machine @ nl))
                     (''OS: '' @ sysname @ '' '' @ release @ '' '' @ version @ nl));
          bootTime = kMicroSecondsPerSecond * getLong (pe_stat e) ''btime '';
          r = r @ ''Boot time: '' @ ts_toFormattedString False bootTime @ '' (UTC)'' @ nl @
              ''Up time: '' @ uptime (pe_now e) bootTime False @ nl;
          r = stringPrintf r (''Processes created: '' @ show_int (getLong (pe_stat e) ''processes '') @ nl);
          r = stringPrintf r (''Loadavg: '' @ pe_loadavg e @ nl)
      in memory_lines (pe_meminfo e) r)"

subsection \<open>Registration\<close>

text \<open>A page whose making is undefined has no text; the callbacks below give the text of the others.\<close>

definition ok_text :: "string res \<Rightarrow> string" where
  "ok_text r = (case r of Inr t \<Rightarrow> t | Inl _ \<Rightarrow> [])"

definition registerProcess :: "(int \<Rightarrow> string) \<Rightarrow> (int \<Rightarrow> string) \<Rightarrow> proc_env \<Rightarrow> inspector \<Rightarrow> inspector" where
  "registerProcess mib secs e ins =
     inspect_add ''proc'' ''threads'' (Some (\<lambda>_ _. ok_text (threads_page secs e))) ''list /proc/self/task''
     (inspect_add ''proc'' ''status'' (Some (\<lambda>_ _. pe_status e)) ''print /proc/self/status''
     (inspect_add ''proc'' ''pid'' (Some (\<lambda>_ _. pid_page e)) ''print pid''
     (inspect_add ''proc'' ''overview'' (Some (\<lambda>_ _. ok_text (proc_overview mib secs e))) ''print basic overview'' ins)))"

definition registerSystem :: "proc_env \<Rightarrow> inspector \<Rightarrow> inspector" where
  "registerSystem e ins =
     inspect_add ''sys'' ''stat'' (Some (\<lambda>_ _. pe_stat e)) ''print /proc/stat''
     (inspect_add ''sys'' ''meminfo'' (Some (\<lambda>_ _. pe_meminfo e)) ''print /proc/meminfo''
     (inspect_add ''sys'' ''cpuinfo'' (Some (\<lambda>_ _. pe_cpuinfo e)) ''print /proc/cpuinfo''
     (inspect_add ''sys'' ''version'' (Some (\<lambda>_ _. pe_version e)) ''print /proc/version''
     (inspect_add ''sys'' ''loadavg'' (Some (\<lambda>_ _. pe_loadavg e)) ''print /proc/loadavg''
     (inspect_add ''sys'' ''overview'' (Some (\<lambda>_ _. sys_overview e)) ''print system overview'' ins)))))"

definition Inspector_new :: "(int \<Rightarrow> string) \<Rightarrow> (int \<Rightarrow> string) \<Rightarrow> proc_env \<Rightarrow> bool \<Rightarrow> bool \<Rightarrow> inspector res" where
  "Inspector_new mib secs e mainThread another =
     cassert mainThread (cassert (\<not> another)
       (Inr (registerSystem e (registerProcess mib secs e \<lparr>modules = Map.empty, helps = []\<rparr>))))"


subsection \<open>Reading the statistics of a thread\<close>

lemma first_pos_append: "c \<notin> set xs \<Longrightarrow> first_pos c (xs @ c # ys) = Some (length xs)"
  by (induction xs) auto

lemma last_pos_append:
  "last_pos c (xs @ ys) = (case last_pos c ys of Some i \<Rightarrow> Some (length xs + i) | None \<Rightarrow> last_pos c xs)"
  by (induction xs) (auto split: option.splits)

lemma last_pos_None: "c \<notin> set xs \<Longrightarrow> last_pos c xs = None"
  by (induction xs) auto

lemma next_field_skip: "CHR '' '' \<notin> set f \<Longrightarrow> next_field (f @ CHR '' '' # rest) = rest"
  by (simp add: next_field_def first_pos_append)

lemma next_fields_skip:
  "\<forall>f \<in> set fs. CHR '' '' \<notin> set f \<Longrightarrow> (next_field ^^ length fs) (concat (map (\<lambda>f. f @ '' '') fs) @ rest) = rest"
  by (induction fs) (simp_all add: funpow_swap1 next_field_skip)

lemma show_nat_no: "\<not> isdigit c \<Longrightarrow> c \<notin> set (show_nat n)"
  using show_nat_digits by blast

lemma strtol_show_nat:
  assumes "n < 2 ^ 63"
  shows "strtol (show_nat n @ CHR '' '' # rest) = int n"
proof -
  have hd: "isdigit (hd (show_nat n))" by (rule show_nat_digits) (rule list.set_sel(1) [OF show_nat_ne])
  have "dropWhile isspace (show_nat n @ CHR '' '' # rest) = show_nat n @ CHR '' '' # rest"
    using hd isdigit_not_special [of "hd (show_nat n)"] by (cases "show_nat n") auto
  moreover have "split_sign (show_nat n @ CHR '' '' # rest) = (False, show_nat n @ CHR '' '' # rest)"
    using hd isdigit_not_special [of "hd (show_nat n)"] by (cases "show_nat n") auto
  moreover have "takeWhile isdigit (show_nat n @ CHR '' '' # rest) = show_nat n"
    using show_nat_digits [of _ n] by (simp add: takeWhile_append isdigit_def)
  ultimately show ?thesis using assms by (simp add: strtol_def)
qed

text \<open>The text of \<open>/proc/<pid>/task/<tid>/stat\<close>: id, name in parentheses, state, ten numbers, user and system time, and more.\<close>

definition stat_text :: "nat \<Rightarrow> string \<Rightarrow> char \<Rightarrow> string list \<Rightarrow> nat \<Rightarrow> nat \<Rightarrow> string \<Rightarrow> string" where
  "stat_text pid name st fs ut stm rest =
     show_nat pid @ '' ('' @ name @ '') '' @ [st] @ '' '' @ concat (map (\<lambda>f. f @ '' '') fs) @ show_nat ut @ '' '' @ show_nat stm @ '' '' @ rest"

lemma stat_name:
  assumes "CHR '')'' \<notin> set (st # concat fs @ rest)"
  shows "procname_at (stat_text pid name st fs ut stm rest) = Some (length (show_nat pid) + 2, length (show_nat pid) + 2 + length name)"
proof -
  let ?after = "'' '' @ [st] @ '' '' @ concat (map (\<lambda>f. f @ '' '') fs) @ show_nat ut @ '' '' @ show_nat stm @ '' '' @ rest"
  have split: "stat_text pid name st fs ut stm rest = (show_nat pid @ '' '') @ CHR ''('' # name @ CHR '')'' # ?after"
    "stat_text pid name st fs ut stm rest = ((show_nat pid @ '' ('') @ name) @ [CHR '')''] @ ?after"
    by (simp_all add: stat_text_def)
  have "CHR ''('' \<notin> set (show_nat pid @ '' '')" by (simp add: show_nat_no isdigit_def)
  then have a: "first_pos (CHR ''('') (stat_text pid name st fs ut stm rest) = Some (length (show_nat pid) + 1)"
    unfolding split(1) by (subst first_pos_append) simp_all
  have "CHR '')'' \<notin> set ?after" using assms by (auto simp: show_nat_no isdigit_def)
  then have b: "last_pos (CHR '')'') (stat_text pid name st fs ut stm rest) = Some (length (show_nat pid) + 2 + length name)"
    unfolding split(2) by (subst last_pos_append, subst last_pos_append) (simp only: last_pos_None, simp)
  show ?thesis by (simp add: procname_at_def a b)
qed

text \<open>The line of a thread shows its own name, state and times, whatever characters the name contains, parentheses and blanks
  included.\<close>

lemma thread_line_exact:
  assumes "CHR '')'' \<notin> set (st # concat fs @ rest)" and "length fs = 10" and "\<forall>f \<in> set fs. CHR '' '' \<notin> set f"
    and "ut < 2 ^ 63" and "stm < 2 ^ 63"
  shows "thread_line secs tid (stat_text pid name st fs ut stm rest) =
    Inr (snprintf 256 (fmt_d 5 tid @ '' '' @ name @ replicate (16 - length name) (CHR '' '') @ '' '' @ [st] @ '' '' @
      secs (int ut) @ '' '' @ secs (int stm) @ [CHR 0x0A]))"
proof -
  let ?s = "stat_text pid name st fs ut stm rest" and ?rp = "length (show_nat pid) + 2 + length name"
  let ?tail = "show_nat ut @ '' '' @ show_nat stm @ '' '' @ rest"
  have s: "?s = (show_nat pid @ '' ('' @ name) @ '') '' @ [st] @ '' '' @ concat (map (\<lambda>f. f @ '' '') fs) @ ?tail"
    by (simp add: stat_text_def)
  have at: "?s ! ?rp = CHR '')''" "?s ! (?rp + 2) = st" "window ?s (length (show_nat pid) + 2) ?rp = name" "\<not> length ?s < ?rp + 4"
    unfolding s by (simp_all add: nth_append window_def)
  have "?s = (show_nat pid @ '' ('' @ name @ '') '' @ [st] @ '' '') @ concat (map (\<lambda>f. f @ '' '') fs) @ ?tail"
      "length (show_nat pid @ '' ('' @ name @ '') '' @ [st] @ '' '') = ?rp + 4" by (simp_all add: s)
  then have rest: "drop (?rp + 4) ?s = concat (map (\<lambda>f. f @ '' '') fs) @ ?tail" by (metis append_eq_conv_conj)
  have "(next_field ^^ 10) (concat (map (\<lambda>f. f @ '' '') fs) @ ?tail) = ?tail"
    using next_fields_skip [OF assms(3)] assms(2) by simp
  moreover have "next_field ?tail = show_nat stm @ '' '' @ rest"
    using next_field_skip [of "show_nat ut"] by (simp add: show_nat_no isdigit_def)
  ultimately have "getCpuTime (drop (?rp + 4) ?s) = (int ut, int stm)"
    unfolding getCpuTime_def rest
    using strtol_show_nat [OF assms(4)] strtol_show_nat [OF assms(5)] by (simp add: Let_def)
  then show ?thesis
    using stat_name [OF assms(1), of pid name ut stm] at by (simp add: thread_line_def Let_def)
qed

text \<open>A file without a name in parentheses makes the page dereference a null pointer.\<close>

lemma thread_line_undefined: "CHR ''('' \<notin> set stat \<Longrightarrow> thread_line secs tid stat = Inl UndefinedBehaviour"
proof -
  assume "CHR ''('' \<notin> set stat"
  then have "first_pos (CHR ''('') stat = None" by (induction stat) auto
  then show ?thesis by (simp add: thread_line_def procname_at_def)
qed

text \<open>A status without a newline after the name is read past its end.\<close>

lemma getProcessName_overrun: "getProcessName ''Name: x'' = Inl UndefinedBehaviour"
  by code_simp

text \<open>The pages are served under their paths.\<close>

lemma meminfo_served:
  assumes "Inspector_new mib secs e mt another = Inr ins" and "hr_path req = ''/sys/meminfo''"
  shows "inspect_onRequest favicon ins req resp = page ''text/plain'' (pe_meminfo e) resp"
proof -
  have "modules ins ''sys'' = Some l \<Longrightarrow> l ''meminfo'' = Some (Some (\<lambda>_ _. pe_meminfo e))" for l
    using assms(1) by (auto simp: Inspector_new_def registerSystem_def registerProcess_def inspect_add_def)
  moreover have "modules ins ''sys'' \<noteq> None"
    using assms(1) by (auto simp: Inspector_new_def registerSystem_def inspect_add_def)
  moreover have "inspect_split ''/sys/meminfo'' = [''sys'', ''meminfo'']"
    using split_path_of [of "[''sys'', ''meminfo'']"] by (simp add: path_of_def segment_def)
  ultimately show ?thesis using assms(2) by (auto simp: inspect_onRequest_def)
qed

end
