(* ===== verification/HttpSession.thy ===== *)
theory HttpSession
  imports Inspector
begin

section \<open>HTTP sessions (\<open>net/http/HttpServer.cc\<close> on \<open>net/TcpConnection.cc\<close>)\<close>

text \<open>
  A client that sends one request after another on one connection and waits for each response. The bytes of a request may
  arrive in any number of pieces; each piece makes the socket readable once, is read into the input buffer and handed to the
  server's message callback. The kernel takes as much of each response as it likes at once; the rest waits in the output buffer.
\<close>

text \<open>The server's connection callback gives a new connection its own context.\<close>

definition http_onConnection :: "tcpconn \<Rightarrow> http_context option \<Rightarrow> http_context option" where
  "http_onConnection conn ctx = (if connected conn then Some HttpContext_new else ctx)"

definition http_reply :: "(http_request \<Rightarrow> http_response \<Rightarrow> http_response) \<Rightarrow> http_request \<Rightarrow> http_response" where
  "http_reply cb req = cb req (HttpResponse_new (wants_close req))"

text \<open>The response the next call of the message callback will send, if any.\<close>

definition next_reply :: "(http_request \<Rightarrow> http_response \<Rightarrow> http_response) \<Rightarrow> int \<Rightarrow> http_context \<Rightarrow> tcpconn \<Rightarrow> bytes" where
  "next_reply cb t ctx conn =
     (case parseRequest t ctx (inputBuffer conn) of
        Some (Inr (_, c, _)) \<Rightarrow> concat (response_pieces (http_reply cb (hc_request c)))
      | _ \<Rightarrow> [])"

text \<open>A piece arrives at time \<open>t\<close>; the kernel takes at most \<open>n\<close> bytes of the response, if there is one.\<close>

definition http_readable :: "(http_request \<Rightarrow> http_response \<Rightarrow> http_response) \<Rightarrow> int \<times> nat \<times> bytes \<Rightarrow> http_context \<Rightarrow> tcpconn \<Rightarrow>
    (http_context \<times> tcpconn) res option" where
  "http_readable cb e ctx conn =
     (case e of (t, n, piece) \<Rightarrow>
        (case tc_handleRead (ReadData piece) conn of
           Inl err \<Rightarrow> Some (Inl err)
         | Inr conn \<Rightarrow> http_onMessage cb t (Wrote 0) (Wrote (min n (length (next_reply cb t ctx conn)))) ctx conn))"

fun http_feed :: "(http_request \<Rightarrow> http_response \<Rightarrow> http_response) \<Rightarrow> (int \<times> nat \<times> bytes) list \<Rightarrow> http_context \<Rightarrow> tcpconn \<Rightarrow>
    (http_context \<times> tcpconn) res option" where
  "http_feed cb [] ctx conn = Some (Inr (ctx, conn))"
| "http_feed cb (e # es) ctx conn =
     (case http_readable cb e ctx conn of
        None \<Rightarrow> None
      | Some (Inl err) \<Rightarrow> Some (Inl err)
      | Some (Inr (ctx, conn)) \<Rightarrow> http_feed cb es ctx conn)"

lemma http_feed_append:
  "http_feed cb (es @ fs) ctx conn =
     (case http_feed cb es ctx conn of
        None \<Rightarrow> None
      | Some (Inl err) \<Rightarrow> Some (Inl err)
      | Some (Inr (ctx, conn)) \<Rightarrow> http_feed cb fs ctx conn)"
  by (induction es arbitrary: ctx conn) (auto split: option.splits sum.splits)

definition pieces :: "(int \<times> nat \<times> bytes) list \<Rightarrow> bytes list" where "pieces es = map (\<lambda>(t, n, piece). piece) es"


subsection \<open>The time of a request\<close>

lemma http_run_past_line:
  "http_run t c bs = Inr (ok, c1, bs1) \<Longrightarrow> hc_state c \<noteq> kExpectRequestLine \<Longrightarrow> hc_state c1 \<noteq> kExpectRequestLine"
proof (induction t c bs rule: http_run.induct)
  case (1 t c bs)
  then show ?case
    by (auto simp: http_run.simps [of t c bs] Let_def split: option.splits if_splits)
qed

text \<open>The time kept with a request is that of the call that parsed its first line.\<close>

lemma http_run_receiveTime:
  "http_run t c bs = Inr (ok, c1, bs1) \<Longrightarrow> hr_receiveTime (hc_request c1) =
     (if hc_state c = kExpectRequestLine \<and> hc_state c1 \<noteq> kExpectRequestLine then t else hr_receiveTime (hc_request c))"
proof (induction t c bs rule: http_run.induct)
  case (1 t c bs)
  then show ?case
    by (auto simp: http_run.simps [of t c bs] Let_def processRequestLine_receiveTime split: option.splits if_splits
        dest: http_run_past_line)
qed



subsection \<open>A request in pieces\<close>

text \<open>The context and the bytes that are still to be parsed make up the request \<open>r\<close>.\<close>

definition completes :: "http_context \<Rightarrow> bytes \<Rightarrow> http_request \<Rightarrow> bool" where
  "completes c bs r \<longleftrightarrow> (hc_state c = kExpectRequestLine \<or> hc_state c = kExpectHeaders) \<and>
     (\<forall>t. \<exists>y. http_run t c bs = Inr (True, \<lparr>hc_state = kGotAll, hc_request = r\<lparr>hr_receiveTime := y\<rparr>\<rparr>, []))"

lemma completes_new:
  assumes "request_ok r" and "\<forall>h \<in> set hs. header_ok h"
  shows "completes HttpContext_new (http_print r hs) (r\<lparr>hr_headers := map_of (rev hs)\<rparr>)"
proof -
  have st: "hc_state HttpContext_new = kExpectRequestLine" by (simp add: HttpContext_new_def)
  have "\<exists>y. http_run t HttpContext_new (http_print r hs) =
      Inr (True, \<lparr>hc_state = kGotAll, hc_request = r\<lparr>hr_headers := map_of (rev hs), hr_receiveTime := y\<rparr>\<rparr>, [])" for t
  proof -
    obtain c b where c: "parseRequest t HttpContext_new (buf_of (http_print r hs)) = Some (Inr (True, c, b))" "gotAll c" "content b = []"
        "hc_request c = r\<lparr>hr_receiveTime := t, hr_headers := map_of (rev hs)\<rparr>"
      using parse_print_buffer [OF buf_of_ok(1), of "http_print r hs" r hs "[]" t] assms by auto
    have "http_run t HttpContext_new (http_print r hs) = Inr (True, c, [])"
      using parseRequest_refines [OF buf_of_ok(1), of HttpContext_new t "http_print r hs"] c st
      by (auto simp: same_result_def split: sum.splits)
    moreover have "c = \<lparr>hc_state = kGotAll, hc_request = r\<lparr>hr_headers := map_of (rev hs), hr_receiveTime := t\<rparr>\<rparr>"
      using c(2,4) by (cases c, cases r) (simp add: gotAll_def)
    ultimately show ?thesis by blast
  qed
  with st show ?thesis by (simp add: completes_def)
qed

lemma at_time_own [simp]: "at_time (hr_receiveTime (hc_request c)) c = c"
  by (simp add: at_time_def)

lemma completes_prefix:
  assumes "completes c (bs @ ext) r" and "ext \<noteq> []"
  shows "\<exists>c1 bs1. http_run t c bs = Inr (True, c1, bs1) \<and> \<not> gotAll c1 \<and> completes c1 (bs1 @ ext) r"
proof -
  have st: "hc_state c = kExpectRequestLine \<or> hc_state c = kExpectHeaders" using assms(1) by (simp add: completes_def)
  obtain y where y: "http_run t c (bs @ ext) = Inr (True, \<lparr>hc_state = kGotAll, hc_request = r\<lparr>hr_receiveTime := y\<rparr>\<rparr>, [])"
    using assms(1) unfolding completes_def by blast
  obtain ok c1 bs1 where run: "http_run t c bs = Inr (ok, c1, bs1)"
    using y http_run_append [OF st, of t bs ext] by (cases "http_run t c bs") auto
  have ok: "ok" "hc_state c1 \<noteq> kGotAll"
      "http_run t c1 (bs1 @ ext) = Inr (True, \<lparr>hc_state = kGotAll, hc_request = r\<lparr>hr_receiveTime := y\<rparr>\<rparr>, [])"
    using y http_run_append [OF st, of t bs ext] run assms(2) by (auto split: if_splits)
  have "\<exists>z. http_run t' c1 (bs1 @ ext) = Inr (True, \<lparr>hc_state = kGotAll, hc_request = r\<lparr>hr_receiveTime := z\<rparr>\<rparr>, [])" for t'
    using http_run_time [OF ok(3), of t' "hr_receiveTime (hc_request c1)"] by (auto simp: at_time_def)
  with ok http_run_state [OF run st] run show ?thesis by (auto simp: completes_def gotAll_def)
qed


text \<open>A piece that does not complete the request is parsed as far as it goes; nothing is sent.\<close>

lemma handleRead_piece:
  assumes "tc_inv conn" and "piece \<noteq> []"
  shows "\<exists>conn'. tc_handleRead (ReadData piece) conn = Inr conn' \<and> tc_inv conn' \<and> tc_state conn' = tc_state conn \<and>
    accepted conn' = accepted conn \<and> content (inputBuffer conn') = content (inputBuffer conn) @ piece"
proof -
  obtain b where b: "readFd (ReadData piece) (inputBuffer conn) = Inr (int (length piece), 0, b)" "buffer_inv b"
      "content b = content (inputBuffer conn) @ piece"
    using readFd_ok [OF tc_invD(1) [OF assms(1)]] by blast
  have "tc_inv (conn\<lparr>inputBuffer := b\<rparr>)" using assms(1) b(2) by (simp add: tc_inv_def)
  with b assms(2) show ?thesis by (simp add: tc_handleRead_def tc_inv_queue) (simp add: call_user_def)
qed

lemma http_piece:
  assumes "tc_inv conn" and "tc_state conn = kConnected" and "piece \<noteq> []" and "ext \<noteq> []"
    and "completes c (content (inputBuffer conn) @ piece @ ext) r"
  shows "\<exists>c1 conn'. http_readable cb (t, n, piece) c conn = Some (Inr (c1, conn')) \<and> tc_inv conn' \<and> tc_state conn' = kConnected \<and>
    accepted conn' = accepted conn \<and> completes c1 (content (inputBuffer conn') @ ext) r \<and>
    hr_receiveTime (hc_request c1) = (if hc_state c = kExpectRequestLine \<and> hc_state c1 \<noteq> kExpectRequestLine then t
      else hr_receiveTime (hc_request c))"
proof -
  obtain conn1 where conn1: "tc_handleRead (ReadData piece) conn = Inr conn1" "tc_inv conn1" "tc_state conn1 = kConnected"
      "accepted conn1 = accepted conn" "content (inputBuffer conn1) = content (inputBuffer conn) @ piece"
    using handleRead_piece [OF assms(1,3)] assms(2) by auto
  have st: "hc_state c = kExpectRequestLine \<or> hc_state c = kExpectHeaders" using assms(5) by (simp add: completes_def)
  obtain c1 bs1 where c1: "http_run t c (content (inputBuffer conn1)) = Inr (True, c1, bs1)" "\<not> gotAll c1" "completes c1 (bs1 @ ext) r"
    using completes_prefix [of c "content (inputBuffer conn1)" ext r t] assms(4,5) conn1(5) by auto
  obtain b where b: "parseRequest t c (inputBuffer conn1) = Some (Inr (True, c1, b))" "buffer_inv b" "content b = bs1"
    using parseRequest_refines [OF tc_invD(1) [OF conn1(2)] st, of t] c1(1) by (auto simp: same_result_def)
  have "tc_inv (conn1\<lparr>inputBuffer := b\<rparr>)" using conn1(2) b(2) by (simp add: tc_inv_def)
  with b c1 conn1 http_run_receiveTime [OF c1(1)] show ?thesis by (simp add: http_readable_def http_onMessage_def)
qed

text \<open>The last piece completes the request; the response goes to the connection.\<close>

lemma http_last_piece:
  assumes "tc_inv conn" and "tc_state conn = kConnected" and "piece \<noteq> []"
    and "completes c (content (inputBuffer conn) @ piece) r"
    and "req = r\<lparr>hr_receiveTime := (if hc_state c = kExpectRequestLine then t else hr_receiveTime (hc_request c))\<rparr>"
  shows "\<exists>conn'. http_readable cb (t, n, piece) c conn = Some (Inr (HttpContext_new, conn')) \<and> tc_inv conn' \<and>
    content (inputBuffer conn') = [] \<and> accepted conn' = accepted conn @ concat (response_pieces (http_reply cb req)) \<and>
    tc_state conn' = (if hp_close (http_reply cb req) then kDisconnecting else kConnected)"
proof -
  obtain conn1 where conn1: "tc_handleRead (ReadData piece) conn = Inr conn1" "tc_inv conn1" "tc_state conn1 = kConnected"
      "accepted conn1 = accepted conn" "content (inputBuffer conn1) = content (inputBuffer conn) @ piece"
    using handleRead_piece [OF assms(1,3)] assms(2) by auto
  have st: "hc_state c = kExpectRequestLine \<or> hc_state c = kExpectHeaders" using assms(4) by (simp add: completes_def)
  obtain y where y: "http_run t c (content (inputBuffer conn1)) = Inr (True, \<lparr>hc_state = kGotAll, hc_request = r\<lparr>hr_receiveTime := y\<rparr>\<rparr>, [])"
    using assms(4) conn1(5) unfolding completes_def by metis
  have req: "r\<lparr>hr_receiveTime := y\<rparr> = req" using http_run_receiveTime [OF y] assms(5) by (auto split: if_splits)
  obtain b where b: "parseRequest t c (inputBuffer conn1) = Some (Inr (True, \<lparr>hc_state = kGotAll, hc_request = req\<rparr>, b))"
      "buffer_inv b" "content b = []"
    using parseRequest_refines [OF tc_invD(1) [OF conn1(2)] st, of t] y req by (auto simp: same_result_def)
  let ?n = "min n (length (next_reply cb t c conn1))"
  have n: "?n \<le> length (concat (response_pieces (cb req (HttpResponse_new (wants_close req)))))"
    using b(1) by (simp add: next_reply_def http_reply_def)
  have "tc_inv (conn1\<lparr>inputBuffer := b\<rparr>)" using conn1(2) b(2) by (simp add: tc_inv_def)
  from onRequest_ok [where cb = cb and req = req, OF this _ n] conn1(3,4) obtain conn' where
    "onRequest cb (Wrote ?n) req (conn1\<lparr>inputBuffer := b\<rparr>) = Inr conn'" "tc_inv conn'" "inputBuffer conn' = b"
    "accepted conn' = accepted conn @ concat (response_pieces (http_reply cb req))"
    "tc_state conn' = (if hp_close (http_reply cb req) then kDisconnecting else kConnected)"
    by (auto simp: http_reply_def)
  with b conn1(1) show ?thesis
    by (simp add: http_readable_def http_onMessage_def Let_def gotAll_def hc_reset_def) (simp add: HttpContext_new_def)
qed

lemma http_feed_request:
  assumes "tc_inv conn" and "tc_state conn = kConnected" and "es \<noteq> []" and "\<forall>p \<in> set (pieces es). p \<noteq> []"
    and "completes c (content (inputBuffer conn) @ concat (pieces es)) r"
    and "hc_state c \<noteq> kExpectRequestLine \<Longrightarrow> hr_receiveTime (hc_request c) \<in> T" and "fst ` set es \<subseteq> T"
  shows "\<exists>t \<in> T. \<exists>conn'. http_feed cb es c conn = Some (Inr (HttpContext_new, conn')) \<and> tc_inv conn' \<and>
    content (inputBuffer conn') = [] \<and> accepted conn' = accepted conn @ concat (response_pieces (http_reply cb (r\<lparr>hr_receiveTime := t\<rparr>))) \<and>
    tc_state conn' = (if hp_close (http_reply cb (r\<lparr>hr_receiveTime := t\<rparr>)) then kDisconnecting else kConnected)"
  using assms
proof (induction es arbitrary: c conn)
  case (Cons e es)
  obtain t n piece where e: "e = (t, n, piece)" by (cases e)
  show ?case
  proof (cases "es = []")
    case True
    let ?t = "if hc_state c = kExpectRequestLine then t else hr_receiveTime (hc_request c)"
    have "?t \<in> T" using Cons.prems(6,7) e by simp
    moreover have "piece \<noteq> []" "completes c (content (inputBuffer conn) @ piece) r"
      using True Cons.prems(4,5) e by (simp_all add: pieces_def)
    from http_last_piece [where cb = cb and t = t and n = n, OF Cons.prems(1,2) this refl] True e
    have "\<exists>conn'. http_feed cb (e # es) c conn = Some (Inr (HttpContext_new, conn')) \<and> tc_inv conn' \<and>
      content (inputBuffer conn') = [] \<and> accepted conn' = accepted conn @ concat (response_pieces (http_reply cb (r\<lparr>hr_receiveTime := ?t\<rparr>))) \<and>
      tc_state conn' = (if hp_close (http_reply cb (r\<lparr>hr_receiveTime := ?t\<rparr>)) then kDisconnecting else kConnected)"
      by (auto simp del: if_split)
    ultimately show ?thesis by (rule bexI [rotated])
  next
    case False
    have ext: "concat (pieces es) \<noteq> []" "piece \<noteq> []" using False Cons.prems(4) e by (cases es; auto simp: pieces_def)+
    have "completes c (content (inputBuffer conn) @ piece @ concat (pieces es)) r"
      using Cons.prems(5) e by (simp add: pieces_def)
    from http_piece [where cb = cb and t = t and n = n, OF Cons.prems(1,2) ext(2,1) this] e
    obtain c1 conn1 where c1: "http_readable cb e c conn = Some (Inr (c1, conn1))" "tc_inv conn1" "tc_state conn1 = kConnected"
        "accepted conn1 = accepted conn" "completes c1 (content (inputBuffer conn1) @ concat (pieces es)) r"
        "hr_receiveTime (hc_request c1) = (if hc_state c = kExpectRequestLine \<and> hc_state c1 \<noteq> kExpectRequestLine then t
           else hr_receiveTime (hc_request c))"
      by blast
    have "hc_state c1 \<noteq> kExpectRequestLine \<Longrightarrow> hr_receiveTime (hc_request c1) \<in> T"
      using c1(6) Cons.prems(6,7) e by (auto split: if_splits)
    from Cons.IH [OF c1(2,3) False _ c1(5) this] Cons.prems(4,7) c1(1,4) show ?thesis by (simp add: pieces_def)
  qed
qed simp


subsection \<open>Sessions\<close>

text \<open>A request of a session: what the client asks for, with which headers, and the pieces it arrives in.\<close>

definition asks :: "http_request \<Rightarrow> (string \<times> string) list \<Rightarrow> (int \<times> nat \<times> bytes) list \<Rightarrow> bool" where
  "asks r hs es \<longleftrightarrow> request_ok r \<and> (\<forall>h \<in> set hs. header_ok h) \<and> (\<forall>p \<in> set (pieces es). p \<noteq> []) \<and>
     concat (pieces es) = http_print r hs"

definition reply_at :: "(http_request \<Rightarrow> http_response \<Rightarrow> http_response) \<Rightarrow> http_request \<Rightarrow> (string \<times> string) list \<Rightarrow> int \<Rightarrow> http_response" where
  "reply_at cb r hs t = http_reply cb (r\<lparr>hr_receiveTime := t, hr_headers := map_of (rev hs)\<rparr>)"

lemma http_print_nonempty: "http_print r hs \<noteq> []"
  by (simp add: http_print_def kCRLF_def)

lemma feed_asked:
  assumes "tc_inv conn" and "tc_state conn = kConnected" and "content (inputBuffer conn) = []" and "asks r hs es"
  shows "\<exists>t \<in> fst ` set es. \<exists>conn'. http_feed cb es HttpContext_new conn = Some (Inr (HttpContext_new, conn')) \<and> tc_inv conn' \<and>
    content (inputBuffer conn') = [] \<and> accepted conn' = accepted conn @ concat (response_pieces (reply_at cb r hs t)) \<and>
    tc_state conn' = (if hp_close (reply_at cb r hs t) then kDisconnecting else kConnected)"
proof -
  have "es \<noteq> []" using assms(4) http_print_nonempty [of r hs] by (auto simp: asks_def pieces_def)
  moreover have "completes HttpContext_new (content (inputBuffer conn) @ concat (pieces es)) (r\<lparr>hr_headers := map_of (rev hs)\<rparr>)"
    using completes_new [of r hs] assms(3,4) by (simp add: asks_def)
  moreover have "hc_state HttpContext_new = kExpectRequestLine" by (simp add: HttpContext_new_def)
  moreover have "reply_at cb r hs t = http_reply cb (r\<lparr>hr_headers := map_of (rev hs), hr_receiveTime := t\<rparr>)" for t
    by (cases r) (simp add: reply_at_def)
  ultimately show ?thesis
    using http_feed_request [OF assms(1,2), of es HttpContext_new _ "fst ` set es" cb] assms(4) by (simp add: asks_def)
qed

text \<open>The inspector is such a server: whoever asks for a registered command on a live connection is sent the text its callback returns.\<close>

lemma inspector_reply:
  assumes "\<forall>s \<in> set (md # cmd # args). segment s" and "hr_path r = path_of (md # cmd # args)"
  shows "hp_body (reply_at (inspect_onRequest favicon (inspect_add md cmd (Some f) help ins)) r hs t) = f (hr_method r) args"
    and "hp_statusCode (reply_at (inspect_onRequest favicon (inspect_add md cmd (Some f) help ins)) r hs t) = 200"
  using inspect_add_serves [OF assms(1), of "r\<lparr>hr_receiveTime := t, hr_headers := map_of (rev hs)\<rparr>"] assms(2)
  by (simp_all add: reply_at_def http_reply_def page_def setContentType_def hp_addHeader_def)

lemma inspector_serves:
  assumes "tc_inv conn" and "tc_state conn = kConnected" and "content (inputBuffer conn) = []" and "asks r hs es"
    and "\<forall>s \<in> set (md # cmd # args). segment s" and "hr_path r = path_of (md # cmd # args)"
  shows "\<exists>resp conn'. http_feed (inspect_onRequest favicon (inspect_add md cmd (Some f) help ins)) es HttpContext_new conn =
      Some (Inr (HttpContext_new, conn')) \<and> accepted conn' = accepted conn @ concat (response_pieces resp) \<and>
    hp_statusCode resp = 200 \<and> hp_body resp = f (hr_method r) args"
  using feed_asked [OF assms(1-4)] inspector_reply [OF assms(5,6)] by blast

text \<open>C21: A client on one connection gets its answers, in order. It sends well-formed requests one after another, each cut into
  non-empty pieces wherever it likes, and none of the responses asks to close. Then the server handles every piece without a failed
  assertion, and what the connection has accepted for sending is exactly the printed responses of the callback, one for each
  request and in the order of the requests; each request was passed on with its headers and with the arrival time of one of its pieces.
  Afterwards the parser is in its initial state, the input buffer empty and the connection up, however little the kernel took of each response.\<close>

theorem http_session:
  assumes "tc_inv conn" and "tc_state conn = kConnected" and "content (inputBuffer conn) = []"
    and "\<forall>(r, hs, es) \<in> set qs. asks r hs es \<and> (\<forall>t. \<not> hp_close (reply_at cb r hs t))"
  shows "\<exists>resps conn'. http_feed cb (concat (map (snd \<circ> snd) qs)) HttpContext_new conn = Some (Inr (HttpContext_new, conn')) \<and>
    list_all2 (\<lambda>(r, hs, es) resp. \<exists>t \<in> fst ` set es. resp = reply_at cb r hs t) qs resps \<and>
    accepted conn' = accepted conn @ concat (map (concat \<circ> response_pieces) resps) \<and>
    content (inputBuffer conn') = [] \<and> tc_inv conn' \<and> tc_state conn' = kConnected"
  using assms
proof (induction qs arbitrary: conn)
  case (Cons q qs)
  obtain r hs es where q: "q = (r, hs, es)" by (cases q)
  with Cons.prems(4) have a: "asks r hs es" "\<forall>t. \<not> hp_close (reply_at cb r hs t)" by auto
  from feed_asked [OF Cons.prems(1-3) a(1), of cb] a(2) obtain t conn1 where
    t: "t \<in> fst ` set es" "http_feed cb es HttpContext_new conn = Some (Inr (HttpContext_new, conn1))" "tc_inv conn1"
      "content (inputBuffer conn1) = []" "accepted conn1 = accepted conn @ concat (response_pieces (reply_at cb r hs t))"
      "tc_state conn1 = kConnected"
    by auto
  have "\<forall>(r, hs, es) \<in> set qs. asks r hs es \<and> (\<forall>t. \<not> hp_close (reply_at cb r hs t))" using Cons.prems(4) by simp
  from Cons.IH [OF t(3,6,4) this] obtain resps conn' where
    c': "http_feed cb (concat (map (snd \<circ> snd) qs)) HttpContext_new conn1 = Some (Inr (HttpContext_new, conn'))"
      "list_all2 (\<lambda>(r, hs, es) resp. \<exists>t \<in> fst ` set es. resp = reply_at cb r hs t) qs resps"
      "accepted conn' = accepted conn1 @ concat (map (concat \<circ> response_pieces) resps)"
      "content (inputBuffer conn') = []" "tc_inv conn'" "tc_state conn' = kConnected"
    by blast
  have "list_all2 (\<lambda>(r, hs, es) resp. \<exists>t \<in> fst ` set es. resp = reply_at cb r hs t) (q # qs) (reply_at cb r hs t # resps)"
    using c'(2) t(1) q by auto
  moreover have "http_feed cb (concat (map (snd \<circ> snd) (q # qs))) HttpContext_new conn = Some (Inr (HttpContext_new, conn'))"
    using q t(2) c'(1) by (simp add: http_feed_append)
  ultimately show ?case using c'(3-6) t(5) by (intro exI [of _ "reply_at cb r hs t # resps"] exI [of _ conn']) (simp add: comp_def)
qed simp


text \<open>Two requests, the first one byte by byte, to a callback that answers with the path.\<close>

definition echo_path :: "http_request \<Rightarrow> http_response \<Rightarrow> http_response" where
  "echo_path req resp = resp\<lparr>hp_statusCode := 200, hp_statusMessage := ''OK'', hp_body := hr_path req\<rparr>"

lemma sample_asks: "concat ps = http_print sample_request [(''Host'', ''x'')] \<Longrightarrow> \<forall>p \<in> set ps. p \<noteq> [] \<Longrightarrow>
    asks sample_request [(''Host'', ''x'')] (map (\<lambda>p. (5, 1, p)) ps)"
  using sample_request_ok by (simp add: asks_def pieces_def comp_def)

theorem http_session_witness:
  "\<exists>resps conn'. http_feed echo_path
     (map (\<lambda>p. (5, 1, p)) (map (\<lambda>c. [c]) (http_print sample_request [(''Host'', ''x'')])) @
      map (\<lambda>p. (5, 1, p)) [http_print sample_request [(''Host'', ''x'')]]) HttpContext_new sample_conn =
       Some (Inr (HttpContext_new, conn')) \<and>
     accepted conn' = concat (map (concat \<circ> response_pieces) resps) \<and> map hp_body resps = [''/a'', ''/a'']"
proof -
  let ?txt = "http_print sample_request [(''Host'', ''x'')]"
  let ?e1 = "map (\<lambda>p. (5 :: int, 1 :: nat, p)) (map (\<lambda>c. [c]) ?txt)" and ?e2 = "map (\<lambda>p. (5 :: int, 1 :: nat, p)) [?txt]"
  let ?qs = "[(sample_request, [(''Host'', ''x'')], ?e1), (sample_request, [(''Host'', ''x'')], ?e2)]"
  have a: "asks sample_request [(''Host'', ''x'')] ?e1" "asks sample_request [(''Host'', ''x'')] ?e2"
    by (rule sample_asks; auto simp: http_print_nonempty)+
  have body: "hp_body (reply_at echo_path sample_request [(''Host'', ''x'')] t) = ''/a''"
      "\<not> hp_close (reply_at echo_path sample_request [(''Host'', ''x'')] t)" for t
    by (simp_all add: reply_at_def http_reply_def echo_path_def sample_request_def HttpRequest_new_def HttpResponse_new_def
        wants_close_def getHeader_def)
  have conn: "tc_state sample_conn = kConnected" "content (inputBuffer sample_conn) = []" "accepted sample_conn = []"
    by (simp_all add: sample_conn_def call_user_def ch_interest_def TcpConnection_new_def)
  from http_session [OF sample_conn_inv conn(1,2), of ?qs echo_path] a body(2) obtain resps conn' where
    r: "http_feed echo_path (concat (map (snd \<circ> snd) ?qs)) HttpContext_new sample_conn = Some (Inr (HttpContext_new, conn'))"
      "list_all2 (\<lambda>(r, hs, es) resp. \<exists>t \<in> fst ` set es. resp = reply_at echo_path r hs t) ?qs resps"
      "accepted conn' = accepted sample_conn @ concat (map (concat \<circ> response_pieces) resps)"
    by (auto simp del: map_map)
  from r(2) body(1) have "map hp_body resps = [''/a'', ''/a'']" by (auto simp: list_all2_Cons1)
  with r(1,3) conn(3) show ?thesis by (intro exI [of _ resps] exI [of _ conn']) simp
qed

end
