(* ===== verification/PerfInspector.thy ===== *)
theory PerfInspector
  imports ProcessInfo LogFile HttpSession
begin

section \<open>Pages of the allocator and the profiler (\<open>net/inspect/PerformanceInspector.cc\<close>)\<close>

text \<open>
  What the allocator and the profiler of gperftools answer is the record \<open>perf_env\<close>: the heap samples, the statistics text
  (terminated by a NUL within the 64 KiB it is given), the three values of the memory histogram, the release rate in the format \<open>%f\<close>, and, when the
  profiler starts, what opening and reading its file gives.
\<close>

record perf_env =
  pf_heap :: string
  pf_growth :: string
  pf_stats :: string
  pf_blocks :: int
  pf_total :: nat
  pf_histogram :: "int list"
  pf_rate :: string
  pf_profile :: "(int + (bytes + int) list) option"

definition pprof_heap :: "perf_env \<Rightarrow> string" where "pprof_heap m = pf_heap m"
definition pprof_growth :: "perf_env \<Rightarrow> string" where "pprof_growth m = pf_growth m"
definition pprof_cmdline :: string where "pprof_cmdline = []"
definition pprof_memstats :: "perf_env \<Rightarrow> string" where "pprof_memstats m = pf_stats m"

definition profile_name :: "proc_env \<Rightarrow> string" where
  "profile_name e = ''/tmp/'' @ procname (pe_self_stat e) @ ''.'' @ pidString e @ ''.'' @ ts_toString (pe_now e) @ ''.profile''"

text \<open>The page is the first mebibyte of the profile; the file is removed afterwards.\<close>

definition pprof_profile :: "perf_env \<Rightarrow> string" where
  "pprof_profile m =
     (case pf_profile m of None \<Rightarrow> [] | Some fd \<Rightarrow> fst (readToString fd None (1024 * 1024) []))"

fun histogram_args :: "nat \<Rightarrow> int list \<Rightarrow> log_arg list" where
  "histogram_args i [] = []"
| "histogram_args i (h # hs) =
     [AInteger (int i), ACString (Some '' ''), AInteger h, ACString (Some [CHR 0x0A])] @ histogram_args (Suc i) hs"

definition memhistogram_args :: "perf_env \<Rightarrow> log_arg list" where
  "memhistogram_args m =
     [ACString (Some ''blocks ''), AInteger (pf_blocks m), ACString (Some ([CHR 0x0A] @ ''total '')), AInteger (int (pf_total m)),
      ACString (Some [CHR 0x0A])] @ histogram_args 0 (pf_histogram m)"

definition pprof_memhistogram :: "perf_env \<Rightarrow> string res" where
  "pprof_memhistogram m = rbind (log_outs (memhistogram_args m) (FixedBuffer_new kSmallBuffer)) (\<lambda>b. Inr (fb_content b))"

definition pprof_release :: "perf_env \<Rightarrow> string" where
  "pprof_release m =
     snprintf 256 (''memory release rate: '' @ pf_rate m @ [CHR 0x0A] @ ''All free memory released.'' @ [CHR 0x0A])"

definition registerPerformance :: "perf_env \<Rightarrow> inspector \<Rightarrow> inspector" where
  "registerPerformance m ins =
     inspect_add ''pprof'' ''releasefreememory'' (Some (\<lambda>_ _. pprof_release m)) ''release free memory''
     (inspect_add ''pprof'' ''memhistogram'' (Some (\<lambda>_ _. ok_text (pprof_memhistogram m))) ''get memory histogram''
     (inspect_add ''pprof'' ''memstats'' (Some (\<lambda>_ _. pprof_memstats m)) ''get memory stats''
     (inspect_add ''pprof'' ''cmdline'' (Some (\<lambda>_ _. pprof_cmdline)) ''get command line''
     (inspect_add ''pprof'' ''profile'' (Some (\<lambda>_ _. pprof_profile m))
        ''get cpu profiling information. CAUTION: blocking thread for 30 seconds!''
     (inspect_add ''pprof'' ''growth'' (Some (\<lambda>_ _. pprof_growth m)) ''get heap growth information''
     (inspect_add ''pprof'' ''heap'' (Some (\<lambda>_ _. pprof_heap m)) ''get heap information'' ins))))))"

text \<open>The constructor of the inspector where gperftools is present.\<close>

definition Inspector_new_tcmalloc :: "(int \<Rightarrow> string) \<Rightarrow> (int \<Rightarrow> string) \<Rightarrow> proc_env \<Rightarrow> perf_env \<Rightarrow> bool \<Rightarrow> bool \<Rightarrow> inspector res" where
  "Inspector_new_tcmalloc mib secs e m mainThread another =
     rbind (Inspector_new mib secs e mainThread another) (\<lambda>ins. Inr (registerPerformance m ins))"


subsection \<open>The histogram is complete\<close>

definition histogram_text :: "nat \<Rightarrow> int list \<Rightarrow> string" where
  "histogram_text i hs = concat (map (\<lambda>(j, h). show_int (int j) @ '' '' @ show_int h @ [CHR 0x0A]) (enumerate i hs))"

lemma histogram_args_text: "concat (map arg_text (histogram_args i hs)) = histogram_text i hs"
  by (induction hs arbitrary: i) (simp_all add: histogram_text_def)

definition perf_ok :: "perf_env \<Rightarrow> bool" where
  "perf_ok m \<longleftrightarrow> length (pf_histogram m) \<le> 64 \<and> fits_int (pf_blocks m) \<and> pf_total m < 2 ^ 64 \<and>
     list_all fits_int (pf_histogram m)"

lemma fits_int_arg: "fits_int v \<Longrightarrow> arg_ok (AInteger v)"
  by (simp add: fits_int_def int_min_def int_max_def)

lemma histogram_args_ok: "list_all fits_int hs \<Longrightarrow> i + length hs \<le> 64 \<Longrightarrow> \<forall>a \<in> set (histogram_args i hs). arg_ok a"
proof (induction hs arbitrary: i)
  case (Cons h hs)
  then have "fits_int h" "list_all fits_int hs" "Suc i + length hs \<le> 64" by simp_all
  with Cons.IH [of "Suc i"] fits_int_arg [of h] show ?case by auto
qed simp

lemma histogram_text_length: "list_all fits_int hs \<Longrightarrow> i + length hs \<le> 64 \<Longrightarrow> length (histogram_text i hs) \<le> 15 * length hs"
proof (induction hs arbitrary: i)
  case (Cons h hs)
  have "i < 10 ^ 2" using Cons.prems(2) by simp
  then have "length (show_nat i) \<le> 2" by (rule length_show_nat) simp
  then have "length (show_int (int i)) \<le> 2" by (simp add: show_int_def)
  moreover have "length (show_int h) \<le> 11" using length_show_int Cons.prems(1) by simp
  ultimately show ?case using Cons.IH [of "Suc i"] Cons.prems by (simp add: histogram_text_def)
qed (simp add: histogram_text_def)

text \<open>The buffer of the stream has 4000 bytes and drops what does not fit; a histogram of the size gperftools has is shown whole.\<close>

lemma memhistogram_complete:
  assumes "perf_ok m"
  shows "pprof_memhistogram m = Inr (''blocks '' @ show_int (pf_blocks m) @ [CHR 0x0A] @ ''total '' @ show_int (int (pf_total m)) @
    [CHR 0x0A] @ histogram_text 0 (pf_histogram m))"
proof -
  have "fb_inv (FixedBuffer_new kSmallBuffer)" by (simp add: fb_inv_def FixedBuffer_new_def)
  moreover have "\<forall>a \<in> set (memhistogram_args m). arg_ok a"
    using histogram_args_ok [of "pf_histogram m" 0] fits_int_arg [of "pf_blocks m"] assms
    by (auto simp: memhistogram_args_def perf_ok_def)
  moreover have "length (show_int (pf_blocks m)) \<le> 11" "length (show_int (int (pf_total m))) \<le> 20"
    using assms length_show_int length_show_nat [of "pf_total m" 20] by (simp_all add: perf_ok_def show_int_def)
  then have "length (concat (map arg_text (memhistogram_args m))) + 32 \<le> fb_avail (FixedBuffer_new kSmallBuffer)"
    using histogram_text_length [of "pf_histogram m" 0] assms
    by (simp add: memhistogram_args_def histogram_args_text perf_ok_def fb_avail_def FixedBuffer_new_def kSmallBuffer_def)
  ultimately show ?thesis
    using log_outs_ok [of "FixedBuffer_new kSmallBuffer" "memhistogram_args m"]
    by (auto simp: pprof_memhistogram_def memhistogram_args_def histogram_args_text FixedBuffer_new_def)
qed

lemma profile_bounded: "length (pprof_profile m) \<le> 1024 * 1024"
  using readToString_bounded [of "[]" "1024 * 1024"]
  by (auto simp: pprof_profile_def readToString_def Let_def split: option.splits sum.splits prod.splits) (metis fst_conv)

text \<open>The page is served: a client that asks for it gets it.\<close>

lemma memhistogram_served:
  assumes "perf_ok m" and "hr_path req = path_of [''pprof'', ''memhistogram'']"
  shows "inspect_onRequest favicon (registerPerformance m ins) req resp =
    page ''text/plain'' (''blocks '' @ show_int (pf_blocks m) @ [CHR 0x0A] @ ''total '' @ show_int (int (pf_total m)) @
      [CHR 0x0A] @ histogram_text 0 (pf_histogram m)) resp"
proof -
  have seg: "\<forall>s \<in> set [''pprof'', ''memhistogram'']. segment s" by (simp add: segment_def)
  have "hr_path req \<noteq> ''/''" using path_not_root [of "''pprof''" "[''memhistogram'']"] assms(2) seg by simp
  with split_path_of [OF seg] assms memhistogram_complete [OF assms(1)] show ?thesis
    by (simp add: inspect_onRequest_def registerPerformance_def inspect_add_def ok_text_def)
qed

end
