(* ===== verification/Codec.thy ===== *)
theory Codec
  imports TcpConnection
begin

section \<open>Length-prefixed messages (\<open>net/protobuf/ProtobufCodecLite.cc\<close>)\<close>

text \<open>
  The framing of protobuf messages on a byte stream. The message library and zlib are not part of the
  repository: \<open>ser\<close> serialises a message, \<open>prs\<close> is \<open>ParseFromArray\<close> and \<open>adler\<close> is \<open>adler32(1, ...)\<close>;
  all three are parameters. The callbacks the loop invokes are recorded in order.
\<close>

datatype codec_error = kNoError | kInvalidLength | kCheckSumError | kInvalidNameLen | kUnknownMessageType | kParseError

datatype 'm codec_event = GotMessage 'm | RawRefused bytes | CodecError codec_error

definition kHeaderLen :: nat where "kHeaderLen = 4"
definition kChecksumLen :: nat where "kChecksumLen = 4"
definition kMaxMessageLen :: nat where "kMaxMessageLen = 64 * 1024 * 1024"

definition kMinMessageLen :: "bytes \<Rightarrow> nat" where "kMinMessageLen tag = length tag + kChecksumLen"

fun errorCodeToString :: "codec_error \<Rightarrow> string" where
  "errorCodeToString kNoError = ''NoError''"
| "errorCodeToString kInvalidLength = ''InvalidLength''"
| "errorCodeToString kCheckSumError = ''CheckSumError''"
| "errorCodeToString kInvalidNameLen = ''InvalidNameLen''"
| "errorCodeToString kUnknownMessageType = ''UnknownMessageType''"
| "errorCodeToString kParseError = ''ParseError''"


subsection \<open>Sending\<close>

definition serializeToBuffer :: "bytes \<Rightarrow> buffer \<Rightarrow> (nat \<times> buffer) res" where
  "serializeToBuffer img buf =
     rbind (ensureWritableBytes (length img + kChecksumLen) buf) (\<lambda>buf.
     rbind (hasWritten (length img) (buf\<lparr>buf_data := overwrite (buf_data buf) (beginWrite buf) img\<rparr>)) (\<lambda>buf.
     Inr (length img, buf)))"

definition fillEmptyBuffer :: "(bytes \<Rightarrow> 32 word) \<Rightarrow> ('m \<Rightarrow> bytes) \<Rightarrow> bytes \<Rightarrow> 'm \<Rightarrow> buffer \<Rightarrow> buffer res" where
  "fillEmptyBuffer adler ser tag message buf =
     cassert (readableBytes buf = 0)
     (rbind (append_buf tag buf) (\<lambda>buf.
      rbind (serializeToBuffer (ser message) buf) (\<lambda>(byte_size, buf).
      rbind (appendInt32 (adler (toStringPiece buf)) buf) (\<lambda>buf.
      cassert (readableBytes buf = length tag + byte_size + kChecksumLen)
      (prepend (store (hostToNetwork32 (of_nat (readableBytes buf)))) buf)))))"

definition codec_send :: "(bytes \<Rightarrow> 32 word) \<Rightarrow> ('m \<Rightarrow> bytes) \<Rightarrow> bytes \<Rightarrow> bool \<Rightarrow> sys_write \<Rightarrow> 'm \<Rightarrow> tcpconn \<Rightarrow> tcpconn res" where
  "codec_send adler ser tag inLoop w message conn =
     rbind (Buffer_new kInitialSize) (\<lambda>buf. rbind (fillEmptyBuffer adler ser tag message buf) (\<lambda>buf.
     rbind (tc_send_buffer inLoop w buf conn) (\<lambda>(buf, conn). Inr conn)))"


subsection \<open>Receiving\<close>

definition asInt32 :: "bytes \<Rightarrow> 32 word" where "asInt32 buf = networkToHost32 (load (take 4 buf))"

definition validateChecksum :: "(bytes \<Rightarrow> 32 word) \<Rightarrow> bytes \<Rightarrow> bool" where
  "validateChecksum adler buf =
     (let n = length buf - kChecksumLen in adler (take n buf) = asInt32 (drop n buf))"

definition codec_parse :: "(bytes \<Rightarrow> 32 word) \<Rightarrow> (bytes \<Rightarrow> 'm option) \<Rightarrow> bytes \<Rightarrow> bytes \<Rightarrow> codec_error + 'm" where
  "codec_parse adler prs tag buf =
     (if validateChecksum adler buf
      then if take (length tag) buf = tag
           then let dataLen = length buf - kChecksumLen - length tag in
                case prs (take dataLen (drop (length tag) buf)) of Some m \<Rightarrow> Inr m | None \<Rightarrow> Inl kParseError
           else Inl kUnknownMessageType
      else Inl kCheckSumError)"

lemma retrieve_shrinks: "retrieve n b = Inr b' \<Longrightarrow> 0 < n \<Longrightarrow> readableBytes b' < readableBytes b"
  by (auto simp: retrieve_def retrieveAll_def readableBytes_def split: if_splits)

text \<open>The loop. A length that is not in range, or a message that does not parse, is reported and nothing is
  consumed; an incomplete message waits for more bytes.\<close>

function codec_onMessage :: "(bytes \<Rightarrow> 32 word) \<Rightarrow> (bytes \<Rightarrow> 'm option) \<Rightarrow> (bytes \<Rightarrow> bool) \<Rightarrow> bytes \<Rightarrow> buffer \<Rightarrow>
    ('m codec_event list \<times> buffer) res" where
  "codec_onMessage adler prs rawCb tag b =
     (if kMinMessageLen tag + kHeaderLen \<le> readableBytes b
      then case peekInt32 b of Inl e \<Rightarrow> Inl e
        | Inr w \<Rightarrow>
            let len = sint w in
            if int kMaxMessageLen < len \<or> len < int (kMinMessageLen tag) then Inr ([CodecError kInvalidLength], b)
            else if kHeaderLen + nat len \<le> readableBytes b
            then let frame = window (buf_data b) (peek b) (peek b + (kHeaderLen + nat len)) in
                 if \<not> rawCb frame
                 then case retrieve (kHeaderLen + nat len) b of Inl e \<Rightarrow> Inl e
                   | Inr b \<Rightarrow> rbind (codec_onMessage adler prs rawCb tag b) (\<lambda>(evs, b). Inr (RawRefused frame # evs, b))
                 else case codec_parse adler prs tag (drop kHeaderLen frame) of
                     Inl err \<Rightarrow> Inr ([CodecError err], b)
                   | Inr m \<Rightarrow>
                       (case retrieve (kHeaderLen + nat len) b of Inl e \<Rightarrow> Inl e
                        | Inr b \<Rightarrow> rbind (codec_onMessage adler prs rawCb tag b) (\<lambda>(evs, b). Inr (GotMessage m # evs, b)))
            else Inr ([], b)
      else Inr ([], b))"
  by pat_completeness auto

termination codec_onMessage
  by (relation "measure (\<lambda>(adler, prs, rawCb, tag, b). readableBytes b)")
    (auto intro: retrieve_shrinks simp: kHeaderLen_def)

declare codec_onMessage.simps [simp del]

definition defaultErrorCallback :: "tcpconn \<Rightarrow> tcpconn" where
  "defaultErrorCallback conn = (if connected conn then tc_shutdown True conn else conn)"


subsection \<open>Frames\<close>

definition body :: "(bytes \<Rightarrow> 32 word) \<Rightarrow> ('m \<Rightarrow> bytes) \<Rightarrow> bytes \<Rightarrow> 'm \<Rightarrow> bytes" where
  "body adler ser tag m = tag @ ser m @ rev (store (adler (tag @ ser m)))"

definition frame_of :: "(bytes \<Rightarrow> 32 word) \<Rightarrow> ('m \<Rightarrow> bytes) \<Rightarrow> bytes \<Rightarrow> 'm \<Rightarrow> bytes" where
  "frame_of adler ser tag m = rev (store (of_nat (length (body adler ser tag m)) :: 32 word)) @ body adler ser tag m"

lemma length_body [simp]: "length (body adler ser tag m) = length tag + length (ser m) + 4"
  by (simp add: body_def)

lemma ensureWritableBytes_headroom:
  "kCheapPrepend \<le> prependableBytes b \<Longrightarrow> ensureWritableBytes n b = Inr b' \<Longrightarrow> kCheapPrepend \<le> prependableBytes b'"
  by (auto simp: ensureWritableBytes_def makeSpace_def prependableBytes_def Let_def split: if_splits)

lemma serializeToBuffer_ok:
  assumes "buffer_inv b" and "kCheapPrepend \<le> prependableBytes b"
  shows "\<exists>b'. serializeToBuffer s b = Inr (length s, b') \<and> buffer_inv b' \<and> content b' = content b @ s \<and>
    kCheapPrepend \<le> prependableBytes b'"
proof -
  obtain c where c: "ensureWritableBytes (length s + kChecksumLen) b = Inr c" "buffer_inv c" "content c = content b"
      "length s + kChecksumLen \<le> writableBytes c"
    using ensureWritableBytes_ok [OF assms(1)] by blast
  have le: "length s \<le> writableBytes c" using c(4) by simp
  then have fits: "writerIndex c + length s \<le> length (buf_data c)" using c(2) by (auto simp: buffer_defs)
  let ?d = "c\<lparr>buf_data := overwrite (buf_data c) (writerIndex c) s, writerIndex := writerIndex c + length s\<rparr>"
  have "serializeToBuffer s b = Inr (length s, ?d)"
    using c(1) le fits by (simp add: serializeToBuffer_def hasWritten_def beginWrite_def writableBytes_def)
  moreover have "kCheapPrepend \<le> prependableBytes ?d"
    using ensureWritableBytes_headroom [OF assms(2) c(1)] by (simp add: prependableBytes_def)
  ultimately show ?thesis using write_at_end [OF c(2) le] c(3) by auto
qed

lemma fillEmptyBuffer_ok:
  assumes "buffer_inv b" and "content b = []" and "kCheapPrepend \<le> prependableBytes b"
  shows "\<exists>b'. fillEmptyBuffer adler ser tag m b = Inr b' \<and> buffer_inv b' \<and> content b' = frame_of adler ser tag m"
proof -
  obtain b1 where b1: "append_buf tag b = Inr b1" "buffer_inv b1" "content b1 = tag"
    using append_buf_ok [OF assms(1), of tag] assms(2) by auto
  have h1: "kCheapPrepend \<le> prependableBytes b1" using append_buf_headroom [OF assms(1,3) b1(1)] .
  obtain b2 where b2: "serializeToBuffer (ser m) b1 = Inr (length (ser m), b2)" "buffer_inv b2" "content b2 = tag @ ser m"
      "kCheapPrepend \<le> prependableBytes b2"
    using serializeToBuffer_ok [OF b1(2) h1] b1(3) by auto
  obtain b3 where b3: "appendInt32 (adler (tag @ ser m)) b2 = Inr b3" "buffer_inv b3" "content b3 = body adler ser tag m"
    using append_buf_ok [OF b2(2), of "rev (store (adler (tag @ ser m)))"] b2(3) by (auto simp: appendInt32_def body_def)
  have h3: "kCheapPrepend \<le> prependableBytes b3"
    using append_buf_headroom [OF b2(2,4)] b3(1) by (simp add: appendInt32_def)
  have r3: "readableBytes b3 = length tag + length (ser m) + 4"
    using length_content [OF b3(2)] b3(3) by simp
  obtain b4 where b4: "prepend (rev (store (of_nat (readableBytes b3) :: 32 word))) b3 = Inr b4" "buffer_inv b4"
      "content b4 = rev (store (of_nat (readableBytes b3) :: 32 word)) @ content b3"
    using prepend_ok [OF b3(2), of "rev (store (of_nat (readableBytes b3) :: 32 word))"] h3 by (auto simp: kCheapPrepend_def)
  have "readableBytes b = 0" using length_content [OF assms(1)] assms(2) by simp
  then have "fillEmptyBuffer adler ser tag m b = Inr b4"
    using b1 b2 b3 b4 r3 by (simp add: fillEmptyBuffer_def toStringPiece_content kChecksumLen_def)
  with b4 b3 r3 show ?thesis by (simp add: frame_of_def)
qed


lemma parse_body: "prs (ser m) = Some m \<Longrightarrow> codec_parse adler prs tag (body adler ser tag m) = Inr m"
  by (simp add: codec_parse_def validateChecksum_def asInt32_def body_def kChecksumLen_def Let_def load_store)

lemma sint_len: "n \<le> kMaxMessageLen \<Longrightarrow> sint (of_nat n :: 32 word) = int n"
proof -
  assume "n \<le> kMaxMessageLen"
  then have "signed_take_bit 31 (int n) = int n"
    by (intro signed_take_bit_int_eq_self) (simp_all add: kMaxMessageLen_def)
  then show ?thesis using sint_sbintrunc' [of "int n", where 'a = 32] by simp
qed

definition fits_frame :: "(bytes \<Rightarrow> 32 word) \<Rightarrow> ('m \<Rightarrow> bytes) \<Rightarrow> bytes \<Rightarrow> 'm \<Rightarrow> bool" where
  "fits_frame adler ser tag m \<longleftrightarrow> length (body adler ser tag m) \<le> kMaxMessageLen"

text \<open>What the loop sees at the head of a buffer that starts with a frame, or with a part of one.\<close>

lemma frame_peek:
  assumes "buffer_inv b" and "content b @ ys = frame_of adler ser tag m @ rest" and "4 \<le> length (content b)"
    and "fits_frame adler ser tag m"
  shows "\<exists>w. peekInt32 b = Inr w \<and> sint w = int (length (body adler ser tag m))"
proof -
  let ?w = "of_nat (length (body adler ser tag m)) :: 32 word"
  have "take 4 (content b) = take 4 (content b @ ys)" using assms(3) by simp
  also have "\<dots> = rev (store ?w)" using assms(2) by (simp add: frame_of_def)
  finally have "content b = rev (store ?w) @ drop 4 (content b)" by (metis append_take_drop_id)
  from peekInt32_be [OF assms(1) this] show ?thesis
    using sint_len [of "length (body adler ser tag m)"] assms(4) by (auto simp: fits_frame_def)
qed

lemma onMessage_frame:
  assumes "buffer_inv b" and "content b = frame_of adler ser tag m @ rest" and "fits_frame adler ser tag m"
    and "prs (ser m) = Some m"
  shows "\<exists>b'. buffer_inv b' \<and> content b' = rest \<and> codec_onMessage adler prs (\<lambda>_. True) tag b =
    rbind (codec_onMessage adler prs (\<lambda>_. True) tag b') (\<lambda>(evs, b). Inr (GotMessage m # evs, b))"
proof -
  let ?n = "length (body adler ser tag m)" and ?f = "frame_of adler ser tag m"
  have lf: "length ?f = kHeaderLen + ?n" by (simp add: frame_of_def kHeaderLen_def)
  have pp: "length ?f \<le> readableBytes b" "window (buf_data b) (peek b) (peek b + length ?f) = ?f"
    using peek_prefix [OF assms(1,2)] by blast+
  obtain w where w: "peekInt32 b = Inr w" "sint w = int ?n"
    using frame_peek [OF assms(1), of "[]" adler ser tag m rest] assms(2,3) lf by (auto simp: kHeaderLen_def)
  obtain b' where b': "retrieve (kHeaderLen + ?n) b = Inr b'" "buffer_inv b'" "content b' = rest"
    using retrieve_prefix [OF assms(1,2) lf] by blast
  have "drop kHeaderLen ?f = body adler ser tag m" by (simp add: frame_of_def kHeaderLen_def)
  moreover have "kMinMessageLen tag \<le> ?n" "kMinMessageLen tag + kHeaderLen \<le> readableBytes b" "?n \<le> kMaxMessageLen"
    using pp(1) lf assms(3) by (simp_all add: kMinMessageLen_def kChecksumLen_def fits_frame_def)
  ultimately have "codec_onMessage adler prs (\<lambda>_. True) tag b =
      rbind (codec_onMessage adler prs (\<lambda>_. True) tag b') (\<lambda>(evs, b). Inr (GotMessage m # evs, b))"
    using w b'(1) pp lf parse_body [of prs ser m adler tag] assms(4)
    by (subst codec_onMessage.simps) (simp add: Let_def del: length_body)
  with b' show ?thesis by blast
qed

lemma onMessage_partial:
  assumes "buffer_inv b" and "content b @ ys = frame_of adler ser tag m" and "ys \<noteq> []" and "fits_frame adler ser tag m"
  shows "codec_onMessage adler prs rawCb tag b = Inr ([], b)"
proof (cases "kMinMessageLen tag + kHeaderLen \<le> readableBytes b")
  case False
  then show ?thesis by (simp add: codec_onMessage.simps [of adler prs rawCb tag b])
next
  case True
  let ?n = "length (body adler ser tag m)"
  have len: "length (content b) < kHeaderLen + ?n"
    using arg_cong [OF assms(2), of length] assms(3) by (cases ys) (simp_all add: frame_of_def kHeaderLen_def)
  have "4 \<le> length (content b)" using True assms(1) by (simp add: kHeaderLen_def)
  then obtain w where w: "peekInt32 b = Inr w" "sint w = int ?n"
    using frame_peek [OF assms(1) _ _ assms(4), of ys "[]"] assms(2) by auto
  moreover have "kMinMessageLen tag \<le> ?n" "?n \<le> kMaxMessageLen" using assms(4) by (simp_all add: kMinMessageLen_def kChecksumLen_def fits_frame_def)
  ultimately show ?thesis
    using True len assms(1) by (subst codec_onMessage.simps) (simp add: Let_def del: length_body)
qed

lemma onMessage_frames:
  assumes "buffer_inv b" and "content b = concat (map (frame_of adler ser tag) ms) @ rest"
    and "\<forall>m \<in> set ms. fits_frame adler ser tag m \<and> prs (ser m) = Some m"
    and "rest @ ys = frame_of adler ser tag m'" and "ys \<noteq> []" and "fits_frame adler ser tag m'"
  shows "\<exists>b'. codec_onMessage adler prs (\<lambda>_. True) tag b = Inr (map GotMessage ms, b') \<and> buffer_inv b' \<and> content b' = rest"
  using assms(1-3)
proof (induction ms arbitrary: b)
  case Nil
  with onMessage_partial [OF Nil(1) _ assms(5,6)] assms(4) show ?case by auto
next
  case (Cons m ms)
  obtain b' where b': "buffer_inv b'" "content b' = concat (map (frame_of adler ser tag) ms) @ rest"
      "codec_onMessage adler prs (\<lambda>_. True) tag b =
       rbind (codec_onMessage adler prs (\<lambda>_. True) tag b') (\<lambda>(evs, b). Inr (GotMessage m # evs, b))"
    using onMessage_frame [of b adler ser tag m "concat (map (frame_of adler ser tag) ms) @ rest" prs] Cons.prems by auto
  with Cons.IH [OF b'(1,2)] Cons.prems(3) show ?case by auto
qed


text \<open>C22: Framing is lossless. For a message library whose parser inverts its serialiser and any checksum
  function, \<open>fillEmptyBuffer\<close> produces the frame of a message; and when the buffer holds any number of frames
  followed by the beginning of another, \<open>onMessage\<close> delivers exactly their messages, in order and once each,
  reports no error and leaves the incomplete frame in the buffer for later.\<close>

theorem codec_frames_roundtrip:
  fixes prs :: "bytes \<Rightarrow> 'm option"
  assumes parser_inverts: "\<And>m. prs (ser m) = Some m"
    and "\<forall>m \<in> set (ms @ [m']). length (body adler ser tag m) \<le> kMaxMessageLen"
    and "buffer_inv b" and "content b = concat (map (frame_of adler ser tag) ms) @ rest"
    and "rest @ ys = frame_of adler ser tag m'" and "ys \<noteq> []"
    and "buffer_inv b0" and "content b0 = []" and "kCheapPrepend \<le> prependableBytes b0"
  shows "(\<exists>b'. codec_onMessage adler prs (\<lambda>_. True) tag b = Inr (map GotMessage ms, b') \<and> content b' = rest) \<and>
    (\<exists>b'. fillEmptyBuffer adler ser tag m' b0 = Inr b' \<and> content b' = frame_of adler ser tag m')"
  using onMessage_frames [OF assms(3,4) _ assms(5,6), of prs] fillEmptyBuffer_ok [OF assms(7-9), of adler ser tag m'] assms(1,2)
  by (auto simp: fits_frame_def)

lemma empty_buffer_room: "content (empty_buffer kInitialSize) = []" "kCheapPrepend \<le> prependableBytes (empty_buffer kInitialSize)"
  by (simp_all add: empty_buffer_def prependableBytes_def content_def)

definition sample_stream :: buffer where
  "sample_stream = \<lparr>buf_data = replicate 8 (CHR 0x00) @ frame_of (\<lambda>_. 7) id ''RPC0'' ''hi'', readerIndex = 8,
     writerIndex = 8 + length (frame_of (\<lambda>_. 7) id ''RPC0'' ''hi'')\<rparr>"

theorem codec_frames_roundtrip_witness:
  "\<exists>b'. codec_onMessage (\<lambda>_. 7) Some (\<lambda>_. True) ''RPC0'' sample_stream = Inr ([GotMessage ''hi''], b') \<and> content b' = []"
proof -
  have inv: "buffer_inv sample_stream" "content sample_stream = concat (map (frame_of (\<lambda>_. 7) id ''RPC0'') [''hi'']) @ []"
    by (simp_all add: sample_stream_def buffer_inv_def content_def window_def kCheapPrepend_def)
  have ne: "frame_of (\<lambda>_. 7) id ''RPC0'' ''hi'' \<noteq> []" by (simp add: frame_of_def body_def)
  have "buffer_inv (empty_buffer kInitialSize)" by simp
  from codec_frames_roundtrip [of Some id "[''hi'']" "''hi''" "\<lambda>_. 7" "''RPC0''", OF _ _ inv _ ne this empty_buffer_room]
  show ?thesis by (simp add: kMaxMessageLen_def)
qed

text \<open>A length out of range is reported and consumes nothing.\<close>

lemma onMessage_bad_length:
  assumes "kMinMessageLen tag + kHeaderLen \<le> readableBytes b" and "peekInt32 b = Inr w"
    and "int kMaxMessageLen < sint w \<or> sint w < int (kMinMessageLen tag)"
  shows "codec_onMessage adler prs rawCb tag b = Inr ([CodecError kInvalidLength], b)"
  using assms by (subst codec_onMessage.simps) (simp add: Let_def)

end
