(* ===== verification/Rpc.thy ===== *)
theory Rpc
  imports Codec Runs
begin

section \<open>Remote procedure calls (\<open>net/protorpc/RpcChannel.cc\<close>)\<close>

text \<open>
  One end of an RPC connection: the calls that wait for an answer, by id, and what the channel does to the
  outside, in order: messages given to the codec, services invoked, calls completed. A service is known by
  the methods it has and, for each, whether it can parse a request; the generated service classes
  themselves are not part of the repository. Addresses of response objects and closures are numbers.
\<close>

datatype rpc_type = REQUEST | RESPONSE | RPC_ERROR

datatype rpc_error = NO_ERROR | WRONG_PROTO | NO_SERVICE | NO_METHOD | INVALID_REQUEST | INVALID_RESPONSE | TIMEOUT

record rpc_message =
  rm_type :: rpc_type
  rm_id :: int
  rm_service :: string
  rm_method :: string
  rm_request :: bytes
  rm_response :: "bytes option"
  rm_error :: "rpc_error option"

definition new_message :: "rpc_type \<Rightarrow> int \<Rightarrow> rpc_message" where
  "new_message ty n = \<lparr>rm_type = ty, rm_id = n, rm_service = [], rm_method = [], rm_request = [], rm_response = None, rm_error = None\<rparr>"

record OutstandingCall =
  oc_response :: "nat option"
  oc_done :: "nat option"

datatype rpc_effect = SendMessage rpc_message | Invoke string string bytes int | Completed int "bytes option" OutstandingCall

record rpc_channel =
  rc_id :: int
  outstandings :: "int \<rightharpoonup> OutstandingCall"
  effects :: "rpc_effect list"

definition RpcChannel_new :: rpc_channel where
  "RpcChannel_new = \<lparr>rc_id = 0, outstandings = Map.empty, effects = []\<rparr>"

definition emit :: "rpc_effect \<Rightarrow> rpc_channel \<Rightarrow> rpc_channel" where
  "emit e c = c\<lparr>effects := effects c @ [e]\<rparr>"

text \<open>The counter is an \<open>int64_t\<close> incremented atomically: it wraps.\<close>

definition incrementAndGet64 :: "int \<Rightarrow> int" where
  "incrementAndGet64 n = (if n + 1 < 2 ^ 63 then n + 1 else - (2 ^ 63))"

definition CallMethod :: "string \<Rightarrow> string \<Rightarrow> bytes \<Rightarrow> nat option \<Rightarrow> nat option \<Rightarrow> rpc_channel \<Rightarrow> rpc_channel" where
  "CallMethod service meth request response done c =
     (let c = c\<lparr>rc_id := incrementAndGet64 (rc_id c)\<rparr>; n = rc_id c;
          message = (new_message REQUEST n)\<lparr>rm_service := service, rm_method := meth, rm_request := request\<rparr>;
          out = \<lparr>oc_response = response, oc_done = done\<rparr>;
          c = c\<lparr>outstandings := (outstandings c)(n \<mapsto> out)\<rparr>
      in emit (SendMessage message) c)"

definition onResponse :: "rpc_message \<Rightarrow> rpc_channel \<Rightarrow> rpc_channel res" where
  "onResponse message c =
     (let n = rm_id message in
      cassert (rm_response message \<noteq> None \<or> rm_error message \<noteq> None)
      (let (out, c) = (case outstandings c n of
             Some out \<Rightarrow> (out, c\<lparr>outstandings := (outstandings c)(n := None)\<rparr>)
           | None \<Rightarrow> (\<lparr>oc_response = None, oc_done = None\<rparr>, c))
       in Inr (if oc_response out \<noteq> None then emit (Completed n (rm_response message) out) c else c)))"

type_synonym services = "(string \<rightharpoonup> (string \<rightharpoonup> (bytes \<Rightarrow> bool))) option"

definition request_error :: "services \<Rightarrow> rpc_message \<Rightarrow> rpc_error" where
  "request_error services message =
     (case services of None \<Rightarrow> NO_SERVICE
      | Some ss \<Rightarrow>
          (case ss (rm_service message) of None \<Rightarrow> NO_SERVICE
           | Some service \<Rightarrow>
               (case service (rm_method message) of None \<Rightarrow> NO_METHOD
                | Some parses \<Rightarrow> if parses (rm_request message) then NO_ERROR else INVALID_REQUEST)))"

definition onRpcRequest :: "services \<Rightarrow> rpc_message \<Rightarrow> rpc_channel \<Rightarrow> rpc_channel" where
  "onRpcRequest services message c =
     (let err = request_error services message in
      if err = NO_ERROR
      then emit (Invoke (rm_service message) (rm_method message) (rm_request message) (rm_id message)) c
      else emit (SendMessage ((new_message RESPONSE (rm_id message))\<lparr>rm_error := Some err\<rparr>)) c)"

definition onRpcMessage :: "services \<Rightarrow> rpc_message \<Rightarrow> rpc_channel \<Rightarrow> rpc_channel res" where
  "onRpcMessage services message c =
     (case rm_type message of
        RESPONSE \<Rightarrow> onResponse message c
      | REQUEST \<Rightarrow> Inr (onRpcRequest services message c)
      | RPC_ERROR \<Rightarrow> Inr c)"

definition doneCallback :: "bytes \<Rightarrow> int \<Rightarrow> rpc_channel \<Rightarrow> rpc_channel" where
  "doneCallback response n c = emit (SendMessage ((new_message RESPONSE n)\<lparr>rm_response := Some response\<rparr>)) c"


subsection \<open>Calls and answers\<close>

text \<open>What can happen on a channel: a call with a response object, any message from the peer, a service that finishes. Fewer than \<open>2 ^ 63\<close> calls
  are made on one channel.\<close>

inductive rpc_step :: "services \<Rightarrow> rpc_channel \<Rightarrow> rpc_channel res \<Rightarrow> bool" for services where
  Call: "rc_id c + 1 < 2 ^ 63 \<Longrightarrow> rpc_step services c (Inr (CallMethod s m req (Some r) d c))"
| Receive: "rpc_step services c (onRpcMessage services msg c)"
| Done: "rpc_step services c (Inr (doneCallback data n c))"

definition completed :: "rpc_channel \<Rightarrow> int list" where
  "completed c = concat (map (\<lambda>e. case e of Completed n _ _ \<Rightarrow> [n] | _ \<Rightarrow> []) (effects c))"

definition issued :: "rpc_channel \<Rightarrow> int list" where
  "issued c = concat (map (\<lambda>e. case e of SendMessage msg \<Rightarrow> if rm_type msg = REQUEST then [rm_id msg] else [] | _ \<Rightarrow> []) (effects c))"

definition rpc_inv :: "rpc_channel \<Rightarrow> bool" where
  "rpc_inv c \<longleftrightarrow> 0 \<le> rc_id c \<and> issued c = [1..rc_id c] \<and> distinct (completed c) \<and>
     set (completed c) \<inter> dom (outstandings c) = {} \<and> set (completed c) \<union> dom (outstandings c) = {1..rc_id c} \<and>
     (\<forall>n out. outstandings c n = Some out \<longrightarrow> oc_response out \<noteq> None)"

lemma emit_facts [simp]:
  "rc_id (emit e c) = rc_id c" "outstandings (emit e c) = outstandings c"
  "completed (emit e c) = completed c @ (case e of Completed n _ _ \<Rightarrow> [n] | _ \<Rightarrow> [])"
  "issued (emit e c) = issued c @ (case e of SendMessage msg \<Rightarrow> if rm_type msg = REQUEST then [rm_id msg] else [] | _ \<Rightarrow> [])"
  by (simp_all add: emit_def completed_def issued_def)

lemma CallMethod_inv: "rpc_inv c \<Longrightarrow> rc_id c + 1 < 2 ^ 63 \<Longrightarrow> rpc_inv (CallMethod s m req (Some r) d c)"
proof -
  assume inv: "rpc_inv c" and small: "rc_id c + 1 < 2 ^ 63"
  let ?c = "c\<lparr>rc_id := rc_id c + 1, outstandings := (outstandings c)(rc_id c + 1 \<mapsto> \<lparr>oc_response = Some r, oc_done = d\<rparr>)\<rparr>"
  have same: "completed ?c = completed c" "issued ?c = issued c" by (simp_all add: completed_def issued_def)
  have "{1..rc_id c + 1} = insert (rc_id c + 1) {1..rc_id c}" "[1..rc_id c + 1] = [1..rc_id c] @ [rc_id c + 1]"
    using inv upto_rec2 [of 1 "rc_id c + 1"] by (auto simp: rpc_inv_def)
  moreover have "set (completed c) \<subseteq> {1..rc_id c}" using inv unfolding rpc_inv_def by blast
  then have "rc_id c + 1 \<notin> set (completed c)" by auto
  ultimately show ?thesis
    using inv small by (auto simp: CallMethod_def incrementAndGet64_def rpc_inv_def same new_message_def Let_def)
qed


lemma onResponse_inv:
  assumes inv: "rpc_inv c" and ok: "rm_response msg \<noteq> None \<or> rm_error msg \<noteq> None"
  shows "\<exists>c'. onResponse msg c = Inr c' \<and> rpc_inv c'"
proof (cases "outstandings c (rm_id msg)")
  case None
  with inv ok show ?thesis by (simp add: onResponse_def Let_def)
next
  case (Some out)
  let ?c = "c\<lparr>outstandings := (outstandings c)(rm_id msg := None)\<rparr>"
  have same: "completed ?c = completed c" "issued ?c = issued c" by (simp_all add: completed_def issued_def)
  have r: "oc_response out \<noteq> None" using inv Some unfolding rpc_inv_def by blast
  have d: "rm_id msg \<in> dom (outstandings c)" using Some by auto
  have "rm_id msg \<notin> set (completed c)" using inv d unfolding rpc_inv_def by blast
  moreover have "(set (completed c) \<union> {rm_id msg}) \<union> (dom (outstandings c) - {rm_id msg}) = {1..rc_id c}"
    using inv d unfolding rpc_inv_def by blast
  ultimately have "rpc_inv (emit (Completed (rm_id msg) (rm_response msg) out) ?c)"
    using inv by (auto simp: rpc_inv_def same)
  with Some ok r show ?thesis by (simp add: onResponse_def Let_def)
qed

lemma emit_other_inv:
  "rpc_inv c \<Longrightarrow> rpc_inv (emit (Invoke s m b n) c)"
  "rpc_inv c \<Longrightarrow> rm_type msg \<noteq> REQUEST \<Longrightarrow> rpc_inv (emit (SendMessage msg) c)"
  by (simp_all add: rpc_inv_def)

text \<open>A response that carries neither a result nor an error.\<close>

definition empty_response :: "rpc_message \<Rightarrow> bool" where
  "empty_response msg \<longleftrightarrow> rm_type msg = RESPONSE \<and> rm_response msg = None \<and> rm_error msg = None"

lemma onRpcMessage_inv:
  assumes "rpc_inv c"
  shows "if empty_response msg then onRpcMessage services msg c = Inl AssertFail
    else \<exists>c'. onRpcMessage services msg c = Inr c' \<and> rpc_inv c'"
proof (cases "rm_type msg")
  case RESPONSE
  with onResponse_inv [OF assms, of msg] show ?thesis by (auto simp: onRpcMessage_def onResponse_def empty_response_def Let_def)
qed (use assms in \<open>auto simp: onRpcMessage_def onRpcRequest_def empty_response_def Let_def new_message_def intro: emit_other_inv\<close>)

inductive_cases rpc_step_failsE: "rpc_step services c (Inl e)"

lemma rpc_step_inv: "rpc_step services c r \<Longrightarrow> rpc_inv c \<Longrightarrow> (\<exists>c'. r = Inr c' \<and> rpc_inv c') \<or> (\<exists>e. r = Inl e \<and> e = AssertFail)"
proof (induction rule: rpc_step.induct)
  case (Call c s m req r d)
  then show ?case using CallMethod_inv by blast
next
  case (Receive c msg)
  then show ?case using onRpcMessage_inv [OF Receive, of msg services] by (auto split: if_splits)
next
  case (Done c data n)
  then show ?case by (auto simp: doneCallback_def new_message_def intro: emit_other_inv)
qed

interpretation rpcs: checked_steps "rpc_step services" rpc_inv "\<lambda>c e. e = AssertFail" for services
  by unfold_locales (rule rpc_step_inv)

lemma RpcChannel_new_inv: "rpc_inv RpcChannel_new"
  by (simp add: RpcChannel_new_def rpc_inv_def completed_def issued_def)

text \<open>C23: Every call completes at most once. Fewer than \<open>2 ^ 63\<close> calls are made, each with a response object, and the peer sends any messages in any order,
  answers twice or to unknown ids included. Then the requests sent carry the ids 1, 2, 3 in order, each call is completed
  at most once, and the calls not yet completed are exactly the outstanding ones: no call is forgotten. The only failure is that
  of the assertion on a response with neither a result nor an error: a peer that sends one
  stops the process, and nothing else does.\<close>

theorem rpc_calls_once:
  assumes "runs (rpc_step services) RpcChannel_new r"
  shows "(\<exists>c. r = Inr c \<and> issued c = [1..rc_id c] \<and> distinct (completed c) \<and>
      set (issued c) - set (completed c) = dom (outstandings c)) \<or>
    (\<exists>c msg. runs (rpc_step services) RpcChannel_new (Inr c) \<and> rm_type msg = RESPONSE \<and> rm_response msg = None \<and> rm_error msg = None \<and>
      onRpcMessage services msg c = Inl AssertFail \<and> r = Inl AssertFail)"
proof (cases r)
  case (Inr c)
  then have inv: "rpc_inv c" using rpcs.runs_inv [OF _ RpcChannel_new_inv] assms by simp
  then have "set (issued c) - set (completed c) = dom (outstandings c)" unfolding rpc_inv_def by auto
  with Inr inv show ?thesis by (auto simp: rpc_inv_def)
next
  case (Inl e)
  with assms obtain c where c: "runs (rpc_step services) RpcChannel_new (Inr c)" "rpc_step services c (Inl e)"
    by (auto elim: runs.cases)
  then obtain msg where msg: "onRpcMessage services msg c = Inl e" by (auto elim: rpc_step_failsE)
  with onRpcMessage_inv [OF rpcs.runs_inv [OF c(1) RpcChannel_new_inv], of msg services]
  have "empty_response msg" "e = AssertFail" by (auto split: if_splits)
  with c(1) msg Inl show ?thesis by (auto simp: empty_response_def)
qed

theorem rpc_calls_once_witness:
  "(\<exists>c. CallMethod ''S'' ''m'' [] (Some 1) None RpcChannel_new = c \<and> issued c = [1..rc_id c] \<and>
     set (issued c) - set (completed c) = dom (outstandings c)) \<and>
   (\<exists>c msg. runs (rpc_step None) RpcChannel_new (Inr c) \<and> empty_response msg \<and> onRpcMessage None msg c = Inl AssertFail)"
proof
  have "runs (rpc_step None) RpcChannel_new (Inr (CallMethod ''S'' ''m'' [] (Some 1) None RpcChannel_new))"
    by (rule runs_one) (rule rpc_step.Call, simp add: RpcChannel_new_def)
  from rpc_calls_once [OF this] show "\<exists>c. CallMethod ''S'' ''m'' [] (Some 1) None RpcChannel_new = c \<and> issued c = [1..rc_id c] \<and>
     set (issued c) - set (completed c) = dom (outstandings c)" by auto
  have fails: "onRpcMessage None (new_message RESPONSE 1) RpcChannel_new = Inl AssertFail"
    by (simp add: onRpcMessage_def onResponse_def new_message_def)
  have "runs (rpc_step None) RpcChannel_new (onRpcMessage None (new_message RESPONSE 1) RpcChannel_new)"
    by (rule runs_one) (rule rpc_step.Receive)
  from rpc_calls_once [OF this] fails
  show "\<exists>c msg. runs (rpc_step None) RpcChannel_new (Inr c) \<and> empty_response msg \<and> onRpcMessage None msg c = Inl AssertFail"
    unfolding empty_response_def by auto
qed

text \<open>Every request is answered: with an error at once, or by the service it names.\<close>

lemma rpc_request_answered:
  assumes "rm_type msg = REQUEST"
  shows "\<exists>e. onRpcMessage services msg c = Inr (emit e c) \<and>
    (e = Invoke (rm_service msg) (rm_method msg) (rm_request msg) (rm_id msg) \<and> request_error services msg = NO_ERROR \<or>
     (\<exists>reply. e = SendMessage reply \<and> rm_type reply = RESPONSE \<and> rm_id reply = rm_id msg \<and>
        rm_error reply = Some (request_error services msg) \<and> request_error services msg \<noteq> NO_ERROR))"
  using assms by (auto simp: onRpcMessage_def onRpcRequest_def new_message_def Let_def)

end
