(* ===== verification/RpcSystem.thy ===== *)
theory RpcSystem
  imports Rpc "HOL-Library.Countable"
begin

section \<open>A remote call from end to end (\<open>net/protorpc/RpcServer.cc\<close>, \<open>RpcCodec.cc\<close>)\<close>

text \<open>
  Two channels joined by a connection: the calls a client makes travel through the codec as bytes, are cut into
  reads at arbitrary places, reach the services of the server, and their answers travel back. The state has both
  channels, their input buffers, the bytes under way in each direction, and the services that are
  running. A service computes \<open>svc service method request\<close>; services finish in any order. \<open>ser\<close>, \<open>prs\<close> and \<open>adler\<close> are the
  message library and the checksum, as in the codec.
\<close>

definition rpctag :: bytes where "rpctag = ''RPC0''"

subsection \<open>The server's table of services\<close>

definition registerService ::
  "string \<Rightarrow> (string \<rightharpoonup> (bytes \<Rightarrow> bool)) \<Rightarrow> (string \<rightharpoonup> (string \<rightharpoonup> (bytes \<Rightarrow> bool))) \<Rightarrow>
    (string \<rightharpoonup> (string \<rightharpoonup> (bytes \<Rightarrow> bool)))" where
  "registerService full_name service services = services(full_name \<mapsto> service)"

text \<open>A connection that is up gets a channel with the services of the server, kept alive by its context; one that is down drops it.\<close>

definition RpcServer_onConnection ::
  "(string \<rightharpoonup> (string \<rightharpoonup> (bytes \<Rightarrow> bool))) \<Rightarrow> tcpconn \<Rightarrow> (rpc_channel \<times> services) option" where
  "RpcServer_onConnection services conn =
     (if connected conn then Some (RpcChannel_new, Some services) else None)"

text \<open>The destructor of a channel frees what is still outstanding.\<close>

definition RpcChannel_delete :: "rpc_channel \<Rightarrow> OutstandingCall set" where
  "RpcChannel_delete c = ran (outstandings c)"

subsection \<open>Messages as bytes\<close>

definition wire_image :: "(bytes \<Rightarrow> 32 word) \<Rightarrow> ('m \<Rightarrow> bytes) \<Rightarrow> 'm \<Rightarrow> bytes" where
  "wire_image adler ser m =
     (case rbind (Buffer_new kInitialSize) (fillEmptyBuffer adler ser rpctag m) of Inr b \<Rightarrow> content b | Inl _ \<Rightarrow> [])"

text \<open>\<open>RpcChannel::onMessage\<close>: the codec calls \<open>onRpcMessage\<close> for each message and the error callback for a frame it refuses.\<close>

fun codec_deliver :: "services \<Rightarrow> rpc_message codec_event list \<Rightarrow> rpc_channel \<Rightarrow> rpc_channel res" where
  "codec_deliver services [] c = Inr c"
| "codec_deliver services (GotMessage m # evs) c = rbind (onRpcMessage services m c) (codec_deliver services evs)"
| "codec_deliver services (RawRefused f # evs) c = codec_deliver services evs c"
| "codec_deliver services (CodecError e # evs) c = codec_deliver services evs c"

definition rpc_onMessage :: "(bytes \<Rightarrow> 32 word) \<Rightarrow> (bytes \<Rightarrow> rpc_message option) \<Rightarrow> services \<Rightarrow> buffer \<Rightarrow> rpc_channel \<Rightarrow>
    (codec_error list \<times> buffer \<times> rpc_channel) res" where
  "rpc_onMessage adler prs services buf c =
     rbind (codec_onMessage adler prs (\<lambda>_. True) rpctag buf) (\<lambda>(evs, buf).
     rbind (codec_deliver services evs c) (\<lambda>c.
     Inr (concat (map (\<lambda>e. case e of CodecError err \<Rightarrow> [err] | _ \<Rightarrow> []) evs), buf, c)))"

lemma wire_image_frame: "wire_image adler ser m = frame_of adler ser rpctag m"
proof -
  have new: "Buffer_new kInitialSize = Inr (empty_buffer kInitialSize)"
    by (simp add: Buffer_new_def empty_buffer_def readableBytes_def writableBytes_def prependableBytes_def)
  obtain b where "fillEmptyBuffer adler ser rpctag m (empty_buffer kInitialSize) = Inr b" "content b = frame_of adler ser rpctag m"
    using fillEmptyBuffer_ok [OF _ empty_buffer_room, of adler ser rpctag m] by auto
  then show ?thesis by (simp add: wire_image_def new)
qed

text \<open>However a stream of frames is cut, the codec delivers the messages whose frames are complete and keeps the rest.\<close>

lemma onMessage_stream:
  assumes "buffer_inv b" and "content b @ later = concat (map (frame_of adler ser tag) ms)"
    and "\<forall>m \<in> set ms. fits_frame adler ser tag m \<and> prs (ser m) = Some m"
  shows "\<exists>ms1 ms2 b'. ms = ms1 @ ms2 \<and> codec_onMessage adler prs (\<lambda>_. True) tag b = Inr (map GotMessage ms1, b') \<and>
    buffer_inv b' \<and> content b' @ later = concat (map (frame_of adler ser tag) ms2)"
  using assms
proof (induction ms arbitrary: b)
  case Nil
  then have "readableBytes b = 0" using length_content [of b] by simp
  then have "codec_onMessage adler prs (\<lambda>_. True) tag b = Inr ([], b)"
    by (subst codec_onMessage.simps) (simp add: kMinMessageLen_def kHeaderLen_def)
  with Nil show ?case by (intro exI [of _ "[]"] exI [of _ b]) simp
next
  case (Cons m ms)
  let ?f = "frame_of adler ser tag m"
  show ?case
  proof (cases "length (content b) < length ?f")
    case True
    have "take (length (content b)) (content b @ later) = take (length (content b)) (?f @ concat (map (frame_of adler ser tag) ms))"
      using Cons.prems(2) by simp
    then have "content b = take (length (content b)) ?f" using True by simp
    then have "content b @ drop (length (content b)) ?f = ?f" "drop (length (content b)) ?f \<noteq> []"
      using True append_take_drop_id [of "length (content b)" ?f] by (metis, simp)
    then have "codec_onMessage adler prs (\<lambda>_. True) tag b = Inr ([], b)"
      using onMessage_partial [OF Cons.prems(1)] Cons.prems(3) by (metis list.set_intros(1))
    with Cons.prems show ?thesis by (intro exI [of _ "[]"] exI [of _ "m # ms"] exI [of _ b]) simp
  next
    case False
    have "take (length ?f) (content b @ later) = ?f" using Cons.prems(2) by simp
    then have "take (length ?f) (content b) = ?f" using False by simp
    then have split: "content b = ?f @ drop (length ?f) (content b)" by (metis append_take_drop_id)
    obtain b' where b': "buffer_inv b'" "content b' = drop (length ?f) (content b)"
        "codec_onMessage adler prs (\<lambda>_. True) tag b =
         rbind (codec_onMessage adler prs (\<lambda>_. True) tag b') (\<lambda>(evs, b). Inr (GotMessage m # evs, b))"
      using onMessage_frame [OF Cons.prems(1) split, of prs] Cons.prems(3) by auto
    have "?f @ (content b' @ later) = ?f @ concat (map (frame_of adler ser tag) ms)"
      using Cons.prems(2) split b'(2) by (metis append.assoc concat.simps(2) list.simps(9))
    then have "content b' @ later = concat (map (frame_of adler ser tag) ms)" by simp
    then obtain ms1 ms2 b'' where "ms = ms1 @ ms2" "codec_onMessage adler prs (\<lambda>_. True) tag b' = Inr (map GotMessage ms1, b'')"
        "buffer_inv b''" "content b'' @ later = concat (map (frame_of adler ser tag) ms2)"
      using Cons.IH [OF b'(1)] Cons.prems(3) by auto
    then show ?thesis using b'(3) by (intro exI [of _ "m # ms1"] exI [of _ ms2] exI [of _ b'']) simp
  qed
qed


subsection \<open>The system\<close>

type_synonym invocation = "string \<times> string \<times> bytes \<times> int"

record rpc_system =
  rs_client :: rpc_channel
  rs_server :: rpc_channel
  rs_client_in :: buffer
  rs_server_in :: buffer
  rs_to_server :: bytes              \<comment> \<open>sent and not yet read\<close>
  rs_to_client :: bytes
  rs_running :: "invocation list"    \<comment> \<open>services that were invoked and have not finished\<close>
  rs_errors :: "codec_error list"    \<comment> \<open>frames a codec refused\<close>

definition sends_of :: "rpc_effect list \<Rightarrow> rpc_message list" where
  "sends_of es = concat (map (\<lambda>e. case e of SendMessage m \<Rightarrow> [m] | _ \<Rightarrow> []) es)"

definition invokes_of :: "rpc_effect list \<Rightarrow> invocation list" where
  "invokes_of es = concat (map (\<lambda>e. case e of Invoke s m b n \<Rightarrow> [(s, m, b, n)] | _ \<Rightarrow> []) es)"

definition fresh_effects :: "rpc_channel \<Rightarrow> rpc_channel \<Rightarrow> rpc_effect list" where
  "fresh_effects c c' = drop (length (effects c)) (effects c')"

text \<open>What a channel newly wants sent goes through the codec to the connection; what it newly invokes starts to run.\<close>

definition client_does :: "(bytes \<Rightarrow> 32 word) \<Rightarrow> (rpc_message \<Rightarrow> bytes) \<Rightarrow> rpc_channel \<Rightarrow> rpc_system \<Rightarrow> rpc_system" where
  "client_does adler ser c s =
     s\<lparr>rs_client := c,
       rs_to_server := rs_to_server s @ concat (map (wire_image adler ser) (sends_of (fresh_effects (rs_client s) c)))\<rparr>"

definition server_does :: "(bytes \<Rightarrow> 32 word) \<Rightarrow> (rpc_message \<Rightarrow> bytes) \<Rightarrow> rpc_channel \<Rightarrow> rpc_system \<Rightarrow> rpc_system" where
  "server_does adler ser c s =
     s\<lparr>rs_server := c,
       rs_to_client := rs_to_client s @ concat (map (wire_image adler ser) (sends_of (fresh_effects (rs_server s) c))),
       rs_running := rs_running s @ invokes_of (fresh_effects (rs_server s) c)\<rparr>"

definition server_receives ::
  "(bytes \<Rightarrow> 32 word) \<Rightarrow> (rpc_message \<Rightarrow> bytes) \<Rightarrow> (bytes \<Rightarrow> rpc_message option) \<Rightarrow> services \<Rightarrow> nat \<Rightarrow> rpc_system \<Rightarrow> rpc_system res" where
  "server_receives adler ser prs services k s =
     rbind (append_buf (take k (rs_to_server s)) (rs_server_in s)) (\<lambda>buf.
     rbind (rpc_onMessage adler prs services buf (rs_server s)) (\<lambda>(errs, buf, c).
     Inr (server_does adler ser c (s\<lparr>rs_to_server := drop k (rs_to_server s), rs_server_in := buf, rs_errors := rs_errors s @ errs\<rparr>))))"

definition client_receives ::
  "(bytes \<Rightarrow> 32 word) \<Rightarrow> (rpc_message \<Rightarrow> bytes) \<Rightarrow> (bytes \<Rightarrow> rpc_message option) \<Rightarrow> nat \<Rightarrow> rpc_system \<Rightarrow> rpc_system res" where
  "client_receives adler ser prs k s =
     rbind (append_buf (take k (rs_to_client s)) (rs_client_in s)) (\<lambda>buf.
     rbind (rpc_onMessage adler prs None buf (rs_client s)) (\<lambda>(errs, buf, c).
     Inr (client_does adler ser c (s\<lparr>rs_to_client := drop k (rs_to_client s), rs_client_in := buf, rs_errors := rs_errors s @ errs\<rparr>))))"

text \<open>A service finishes: its closure calls \<open>doneCallback\<close> with the response.\<close>

definition service_finishes ::
  "(bytes \<Rightarrow> 32 word) \<Rightarrow> (rpc_message \<Rightarrow> bytes) \<Rightarrow> (string \<Rightarrow> string \<Rightarrow> bytes \<Rightarrow> bytes) \<Rightarrow> nat \<Rightarrow> rpc_system \<Rightarrow> rpc_system" where
  "service_finishes adler ser svc i s =
     (let (sn, mn, req, n) = rs_running s ! i
      in server_does adler ser (doneCallback (svc sn mn req) n (rs_server s))
           (s\<lparr>rs_running := take i (rs_running s) @ drop (Suc i) (rs_running s)\<rparr>))"

definition rpc_system_new :: rpc_system where
  "rpc_system_new = \<lparr>rs_client = RpcChannel_new, rs_server = RpcChannel_new, rs_client_in = empty_buffer kInitialSize,
     rs_server_in = empty_buffer kInitialSize, rs_to_server = [], rs_to_client = [], rs_running = [], rs_errors = []\<rparr>"

text \<open>The messages each step sends fit into a frame of the codec (64 megabytes).\<close>

definition sends_fit :: "(bytes \<Rightarrow> 32 word) \<Rightarrow> (rpc_message \<Rightarrow> bytes) \<Rightarrow> rpc_channel \<Rightarrow> bool" where
  "sends_fit adler ser c \<longleftrightarrow> (\<forall>m \<in> set (sends_of (effects c)). fits_frame adler ser rpctag m)"

inductive rpc_sys_step ::
  "(bytes \<Rightarrow> 32 word) \<Rightarrow> (rpc_message \<Rightarrow> bytes) \<Rightarrow> (bytes \<Rightarrow> rpc_message option) \<Rightarrow> services \<Rightarrow>
    (string \<Rightarrow> string \<Rightarrow> bytes \<Rightarrow> bytes) \<Rightarrow> rpc_system \<Rightarrow> rpc_system res \<Rightarrow> bool" for adler ser prs services svc where
  Call: "rc_id (rs_client s) + 1 < 2 ^ 63 \<Longrightarrow> c = CallMethod sn mn req (Some r) d (rs_client s) \<Longrightarrow> sends_fit adler ser c \<Longrightarrow>
    rpc_sys_step adler ser prs services svc s (Inr (client_does adler ser c s))"
| ServerReads: "server_receives adler ser prs services k s = r \<Longrightarrow>
    (\<And>s'. r = Inr s' \<Longrightarrow> sends_fit adler ser (rs_server s')) \<Longrightarrow> rpc_sys_step adler ser prs services svc s r"
| Finish: "i < length (rs_running s) \<Longrightarrow> sends_fit adler ser (rs_server (service_finishes adler ser svc i s)) \<Longrightarrow>
    rpc_sys_step adler ser prs services svc s (Inr (service_finishes adler ser svc i s))"
| ClientReads: "client_receives adler ser prs k s = r \<Longrightarrow> rpc_sys_step adler ser prs services svc s r"


subsection \<open>Every answer belongs to its call\<close>

text \<open>The answer a request gets.\<close>

definition answer :: "services \<Rightarrow> (string \<Rightarrow> string \<Rightarrow> bytes \<Rightarrow> bytes) \<Rightarrow> rpc_message \<Rightarrow> rpc_message" where
  "answer services svc m =
     (if request_error services m = NO_ERROR
      then (new_message RESPONSE (rm_id m))\<lparr>rm_response := Some (svc (rm_service m) (rm_method m) (rm_request m))\<rparr>
      else (new_message RESPONSE (rm_id m))\<lparr>rm_error := Some (request_error services m)\<rparr>)"

definition request_sent :: "rpc_channel \<Rightarrow> rpc_message \<Rightarrow> bool" where
  "request_sent c m \<longleftrightarrow> SendMessage m \<in> set (effects c) \<and> rm_type m = REQUEST"

definition invocation_of :: "rpc_message \<Rightarrow> invocation" where
  "invocation_of m = (rm_service m, rm_method m, rm_request m, rm_id m)"

text \<open>With the requests \<open>rq\<close> and the answers \<open>an\<close> under way: each outstanding call is in exactly one place, and everything under
  way or completed stems from a request the client made.\<close>

definition rpc_core :: "services \<Rightarrow> (string \<Rightarrow> string \<Rightarrow> bytes \<Rightarrow> bytes) \<Rightarrow> rpc_channel \<Rightarrow> rpc_message list \<Rightarrow> invocation list \<Rightarrow>
    rpc_message list \<Rightarrow> bool" where
  "rpc_core services svc c rq run an \<longleftrightarrow> rpc_inv c \<and>
     (\<forall>m \<in> set rq. request_sent c m) \<and>
     (\<forall>p \<in> set run. \<exists>m. request_sent c m \<and> request_error services m = NO_ERROR \<and> p = invocation_of m) \<and>
     (\<forall>a \<in> set an. \<exists>m. request_sent c m \<and> a = answer services svc m) \<and>
     (\<forall>n r out. Completed n r out \<in> set (effects c) \<longrightarrow>
        (\<exists>m. request_sent c m \<and> rm_id m = n \<and> r = rm_response (answer services svc m))) \<and>
     distinct (map rm_id rq @ map (snd \<circ> snd \<circ> snd) run @ map rm_id an) \<and>
     set (map rm_id rq @ map (snd \<circ> snd \<circ> snd) run @ map rm_id an) = dom (outstandings c)"

lemma request_sent_emit: "request_sent c m \<Longrightarrow> request_sent (emit e c) m"
  by (simp add: request_sent_def emit_def)

lemma answer_facts [simp]:
  "rm_id (answer services svc m) = rm_id m" "rm_type (answer services svc m) = RESPONSE"
  "rm_response (answer services svc m) \<noteq> None \<or> rm_error (answer services svc m) \<noteq> None"
  by (simp_all add: answer_def new_message_def)

lemma new_effects_emit [simp]: "fresh_effects c (emit e c) = [e]"
  by (simp add: fresh_effects_def emit_def)

text \<open>The server handles the next request.\<close>

lemma core_request:
  assumes "rpc_core services svc c (m # rq) run an"
  shows "\<exists>e. onRpcMessage services m v = Inr (emit e v) \<and>
    rpc_core services svc c rq (run @ invokes_of [e]) (an @ sends_of [e])"
proof -
  have sent: "request_sent c m" using assms by (simp add: rpc_core_def)
  then have ty: "rm_type m = REQUEST" by (simp add: request_sent_def)
  show ?thesis
  proof (cases "request_error services m = NO_ERROR")
    case True
    let ?e = "Invoke (rm_service m) (rm_method m) (rm_request m) (rm_id m)"
    have "onRpcMessage services m v = Inr (emit ?e v)" using ty True by (simp add: onRpcMessage_def onRpcRequest_def)
    moreover have "invokes_of [?e] = [invocation_of m]" "sends_of [?e] = []"
      by (simp_all add: invokes_of_def sends_of_def invocation_of_def)
    moreover have "rpc_core services svc c rq (run @ [invocation_of m]) an"
      using assms sent True by (auto simp: rpc_core_def invocation_of_def)
    ultimately show ?thesis by (intro exI [of _ ?e]) simp
  next
    case False
    let ?e = "SendMessage (answer services svc m)"
    have "onRpcMessage services m v = Inr (emit ?e v)"
      using ty False by (simp add: onRpcMessage_def onRpcRequest_def answer_def Let_def)
    moreover have "invokes_of [?e] = []" "sends_of [?e] = [answer services svc m]" by (simp_all add: invokes_of_def sends_of_def)
    moreover have "rpc_core services svc c rq run (an @ [answer services svc m])"
      using assms sent by (auto simp: rpc_core_def)
    ultimately show ?thesis by (intro exI [of _ ?e]) simp
  qed
qed

text \<open>The client handles the next answer.\<close>

lemma core_response:
  assumes core: "rpc_core services svc c rq run (a # an)"
  shows "\<exists>c' n r out. onRpcMessage None a c = Inr c' \<and> effects c' = effects c @ [Completed n r out] \<and> rpc_core services svc c' rq run an"
proof -
  obtain m where m: "request_sent c m" "a = answer services svc m" using core by (auto simp: rpc_core_def)
  let ?n = "rm_id a"
  have "?n \<in> dom (outstandings c)" using core by (auto simp: rpc_core_def)
  then obtain out where out: "outstandings c ?n = Some out" by auto
  have resp: "oc_response out \<noteq> None" using core out unfolding rpc_core_def rpc_inv_def by blast
  let ?c = "emit (Completed ?n (rm_response a) out) (c\<lparr>outstandings := (outstandings c)(?n := None)\<rparr>)"
  have ok: "rm_response a \<noteq> None \<or> rm_error a \<noteq> None" using m(2) answer_facts(3) by blast
  have on: "onResponse a c = Inr ?c" using ok out resp by (simp add: onResponse_def Let_def)
  have inv: "rpc_inv ?c" using onResponse_inv [of c a] core ok on by (auto simp: rpc_core_def)
  have eff: "effects ?c = effects c @ [Completed ?n (rm_response a) out]" by (simp add: emit_def)
  then have keep: "request_sent ?c x \<longleftrightarrow> request_sent c x" for x by (simp add: request_sent_def)
  have "rpc_core services svc ?c rq run an"
    unfolding rpc_core_def keep
  proof (intro conjI)
    show "\<forall>n r out. Completed n r out \<in> set (effects ?c) \<longrightarrow>
        (\<exists>m. request_sent c m \<and> rm_id m = n \<and> r = rm_response (answer services svc m))"
    proof (intro allI impI)
      fix n r out'
      assume "Completed n r out' \<in> set (effects ?c)"
      then consider "Completed n r out' \<in> set (effects c)" | "n = ?n" "r = rm_response a" unfolding eff by auto
      then show "\<exists>m. request_sent c m \<and> rm_id m = n \<and> r = rm_response (answer services svc m)"
      proof cases
        case 1
        then show ?thesis using core unfolding rpc_core_def by blast
      next
        case 2
        then show ?thesis using m by auto
      qed
    qed
    show "set (map rm_id rq @ map (snd \<circ> snd \<circ> snd) run @ map rm_id an) = dom (outstandings ?c)"
      using core by (auto simp: rpc_core_def)
  qed (use core inv in \<open>auto simp: rpc_core_def\<close>)
  moreover have "onRpcMessage None a c = Inr ?c" using m(2) on by (simp add: onRpcMessage_def)
  ultimately show ?thesis using eff by blast
qed

text \<open>The client makes a call.\<close>

lemma core_call:
  assumes core: "rpc_core services svc c rq run an" and small: "rc_id c + 1 < 2 ^ 63"
    and c': "c' = CallMethod sn mn req (Some r) d c"
  shows "\<exists>m. effects c' = effects c @ [SendMessage m] \<and> rpc_core services svc c' (rq @ [m]) run an"
proof -
  let ?n = "rc_id c + 1"
  let ?m = "(new_message REQUEST ?n)\<lparr>rm_service := sn, rm_method := mn, rm_request := req\<rparr>"
  have eff: "effects c' = effects c @ [SendMessage ?m]"
    using small by (simp add: c' CallMethod_def incrementAndGet64_def emit_def Let_def)
  have out: "dom (outstandings c') = insert ?n (dom (outstandings c))"
    using small by (simp add: c' CallMethod_def incrementAndGet64_def Let_def)
  have inv: "rpc_inv c" "rpc_inv c'" using core CallMethod_inv [OF _ small] by (simp_all add: rpc_core_def c')
  have "dom (outstandings c) \<subseteq> {1..rc_id c}" using inv(1) unfolding rpc_inv_def by blast
  then have fresh: "?n \<notin> dom (outstandings c)" by auto
  have keep: "request_sent c x \<Longrightarrow> request_sent c' x" for x by (simp add: request_sent_def eff)
  have sent: "request_sent c' ?m" by (simp add: request_sent_def eff new_message_def)
  have id: "rm_id ?m = ?n" by (simp add: new_message_def)
  have "rpc_core services svc c' (rq @ [?m]) run an"
    unfolding rpc_core_def
  proof (intro conjI)
    show "\<forall>m \<in> set (rq @ [?m]). request_sent c' m" using core sent keep by (auto simp: rpc_core_def)
    show "\<forall>p \<in> set run. \<exists>m. request_sent c' m \<and> request_error services m = NO_ERROR \<and> p = invocation_of m"
      using core keep by (force simp: rpc_core_def)
    show "\<forall>a \<in> set an. \<exists>m. request_sent c' m \<and> a = answer services svc m" using core keep by (force simp: rpc_core_def)
    show "\<forall>n r out. Completed n r out \<in> set (effects c') \<longrightarrow>
        (\<exists>m. request_sent c' m \<and> rm_id m = n \<and> r = rm_response (answer services svc m))"
      using core keep by (force simp: rpc_core_def eff)
    show "distinct (map rm_id (rq @ [?m]) @ map (snd \<circ> snd \<circ> snd) run @ map rm_id an)"
      using core fresh id by (auto simp: rpc_core_def)
    show "set (map rm_id (rq @ [?m]) @ map (snd \<circ> snd \<circ> snd) run @ map rm_id an) = dom (outstandings c')"
      using core id out by (auto simp: rpc_core_def)
  qed (rule inv(2))
  with eff show ?thesis by blast
qed

text \<open>A service finishes.\<close>

lemma core_finish:
  assumes core: "rpc_core services svc c rq (xs @ (sn, mn, req, n) # ys) an"
  shows "\<exists>a. doneCallback (svc sn mn req) n v = emit (SendMessage a) v \<and> rpc_core services svc c rq (xs @ ys) (an @ [a])"
proof -
  obtain m where m: "request_sent c m" "request_error services m = NO_ERROR" "(sn, mn, req, n) = invocation_of m"
    using core by (auto simp: rpc_core_def)
  then have "doneCallback (svc sn mn req) n v = emit (SendMessage (answer services svc m)) v"
    by (simp add: doneCallback_def answer_def invocation_of_def)
  moreover have "rm_id (answer services svc m) = n" using m(3) by (simp add: invocation_of_def)
  then have "rpc_core services svc c rq (xs @ ys) (an @ [answer services svc m])"
    using core m(1) unfolding rpc_core_def by auto
  ultimately show ?thesis by blast
qed

lemma core_requests:
  "rpc_core services svc c (ms @ rq) run an \<Longrightarrow>
   \<exists>v' es. codec_deliver services (map GotMessage ms) v = Inr v' \<and> effects v' = effects v @ es \<and>
     rpc_core services svc c rq (run @ invokes_of es) (an @ sends_of es)"
proof (induction ms arbitrary: v run an)
  case Nil
  then show ?case by (simp add: invokes_of_def sends_of_def)
next
  case (Cons m ms)
  obtain e where e: "onRpcMessage services m v = Inr (emit e v)"
      "rpc_core services svc c (ms @ rq) (run @ invokes_of [e]) (an @ sends_of [e])"
    using core_request [of services svc c m "ms @ rq" run an v] Cons.prems by auto
  obtain v' es where "codec_deliver services (map GotMessage ms) (emit e v) = Inr v'" "effects v' = effects (emit e v) @ es"
      "rpc_core services svc c rq ((run @ invokes_of [e]) @ invokes_of es) ((an @ sends_of [e]) @ sends_of es)"
    using Cons.IH [OF e(2)] by blast
  then show ?case using e(1) by (intro exI [of _ v'] exI [of _ "e # es"]) (simp add: emit_def invokes_of_def sends_of_def)
qed

lemma core_responses:
  "rpc_core services svc c rq run (ms @ an) \<Longrightarrow>
   \<exists>c' es. codec_deliver None (map GotMessage ms) c = Inr c' \<and> effects c' = effects c @ es \<and> sends_of es = [] \<and>
     rpc_core services svc c' rq run an"
proof (induction ms arbitrary: c)
  case Nil
  then show ?case by (simp add: sends_of_def)
next
  case (Cons a ms)
  obtain c1 n r out where c1: "onRpcMessage None a c = Inr c1" "effects c1 = effects c @ [Completed n r out]"
      "rpc_core services svc c1 rq run (ms @ an)"
    using core_response [of services svc c rq run a "ms @ an"] Cons.prems by auto
  obtain c2 es where "codec_deliver None (map GotMessage ms) c1 = Inr c2" "effects c2 = effects c1 @ es" "sends_of es = []"
      "rpc_core services svc c2 rq run an" using Cons.IH [OF c1(3)] by blast
  then show ?case using c1 by (intro exI [of _ c2] exI [of _ "Completed n r out # es"]) (simp add: sends_of_def)
qed

text \<open>The invariant of the system: the bytes under way in each direction, from the input buffer on, are the frames of the
  messages under way.\<close>

definition sys_inv :: "(bytes \<Rightarrow> 32 word) \<Rightarrow> (rpc_message \<Rightarrow> bytes) \<Rightarrow> services \<Rightarrow> (string \<Rightarrow> string \<Rightarrow> bytes \<Rightarrow> bytes) \<Rightarrow>
    rpc_message list \<Rightarrow> rpc_message list \<Rightarrow> rpc_system \<Rightarrow> bool" where
  "sys_inv adler ser services svc rq an s \<longleftrightarrow> rpc_core services svc (rs_client s) rq (rs_running s) an \<and>
     buffer_inv (rs_server_in s) \<and> content (rs_server_in s) @ rs_to_server s = concat (map (frame_of adler ser rpctag) rq) \<and>
     buffer_inv (rs_client_in s) \<and> content (rs_client_in s) @ rs_to_client s = concat (map (frame_of adler ser rpctag) an) \<and>
     (\<forall>m \<in> set (rq @ an). fits_frame adler ser rpctag m) \<and> rs_errors s = []"

lemma sends_fit_new: "sends_fit adler ser c' \<Longrightarrow> effects c' = effects c @ es \<Longrightarrow> \<forall>m \<in> set (sends_of es). fits_frame adler ser rpctag m"
  by (simp add: sends_fit_def sends_of_def)

lemma fresh_effects_append: "effects c' = effects c @ es \<Longrightarrow> fresh_effects c c' = es"
  by (simp add: fresh_effects_def)

lemma no_codec_errors: "concat (map (\<lambda>e. case e of CodecError err \<Rightarrow> [err] | _ \<Rightarrow> []) (map GotMessage ms)) = []"
  by (induction ms) simp_all

lemma sys_call:
  assumes inv: "sys_inv adler ser services svc rq an s" and small: "rc_id (rs_client s) + 1 < 2 ^ 63"
    and c: "c = CallMethod sn mn req (Some r) d (rs_client s)" and fit: "sends_fit adler ser c"
  shows "\<exists>rq'. sys_inv adler ser services svc rq' an (client_does adler ser c s)"
proof -
  have "rpc_core services svc (rs_client s) rq (rs_running s) an" using inv by (simp add: sys_inv_def)
  then obtain m where m: "effects c = effects (rs_client s) @ [SendMessage m]" "rpc_core services svc c (rq @ [m]) (rs_running s) an"
    using core_call [OF _ small c] by blast
  have "fits_frame adler ser rpctag m" using sends_fit_new [OF fit m(1)] by (simp add: sends_of_def)
  then have "sys_inv adler ser services svc (rq @ [m]) an (client_does adler ser c s)"
    using inv m(2) by (auto simp: sys_inv_def client_does_def fresh_effects_append [OF m(1)] sends_of_def wire_image_frame)
  then show ?thesis by blast
qed

lemma sys_finish:
  assumes inv: "sys_inv adler ser services svc rq an s" and i: "i < length (rs_running s)"
    and fit: "sends_fit adler ser (rs_server (service_finishes adler ser svc i s))"
  shows "\<exists>an'. sys_inv adler ser services svc rq an' (service_finishes adler ser svc i s)"
proof -
  obtain sn mn req n where p: "rs_running s ! i = (sn, mn, req, n)" by (cases "rs_running s ! i") auto
  let ?rest = "take i (rs_running s) @ drop (Suc i) (rs_running s)"
  have "rs_running s = take i (rs_running s) @ (sn, mn, req, n) # drop (Suc i) (rs_running s)"
    using id_take_nth_drop [OF i] p by simp
  then have "rpc_core services svc (rs_client s) rq (take i (rs_running s) @ (sn, mn, req, n) # drop (Suc i) (rs_running s)) an"
    using inv unfolding sys_inv_def by simp
  then obtain a where a: "doneCallback (svc sn mn req) n (rs_server s) = emit (SendMessage a) (rs_server s)"
      "rpc_core services svc (rs_client s) rq ?rest (an @ [a])" using core_finish by blast
  have fin: "service_finishes adler ser svc i s =
      s\<lparr>rs_running := ?rest, rs_server := emit (SendMessage a) (rs_server s), rs_to_client := rs_to_client s @ frame_of adler ser rpctag a\<rparr>"
    using a(1) p by (simp add: service_finishes_def server_does_def sends_of_def invokes_of_def wire_image_frame)
  have "fits_frame adler ser rpctag a" using fit by (simp add: fin sends_fit_def sends_of_def emit_def)
  then have "sys_inv adler ser services svc rq (an @ [a]) (service_finishes adler ser svc i s)"
    using inv a(2) by (auto simp: fin sys_inv_def)
  then show ?thesis by blast
qed

lemma stream_read:
  assumes "buffer_inv buf" and "content buf @ wire' = concat (map (frame_of adler ser rpctag) ms)"
    and "\<forall>m \<in> set ms. fits_frame adler ser rpctag m" and "\<And>m. prs (ser m) = Some m"
  shows "\<exists>b1 b2 ms1 ms2. append_buf (take k wire') buf = Inr b1 \<and> ms = ms1 @ ms2 \<and>
    codec_onMessage adler prs (\<lambda>_. True) rpctag b1 = Inr (map GotMessage ms1, b2) \<and> buffer_inv b2 \<and>
    content b2 @ drop k wire' = concat (map (frame_of adler ser rpctag) ms2)"
proof -
  obtain b1 where b1: "append_buf (take k wire') buf = Inr b1" "buffer_inv b1" "content b1 = content buf @ take k wire'"
    using append_buf_ok [OF assms(1)] by blast
  then have "content b1 @ drop k wire' = concat (map (frame_of adler ser rpctag) ms)" using assms(2) by simp
  with onMessage_stream [OF b1(2), of "drop k wire'" adler ser rpctag ms prs] b1(1) assms(3,4) show ?thesis by auto
qed

lemma sys_server_reads:
  assumes inv: "sys_inv adler ser services svc rq an s" and parser: "\<And>m. prs (ser m) = Some m"
    and fit: "\<And>s'. server_receives adler ser prs services k s = Inr s' \<Longrightarrow> sends_fit adler ser (rs_server s')"
  shows "\<exists>s' rq' an'. server_receives adler ser prs services k s = Inr s' \<and> sys_inv adler ser services svc rq' an' s'"
proof -
  obtain b1 b2 ms1 ms2 where b: "append_buf (take k (rs_to_server s)) (rs_server_in s) = Inr b1" "rq = ms1 @ ms2"
      "codec_onMessage adler prs (\<lambda>_. True) rpctag b1 = Inr (map GotMessage ms1, b2)" "buffer_inv b2"
      "content b2 @ drop k (rs_to_server s) = concat (map (frame_of adler ser rpctag) ms2)"
    using stream_read [of "rs_server_in s" "rs_to_server s" adler ser rq prs k] inv parser by (auto simp: sys_inv_def)
  have "rpc_core services svc (rs_client s) (ms1 @ ms2) (rs_running s) an" using inv b(2) by (simp add: sys_inv_def)
  from core_requests [OF this, of "rs_server s"]
  obtain v' es where v': "codec_deliver services (map GotMessage ms1) (rs_server s) = Inr v'" "effects v' = effects (rs_server s) @ es"
      "rpc_core services svc (rs_client s) ms2 (rs_running s @ invokes_of es) (an @ sends_of es)" by blast
  let ?s = "server_does adler ser v' (s\<lparr>rs_to_server := drop k (rs_to_server s), rs_server_in := b2, rs_errors := rs_errors s @ []\<rparr>)"
  have r: "server_receives adler ser prs services k s = Inr ?s"
    unfolding server_receives_def rpc_onMessage_def by (simp only: b(1,3) v'(1) rbind_simps prod.case no_codec_errors)
  have "\<forall>m \<in> set (sends_of es). fits_frame adler ser rpctag m"
    using sends_fit_new [OF _ v'(2)] fit [OF r] by (simp add: server_does_def)
  then have "sys_inv adler ser services svc ms2 (an @ sends_of es) ?s"
    using inv b(2,4,5) v'(3) unfolding sys_inv_def server_does_def
    by (auto simp: fresh_effects_append [OF v'(2)] wire_image_frame cong: map_cong)
  with r show ?thesis by blast
qed

lemma sys_client_reads:
  assumes inv: "sys_inv adler ser services svc rq an s" and parser: "\<And>m. prs (ser m) = Some m"
  shows "\<exists>s' an'. client_receives adler ser prs k s = Inr s' \<and> sys_inv adler ser services svc rq an' s'"
proof -
  obtain b1 b2 ms1 ms2 where b: "append_buf (take k (rs_to_client s)) (rs_client_in s) = Inr b1" "an = ms1 @ ms2"
      "codec_onMessage adler prs (\<lambda>_. True) rpctag b1 = Inr (map GotMessage ms1, b2)" "buffer_inv b2"
      "content b2 @ drop k (rs_to_client s) = concat (map (frame_of adler ser rpctag) ms2)"
    using stream_read [of "rs_client_in s" "rs_to_client s" adler ser an prs k] inv parser by (auto simp: sys_inv_def)
  have "rpc_core services svc (rs_client s) rq (rs_running s) (ms1 @ ms2)" using inv b(2) by (simp add: sys_inv_def)
  from core_responses [OF this]
  obtain c' es where c': "codec_deliver None (map GotMessage ms1) (rs_client s) = Inr c'" "effects c' = effects (rs_client s) @ es"
      "sends_of es = []" "rpc_core services svc c' rq (rs_running s) ms2" by blast
  let ?s = "client_does adler ser c' (s\<lparr>rs_to_client := drop k (rs_to_client s), rs_client_in := b2, rs_errors := rs_errors s @ []\<rparr>)"
  have r: "client_receives adler ser prs k s = Inr ?s"
    unfolding client_receives_def rpc_onMessage_def by (simp only: b(1,3) c'(1) rbind_simps prod.case no_codec_errors)
  have "sys_inv adler ser services svc rq ms2 ?s"
    using inv b(2,4,5) c'(4) by (auto simp: sys_inv_def client_does_def fresh_effects_append [OF c'(2)] c'(3))
  with r show ?thesis by blast
qed

lemma sys_step_safe:
  assumes "rpc_sys_step adler ser prs services svc s r" and inv: "\<exists>rq an. sys_inv adler ser services svc rq an s"
    and parser: "\<And>m. prs (ser m) = Some m"
  shows "\<exists>s'. r = Inr s' \<and> (\<exists>rq an. sys_inv adler ser services svc rq an s')"
proof -
  from inv obtain rq an where i: "sys_inv adler ser services svc rq an s" by blast
  from assms(1) show ?thesis
  proof (cases rule: rpc_sys_step.cases)
    case (Call c sn mn req r d)
    then show ?thesis using sys_call [OF i Call(2,3,4)] by blast
  next
    case (ServerReads k)
    then show ?thesis using sys_server_reads [OF i parser, where k = k] by blast
  next
    case (Finish i')
    then show ?thesis using sys_finish [OF i Finish(2,3)] by blast
  next
    case (ClientReads k)
    then show ?thesis using sys_client_reads [OF i parser, where k = k] by blast
  qed
qed

interpretation rpcsys: safe_steps "rpc_sys_step adler ser prs services svc"
  "\<lambda>s. (\<exists>rq an. sys_inv adler ser services svc rq an s) \<and> (\<forall>m. prs (ser m) = Some m)" for adler ser prs services svc
  by unfold_locales (use sys_step_safe in blast)

lemma sys_inv_new: "sys_inv adler ser services svc [] [] rpc_system_new"
  using RpcChannel_new_inv
  by (simp add: sys_inv_def rpc_system_new_def rpc_core_def empty_buffer_room RpcChannel_new_def)

text \<open>C7: A remote call is answered by its own result. For a message library whose parser inverts its serialiser, any
  checksum, any services and any cutting of the byte streams, as long as no message exceeds the frame size: no assertion fails and no codec refuses
  a frame; every call the client sees completed carries what the service computes for the request with the
  same id, or no response when the server has no such service or method or cannot parse it; no two requests have the same id;
  and every call that is outstanding is in exactly one place, as a request under way, a
  running service or an answer under way, so none is lost.\<close>

theorem rpc_end_to_end:
  assumes "runs (rpc_sys_step adler ser prs services svc) rpc_system_new r" and "\<And>m. prs (ser m) = Some m"
  shows "\<exists>s. r = Inr s \<and> rs_errors s = [] \<and> distinct (issued (rs_client s)) \<and>
    (\<forall>n res out. Completed n res out \<in> set (effects (rs_client s)) \<longrightarrow>
      (\<exists>m. request_sent (rs_client s) m \<and> rm_id m = n \<and> res = rm_response (answer services svc m))) \<and>
    (\<exists>rq an. content (rs_server_in s) @ rs_to_server s = concat (map (wire_image adler ser) rq) \<and>
      content (rs_client_in s) @ rs_to_client s = concat (map (wire_image adler ser) an) \<and>
      distinct (map rm_id rq @ map (snd \<circ> snd \<circ> snd) (rs_running s) @ map rm_id an) \<and>
      set (map rm_id rq @ map (snd \<circ> snd \<circ> snd) (rs_running s) @ map rm_id an) = dom (outstandings (rs_client s)))"
proof -
  obtain s rq an where s: "r = Inr s" "sys_inv adler ser services svc rq an s"
    using rpcsys.runs_safe [OF assms(1)] sys_inv_new assms(2) by blast
  have core: "rpc_core services svc (rs_client s) rq (rs_running s) an" using s(2) by (simp add: sys_inv_def)
  then have "distinct (issued (rs_client s))" by (simp add: rpc_core_def rpc_inv_def)
  moreover have "rs_errors s = []" "content (rs_server_in s) @ rs_to_server s = concat (map (wire_image adler ser) rq)"
      "content (rs_client_in s) @ rs_to_client s = concat (map (wire_image adler ser) an)"
    using s(2) by (simp_all add: sys_inv_def wire_image_frame cong: map_cong)
  ultimately show ?thesis using s(1) core unfolding rpc_core_def by blast
qed

text \<open>A message library for the example: it serialises one request as the empty string and numbers all others.\<close>

instance rpc_type :: countable
  by countable_datatype

instance rpc_error :: countable
  by countable_datatype

definition msg_tuple ::
  "rpc_message \<Rightarrow> rpc_type \<times> int \<times> string \<times> string \<times> bytes \<times> bytes option \<times> rpc_error option" where
  "msg_tuple m = (rm_type m, rm_id m, rm_service m, rm_method m, rm_request m, rm_response m, rm_error m)"

definition msg_of_tuple ::
  "rpc_type \<times> int \<times> string \<times> string \<times> bytes \<times> bytes option \<times> rpc_error option \<Rightarrow> rpc_message" where
  "msg_of_tuple t = (case t of (ty, n, s, m, b, r, e) \<Rightarrow>
     \<lparr>rm_type = ty, rm_id = n, rm_service = s, rm_method = m, rm_request = b, rm_response = r, rm_error = e\<rparr>)"

definition first_request :: rpc_message where
  "first_request = (new_message REQUEST 1)\<lparr>rm_service := ''S'', rm_method := ''m'', rm_request := ''q''\<rparr>"

definition sample_ser :: "rpc_message \<Rightarrow> bytes" where
  "sample_ser m = (if m = first_request then [] else replicate (Suc (to_nat (msg_tuple m))) (CHR 0x00))"

definition sample_prs :: "bytes \<Rightarrow> rpc_message option" where
  "sample_prs b = Some (if b = [] then first_request else msg_of_tuple (from_nat (length b - 1)))"

lemma sample_prs_ser: "sample_prs (sample_ser m) = Some m"
proof -
  have "msg_of_tuple (msg_tuple m) = m" by (cases m) (simp add: msg_of_tuple_def msg_tuple_def)
  then show ?thesis by (simp add: sample_prs_def sample_ser_def)
qed

definition one_call :: rpc_system where
  "one_call = client_does (\<lambda>_. 0) sample_ser (CallMethod ''S'' ''m'' ''q'' (Some 1) None RpcChannel_new) rpc_system_new"

theorem rpc_end_to_end_witness:
  "rs_errors one_call = [] \<and> distinct (issued (rs_client one_call)) \<and> dom (outstandings (rs_client one_call)) = {1}"
proof -
  let ?c = "CallMethod ''S'' ''m'' ''q'' (Some 1) None RpcChannel_new"
  have "sends_of (effects ?c) = [first_request]"
    by (simp add: CallMethod_def RpcChannel_new_def incrementAndGet64_def emit_def sends_of_def first_request_def Let_def)
  then have "sends_fit (\<lambda>_. 0) sample_ser ?c"
    by (simp add: sends_fit_def fits_frame_def sample_ser_def rpctag_def kMaxMessageLen_def)
  then have "rpc_sys_step (\<lambda>_. 0) sample_ser sample_prs None (\<lambda>_ _ _. []) rpc_system_new (Inr one_call)"
    unfolding one_call_def by (intro rpc_sys_step.Call) (simp_all add: rpc_system_new_def RpcChannel_new_def)
  then have "runs (rpc_sys_step (\<lambda>_. 0) sample_ser sample_prs None (\<lambda>_ _ _. [])) rpc_system_new (Inr one_call)"
    by (rule runs_one)
  from rpc_end_to_end [OF this sample_prs_ser] have "rs_errors one_call = [] \<and> distinct (issued (rs_client one_call))"
    by (elim exE conjE) (simp only: sum.inject simp_thms)
  then show ?thesis
    by (simp add: one_call_def client_does_def CallMethod_def RpcChannel_new_def incrementAndGet64_def Let_def)
qed

end
