(* ===== verification/Connector.thy ===== *)
theory Connector
  imports Sockets Runs "HOL-Library.Multiset"
begin

section \<open>Connecting (\<open>net/Connector.cc\<close>)\<close>

text \<open>
  A connector makes a connection in the background and tries again with growing delays. Sockets are numbered
  in the order of their creation; \<open>cn_closed\<close> and \<open>delivered\<close> record where each one went, and
  \<open>delays\<close> the delays of the retries since the connector was last started or restarted. Work queued in
  the loop is the list \<open>cn_tasks\<close>, retry timers that have not fired are counted in \<open>cn_timers\<close>.
\<close>

datatype cn_states = CDisconnected | CConnecting | CConnected

datatype cn_task = StartInLoop | StopInLoop | ResetChannel

record cn_channel =
  cc_sock :: nat
  cc_writing :: bool

record connector =
  cn_connect :: bool
  cn_state :: cn_states
  cn_channel :: "cn_channel option"
  retryDelayMs :: nat
  cn_tasks :: "cn_task list"
  cn_timers :: nat
  sockets_made :: nat
  cn_closed :: "nat list"
  delivered :: "nat list"
  delays :: "nat list"

definition kMaxRetryDelayMs :: nat where "kMaxRetryDelayMs = 30 * 1000"

definition kInitRetryDelayMs :: nat where "kInitRetryDelayMs = 500"

definition Connector_new :: connector where
  "Connector_new = \<lparr>cn_connect = False, cn_state = CDisconnected, cn_channel = None, retryDelayMs = kInitRetryDelayMs,
     cn_tasks = [], cn_timers = 0, sockets_made = 0, cn_closed = [], delivered = [], delays = []\<rparr>"

definition cn_queue :: "cn_task \<Rightarrow> connector \<Rightarrow> connector" where
  "cn_queue t c = c\<lparr>cn_tasks := cn_tasks c @ [t]\<rparr>"

definition close_sock :: "nat \<Rightarrow> connector \<Rightarrow> connector" where
  "close_sock fd c = c\<lparr>cn_closed := cn_closed c @ [fd]\<rparr>"

definition cn_retry :: "nat \<Rightarrow> connector \<Rightarrow> connector" where
  "cn_retry sockfd c =
     (let c = (close_sock sockfd c)\<lparr>cn_state := CDisconnected\<rparr>
      in if cn_connect c
         then c\<lparr>cn_timers := cn_timers c + 1, delays := delays c @ [retryDelayMs c],
                retryDelayMs := min (retryDelayMs c * 2) kMaxRetryDelayMs\<rparr>
         else c)"

definition connecting :: "nat \<Rightarrow> connector \<Rightarrow> connector res" where
  "connecting sockfd c =
     (let c = c\<lparr>cn_state := CConnecting\<rparr>
      in cassert (cn_channel c = None)
         (Inr (c\<lparr>cn_channel := Some \<lparr>cc_sock = sockfd, cc_writing = True\<rparr>\<rparr>)))"

text \<open>The answer of \<open>connect\<close> is success or an error number.\<close>

definition connect_goes_on :: "errno list" where "connect_goes_on = [EINPROGRESS, EINTR, EISCONN]"

definition connect_again :: "errno list" where
  "connect_again = [EAGAIN, EADDRINUSE, EADDRNOTAVAIL, ECONNREFUSED, ENETUNREACH]"

definition cn_connect_sock :: "errno option \<Rightarrow> connector \<Rightarrow> connector res" where
  "cn_connect_sock answer c =
     (let sockfd = sockets_made c; c = c\<lparr>sockets_made := sockfd + 1\<rparr>
      in case answer of
           None \<Rightarrow> connecting sockfd c
         | Some e \<Rightarrow>
             if e \<in> set connect_goes_on then connecting sockfd c
             else if e \<in> set connect_again then Inr (cn_retry sockfd c)
             else Inr (close_sock sockfd c))"

definition startInLoop :: "errno option \<Rightarrow> connector \<Rightarrow> connector res" where
  "startInLoop answer c =
     cassert (cn_state c = CDisconnected)
     (if cn_connect c then cn_connect_sock answer c else Inr c)"

definition cn_start :: "connector \<Rightarrow> connector" where
  "cn_start c = cn_queue StartInLoop (c\<lparr>cn_connect := True\<rparr>)"

definition cn_restart :: "errno option \<Rightarrow> connector \<Rightarrow> connector res" where
  "cn_restart answer c =
     startInLoop answer (c\<lparr>cn_state := CDisconnected, retryDelayMs := kInitRetryDelayMs, delays := [], cn_connect := True\<rparr>)"

text \<open>The channel object stays until a queued functor deletes it, because its event handler may be running.\<close>

definition removeAndResetChannel :: "connector \<Rightarrow> (nat \<times> connector) res" where
  "removeAndResetChannel c =
     (case cn_channel c of None \<Rightarrow> Inl UndefinedBehaviour
      | Some ch \<Rightarrow> Inr (cc_sock ch, cn_queue ResetChannel (c\<lparr>cn_channel := Some (ch\<lparr>cc_writing := False\<rparr>)\<rparr>)))"

definition resetChannel :: "connector \<Rightarrow> connector" where
  "resetChannel c = c\<lparr>cn_channel := None\<rparr>"

definition cn_stop :: "connector \<Rightarrow> connector" where
  "cn_stop c = cn_queue StopInLoop (c\<lparr>cn_connect := False\<rparr>)"

definition stopInLoop :: "connector \<Rightarrow> connector res" where
  "stopInLoop c =
     (if cn_state c = CConnecting
      then rbind (removeAndResetChannel (c\<lparr>cn_state := CDisconnected\<rparr>)) (\<lambda>(sockfd, c). Inr (cn_retry sockfd c))
      else Inr c)"

definition cn_handleWrite :: "bool \<Rightarrow> bool \<Rightarrow> connector \<Rightarrow> connector res" where
  "cn_handleWrite err selfConnect c =
     (if cn_state c = CConnecting
      then rbind (removeAndResetChannel c) (\<lambda>(sockfd, c).
        if err then Inr (cn_retry sockfd c)
        else if selfConnect then Inr (cn_retry sockfd c)
        else let c = c\<lparr>cn_state := CConnected\<rparr>
             in if cn_connect c then Inr (c\<lparr>delivered := delivered c @ [sockfd]\<rparr>) else Inr (close_sock sockfd c))
      else cassert (cn_state c = CDisconnected) (Inr c))"

definition cn_handleError :: "connector \<Rightarrow> connector res" where
  "cn_handleError c =
     (if cn_state c = CConnecting
      then rbind (removeAndResetChannel c) (\<lambda>(sockfd, c). Inr (cn_retry sockfd c))
      else Inr c)"

definition Connector_dtor :: "connector \<Rightarrow> unit res" where
  "Connector_dtor c = cassert (cn_channel c = None) (Inr ())"

fun cn_run_task :: "errno option \<Rightarrow> cn_task \<Rightarrow> connector \<Rightarrow> connector res" where
  "cn_run_task answer StartInLoop c = startInLoop answer c"
| "cn_run_task answer StopInLoop c = stopInLoop c"
| "cn_run_task answer ResetChannel c = Inr (resetChannel c)"


subsection \<open>The life of a connector\<close>

text \<open>
  The connector is started once. After that it may be stopped at any time and, once connected, restarted when the
  connection is gone. One poll result may carry an error, writability or both. Functors run in the order of
  queuing. A retry timer is due after at least half a second: it fires after the functors that were queued
  when it was set. Restarting likewise happens in a later turn of the loop.
\<close>

inductive cn_own_step :: "connector \<Rightarrow> connector res \<Rightarrow> bool" where
  Stop: "cn_own_step c (Inr (cn_stop c))"
| Functor: "cn_tasks c = t # ts \<Longrightarrow> cn_own_step c (cn_run_task answer t (c\<lparr>cn_tasks := ts\<rparr>))"
| Timer: "0 < cn_timers c \<Longrightarrow> ResetChannel \<notin> set (cn_tasks c) \<Longrightarrow>
    cn_own_step c (startInLoop answer (c\<lparr>cn_timers := cn_timers c - 1\<rparr>))"
| Dispatch: "cn_channel c = Some ch \<Longrightarrow> cc_writing ch \<Longrightarrow>
    cn_own_step c (rbind (if pollerr then cn_handleError c else Inr c) (\<lambda>c.
      if pollout then cn_handleWrite err self c else Inr c))"

inductive cn_step :: "connector \<Rightarrow> connector res \<Rightarrow> bool" where
  Own: "cn_own_step c r \<Longrightarrow> cn_step c r"
| Restart: "cn_state c = CConnected \<Longrightarrow> ResetChannel \<notin> set (cn_tasks c) \<Longrightarrow> cn_step c (cn_restart answer c)"

definition backoff :: "nat \<Rightarrow> nat" where "backoff k = min (500 * 2 ^ k) 30000"

definition held :: "connector \<Rightarrow> nat list" where
  "held c = (case cn_channel c of Some ch \<Rightarrow> if cc_writing ch then [cc_sock ch] else [] | None \<Rightarrow> [])"

abbreviation resets :: "connector \<Rightarrow> nat" where "resets c \<equiv> count_list (cn_tasks c) ResetChannel"

abbreviation starts :: "connector \<Rightarrow> nat" where "starts c \<equiv> count_list (cn_tasks c) StartInLoop"

definition chan_ok :: "connector \<Rightarrow> bool" where
  "chan_ok c \<longleftrightarrow> (case cn_channel c of
     None \<Rightarrow> cn_state c \<noteq> CConnecting \<and> resets c = 0
   | Some ch \<Rightarrow> if cc_writing ch then cn_state c = CConnecting \<and> resets c = 0
               else cn_state c \<noteq> CConnecting \<and> resets c = 1 \<and> starts c = 0)"

definition cn_inv :: "connector \<Rightarrow> bool" where
  "cn_inv c \<longleftrightarrow> chan_ok c \<and> (if cn_state c = CDisconnected then starts c + cn_timers c \<le> 1 else starts c + cn_timers c = 0) \<and>
     mset (cn_closed c @ delivered c @ held c) = mset [0..<sockets_made c] \<and>
     delays c = map backoff [0..<length (delays c)] \<and> retryDelayMs c = backoff (length (delays c))"

lemma backoff_next: "min (backoff k * 2) kMaxRetryDelayMs = backoff (Suc k)"
  by (simp add: backoff_def kMaxRetryDelayMs_def min_def)

text \<open>The parts of the invariant that closing a socket and setting a timer need.\<close>

definition lost_ok :: "nat \<Rightarrow> connector \<Rightarrow> bool" where
  "lost_ok fd c \<longleftrightarrow> mset (cn_closed c @ delivered c @ held c) + {#fd#} = mset [0..<sockets_made c] \<and>
     delays c = map backoff [0..<length (delays c)] \<and> retryDelayMs c = backoff (length (delays c)) \<and>
     starts c + cn_timers c = 0 \<and> held c = [] \<and> (cn_channel c = None \<longrightarrow> resets c = 0) \<and> (cn_channel c \<noteq> None \<longrightarrow> resets c = 1)"

lemma cn_retry_inv:
  assumes "lost_ok fd c"
  shows "cn_inv (cn_retry fd c)"
proof -
  have c: "mset (cn_closed c @ [fd] @ delivered c) = mset [0..<sockets_made c]"
      "delays c = map backoff [0..<length (delays c)]" "retryDelayMs c = backoff (length (delays c))"
      "starts c = 0" "cn_timers c = 0" "held c = []"
      "cn_channel c = None \<Longrightarrow> resets c = 0" "cn_channel c \<noteq> None \<Longrightarrow> resets c = 1"
    using assms unfolding lost_ok_def by (auto simp: ac_simps)
  have h: "held (cn_retry fd c) = []" using c(6) by (simp add: held_def cn_retry_def close_sock_def Let_def)
  have "chan_ok (cn_retry fd c)"
    using c by (auto simp: chan_ok_def cn_retry_def close_sock_def held_def Let_def split: option.splits if_splits)
  moreover have "cn_state (cn_retry fd c) = CDisconnected" "starts (cn_retry fd c) = 0" "cn_timers (cn_retry fd c) \<le> 1"
      "cn_closed (cn_retry fd c) = cn_closed c @ [fd]" "delivered (cn_retry fd c) = delivered c"
      "sockets_made (cn_retry fd c) = sockets_made c"
    using c by (simp_all add: cn_retry_def close_sock_def Let_def)
  moreover have "delays (cn_retry fd c) = map backoff [0..<length (delays (cn_retry fd c))]"
      "retryDelayMs (cn_retry fd c) = backoff (length (delays (cn_retry fd c)))"
    using c(2,3) backoff_next [of "length (delays c)"] by (simp_all add: cn_retry_def close_sock_def Let_def)
  ultimately show ?thesis using c(1) h by (simp add: cn_inv_def)
qed

lemma removeAndReset_lost:
  assumes inv: "cn_inv c" and st: "cn_state c = CConnecting"
  shows "\<exists>fd c'. removeAndResetChannel c = Inr (fd, c') \<and> lost_ok fd c' \<and> cn_connect c' = cn_connect c \<and>
    (\<exists>ch. cn_channel c' = Some ch \<and> \<not> cc_writing ch) \<and> lost_ok fd (c'\<lparr>cn_state := s\<rparr>)"
proof -
  obtain ch where ch: "cn_channel c = Some ch" "cc_writing ch" "resets c = 0" "starts c = 0" "cn_timers c = 0"
    using inv st by (auto simp: cn_inv_def chan_ok_def split: option.splits if_splits)
  let ?c = "cn_queue ResetChannel (c\<lparr>cn_channel := Some (ch\<lparr>cc_writing := False\<rparr>)\<rparr>)"
  have h: "held ?c = []" "held c = [cc_sock ch]" using ch by (simp_all add: held_def cn_queue_def)
  have "mset (cn_closed c @ delivered c @ [cc_sock ch]) = mset [0..<sockets_made c]"
      "delays c = map backoff [0..<length (delays c)]" "retryDelayMs c = backoff (length (delays c))"
    using inv h by (simp_all add: cn_inv_def)
  then have "lost_ok (cc_sock ch) ?c" "lost_ok (cc_sock ch) (?c\<lparr>cn_state := s\<rparr>)"
    using ch h by (simp_all add: lost_ok_def cn_queue_def held_def)
  with ch show ?thesis by (simp add: removeAndResetChannel_def cn_queue_def)
qed

lemma removeAndReset_state:
  "removeAndResetChannel c = Inr (fd, c') \<Longrightarrow> removeAndResetChannel (c\<lparr>cn_state := s\<rparr>) = Inr (fd, c'\<lparr>cn_state := s\<rparr>)"
  by (auto simp: removeAndResetChannel_def cn_queue_def split: option.splits)

lemma cn_retry_state: "cn_state (cn_retry fd c) = CDisconnected"
  by (simp add: cn_retry_def Let_def)

lemma cn_handleError_inv:
  assumes inv: "cn_inv c" and st: "cn_state c = CConnecting"
  shows "\<exists>c'. cn_handleError c = Inr c' \<and> cn_inv c' \<and> cn_state c' = CDisconnected"
proof -
  obtain fd c' where "removeAndResetChannel c = Inr (fd, c')" "lost_ok fd c'"
    using removeAndReset_lost [OF inv st] by blast
  with st show ?thesis using cn_retry_inv cn_retry_state by (auto simp: cn_handleError_def)
qed

lemma stopInLoop_inv:
  assumes inv: "cn_inv c"
  shows "\<exists>c'. stopInLoop c = Inr c' \<and> cn_inv c'"
proof (cases "cn_state c = CConnecting")
  case True
  then obtain fd c' where "removeAndResetChannel c = Inr (fd, c')" "lost_ok fd (c'\<lparr>cn_state := CDisconnected\<rparr>)"
    using removeAndReset_lost [OF inv True] by blast
  with True show ?thesis using cn_retry_inv removeAndReset_state by (auto simp: stopInLoop_def)
qed (use inv in \<open>simp add: stopInLoop_def\<close>)

lemma cn_handleWrite_inv:
  assumes inv: "cn_inv c" and st: "cn_state c \<noteq> CConnected"
  shows "\<exists>c'. cn_handleWrite err self c = Inr c' \<and> cn_inv c'"
proof (cases "cn_state c = CConnecting")
  case True
  obtain fd c1 ch where c1: "removeAndResetChannel c = Inr (fd, c1)" "lost_ok fd c1"
      "cn_channel c1 = Some ch" "\<not> cc_writing ch"
    using removeAndReset_lost [OF inv True] by blast
  then have m: "mset (cn_closed c1) + mset (delivered c1) + {#fd#} = mset [0..<sockets_made c1]"
    by (auto simp: lost_ok_def)
  have "cn_inv (c1\<lparr>cn_state := CConnected, delivered := delivered c1 @ [fd]\<rparr>)"
      "cn_inv (close_sock fd (c1\<lparr>cn_state := CConnected\<rparr>))"
    using c1 m by (simp_all add: cn_inv_def chan_ok_def lost_ok_def close_sock_def held_def ac_simps)
  with c1 True cn_retry_inv [OF c1(2)] show ?thesis by (simp add: cn_handleWrite_def Let_def)
next
  case False
  with st have "cn_state c = CDisconnected" by (cases "cn_state c") auto
  with inv show ?thesis by (simp add: cn_handleWrite_def)
qed

lemma startInLoop_inv:
  assumes inv: "cn_inv c" and st: "cn_state c = CDisconnected" "cn_channel c = None" "starts c + cn_timers c = 0"
  shows "\<exists>c'. startInLoop answer c = Inr c' \<and> cn_inv c'"
proof (cases "cn_connect c")
  case True
  let ?fd = "sockets_made c"
  let ?c = "c\<lparr>sockets_made := ?fd + 1\<rparr>"
  have m: "mset (cn_closed c) + mset (delivered c) = mset [0..<?fd]" and r: "resets c = 0"
    and d: "delays c = map backoff [0..<length (delays c)]" "retryDelayMs c = backoff (length (delays c))"
    using inv st by (simp_all add: cn_inv_def chan_ok_def held_def)
  have up: "mset [0..<?fd + 1] = add_mset ?fd (mset [0..<?fd])" by simp
  have "lost_ok ?fd ?c" using st m r d by (simp add: lost_ok_def held_def)
  then have a: "cn_inv (cn_retry ?fd ?c)" by (rule cn_retry_inv)
  have b: "cn_inv (close_sock ?fd ?c)"
    using st m r d by (simp add: cn_inv_def chan_ok_def held_def close_sock_def)
  have c: "cn_inv (?c\<lparr>cn_state := CConnecting, cn_channel := Some \<lparr>cc_sock = ?fd, cc_writing = True\<rparr>\<rparr>)"
    using st m r d by (simp add: cn_inv_def chan_ok_def held_def ac_simps)
  from a b c st True show ?thesis
    by (auto simp: startInLoop_def cn_connect_sock_def connecting_def Let_def split: option.splits)
qed (use inv st in \<open>simp add: startInLoop_def\<close>)

lemma cn_functor_inv:
  assumes inv: "cn_inv c" and t: "cn_tasks c = t # ts"
  shows "\<exists>c'. cn_run_task answer t (c\<lparr>cn_tasks := ts\<rparr>) = Inr c' \<and> cn_inv c'"
proof (cases t)
  case StartInLoop
  with inv t have st: "cn_state c = CDisconnected" "cn_timers c = 0" "count_list ts StartInLoop = 0"
    by (auto simp: cn_inv_def split: if_splits)
  moreover have ch: "cn_channel c = None"
    using inv st t StartInLoop by (auto simp: cn_inv_def chan_ok_def split: option.splits if_splits)
  moreover have "cn_inv (c\<lparr>cn_tasks := ts\<rparr>)"
    using inv t StartInLoop st ch by (simp add: cn_inv_def chan_ok_def held_def)
  ultimately show ?thesis using startInLoop_inv [of "c\<lparr>cn_tasks := ts\<rparr>"] StartInLoop by simp
next
  case StopInLoop
  have "cn_inv (c\<lparr>cn_tasks := ts\<rparr>)"
    using inv t StopInLoop by (cases "cn_channel c") (simp_all add: cn_inv_def chan_ok_def held_def split: if_splits)
  with stopInLoop_inv StopInLoop show ?thesis by simp
next
  case ResetChannel
  then obtain ch where "cn_channel c = Some ch" "\<not> cc_writing ch" "cn_state c \<noteq> CConnecting" "count_list ts ResetChannel = 0"
    using inv t by (auto simp: cn_inv_def chan_ok_def split: option.splits if_splits)
  then have "cn_inv (resetChannel (c\<lparr>cn_tasks := ts\<rparr>))"
    using inv t ResetChannel by (auto simp: cn_inv_def chan_ok_def held_def resetChannel_def split: if_splits)
  with ResetChannel show ?thesis by simp
qed

lemma cn_own_step_inv:
  assumes "cn_own_step c r" and inv: "cn_inv c"
  shows "\<exists>c'. r = Inr c' \<and> cn_inv c'"
  using assms(1)
proof (cases rule: cn_own_step.cases)
  case Stop
  have "cn_inv (cn_stop c)"
    using inv by (cases "cn_channel c") (simp_all add: cn_inv_def chan_ok_def held_def cn_stop_def cn_queue_def split: if_splits)
  with Stop show ?thesis by simp
next
  case (Functor t ts answer)
  then show ?thesis using cn_functor_inv [OF inv] by blast
next
  case (Timer answer)
  let ?c = "c\<lparr>cn_timers := cn_timers c - 1\<rparr>"
  from Timer inv have st: "cn_state c = CDisconnected" "cn_timers c = 1" "starts c = 0"
    by (auto simp: cn_inv_def split: if_splits)
  have r: "resets c = 0" using Timer(3) by (simp add: count_list_0_iff)
  then have ch: "cn_channel c = None" using inv st by (auto simp: cn_inv_def chan_ok_def split: option.splits if_splits)
  then have "cn_inv ?c" using inv st r by (simp add: cn_inv_def chan_ok_def held_def)
  then show ?thesis using startInLoop_inv [of ?c answer] st ch Timer(1) by simp
next
  case (Dispatch ch pollerr pollout err self)
  then have st: "cn_state c = CConnecting" using inv by (auto simp: cn_inv_def chan_ok_def)
  obtain c1 where c1: "(if pollerr then cn_handleError c else Inr c) = Inr c1" "cn_inv c1" "cn_state c1 \<noteq> CConnected"
    using cn_handleError_inv [OF inv st] inv st by (cases pollerr) auto
  then show ?thesis using cn_handleWrite_inv [OF c1(2,3), of err self] Dispatch(1) by (cases pollout) auto
qed

lemma cn_restart_inv:
  assumes inv: "cn_inv c" and "cn_state c = CConnected" and "ResetChannel \<notin> set (cn_tasks c)"
  shows "\<exists>c'. cn_restart answer c = Inr c' \<and> cn_inv c'"
proof -
  let ?c = "c\<lparr>cn_state := CDisconnected, retryDelayMs := kInitRetryDelayMs, delays := [], cn_connect := True\<rparr>"
  have r: "resets c = 0" using assms(3) by (simp add: count_list_0_iff)
  have z: "starts c = 0" "cn_timers c = 0" using inv assms(2) by (simp_all add: cn_inv_def)
  have ch: "cn_channel c = None" using inv r assms(2) by (auto simp: cn_inv_def chan_ok_def split: option.splits if_splits)
  then have "cn_inv ?c" using inv r z by (simp add: cn_inv_def chan_ok_def held_def kInitRetryDelayMs_def backoff_def)
  then show ?thesis using startInLoop_inv [of ?c answer] ch z by (simp add: cn_restart_def)
qed

lemma cn_step_inv:
  assumes "cn_step c r" and inv: "cn_inv c"
  shows "\<exists>c'. r = Inr c' \<and> cn_inv c'"
  using assms(1) by (cases rule: cn_step.cases) (use cn_own_step_inv cn_restart_inv inv in auto)

text \<open>A socket is delivered only by the step that makes the connection, and a step of its own never takes a connected
  connector out of that state.\<close>

definition delivers_at_most :: "connector \<Rightarrow> connector \<Rightarrow> bool" where
  "delivers_at_most c c' \<longleftrightarrow> delivered c' = delivered c \<and> (cn_state c = CConnected \<longrightarrow> cn_state c' = CConnected) \<or>
     (\<exists>fd. delivered c' = delivered c @ [fd]) \<and> cn_state c = CConnecting \<and> cn_state c' = CConnected"

lemma cn_parts_deliver:
  "delivered (cn_retry fd c) = delivered c"
  "removeAndResetChannel c = Inr (fd, c') \<Longrightarrow> delivered c' = delivered c"
  "startInLoop answer c = Inr c' \<Longrightarrow> delivered c' = delivered c \<and> cn_state c = CDisconnected"
  by (auto simp: cn_retry_def close_sock_def removeAndResetChannel_def cn_queue_def startInLoop_def cn_connect_sock_def
      connecting_def Let_def split: option.splits if_splits)

lemma cn_handlers_deliver:
  "cn_handleError c = Inr c' \<Longrightarrow> delivered c' = delivered c \<and> (cn_state c \<noteq> CConnecting \<longrightarrow> c' = c) \<and>
     (cn_state c = CConnecting \<longrightarrow> cn_state c' = CDisconnected)"
  "stopInLoop c = Inr c' \<Longrightarrow> delivered c' = delivered c \<and> (cn_state c \<noteq> CConnecting \<longrightarrow> c' = c)"
  "cn_handleWrite err self c = Inr c' \<Longrightarrow> c' = c \<or> cn_state c = CConnecting \<and>
     (delivered c' = delivered c \<or> (\<exists>fd. delivered c' = delivered c @ [fd]) \<and> cn_state c' = CConnected)"
proof -
  show "cn_handleError c = Inr c' \<Longrightarrow> delivered c' = delivered c \<and> (cn_state c \<noteq> CConnecting \<longrightarrow> c' = c) \<and>
     (cn_state c = CConnecting \<longrightarrow> cn_state c' = CDisconnected)"
    using cn_parts_deliver(2) by (auto simp: cn_handleError_def cn_parts_deliver(1) cn_retry_state split: if_splits)
  show "stopInLoop c = Inr c' \<Longrightarrow> delivered c' = delivered c \<and> (cn_state c \<noteq> CConnecting \<longrightarrow> c' = c)"
    using cn_parts_deliver(2) [of "c\<lparr>cn_state := CDisconnected\<rparr>"]
    by (auto simp: stopInLoop_def cn_parts_deliver(1) split: if_splits)
  assume w: "cn_handleWrite err self c = Inr c'"
  show "c' = c \<or> cn_state c = CConnecting \<and>
     (delivered c' = delivered c \<or> (\<exists>fd. delivered c' = delivered c @ [fd]) \<and> cn_state c' = CConnected)"
  proof (cases "cn_state c = CConnecting")
    case True
    with w obtain fd c1 where c1: "removeAndResetChannel c = Inr (fd, c1)"
      by (cases "removeAndResetChannel c") (auto simp: cn_handleWrite_def)
    with w True cn_parts_deliver(2) [OF c1] show ?thesis
      by (auto simp: cn_handleWrite_def cn_parts_deliver(1) close_sock_def Let_def split: if_splits)
  next
    case False
    with w show ?thesis by (cases "cn_state c = CDisconnected") (auto simp: cn_handleWrite_def)
  qed
qed

lemma cn_own_step_delivers:
  assumes "cn_own_step c (Inr c')"
  shows "delivers_at_most c c'"
  using assms
proof (cases rule: cn_own_step.cases)
  case Stop
  then show ?thesis by (auto simp: delivers_at_most_def cn_stop_def cn_queue_def)
next
  case (Functor t ts answer)
  from Functor(1) [symmetric] show ?thesis
    by (cases t) (auto simp: delivers_at_most_def resetChannel_def dest!: cn_parts_deliver(3) cn_handlers_deliver(2))
next
  case (Timer answer)
  from cn_parts_deliver(3) [OF Timer(1) [symmetric]] show ?thesis by (simp add: delivers_at_most_def)
next
  case (Dispatch ch pollerr pollout err self)
  from Dispatch(1) [symmetric] obtain c1 where c1: "(if pollerr then cn_handleError c else Inr c) = Inr c1"
    and c': "(if pollout then cn_handleWrite err self c1 else Inr c1) = Inr c'" by auto
  have d: "delivered c1 = delivered c" "cn_state c = CConnected \<Longrightarrow> c1 = c" "cn_state c1 = CConnecting \<Longrightarrow> c1 = c"
    using cn_handlers_deliver(1) [of c c1] c1 by (cases pollerr; force)+
  have w: "c' = c1 \<or> cn_state c1 = CConnecting \<and>
      (delivered c' = delivered c1 \<or> (\<exists>fd. delivered c' = delivered c1 @ [fd]) \<and> cn_state c' = CConnected)"
    using cn_handlers_deliver(3) [of err self c1 c'] c' by (cases pollout) auto
  show ?thesis
  proof (cases "c' = c1")
    case True
    have "cn_state c = CConnected \<Longrightarrow> cn_state c1 = CConnected" using d(2) by metis
    with True d(1) show ?thesis by (simp add: delivers_at_most_def)
  next
    case False
    with w have "cn_state c1 = CConnecting" by blast
    with d(3) have "c1 = c" by blast
    with w False show ?thesis unfolding delivers_at_most_def by (metis cn_states.distinct(6))
  qed
qed

lemma cn_start_inv: "cn_inv (cn_start Connector_new)"
  by (simp add: cn_start_def cn_queue_def Connector_new_def cn_inv_def chan_ok_def held_def kInitRetryDelayMs_def backoff_def)

interpretation cns: safe_steps cn_step cn_inv
  by unfold_locales (rule cn_step_inv)


definition refused_once :: "connector res" where
  "refused_once = cn_run_task (Some ECONNREFUSED) StartInLoop ((cn_start Connector_new)\<lparr>cn_tasks := []\<rparr>)"

lemma refused_once_reach: "runs cn_step (cn_start Connector_new) refused_once"
  unfolding refused_once_def
  by (rule runs_one) (rule cn_step.Own, rule cn_own_step.Functor, simp add: cn_start_def cn_queue_def Connector_new_def)


text \<open>A second \<open>start\<close>, once the connection has been made, fails the assertion of \<open>startInLoop\<close>.\<close>

lemma second_start_asserts:
  assumes "cn_state c \<noteq> CDisconnected"
  shows "startInLoop answer (c\<lparr>cn_connect := True\<rparr>) = Inl AssertFail"
  using assms by (simp add: startInLoop_def)

end
