(* ===== verification/Acceptor.thy ===== *)
theory Acceptor
  imports Sockets
begin

section \<open>Accepting connections (\<open>net/Acceptor.cc\<close>)\<close>

text \<open>
  An acceptor owns a listening socket and a spare descriptor of \<open>/dev/null\<close>. When the process has no descriptor left it
  gives up the spare one to accept and drop a connection, which would otherwise keep the loop busy.
  The answers of the kernel are arguments. \<open>ac_open\<close> records the descriptors that the
  acceptor has opened and neither closed nor handed to its callback, \<open>ac_given\<close> those it has handed over.
\<close>

record acceptor =
  acceptFd :: int
  listenning :: bool
  acceptReading :: bool
  idleFd :: int
  ac_callback :: bool
  ac_open :: "int set"
  ac_given :: "int list"

definition fd_opened :: "int \<Rightarrow> acceptor \<Rightarrow> acceptor" where
  "fd_opened fd a = (if 0 \<le> fd then a\<lparr>ac_open := insert fd (ac_open a)\<rparr> else a)"

definition fd_closed :: "int \<Rightarrow> acceptor \<Rightarrow> acceptor" where
  "fd_closed fd a = a\<lparr>ac_open := ac_open a - {fd}\<rparr>"

definition Acceptor_new :: "sysret \<Rightarrow> int \<Rightarrow> sysret \<Rightarrow> acceptor res" where
  "Acceptor_new sock idle bound =
     rbind (createNonblockingOrDie sock) (\<lambda>fd.
     let a = fd_opened idle (fd_opened fd \<lparr>acceptFd = fd, listenning = False, acceptReading = False, idleFd = idle,
               ac_callback = False, ac_open = {}, ac_given = []\<rparr>)
     in cassert (0 \<le> idleFd a) (rbind (bindOrDie bound) (\<lambda>_. Inr a)))"

definition setNewConnectionCallback :: "acceptor \<Rightarrow> acceptor" where
  "setNewConnectionCallback a = a\<lparr>ac_callback := True\<rparr>"

text \<open>The socket is a member, closed after the body of the destructor.\<close>

definition Acceptor_delete :: "acceptor \<Rightarrow> acceptor" where
  "Acceptor_delete a = fd_closed (acceptFd a) (fd_closed (idleFd a) (a\<lparr>acceptReading := False\<rparr>))"

definition acceptor_listen :: "sysret \<Rightarrow> acceptor \<Rightarrow> acceptor res" where
  "acceptor_listen r a = (let a = a\<lparr>listenning := True\<rparr> in rbind (listenOrDie r) (\<lambda>_. Inr (a\<lparr>acceptReading := True\<rparr>)))"

text \<open>\<open>second\<close> is what the second \<open>accept\<close> answers, \<open>reopened\<close> what opening \<open>/dev/null\<close> again answers; a negative number is
  an error. The result says which descriptor the callback is called with.\<close>

definition acceptor_handleRead :: "sysret \<Rightarrow> int \<Rightarrow> int \<Rightarrow> acceptor \<Rightarrow> (int option \<times> acceptor) res" where
  "acceptor_handleRead answer second reopened a =
     rbind (sockets_accept answer) (\<lambda>(connfd, err).
       if 0 \<le> connfd
       then if ac_callback a then Inr (Some connfd, a\<lparr>ac_given := ac_given a @ [connfd]\<rparr>)
            else Inr (None, fd_closed connfd (fd_opened connfd a))
       else if err = Some EMFILE
       then let a = fd_closed (idleFd a) a;
                a = fd_opened second (a\<lparr>idleFd := second\<rparr>);
                a = fd_closed (idleFd a) a
            in Inr (None, fd_opened reopened (a\<lparr>idleFd := reopened\<rparr>))
       else Inr (None, a))"


subsection \<open>No descriptor is leaked\<close>

text \<open>A kernel never answers with a descriptor that is still open.\<close>

definition fresh_fds :: "sysret \<Rightarrow> int \<Rightarrow> int \<Rightarrow> acceptor \<Rightarrow> bool" where
  "fresh_fds answer second reopened a \<longleftrightarrow>
     (\<forall>fd. answer = SysOk fd \<longrightarrow> 0 \<le> fd \<and> fd \<notin> ac_open a) \<and> second \<notin> ac_open a - {idleFd a} \<and> reopened \<notin> ac_open a - {idleFd a}"

definition acceptor_inv :: "acceptor \<Rightarrow> bool" where
  "acceptor_inv a \<longleftrightarrow> 0 \<le> acceptFd a \<and> acceptFd a \<noteq> idleFd a \<and>
     ac_open a = insert (acceptFd a) (if 0 \<le> idleFd a then {idleFd a} else {})"

fun accept_all :: "(sysret \<times> int \<times> int) list \<Rightarrow> acceptor \<Rightarrow> acceptor res" where
  "accept_all [] a = Inr a"
| "accept_all ((answer, second, reopened) # rs) a =
     rbind (acceptor_handleRead answer second reopened a) (\<lambda>(_, a). accept_all rs a)"

fun accept_fresh :: "(sysret \<times> int \<times> int) list \<Rightarrow> acceptor \<Rightarrow> bool" where
  "accept_fresh [] a \<longleftrightarrow> True"
| "accept_fresh ((answer, second, reopened) # rs) a \<longleftrightarrow> fresh_fds answer second reopened a \<and>
     (case acceptor_handleRead answer second reopened a of Inl _ \<Rightarrow> True | Inr (_, a) \<Rightarrow> accept_fresh rs a)"

lemma fd_fields [simp]:
  "acceptFd (fd_opened fd a) = acceptFd a" "idleFd (fd_opened fd a) = idleFd a" "ac_callback (fd_opened fd a) = ac_callback a"
  "ac_given (fd_opened fd a) = ac_given a" "ac_open (fd_opened fd a) = (if 0 \<le> fd then insert fd (ac_open a) else ac_open a)"
  "acceptFd (fd_closed fd a) = acceptFd a" "idleFd (fd_closed fd a) = idleFd a" "ac_callback (fd_closed fd a) = ac_callback a"
  "ac_given (fd_closed fd a) = ac_given a" "ac_open (fd_closed fd a) = ac_open a - {fd}"
  by (simp_all add: fd_opened_def fd_closed_def)

lemma Acceptor_new_inv:
  assumes "Acceptor_new (SysOk fd) idle bound = Inr a" and "0 \<le> fd" and "idle \<noteq> fd"
  shows "acceptor_inv a"
  using assms by (auto simp: Acceptor_new_def createNonblockingOrDie_def bindOrDie_def acceptor_inv_def Let_def
      split: sysret.splits)

lemma handleRead_cases:
  assumes "acceptor_inv a" and "fresh_fds answer second reopened a" and "acceptor_handleRead answer second reopened a = Inr (given, a')"
  shows "acceptor_inv a' \<and> acceptFd a' = acceptFd a \<and> ac_callback a' = ac_callback a \<and>
    ac_given a' = ac_given a @ (case given of None \<Rightarrow> [] | Some fd \<Rightarrow> [fd]) \<and>
    given = (case answer of SysOk fd \<Rightarrow> if ac_callback a then Some fd else None | SysErr _ \<Rightarrow> None)"
proof (cases answer)
  case (SysOk fd)
  then have "0 \<le> fd" "fd \<notin> ac_open a" using assms(2) by (simp_all add: fresh_fds_def)
  then have "ac_open (fd_closed fd (fd_opened fd a)) = ac_open a" by simp
  then have same: "acceptor_inv (fd_closed fd (fd_opened fd a)) = acceptor_inv a" "acceptor_inv (a\<lparr>ac_given := g\<rparr>) = acceptor_inv a" for g
    by (simp_all add: acceptor_inv_def)
  from SysOk assms(3) \<open>0 \<le> fd\<close> have "(given, a') =
      (if ac_callback a then (Some fd, a\<lparr>ac_given := ac_given a @ [fd]\<rparr>) else (None, fd_closed fd (fd_opened fd a)))"
    by (simp add: acceptor_handleRead_def sockets_accept_def split: if_splits)
  with SysOk assms(1) same show ?thesis by (cases "ac_callback a") simp_all
next
  case (SysErr e)
  show ?thesis
  proof (cases "e = EMFILE")
    case True
    let ?a = "fd_closed second (fd_opened second ((fd_closed (idleFd a) a)\<lparr>idleFd := second\<rparr>))"
    from SysErr True assms(3) have a': "given = None" "a' = fd_opened reopened (?a\<lparr>idleFd := reopened\<rparr>)"
      by (auto simp: acceptor_handleRead_def sockets_accept_def accept_expected_def Let_def)
    have others: "ac_open a - {idleFd a} = {acceptFd a}" using assms(1) by (auto simp: acceptor_inv_def)
    then have "ac_open ?a = {acceptFd a}" "reopened \<noteq> acceptFd a"
      using assms(2) by (auto simp: fresh_fds_def)
    with a' assms(1) SysErr show ?thesis by (simp add: acceptor_inv_def insert_commute)
  next
    case False
    with SysErr assms(1,3) show ?thesis
      by (auto simp: acceptor_handleRead_def sockets_accept_def split: if_splits)
  qed
qed

lemma handleRead_aborts_iff:
  "(\<exists>e. acceptor_handleRead answer second reopened a = Inl e) \<longleftrightarrow> (\<exists>e. answer = SysErr e \<and> e \<notin> set accept_expected)"
  by (cases answer) (auto simp: acceptor_handleRead_def sockets_accept_def Let_def)

text \<open>Through any sequence of events the acceptor owns exactly its socket and its spare descriptor: what it accepts is handed over or
  closed, also when descriptors run out; destruction closes both.\<close>

lemma acceptor_owns_two:
  assumes "acceptor_inv a" and "accept_fresh rs a" and "accept_all rs a = Inr a'"
  shows "acceptor_inv a' \<and> ac_open (Acceptor_delete a') = {} \<and>
    (ac_callback a \<longrightarrow> ac_given a' = ac_given a @ concat (map (\<lambda>(r, _). case r of SysOk fd \<Rightarrow> [fd] | SysErr _ \<Rightarrow> []) rs))"
  using assms
proof (induction rs arbitrary: a)
  case Nil
  then show ?case by (auto simp: acceptor_inv_def Acceptor_delete_def fd_closed_def)
next
  case (Cons x rs)
  obtain answer second reopened where x: "x = (answer, second, reopened)" by (cases x) auto
  with Cons.prems obtain given b where b: "acceptor_handleRead answer second reopened a = Inr (given, b)" "accept_all rs b = Inr a'"
    by auto
  note h = handleRead_cases [OF Cons.prems(1) _ b(1)]
  from Cons.prems(2) x b(1) have f: "fresh_fds answer second reopened a" "accept_fresh rs b" by auto
  from Cons.IH [OF _ f(2) b(2)] h [OF f(1)] x show ?case by (auto split: sysret.splits)
qed

end
