(* ===== verification/TcpServer.thy ===== *)
theory TcpServer
  imports Acceptor TcpConnection Text Runs "HOL-Library.Char_ord" "HOL-Library.List_Lexorder"
begin

section \<open>Servers (\<open>net/TcpServer.cc\<close>, \<open>net/EventLoopThreadPool.cc\<close>)\<close>

text \<open>
  A server accepts connections on its base loop, hands each to a loop of its pool and keeps it in a map by
  name until it is closed. Loops are numbered, the base loop is 0. Work handed to a loop is a task that may
  run at any later time, so that all interleavings of the loops are covered.
\<close>

subsection \<open>The pool of loops\<close>

record loop_pool =
  lp_started :: bool
  lp_numThreads :: nat
  lp_next :: nat
  lp_loops :: "nat list"

definition EventLoopThreadPool_new :: loop_pool where
  "EventLoopThreadPool_new = \<lparr>lp_started = False, lp_numThreads = 0, lp_next = 0, lp_loops = []\<rparr>"

definition setThreadNum :: "int \<Rightarrow> loop_pool \<Rightarrow> loop_pool res" where
  "setThreadNum n p = cassert (0 \<le> n) (Inr (p\<lparr>lp_numThreads := nat n\<rparr>))"

fun start_threads :: "nat \<Rightarrow> loop_pool \<Rightarrow> loop_pool" where
  "start_threads 0 p = p"
| "start_threads (Suc n) p = start_threads n (p\<lparr>lp_loops := lp_loops p @ [length (lp_loops p) + 1]\<rparr>)"

text \<open>Starting also tells on which loops the initialisation callback runs: each new one, or the base loop.\<close>

definition pool_start :: "bool \<Rightarrow> loop_pool \<Rightarrow> (nat list \<times> loop_pool) res" where
  "pool_start cb p =
     cassert (\<not> lp_started p)
     (let p = start_threads (lp_numThreads p) (p\<lparr>lp_started := True\<rparr>)
      in Inr (if cb then if lp_numThreads p = 0 then [0] else lp_loops p else [], p))"

definition getNextLoop :: "loop_pool \<Rightarrow> (nat \<times> loop_pool) res" where
  "getNextLoop p =
     cassert (lp_started p)
     (if lp_loops p \<noteq> []
      then if lp_next p < length (lp_loops p)
           then let loop = lp_loops p ! lp_next p; nxt = lp_next p + 1
                in Inr (loop, p\<lparr>lp_next := if length (lp_loops p) \<le> nxt then 0 else nxt\<rparr>)
           else Inl UndefinedBehaviour
      else Inr (0, p))"

definition getLoopForHash :: "nat \<Rightarrow> loop_pool \<Rightarrow> nat" where
  "getLoopForHash hashCode p =
     (if lp_loops p \<noteq> [] then lp_loops p ! (hashCode mod length (lp_loops p)) else 0)"

definition getAllLoops :: "loop_pool \<Rightarrow> nat list res" where
  "getAllLoops p = cassert (lp_started p) (Inr (if lp_loops p = [] then [0] else lp_loops p))"

fun next_loops :: "nat \<Rightarrow> loop_pool \<Rightarrow> nat list res" where
  "next_loops 0 p = Inr []"
| "next_loops (Suc k) p = rbind (getNextLoop p) (\<lambda>(l, p). rbind (next_loops k p) (\<lambda>ls. Inr (l # ls)))"

definition pool_ok :: "loop_pool \<Rightarrow> bool" where
  "pool_ok p \<longleftrightarrow> lp_started p \<and> (lp_loops p = [] \<or> lp_next p < length (lp_loops p))"

lemma getNextLoop_ok:
  assumes "pool_ok p"
  shows "\<exists>l p'. getNextLoop p = Inr (l, p') \<and> pool_ok p' \<and> lp_loops p' = lp_loops p \<and>
    (lp_loops p \<noteq> [] \<longrightarrow> l = lp_loops p ! lp_next p \<and> lp_next p' = (lp_next p + 1) mod length (lp_loops p))"
  using assms by (auto simp: pool_ok_def getNextLoop_def Let_def mod_Suc)

text \<open>Round robin: the k-th loop handed out is the k-th after the current one, cyclically.\<close>

lemma next_loops_round_robin:
  assumes "pool_ok p" and "lp_loops p \<noteq> []"
  shows "next_loops k p = Inr (map (\<lambda>i. lp_loops p ! ((lp_next p + i) mod length (lp_loops p))) [0..<k])"
  using assms
proof (induction k arbitrary: p)
  case (Suc k)
  obtain l p' where p': "getNextLoop p = Inr (l, p')" "pool_ok p'" "lp_loops p' = lp_loops p"
      "l = lp_loops p ! lp_next p" "lp_next p' = (lp_next p + 1) mod length (lp_loops p)"
    using getNextLoop_ok [OF Suc.prems(1)] Suc.prems(2) by blast
  have "lp_next p < length (lp_loops p)" using Suc.prems by (simp add: pool_ok_def)
  moreover have "map (\<lambda>i. lp_loops p ! ((lp_next p + i) mod length (lp_loops p))) [0..<Suc k] =
      lp_loops p ! (lp_next p mod length (lp_loops p)) #
      map (\<lambda>i. lp_loops p ! ((lp_next p + Suc i) mod length (lp_loops p))) [0..<k]"
    by (simp add: upt_conv_Cons map_Suc_upt [symmetric] del: upt_Suc)
  ultimately show ?case
    using Suc.IH [OF p'(2)] p' Suc.prems(2) by (simp add: mod_add_left_eq)
qed simp


subsection \<open>The server\<close>

text \<open>Functors of the server. \<open>connectDestroyed\<close> goes to the queue of the connection, which is the part of the queue of its loop that
  concerns it, behind the functors that are already there.\<close>

datatype srv_task = Established nat | RemoveConn nat

fun task_id :: "srv_task \<Rightarrow> nat" where
  "task_id (Established i) = i" | "task_id (RemoveConn i) = i"

record conn_obj =
  co_name :: string
  co_loop :: nat
  co_conn :: tcpconn

record server =
  sv_name :: string
  sv_ipPort :: string
  sv_pool :: loop_pool
  nextConnId :: nat
  connections :: "string \<rightharpoonup> nat"
  objects :: "nat \<rightharpoonup> conn_obj"
  sv_tasks :: "(nat \<times> srv_task) list"

definition TcpServer_new :: "string \<Rightarrow> string \<Rightarrow> loop_pool \<Rightarrow> server" where
  "TcpServer_new name ipPort pool = \<lparr>sv_name = name, sv_ipPort = ipPort, sv_pool = pool, nextConnId = 1,
     connections = Map.empty, objects = Map.empty, sv_tasks = []\<rparr>"

definition conn_name :: "string \<Rightarrow> string \<Rightarrow> nat \<Rightarrow> string" where
  "conn_name name ipPort n = name @ snprintf 64 (''-'' @ ipPort @ ''#'' @ show_nat n)"

definition run_in_loop :: "nat \<Rightarrow> srv_task \<Rightarrow> server \<Rightarrow> server" where
  "run_in_loop l t s = s\<lparr>sv_tasks := sv_tasks s @ [(l, t)]\<rparr>"

text \<open>\<open>nextConnId\<close> is an \<open>int\<close>: incrementing its largest value overflows.\<close>

definition newConnection :: "int \<Rightarrow> server \<Rightarrow> server res" where
  "newConnection sockfd s =
     rbind (getNextLoop (sv_pool s)) (\<lambda>(ioLoop, pool).
     let n = nextConnId s; connName = conn_name (sv_name s) (sv_ipPort s) n;
         conn = \<lparr>co_name = connName, co_loop = ioLoop, co_conn = TcpConnection_new sockfd\<rparr>
     in if 2 ^ 31 \<le> n + 1 then Inl UndefinedBehaviour
        else Inr (run_in_loop ioLoop (Established n)
          (s\<lparr>sv_pool := pool, nextConnId := n + 1, objects := (objects s)(n \<mapsto> conn),
             connections := (connections s)(connName \<mapsto> n)\<rparr>)))"

definition queue_destroy :: "nat \<Rightarrow> conn_obj \<Rightarrow> server \<Rightarrow> server" where
  "queue_destroy i conn s = s\<lparr>objects := (objects s)(i \<mapsto> conn\<lparr>co_conn := queue_task TConnectDestroyed (co_conn conn)\<rparr>)\<rparr>"

definition removeConnection :: "nat \<Rightarrow> server \<Rightarrow> server" where
  "removeConnection i s = run_in_loop 0 (RemoveConn i) s"

definition removeConnectionInLoop :: "nat \<Rightarrow> conn_obj \<Rightarrow> server \<Rightarrow> server res" where
  "removeConnectionInLoop i conn s =
     (let n = (if connections s (co_name conn) = None then 0 else 1 :: nat);
          s = s\<lparr>connections := (connections s)(co_name conn := None)\<rparr>
      in cassert (n = 1) (Inr (queue_destroy i conn s)))"

text \<open>Starting the server starts its pool once and has the acceptor listen; the loops the initialisation
  callback runs on are returned.\<close>

definition TcpServer_start :: "sysret \<Rightarrow> bool \<Rightarrow> bool \<Rightarrow> acceptor \<Rightarrow> server \<Rightarrow> (nat list \<times> bool \<times> acceptor \<times> server) res" where
  "TcpServer_start listened started cb a s =
     (if started then Inr ([], True, a, s)
      else rbind (pool_start cb (sv_pool s)) (\<lambda>(inits, pool).
        cassert (\<not> listenning a) (rbind (acceptor_listen listened a) (\<lambda>a. Inr (inits, True, a, s\<lparr>sv_pool := pool\<rparr>)))))"

text \<open>The destructor gives up every connection of the map, in the order of the names.\<close>

definition TcpServer_dtor :: "server \<Rightarrow> server" where
  "TcpServer_dtor s =
     fold (\<lambda>n s'. case connections s n of None \<Rightarrow> s'
             | Some i \<Rightarrow> (case objects s i of None \<Rightarrow> s' | Some conn \<Rightarrow> queue_destroy i conn s'))
       (sorted_list_of_set (dom (connections s))) (s\<lparr>connections := Map.empty\<rparr>)"

text \<open>One task in the loop that got it.\<close>

definition run_srv_task :: "srv_task \<Rightarrow> server \<Rightarrow> server res" where
  "run_srv_task t s =
     (case objects s (task_id t) of None \<Rightarrow> Inl UndefinedBehaviour
      | Some conn \<Rightarrow>
          (case t of
             Established i \<Rightarrow> rbind (connectEstablished (co_conn conn)) (\<lambda>c. Inr (s\<lparr>objects := (objects s)(i \<mapsto> conn\<lparr>co_conn := c\<rparr>)\<rparr>))
           | RemoveConn i \<Rightarrow> removeConnectionInLoop i conn s))"

text \<open>The last owner gives a connection up: it is not in the map, no task of the server names it, and no functor of its loop owns it.\<close>

definition tasks_of :: "nat \<Rightarrow> server \<Rightarrow> srv_task list" where
  "tasks_of i s = filter (\<lambda>t. task_id t = i) (map snd (sv_tasks s))"

definition unowned :: "nat \<Rightarrow> conn_obj \<Rightarrow> server \<Rightarrow> bool" where
  "unowned i conn s \<longleftrightarrow> connections s (co_name conn) \<noteq> Some i \<and> tasks_of i s = [] \<and> (\<forall>t \<in> set (todo (co_conn conn)). \<not> owns t)"

definition release_conn :: "nat \<Rightarrow> conn_obj \<Rightarrow> server \<Rightarrow> server res" where
  "release_conn i conn s = rbind (conn_release (co_conn conn)) (\<lambda>_. Inr (s\<lparr>objects := (objects s)(i := None)\<rparr>))"

text \<open>An event on a connection; each time it calls its close callback the server is told.\<close>

definition closes :: "tcpconn \<Rightarrow> nat" where "closes c = length (filter ((=) CloseCb) (calls c))"

definition conn_event_step :: "nat \<Rightarrow> conn_event \<Rightarrow> conn_obj \<Rightarrow> server \<Rightarrow> server res" where
  "conn_event_step i e conn s =
     rbind (conn_step e (co_conn conn)) (\<lambda>c.
     let s = s\<lparr>objects := (objects s)(i \<mapsto> conn\<lparr>co_conn := c\<rparr>)\<rparr>
     in Inr ((removeConnection i ^^ (closes c - closes (co_conn conn))) s))"

inductive server_step :: "server \<Rightarrow> server res \<Rightarrow> bool" where
  Accept: "nextConnId s + 1 < 2 ^ 31 \<Longrightarrow> server_step s (newConnection fd s)"
| Task: "sv_tasks s = xs @ (l, t) # ys \<Longrightarrow> server_step s (run_srv_task t (s\<lparr>sv_tasks := xs @ ys\<rparr>))"
| Event: "objects s i = Some conn \<Longrightarrow> tc_state (co_conn conn) \<noteq> kConnecting \<Longrightarrow> ev_legal e (co_conn conn) \<Longrightarrow>
    server_step s (conn_event_step i e conn s)"
| Release: "objects s i = Some conn \<Longrightarrow> unowned i conn s \<Longrightarrow> server_step s (release_conn i conn s)"


text \<open>The listening socket is readable: the acceptor accepts, and its callback is \<open>newConnection\<close>. For the server
  this is a step of \<open>server_step\<close> or none.\<close>

definition server_readable :: "sysret \<Rightarrow> int \<Rightarrow> int \<Rightarrow> acceptor \<Rightarrow> server \<Rightarrow> (acceptor \<times> server) res" where
  "server_readable answer second reopened a s =
     rbind (acceptor_handleRead answer second reopened a) (\<lambda>(given, a).
     case given of None \<Rightarrow> Inr (a, s) | Some fd \<Rightarrow> rbind (newConnection fd s) (\<lambda>s. Inr (a, s)))"

lemma server_readable_step:
  assumes "server_readable answer second reopened a s = Inr (a', s')" and "nextConnId s + 1 < 2 ^ 31"
  shows "s' = s \<or> server_step s (Inr s')"
  using assms server_step.Accept [OF assms(2)] by (auto simp: server_readable_def split: option.splits) metis


subsection \<open>The close callback is called exactly once\<close>

definition close_once :: "tcpconn \<Rightarrow> tcpconn \<Rightarrow> bool" where
  "close_once c c' \<longleftrightarrow> (closes c' = closes c \<and> (tc_state c' = kDisconnected \<longleftrightarrow> tc_state c = kDisconnected) \<or>
     closes c' = closes c + 1 \<and> tc_state c \<noteq> kDisconnected \<and> tc_state c' = kDisconnected)"

lemma sendInLoop_calls: "sendInLoop w d c = Inr c' \<Longrightarrow> calls c' = calls c \<and> tc_state c' = tc_state c"
  by (auto simp: sendInLoop_def try_write_def queue_task_def ch_interest_def Let_def split: if_splits sys_write.splits)

lemma handleWrite_calls: "handleWrite w c = Inr c' \<Longrightarrow> calls c' = calls c \<and> tc_state c' = tc_state c"
  by (auto simp: handleWrite_def queue_task_def ch_interest_def shutdownInLoop_def Let_def split: if_splits sys_write.splits)

lemma handleClose_once: "handleClose c = Inr c' \<Longrightarrow> close_once c c'"
  by (auto simp: handleClose_def close_once_def closes_def ch_interest_def call_user_def Let_def)

lemma close_once_calls: "calls c' = calls c \<Longrightarrow> tc_state c' = kDisconnected \<longleftrightarrow> tc_state c = kDisconnected \<Longrightarrow> close_once c c'"
  by (simp add: close_once_def closes_def)


lemma handleRead_once: "tc_handleRead r c = Inr c' \<Longrightarrow> close_once c c'"
proof -
  assume "tc_handleRead r c = Inr c'"
  then obtain n e b where rd: "readFd r (inputBuffer c) = Inr (n, e, b)"
    and k: "(if 0 < n then Inr (call_user MessageCb (c\<lparr>inputBuffer := b\<rparr>))
      else if n = 0 then handleClose (c\<lparr>inputBuffer := b\<rparr>) else Inr (handleError (c\<lparr>inputBuffer := b\<rparr>))) = Inr c'"
    by (auto simp: tc_handleRead_def Let_def)
  have same: "close_once (c\<lparr>inputBuffer := b\<rparr>) c' \<longleftrightarrow> close_once c c'" by (simp add: close_once_def closes_def)
  show ?thesis
    using k handleClose_once [of "c\<lparr>inputBuffer := b\<rparr>" c'] same
    by (auto simp: handleError_def call_user_def close_once_def closes_def split: if_splits)
qed

lemma read_interest_calls:
  "calls (startReadInLoop c) = calls c" "tc_state (startReadInLoop c) = tc_state c"
  "calls (stopReadInLoop c) = calls c" "tc_state (stopReadInLoop c) = tc_state c"
  "calls (shutdownInLoop c) = calls c" "tc_state (shutdownInLoop c) = tc_state c"
  by (simp_all add: startReadInLoop_def stopReadInLoop_def shutdownInLoop_def ch_interest_def)

lemma run_task_once: "run_task w t c = Inr c' \<Longrightarrow> t \<noteq> TConnectDestroyed \<or> tc_state c = kDisconnected \<Longrightarrow> close_once c c'"
  using sendInLoop_calls handleClose_once [of c c']
  by (cases t) (auto simp: forceCloseInLoop_def read_interest_calls connectDestroyed_def intro!: close_once_calls split: if_splits)

lemma conn_step_once:
  assumes "conn_step e c = Inr c'" and "TConnectDestroyed \<in> set (todo c) \<longrightarrow> tc_state c = kDisconnected"
  shows "close_once c c'"
proof (cases e)
  case (EvSend inLoop d w)
  with assms(1) show ?thesis using sendInLoop_calls
    by (auto simp: tc_send_def queue_task_def intro!: close_once_calls split: if_splits)
next
  case (EvShutdown inLoop)
  with assms(1) show ?thesis
    by (cases "tc_state c = kConnected"; cases inLoop)
      (auto simp: tc_shutdown_def queue_task_def read_interest_calls Let_def intro!: close_once_calls)
next
  case EvForceClose
  with assms(1) show ?thesis by (auto simp: forceClose_def queue_task_def intro!: close_once_calls split: if_splits)
next
  case EvForceCloseLater
  with assms(1) show ?thesis by (auto simp: forceCloseWithDelay_def intro!: close_once_calls split: if_splits)
next
  case (EvStartRead inLoop)
  with assms(1) show ?thesis by (cases inLoop) (auto simp: startRead_def queue_task_def read_interest_calls intro!: close_once_calls)
next
  case (EvStopRead inLoop)
  with assms(1) show ?thesis by (cases inLoop) (auto simp: stopRead_def queue_task_def read_interest_calls intro!: close_once_calls)
next
  case EvDefaultMessage
  with assms(1) show ?thesis by (auto simp: defaultMessageCallback_def intro!: close_once_calls)
next
  case (EvReadable r)
  with assms(1) show ?thesis using handleRead_once by (auto intro!: close_once_calls split: if_splits)
next
  case (EvWritable w)
  with assms(1) show ?thesis using handleWrite_calls by (auto intro!: close_once_calls)
next
  case EvHangup
  with assms(1) show ?thesis using handleClose_once by (auto intro!: close_once_calls split: if_splits)
next
  case EvError
  with assms(1) show ?thesis by (auto simp: handleError_def intro!: close_once_calls)
next
  case (EvRunTask w)
  show ?thesis
  proof (cases "todo c")
    case Nil
    with assms(1) EvRunTask show ?thesis by (auto intro!: close_once_calls)
  next
    case (Cons t ts)
    then have "close_once (c\<lparr>todo := ts\<rparr>) c'"
      using assms EvRunTask run_task_once [of w t "c\<lparr>todo := ts\<rparr>" c'] by (auto split: conn_task.splits)
    then show ?thesis by (simp add: close_once_def closes_def)
  qed
qed


subsection \<open>Invariant of the server\<close>

abbreviation name_of :: "server \<Rightarrow> nat \<Rightarrow> string" where "name_of s \<equiv> conn_name (sv_name s) (sv_ipPort s)"

text \<open>A connection is new, up, down and about to be removed from the map, or removed and about to be destroyed.\<close>

definition obj_phase :: "nat \<Rightarrow> srv_task list \<Rightarrow> bool \<Rightarrow> tcpconn \<Rightarrow> bool" where
  "obj_phase i ts inMap c \<longleftrightarrow>
     ts = [Established i] \<and> inMap \<and> (\<exists>fd. c = TcpConnection_new fd) \<or>
     ts = [] \<and> inMap \<and> tc_inv c \<and> tc_state c \<noteq> kDisconnected \<and> staying c \<or>
     ts = [RemoveConn i] \<and> inMap \<and> tc_inv c \<and> tc_state c = kDisconnected \<and> staying c \<or>
     ts = [] \<and> \<not> inMap \<and> leaving c"

definition obj_ok :: "server \<Rightarrow> nat \<Rightarrow> conn_obj \<Rightarrow> bool" where
  "obj_ok s i conn \<longleftrightarrow> i < nextConnId s \<and> co_name conn = name_of s i \<and>
     obj_phase i (tasks_of i s) (connections s (co_name conn) = Some i) (co_conn conn)"

definition server_inv :: "server \<Rightarrow> bool" where
  "server_inv s \<longleftrightarrow> length (sv_ipPort s) \<le> 51 \<and> nextConnId s < 2 ^ 31 \<and> pool_ok (sv_pool s) \<and>
     (\<forall>i conn. objects s i = Some conn \<longrightarrow> obj_ok s i conn) \<and>
     (\<forall>n i. connections s n = Some i \<longrightarrow> objects s i \<noteq> None \<and> n = name_of s i) \<and>
     (\<forall>i. objects s i = None \<longrightarrow> tasks_of i s = [])"

text \<open>Names do not collide: the text always fits its buffer.\<close>

lemma conn_name_inj:
  assumes "length ip \<le> 51" and "i < 2 ^ 31" and "j < 2 ^ 31"
  shows "conn_name nm ip i = conn_name nm ip j \<longleftrightarrow> i = j"
proof -
  have fit: "snprintf 64 (''-'' @ ip @ ''#'' @ show_nat k) = ''-'' @ ip @ ''#'' @ show_nat k" if "k < 2 ^ 31" for k
    using length_show_nat [of k 10] that assms(1) by (simp add: snprintf_def)
  have "show_nat i = show_nat j \<Longrightarrow> i = j" by (metis digits_val_show_nat)
  then show ?thesis
    using fit [OF assms(2)] fit [OF assms(3)] by (auto simp: conn_name_def)
qed

text \<open>A step changes one connection; the others keep what they have.\<close>

lemma server_inv_change:
  assumes inv: "server_inv s"
    and const: "sv_name s' = sv_name s" "sv_ipPort s' = sv_ipPort s" "pool_ok (sv_pool s')"
      "nextConnId s \<le> nextConnId s'" "nextConnId s' < 2 ^ 31" "i < nextConnId s'"
    and frame: "\<And>j. j \<noteq> i \<Longrightarrow> objects s' j = objects s j" "\<And>j. j \<noteq> i \<Longrightarrow> tasks_of j s' = tasks_of j s"
      "\<And>n. n \<noteq> name_of s i \<Longrightarrow> connections s' n = connections s n"
    and at_i: "case objects s' i of None \<Rightarrow> tasks_of i s' = [] \<and> connections s' (name_of s i) = None
      | Some conn \<Rightarrow> co_name conn = name_of s i \<and> connections s' (name_of s i) \<in> {None, Some i} \<and>
          obj_phase i (tasks_of i s') (connections s' (name_of s i) = Some i) (co_conn conn)"
  shows "server_inv s'"
  unfolding server_inv_def
proof (intro conjI allI impI)
  note I = inv [unfolded server_inv_def]
  show "length (sv_ipPort s') \<le> 51" "nextConnId s' < 2 ^ 31" "pool_ok (sv_pool s')" using I const by simp_all
  show "tasks_of j s' = []" if "objects s' j = None" for j
    using I frame(1,2) [of j] at_i that by (cases "j = i") auto
  show "objects s' j \<noteq> None" if "connections s' n = Some j" for n j
    using I frame(1) [of j] frame(3) [of n] at_i that
    by (cases "n = name_of s i"; cases "j = i") (auto split: option.splits)
  show "n = name_of s' j" if "connections s' n = Some j" for n j
    using I frame(3) [of n] at_i that const(1,2)
    by (cases "n = name_of s i") (auto split: option.splits)
  show "obj_ok s' j conn" if o: "objects s' j = Some conn" for j conn
  proof (cases "j = i")
    case True
    with o at_i const show ?thesis by (auto simp: obj_ok_def)
  next
    case False
    with frame(1) o I have ok: "obj_ok s j conn" by auto
    then have "j < 2 ^ 31" "i < 2 ^ 31" using I const by (auto simp: obj_ok_def)
    then have "name_of s j \<noteq> name_of s i" using conn_name_inj [of "sv_ipPort s" j i] I False by blast
    with ok frame(2) [OF False] frame(3) const show ?thesis by (auto simp: obj_ok_def)
  qed
qed

lemma tasks_of_simps:
  "tasks_of i (run_in_loop l t s) = tasks_of i s @ (if task_id t = i then [t] else [])"
  "tasks_of i (s\<lparr>objects := ob\<rparr>) = tasks_of i s" "tasks_of i (s\<lparr>connections := co\<rparr>) = tasks_of i s"
  by (simp_all add: tasks_of_def run_in_loop_def)

lemma run_in_loop_simps [simp]:
  "sv_name (run_in_loop l t s) = sv_name s" "sv_ipPort (run_in_loop l t s) = sv_ipPort s"
  "sv_pool (run_in_loop l t s) = sv_pool s" "nextConnId (run_in_loop l t s) = nextConnId s"
  "connections (run_in_loop l t s) = connections s" "objects (run_in_loop l t s) = objects s"
  by (simp_all add: run_in_loop_def)

lemma accept_inv:
  assumes inv: "server_inv s" and n: "nextConnId s + 1 < 2 ^ 31"
  shows "\<exists>s'. newConnection fd s = Inr s' \<and> server_inv s'"
proof -
  note I = inv [unfolded server_inv_def]
  obtain l p where p: "getNextLoop (sv_pool s) = Inr (l, p)" "pool_ok p" using getNextLoop_ok I by blast
  let ?n = "nextConnId s"
  let ?conn = "\<lparr>co_name = name_of s ?n, co_loop = l, co_conn = TcpConnection_new fd\<rparr>"
  let ?s = "run_in_loop l (Established ?n) (s\<lparr>sv_pool := p, nextConnId := ?n + 1, objects := (objects s)(?n \<mapsto> ?conn),
             connections := (connections s)(name_of s ?n \<mapsto> ?n)\<rparr>)"
  have fresh: "objects s ?n = None" using I by (cases "objects s ?n") (auto simp: obj_ok_def)
  then have "tasks_of ?n s = []" using I by blast
  then have t: "tasks_of ?n ?s = [Established ?n]" "j \<noteq> ?n \<Longrightarrow> tasks_of j ?s = tasks_of j s" for j
    by (auto simp: tasks_of_def run_in_loop_def)
  have "server_inv ?s"
    by (rule server_inv_change [OF inv, where i = ?n]) (use p n t in \<open>auto simp: obj_phase_def\<close>)
  moreover have "newConnection fd s = Inr ?s" using p n by (simp add: newConnection_def Let_def)
  ultimately show ?thesis by blast
qed

lemma established_ok: "\<exists>c. connectEstablished (TcpConnection_new fd) = Inr c \<and> tc_inv c \<and> tc_state c = kConnected \<and> staying c"
  using established_inv [of fd]
  by (auto simp: staying_def connectEstablished_def TcpConnection_new_def Let_def call_user_def ch_interest_def)

lemma own_name:
  assumes inv: "server_inv s" and lt: "i < nextConnId s"
  shows "connections s (name_of s i) \<in> {None, Some i}"
proof (cases "connections s (name_of s i)")
  case (Some j)
  note I = inv [unfolded server_inv_def]
  have "name_of s i = name_of s j" "objects s j \<noteq> None" using I Some by auto
  moreover from this(2) have "j < nextConnId s" using I by (auto simp: obj_ok_def)
  ultimately have "j = i" using conn_name_inj [of "sv_ipPort s" i j] lt I by auto
  with Some show ?thesis by simp
qed simp

lemma task_inv:
  assumes inv: "server_inv s" and t: "sv_tasks s = xs @ (l, t) # ys"
  shows "\<exists>s'. run_srv_task t (s\<lparr>sv_tasks := xs @ ys\<rparr>) = Inr s' \<and> server_inv s'"
proof -
  note I = inv [unfolded server_inv_def]
  have J: "pool_ok (sv_pool s)" "nextConnId s < 2 ^ 31" using I by blast+
  let ?i = "task_id t" and ?s = "s\<lparr>sv_tasks := xs @ ys\<rparr>"
  have "tasks_of ?i s \<noteq> []" using t by (simp add: tasks_of_def)
  then obtain conn where conn: "objects s ?i = Some conn" "obj_ok s ?i conn" using I by fastforce
  then have ph: "obj_phase ?i (tasks_of ?i s) (connections s (name_of s ?i) = Some ?i) (co_conn conn)"
    and nm: "co_name conn = name_of s ?i" and lt: "?i < nextConnId s" by (auto simp: obj_ok_def)
  then obtain u where "tasks_of ?i s = [u]" using \<open>tasks_of ?i s \<noteq> []\<close> by (auto simp: obj_phase_def)
  then have ts: "tasks_of ?i s = [t]" "tasks_of ?i ?s = []" using t by (auto simp: tasks_of_def append_eq_Cons_conv)
  have fr: "tasks_of j ?s = tasks_of j s" if "j \<noteq> ?i" for j using t that by (auto simp: tasks_of_def)
  note cases = own_name [OF inv lt]
  show ?thesis
  proof (cases t)
    case (Established k)
    with ph ts obtain fd where "co_conn conn = TcpConnection_new fd" and m: "connections s (name_of s k) = Some k"
      by (auto simp: obj_phase_def)
    then obtain c where c: "connectEstablished (co_conn conn) = Inr c" "tc_inv c" "tc_state c = kConnected" "staying c"
      using established_ok by auto
    let ?s' = "?s\<lparr>objects := (objects s)(k \<mapsto> conn\<lparr>co_conn := c\<rparr>)\<rparr>"
    have "server_inv ?s'"
      by (rule server_inv_change [OF inv, where i = k])
        (use J lt ts(2) fr m c nm Established in \<open>simp_all add: obj_phase_def tasks_of_simps\<close>)
    with Established conn c show ?thesis by (simp add: run_srv_task_def)
  next
    case (RemoveConn k)
    with ph ts have m: "connections s (name_of s k) = Some k" "tc_inv (co_conn conn)" "tc_state (co_conn conn) = kDisconnected"
        "staying (co_conn conn)"
      by (auto simp: obj_phase_def)
    let ?s' = "queue_destroy k conn (?s\<lparr>connections := (connections s)(name_of s k := None)\<rparr>)"
    have "server_inv ?s'"
      by (rule server_inv_change [OF inv, where i = k])
        (use J lt ts(2) fr m staying_leaving [OF m(2-4)] nm RemoveConn in \<open>simp_all add: obj_phase_def tasks_of_simps queue_destroy_def\<close>)
    with RemoveConn conn m nm show ?thesis by (simp add: run_srv_task_def removeConnectionInLoop_def Let_def)
  qed
qed

lemma remove_repeat:
  "closes c' - closes c = 0 \<Longrightarrow> (removeConnection i ^^ (closes c' - closes c)) s = s"
  "closes c' = Suc (closes c) \<Longrightarrow> (removeConnection i ^^ (closes c' - closes c)) s = run_in_loop 0 (RemoveConn i) s"
  by (simp_all add: removeConnection_def)

text \<open>What can fail: an event on, or the release of, a connection that is down and was asked late to start or stop reading.\<close>

definition server_late :: "server \<Rightarrow> bool" where
  "server_late s \<longleftrightarrow> (\<exists>i conn. objects s i = Some conn \<and> late_reading (co_conn conn))"

lemma phase_facts:
  assumes "obj_phase i ts inMap c" and "tc_state c \<noteq> kConnecting"
  shows "tc_inv c" and "TConnectDestroyed \<in> set (todo c) \<longrightarrow> tc_state c = kDisconnected"
    and "\<not> destroys_half_closed e c" and "leaving c \<or> staying c \<and> inMap"
    and "tc_state c \<noteq> kDisconnected \<Longrightarrow> ts = [] \<and> inMap"
proof -
  show inv: "tc_inv c" and l: "leaving c \<or> staying c \<and> inMap" and "tc_state c \<noteq> kDisconnected \<Longrightarrow> ts = [] \<and> inMap"
    using assms by (auto simp: obj_phase_def leaving_def TcpConnection_new_def)
  then show t: "TConnectDestroyed \<in> set (todo c) \<longrightarrow> tc_state c = kDisconnected" by (auto simp: leaving_def staying_def)
  then show "\<not> destroys_half_closed e c" by (auto simp: destroys_half_closed_def)
qed

lemma phase_step:
  assumes ph: "obj_phase i ts inMap c" and st: "tc_state c \<noteq> kConnecting" and legal: "ev_legal e c" and step: "conn_step e c = Inr c'"
    and same: "closes c' = closes c"
  shows "obj_phase i ts inMap c'"
proof -
  note f = phase_facts [OF ph st]
  have inv': "tc_inv c'" using conn_step_ok [OF f(1) legal] step by auto
  have "tc_state c' = kDisconnected \<longleftrightarrow> tc_state c = kDisconnected"
    using conn_step_once [OF step f(2)] same by (auto simp: close_once_def)
  with ph st inv' leaving_step [OF _ legal step] staying_step [OF step f(1)] show ?thesis
    by (auto simp: obj_phase_def TcpConnection_new_def)
qed

lemma event_inv:
  assumes inv: "server_inv s" and conn: "objects s i = Some conn"
    and st: "tc_state (co_conn conn) \<noteq> kConnecting" and legal: "ev_legal e (co_conn conn)"
  shows "(\<exists>s'. conn_event_step i e conn s = Inr s' \<and> server_inv s') \<or> conn_event_step i e conn s = Inl AssertFail \<and> server_late s"
proof -
  note I = inv [unfolded server_inv_def]
  have J: "pool_ok (sv_pool s)" "nextConnId s < 2 ^ 31" using I by blast+
  have ok: "obj_ok s i conn" using I conn by blast
  then have ph: "obj_phase i (tasks_of i s) (connections s (name_of s i) = Some i) (co_conn conn)"
    and nm: "co_name conn = name_of s i" and lt: "i < nextConnId s" by (auto simp: obj_ok_def)
  note cases = own_name [OF inv lt] and f = phase_facts [OF ph st]
  from conn_step_ok [OF f(1) legal]
  consider c where "conn_step e (co_conn conn) = Inr c" "tc_inv c"
    | "conn_step e (co_conn conn) = Inl AssertFail" "reads_when_down (co_conn conn)"
    using f(3) by blast
  then show ?thesis
  proof cases
    case (1 c)
    let ?s = "s\<lparr>objects := (objects s)(i \<mapsto> conn\<lparr>co_conn := c\<rparr>)\<rparr>"
    have step: "conn_event_step i e conn s = Inr ((removeConnection i ^^ (closes c - closes (co_conn conn))) ?s)"
      using 1 by (simp add: conn_event_step_def)
    show ?thesis
    proof (cases "closes c = closes (co_conn conn)")
      case True
      note ph' = phase_step [OF ph st legal 1(1) True]
      have "server_inv ?s"
        by (rule server_inv_change [OF inv, where i = i]) (use J lt nm cases ph' in \<open>auto simp: tasks_of_simps\<close>)
      with step True show ?thesis by (simp add: remove_repeat)
    next
      case False
      with conn_step_once [OF 1(1) f(2)]
      have up: "closes c = Suc (closes (co_conn conn))" "tc_state (co_conn conn) \<noteq> kDisconnected" "tc_state c = kDisconnected"
        by (auto simp: close_once_def)
      have "staying (co_conn conn)" using f(4) up(2) by (auto simp: leaving_def)
      note sty = staying_step [OF 1(1) f(1) this]
      from f(5) [OF up(2)] have "tasks_of i s = []" "connections s (name_of s i) = Some i" by blast+
      then have "server_inv (run_in_loop 0 (RemoveConn i) ?s)"
        by (intro server_inv_change [OF inv, where i = i])
          (use J lt nm up 1(2) sty in \<open>simp_all add: tasks_of_simps obj_phase_def\<close>)
      with step up show ?thesis by (simp add: removeConnection_def)
    qed
  next
    case 2
    then have "late_reading (co_conn conn)" by (simp add: reads_when_down_def late_reading_def)
    with conn 2 show ?thesis unfolding server_late_def by (auto simp: conn_event_step_def)
  qed
qed

lemma release_inv:
  assumes inv: "server_inv s" and conn: "objects s i = Some conn" and un: "unowned i conn s"
  shows "(\<exists>s'. release_conn i conn s = Inr s' \<and> server_inv s') \<or>
    release_conn i conn s \<in> {Inl AssertFail, Inl UndefinedBehaviour} \<and> server_late s"
proof -
  note I = inv [unfolded server_inv_def]
  have J: "pool_ok (sv_pool s)" "nextConnId s < 2 ^ 31" using I by blast+
  have ok: "obj_ok s i conn" using I conn by blast
  then have ph: "obj_phase i (tasks_of i s) (connections s (name_of s i) = Some i) (co_conn conn)"
    and nm: "co_name conn = name_of s i" and lt: "i < nextConnId s" by (auto simp: obj_ok_def)
  have un': "tasks_of i s = []" "connections s (name_of s i) \<noteq> Some i" "\<forall>t \<in> set (todo (co_conn conn)). \<not> owns t"
    using un nm by (auto simp: unowned_def)
  with ph have l: "leaving (co_conn conn)" by (auto simp: obj_phase_def)
  from leaving_release [OF l un'(3)] show ?thesis
  proof
    assume ok: "conn_release (co_conn conn) = Inr ()"
    have "server_inv (s\<lparr>objects := (objects s)(i := None)\<rparr>)"
      by (rule server_inv_change [OF inv, where i = i])
        (use J lt un' own_name [OF inv lt] in \<open>auto simp: tasks_of_simps\<close>)
    with ok show ?thesis by (simp add: release_conn_def)
  next
    assume "late_reading (co_conn conn) \<and> conn_release (co_conn conn) \<in> {Inl AssertFail, Inl UndefinedBehaviour}"
    with conn show ?thesis by (auto simp: release_conn_def server_late_def)
  qed
qed

definition server_bad :: "server \<Rightarrow> cpp_error \<Rightarrow> bool" where
  "server_bad s e \<longleftrightarrow> e \<in> {AssertFail, UndefinedBehaviour} \<and> server_late s"

lemma server_step_inv:
  assumes "server_step s r" and "server_inv s"
  shows "(\<exists>s'. r = Inr s' \<and> server_inv s') \<or> (\<exists>e. r = Inl e \<and> server_bad s e)"
  using assms(1)
proof (cases rule: server_step.cases)
  case (Accept fd)
  with accept_inv [OF assms(2)] show ?thesis by blast
next
  case (Task xs l t ys)
  with task_inv [OF assms(2)] show ?thesis by blast
next
  case (Event i conn e)
  with event_inv [OF assms(2) Event(2-4)] show ?thesis by (auto simp: server_bad_def)
next
  case (Release i conn)
  with release_inv [OF assms(2) Release(2,3)] show ?thesis by (auto simp: server_bad_def)
qed

lemma server_step_names:
  assumes "server_step s (Inr s')"
  shows "sv_name s' = sv_name s \<and> sv_ipPort s' = sv_ipPort s"
  using assms
proof (cases rule: server_step.cases)
  case (Task xs l t ys)
  from Task(1) [symmetric] show ?thesis
    by (cases t) (auto simp: run_srv_task_def removeConnectionInLoop_def queue_destroy_def Let_def split: option.splits)
next
  case (Event i conn e)
  have "sv_name ((removeConnection i ^^ k) t) = sv_name t \<and> sv_ipPort ((removeConnection i ^^ k) t) = sv_ipPort t" for k t
    by (induction k) (simp_all add: removeConnection_def)
  with Event(1) [symmetric] show ?thesis by (auto simp: conn_event_step_def)
next
  case (Accept fd)
  from Accept(1) [symmetric] show ?thesis by (auto simp: newConnection_def Let_def split: if_splits)
next
  case (Release i conn)
  from Release(1) [symmetric] show ?thesis by (auto simp: release_conn_def)
qed

definition server_named :: "string \<Rightarrow> string \<Rightarrow> server \<Rightarrow> bool" where
  "server_named nm ip s \<longleftrightarrow> server_inv s \<and> sv_name s = nm \<and> sv_ipPort s = ip"

interpretation srv: checked_steps server_step "server_named nm ip" server_bad for nm ip
proof
  fix s r
  assume a: "server_step s r" "server_named nm ip s"
  then have "server_inv s" by (simp add: server_named_def)
  from server_step_inv [OF a(1) this] a server_step_names [of s]
  show "(\<exists>s'. r = Inr s' \<and> server_named nm ip s') \<or> (\<exists>e. r = Inl e \<and> server_bad s e)"
    by (auto simp: server_named_def)
qed

lemma TcpServer_new_inv: "pool_ok pool \<Longrightarrow> length ip \<le> 51 \<Longrightarrow> server_inv (TcpServer_new nm ip pool)"
  by (simp add: server_inv_def TcpServer_new_def tasks_of_def)

lemma server_inv_map:
  assumes "server_inv s"
  shows "connections s n = Some i \<Longrightarrow> n = name_of s i \<and> objects s i \<noteq> None"
    and "objects s i = Some conn \<Longrightarrow> tc_state (co_conn conn) \<noteq> kDisconnected \<Longrightarrow> connections s (name_of s i) = Some i"
    and "objects s i = Some conn \<Longrightarrow> sv_tasks s = [] \<Longrightarrow> todo (co_conn conn) = [] \<Longrightarrow>
      tc_state (co_conn conn) \<in> {kConnected, kDisconnecting} \<or> tc_destroyed (co_conn conn)"
    and "objects s i = Some conn \<Longrightarrow> connections s (name_of s i) = Some i \<Longrightarrow> \<not> tc_destroyed (co_conn conn)"
proof -
  note I = assms [unfolded server_inv_def]
  show "connections s n = Some i \<Longrightarrow> n = name_of s i \<and> objects s i \<noteq> None" using I by blast
  have ph: "obj_phase i (tasks_of i s) (connections s (name_of s i) = Some i) (co_conn conn)" if "objects s i = Some conn"
  proof -
    have "obj_ok s i conn" using I that by blast
    then show ?thesis by (auto simp: obj_ok_def)
  qed
  then show "objects s i = Some conn \<Longrightarrow> tc_state (co_conn conn) \<noteq> kDisconnected \<Longrightarrow> connections s (name_of s i) = Some i"
    by (auto simp: obj_phase_def leaving_def)
  show "objects s i = Some conn \<Longrightarrow> connections s (name_of s i) = Some i \<Longrightarrow> \<not> tc_destroyed (co_conn conn)"
    using ph by (auto simp: obj_phase_def staying_def TcpConnection_new_def)
  show "objects s i = Some conn \<Longrightarrow> sv_tasks s = [] \<Longrightarrow> todo (co_conn conn) = [] \<Longrightarrow>
      tc_state (co_conn conn) \<in> {kConnected, kDisconnecting} \<or> tc_destroyed (co_conn conn)"
    using ph tc_invD(4) [of "co_conn conn"] by (cases "tc_state (co_conn conn)") (auto simp: obj_phase_def leaving_def tasks_of_def split: if_splits)
qed


definition sample_pool :: loop_pool where
  "sample_pool = \<lparr>lp_started = True, lp_numThreads = 2, lp_next = 0, lp_loops = [1, 2]\<rparr>"

lemma sample_server_step:
  "runs server_step (TcpServer_new ''s'' ''1.2.3.4:80'' sample_pool)
     (newConnection 7 (TcpServer_new ''s'' ''1.2.3.4:80'' sample_pool))"
  by (rule runs_one) (rule server_step.Accept, simp add: TcpServer_new_def)


end
