(* ===== verification/TcpClient.thy ===== *)
theory TcpClient
  imports Connector TcpServer
begin

section \<open>Clients (\<open>net/TcpClient.cc\<close>)\<close>

text \<open>
  A client owns a connector and at most one connection. Its loop runs both, so that the state is changed by
  one thread; \<open>doomed\<close> are the connections given up that still exist. The queued \<open>connectDestroyed\<close> keeps such a connection alive until it has
  run, behind the functors that were in the queue before it; the user may hold it longer.
\<close>

record client =
  cl_name :: string
  cl_connector :: connector
  cl_retry :: bool
  cl_connect :: bool
  cl_nextConnId :: nat
  cl_connection :: "(string \<times> tcpconn) option"
  doomed :: "tcpconn list"

definition TcpClient_new :: "string \<Rightarrow> client" where
  "TcpClient_new name = \<lparr>cl_name = name, cl_connector = Connector_new, cl_retry = False, cl_connect = True,
     cl_nextConnId = 1, cl_connection = None, doomed = []\<rparr>"

definition enableRetry :: "client \<Rightarrow> client" where "enableRetry cl = cl\<lparr>cl_retry := True\<rparr>"

definition client_connect :: "client \<Rightarrow> client" where
  "client_connect cl = cl\<lparr>cl_connect := True, cl_connector := cn_start (cl_connector cl)\<rparr>"

definition client_disconnect :: "bool \<Rightarrow> client \<Rightarrow> client" where
  "client_disconnect inLoop cl =
     (let cl = cl\<lparr>cl_connect := False\<rparr>
      in case cl_connection cl of None \<Rightarrow> cl
         | Some (nm, conn) \<Rightarrow> cl\<lparr>cl_connection := Some (nm, tc_shutdown inLoop conn)\<rparr>)"

definition client_stop :: "client \<Rightarrow> client" where
  "client_stop cl = cl\<lparr>cl_connect := False, cl_connector := cn_stop (cl_connector cl)\<rparr>"

definition client_conn_name :: "string \<Rightarrow> string \<Rightarrow> nat \<Rightarrow> string" where
  "client_conn_name name peer n = name @ snprintf 32 ('':'' @ peer @ ''#'' @ show_nat n)"

definition client_newConnection :: "string \<Rightarrow> int \<Rightarrow> client \<Rightarrow> client res" where
  "client_newConnection peer sockfd cl =
     (let connName = client_conn_name (cl_name cl) peer (cl_nextConnId cl);
          cl = cl\<lparr>cl_nextConnId := cl_nextConnId cl + 1\<rparr>;
          conn = TcpConnection_new sockfd
      in rbind (connectEstablished conn) (\<lambda>conn. Inr (cl\<lparr>cl_connection := Some (connName, conn)\<rparr>)))"

text \<open>Called by the connection when it closes: it must be the one the client holds.\<close>

definition client_removeConnection :: "errno option \<Rightarrow> string \<times> tcpconn \<Rightarrow> client \<Rightarrow> client res" where
  "client_removeConnection answer conn cl =
     cassert (cl_connection cl = Some conn)
     (let cl = cl\<lparr>cl_connection := None, doomed := doomed cl @ [queue_task TConnectDestroyed (snd conn)]\<rparr>
      in if cl_retry cl \<and> cl_connect cl
         then rbind (cn_restart answer (cl_connector cl)) (\<lambda>cn. Inr (cl\<lparr>cl_connector := cn\<rparr>))
         else Inr cl)"


subsection \<open>The life of a client\<close>

text \<open>A step of the connector other than a restart, and the call of \<open>newConnection\<close> when it delivers a socket.\<close>

definition deliver :: "string \<Rightarrow> connector \<Rightarrow> client \<Rightarrow> client res" where
  "deliver peer cn cl =
     (let new = drop (length (delivered (cl_connector cl))) (delivered cn); cl = cl\<lparr>cl_connector := cn\<rparr>
      in case new of [] \<Rightarrow> Inr cl | fd # _ \<Rightarrow> client_newConnection peer (int fd) cl)"

definition client_conn_event :: "errno option \<Rightarrow> conn_event \<Rightarrow> string \<Rightarrow> tcpconn \<Rightarrow> client \<Rightarrow> client res" where
  "client_conn_event answer e nm conn cl =
     rbind (conn_step e conn) (\<lambda>c.
     let cl = cl\<lparr>cl_connection := Some (nm, c)\<rparr>
     in if closes c = closes conn then Inr cl else client_removeConnection answer (nm, c) cl)"

text \<open>An event on a connection that was given up, such as the next functor of the loop, and its release by the last owner.\<close>

definition doomed_event :: "conn_event \<Rightarrow> nat \<Rightarrow> client \<Rightarrow> client res" where
  "doomed_event e k cl = rbind (conn_step e (doomed cl ! k)) (\<lambda>c. Inr (cl\<lparr>doomed := (doomed cl)[k := c]\<rparr>))"

definition release_doomed :: "nat \<Rightarrow> client \<Rightarrow> client res" where
  "release_doomed k cl =
     rbind (conn_release (doomed cl ! k)) (\<lambda>_. Inr (cl\<lparr>doomed := take k (doomed cl) @ drop (Suc k) (doomed cl)\<rparr>))"

text \<open>
  The client connects once. An event on the connection comes in a later turn of the loop than the one that made
  it, after the functor that deletes the channel of the connector.
\<close>

inductive client_step :: "client \<Rightarrow> client res \<Rightarrow> bool" where
  Retry: "client_step cl (Inr (enableRetry cl))"
| Disconnect: "client_step cl (Inr (client_disconnect inLoop cl))"
| Stop: "client_step cl (Inr (client_stop cl))"
| Connect: "cn_own_step (cl_connector cl) r \<Longrightarrow>
    client_step cl (rbind r (\<lambda>cn. deliver peer cn cl))"
| Connection: "cl_connection cl = Some (nm, conn) \<Longrightarrow> ev_legal e conn \<Longrightarrow>
    ResetChannel \<notin> set (cn_tasks (cl_connector cl)) \<Longrightarrow> client_step cl (client_conn_event answer e nm conn cl)"
| Doomed: "k < length (doomed cl) \<Longrightarrow> ev_legal e (doomed cl ! k) \<Longrightarrow> client_step cl (doomed_event e k cl)"
| Release: "k < length (doomed cl) \<Longrightarrow> (\<forall>t \<in> set (todo (doomed cl ! k)). \<not> owns t) \<Longrightarrow> client_step cl (release_doomed k cl)"

definition client_inv :: "client \<Rightarrow> bool" where
  "client_inv cl \<longleftrightarrow> cn_inv (cl_connector cl) \<and>
     (\<forall>nm conn. cl_connection cl = Some (nm, conn) \<longrightarrow>
        cn_state (cl_connector cl) = CConnected \<and> tc_inv conn \<and> tc_state conn \<noteq> kDisconnected \<and> staying conn) \<and>
     (\<forall>c \<in> set (doomed cl). leaving c)"

lemma tc_shutdown_inv:
  assumes "tc_inv c" and "tc_state c \<noteq> kDisconnected" and "staying c"
  shows "tc_inv (tc_shutdown inLoop c) \<and> tc_state (tc_shutdown inLoop c) \<noteq> kDisconnected \<and> staying (tc_shutdown inLoop c)"
proof -
  have "tc_inv (tc_shutdown inLoop c)" using conn_step_ok [OF assms(1), of "EvShutdown inLoop"] by simp
  moreover have "staying (tc_shutdown inLoop c)" using staying_step [of "EvShutdown inLoop" c] assms(1,3) by simp
  ultimately show ?thesis using assms(2) by (simp add: tc_shutdown_def shutdownInLoop_def queue_task_def Let_def)
qed

lemma removeConnection_inv:
  assumes inv: "cn_inv (cl_connector cl)" "\<forall>c \<in> set (doomed cl). leaving c"
    and st: "cn_state (cl_connector cl) = CConnected" "ResetChannel \<notin> set (cn_tasks (cl_connector cl))"
    and c: "leaving (queue_task TConnectDestroyed c)" "cl_connection cl = Some (nm, c)"
  shows "\<exists>cl'. client_removeConnection answer (nm, c) cl = Inr cl' \<and> client_inv cl'"
proof -
  obtain cn where "cn_restart answer (cl_connector cl) = Inr cn" "cn_inv cn" using cn_restart_inv [OF inv(1) st] by blast
  with inv c show ?thesis by (auto simp: client_removeConnection_def client_inv_def Let_def)
qed

text \<open>What can fail: an event on, or the release of, a connection that was given up and was asked late to start or stop reading.\<close>

definition client_bad :: "client \<Rightarrow> cpp_error \<Rightarrow> bool" where
  "client_bad cl e \<longleftrightarrow> e \<in> {AssertFail, UndefinedBehaviour} \<and> (\<exists>c \<in> set (doomed cl). late_reading c)"

lemma client_step_inv:
  assumes "client_step cl r" and inv: "client_inv cl"
  shows "(\<exists>cl'. r = Inr cl' \<and> client_inv cl') \<or> (\<exists>e. r = Inl e \<and> client_bad cl e)"
  using assms(1)
proof (cases rule: client_step.cases)
  case Retry
  with inv show ?thesis by (simp add: client_inv_def enableRetry_def)
next
  case (Disconnect inLoop)
  have "client_inv (client_disconnect inLoop cl)"
    using inv tc_shutdown_inv by (auto simp: client_inv_def client_disconnect_def Let_def split: option.splits prod.splits)
  with Disconnect show ?thesis by simp
next
  case Stop
  have "cn_inv (cn_stop (cl_connector cl))"
    using cn_own_step_inv [OF cn_own_step.Stop] inv by (auto simp: client_inv_def)
  with Stop inv show ?thesis by (auto simp: client_inv_def client_stop_def) (auto simp: cn_stop_def cn_queue_def)
next
  case (Connect r peer)
  then obtain cn where cn: "r = Inr cn" "cn_inv cn" using cn_own_step_inv inv by (auto simp: client_inv_def)
  with Connect have "delivers_at_most (cl_connector cl) cn" using cn_own_step_delivers by blast
  then consider "delivered cn = delivered (cl_connector cl)" "cn_state (cl_connector cl) = CConnected \<longrightarrow> cn_state cn = CConnected"
    | fd where "delivered cn = delivered (cl_connector cl) @ [fd]" "cn_state (cl_connector cl) = CConnecting" "cn_state cn = CConnected"
    unfolding delivers_at_most_def by blast
  then show ?thesis
  proof cases
    case 1
    have "client_inv (cl\<lparr>cl_connector := cn\<rparr>)" using inv cn 1(2) by (auto simp: client_inv_def)
    with Connect cn 1 show ?thesis by (simp add: deliver_def)
  next
    case 2
    obtain c where "connectEstablished (TcpConnection_new (int fd)) = Inr c" "tc_inv c" "tc_state c = kConnected" "staying c"
      using established_ok by blast
    with Connect cn 2 inv show ?thesis
      by (auto simp: deliver_def client_newConnection_def client_inv_def Let_def)
  qed
next
  case (Connection nm conn e answer)
  with inv have i: "tc_inv conn" "tc_state conn \<noteq> kDisconnected" "cn_state (cl_connector cl) = CConnected" "staying conn"
    by (auto simp: client_inv_def)
  have sane: "\<not> reads_when_down conn" "\<not> destroys_half_closed e conn" "TConnectDestroyed \<in> set (todo conn) \<longrightarrow> tc_state conn = kDisconnected"
    using i(2,4) by (auto simp: reads_when_down_def destroys_half_closed_def staying_def)
  then obtain c where c: "conn_step e conn = Inr c" "tc_inv c" using conn_step_ok [OF i(1) Connection(3)] by blast
  note once = conn_step_once [OF c(1) sane(3)] and sty = staying_step [OF c(1) i(1,4)]
  show ?thesis
  proof (cases "closes c = closes conn")
    case True
    with once i(2) have "tc_state c \<noteq> kDisconnected" by (auto simp: close_once_def)
    with c i inv sty have "client_inv (cl\<lparr>cl_connection := Some (nm, c)\<rparr>)" by (simp add: client_inv_def)
    with Connection c True show ?thesis by (simp add: client_conn_event_def)
  next
    case False
    with once have "tc_state c = kDisconnected" by (auto simp: close_once_def)
    note l = staying_leaving [OF c(2) this sty]
    have "\<exists>cl'. client_removeConnection answer (nm, c) (cl\<lparr>cl_connection := Some (nm, c)\<rparr>) = Inr cl' \<and> client_inv cl'"
      by (intro removeConnection_inv) (use inv i c l Connection(4) in \<open>auto simp: client_inv_def\<close>)
    with Connection c False show ?thesis by (simp add: client_conn_event_def)
  qed
next
  case (Doomed k e)
  let ?c = "doomed cl ! k"
  have l: "leaving ?c" "?c \<in> set (doomed cl)" using inv Doomed(2) by (auto simp: client_inv_def)
  show ?thesis
  proof (cases "conn_step e ?c")
    case (Inl x)
    with leaving_fails [OF l(1) Doomed(3)] l(2) Doomed(1) show ?thesis by (auto simp: doomed_event_def client_bad_def)
  next
    case (Inr c)
    have "\<forall>c' \<in> set ((doomed cl)[k := c]). leaving c'"
      using set_update_subset_insert [of "doomed cl" k c] leaving_step [OF l(1) Doomed(3) Inr] inv by (auto simp: client_inv_def)
    with Inr Doomed(1) inv show ?thesis by (simp add: doomed_event_def client_inv_def)
  qed
next
  case (Release k)
  let ?c = "doomed cl ! k"
  have l: "leaving ?c" "?c \<in> set (doomed cl)" using inv Release(2) by (auto simp: client_inv_def)
  have sub: "set (take k (doomed cl) @ drop (Suc k) (doomed cl)) \<subseteq> set (doomed cl)"
    using set_take_subset [of k "doomed cl"] set_drop_subset [of "Suc k" "doomed cl"] by auto
  from leaving_release [OF l(1) Release(3)] show ?thesis
  proof
    assume "conn_release ?c = Inr ()"
    with Release(1) inv sub show ?thesis by (auto simp: release_doomed_def client_inv_def)
  next
    assume "late_reading ?c \<and> conn_release ?c \<in> {Inl AssertFail, Inl UndefinedBehaviour}"
    with Release(1) l(2) show ?thesis by (auto simp: release_doomed_def client_bad_def)
  qed
qed

interpretation cls: checked_steps client_step client_inv client_bad
  by unfold_locales (rule client_step_inv)

lemma client_connect_inv: "client_inv (client_connect (TcpClient_new name))"
  using cn_start_inv by (simp add: client_inv_def client_connect_def TcpClient_new_def)


text \<open>A client connects, gives its connection up when the peer closes it, and destroys it; but if the user starts reading in between, the
  destruction fails.\<close>

definition sample_functor :: "client \<Rightarrow> client res" where
  "sample_functor cl = (case cn_tasks (cl_connector cl) of [] \<Rightarrow> Inr cl
     | t # ts \<Rightarrow> rbind (cn_run_task None t ((cl_connector cl)\<lparr>cn_tasks := ts\<rparr>)) (\<lambda>cn. deliver ''p'' cn cl))"

definition sample_writable :: "client \<Rightarrow> client res" where
  "sample_writable cl = (case cn_channel (cl_connector cl) of None \<Rightarrow> Inr cl
     | Some ch \<Rightarrow> if cc_writing ch then rbind (cn_handleWrite False False (cl_connector cl)) (\<lambda>cn. deliver ''p'' cn cl) else Inr cl)"

definition sample_close :: "client \<Rightarrow> client res" where
  "sample_close cl = (case cl_connection cl of None \<Rightarrow> Inr cl
     | Some (nm, conn) \<Rightarrow> if ResetChannel \<in> set (cn_tasks (cl_connector cl)) then Inr cl
         else client_conn_event None EvHangup nm conn cl)"

definition sample_doomed :: "conn_event \<Rightarrow> client \<Rightarrow> client res" where
  "sample_doomed e cl = (if doomed cl = [] \<or> \<not> ev_legal e (hd (doomed cl)) then Inr cl else doomed_event e 0 cl)"

definition sample_run :: "conn_event list \<Rightarrow> client res" where
  "sample_run es = foldl (\<lambda>r e. rbind r (sample_doomed e))
     (rbind (rbind (rbind (rbind (Inr (client_connect (TcpClient_new ''c''))) sample_functor) sample_writable) sample_functor) sample_close) es"

lemma sample_run_runs: "runs client_step (client_connect (TcpClient_new ''c'')) (sample_run es)"
proof -
  have f: "client_step cl (sample_functor cl) \<or> sample_functor cl = Inr cl" for cl
    by (cases "cn_tasks (cl_connector cl)") (auto simp: sample_functor_def intro: client_step.Connect cn_own_step.Functor)
  have w: "client_step cl (sample_writable cl) \<or> sample_writable cl = Inr cl" for cl
  proof (cases "cn_channel (cl_connector cl)")
    case (Some ch)
    show ?thesis
      using client_step.Connect [OF cn_own_step.Dispatch [OF Some, where pollerr = False and pollout = True and err = False and self = False], of "''p''"] Some
      by (auto simp: sample_writable_def)
  qed (simp add: sample_writable_def)
  have c: "client_step cl (sample_close cl) \<or> sample_close cl = Inr cl" for cl
    by (auto simp: sample_close_def intro!: client_step.Connection split: option.splits)
  have d: "client_step cl (sample_doomed e cl) \<or> sample_doomed e cl = Inr cl" for cl e
    by (auto simp: sample_doomed_def hd_conv_nth intro!: client_step.Doomed)
  have "runs client_step s0 (foldl (\<lambda>r e. rbind r (sample_doomed e)) r es)" if "runs client_step s0 r" for s0 r
    using that by (induction es arbitrary: r) (simp_all add: runs_bind d)
  then show ?thesis unfolding sample_run_def by (simp add: runs_bind f w c runs.Start del: rbind_simps)
qed

lemmas sample_eval = sample_run_def sample_functor_def sample_writable_def sample_close_def sample_doomed_def client_connect_def
  TcpClient_new_def Connector_new_def cn_start_def cn_queue_def startInLoop_def cn_connect_sock_def connecting_def deliver_def
  cn_handleWrite_def removeAndResetChannel_def resetChannel_def client_newConnection_def client_conn_event_def
  client_removeConnection_def doomed_event_def connectEstablished_def connectDestroyed_def queue_task_def sample_conn_def call_user_def ch_interest_def TcpConnection_new_def
  Channel_new_def tie_def isNoneEvent_def handleClose_def startRead_def startReadInLoop_def isReading_def kNoneEvent_def kReadEvent_def
  poll_bits closes_def

lemma sample_run_ends: "\<exists>cl c. sample_run [EvRunTask (Wrote 0)] = Inr cl \<and> doomed cl = [c]"
  by (simp add: sample_eval)

lemma sample_run_fails: "sample_run [EvStartRead True, EvRunTask (Wrote 0)] = Inl AssertFail"
  by (simp add: sample_eval)


text \<open>Connecting a second time is not safe. Once the connector has made a connection its state stays
  connected, also after the connection is gone, unless the client retries. A second \<open>connect\<close> then fails the assertion of
  \<open>startInLoop\<close>, whatever the connection does in the meantime.\<close>

theorem client_connect_twice_asserts:
  assumes "client_inv cl" and "cl_connection cl = Some (nm, conn)" and "\<not> cl_retry cl" and "ev_legal e conn"
    and "cn_tasks (cl_connector cl) = []" and "client_conn_event answer e nm conn cl = Inr cl'"
  shows "\<exists>ts. cn_tasks (cl_connector (client_connect cl')) = ts @ [StartInLoop] \<and>
    cn_run_task answer' StartInLoop ((cl_connector (client_connect cl'))\<lparr>cn_tasks := ts\<rparr>) = Inl AssertFail"
proof -
  have "cl_connector cl' = cl_connector cl"
    using assms(3,6) by (auto simp: client_conn_event_def client_removeConnection_def Let_def split: if_splits)
  moreover have "cn_state (cl_connector cl) = CConnected" using assms(1,2) by (simp add: client_inv_def)
  ultimately show ?thesis using assms(5) by (simp add: client_connect_def cn_start_def cn_queue_def startInLoop_def)
qed

definition sample_client :: client where
  "sample_client = (TcpClient_new ''c'')\<lparr>cl_connection := Some (''c:1'', sample_conn),
     cl_connector := \<lparr>cn_connect = True, cn_state = CConnected, cn_channel = None, retryDelayMs = 500, cn_tasks = [],
       cn_timers = 0, sockets_made = 1, cn_closed = [], delivered = [0], delays = []\<rparr>\<rparr>"

lemma sample_client_inv: "client_inv sample_client"
  using sample_conn_inv
  by (simp add: client_inv_def sample_client_def TcpClient_new_def cn_inv_def chan_ok_def held_def backoff_def)
    (simp add: sample_conn_def call_user_def ch_interest_def staying_def TcpConnection_new_def)

theorem client_connect_twice_asserts_witness:
  "\<exists>cl'. client_conn_event None (EvReadable (ReadData [])) ''c:1'' sample_conn sample_client = Inr cl' \<and>
    (\<exists>ts. cn_run_task None StartInLoop ((cl_connector (client_connect cl'))\<lparr>cn_tasks := ts\<rparr>) = Inl AssertFail)"
proof -
  have conn: "cl_connection sample_client = Some (''c:1'', sample_conn)" "\<not> cl_retry sample_client"
      "cn_tasks (cl_connector sample_client) = []"
    by (simp_all add: sample_client_def TcpClient_new_def)
  have "client_step sample_client (client_conn_event None (EvReadable (ReadData [])) ''c:1'' sample_conn sample_client)"
    by (rule client_step.Connection) (use conn in simp_all)
  then obtain cl' where cl': "client_conn_event None (EvReadable (ReadData [])) ''c:1'' sample_conn sample_client = Inr cl'"
    using client_step_inv [OF _ sample_client_inv] by (auto simp: client_bad_def sample_client_def TcpClient_new_def)
  from client_connect_twice_asserts [OF sample_client_inv conn(1,2) _ conn(3) cl'] show ?thesis using cl' by auto
qed



subsection \<open>Destroying a client\<close>

text \<open>The destructor leaves a connection to itself: its close callback becomes \<open>detail::removeConnection\<close>, which queues
  \<open>connectDestroyed\<close>; when nobody else holds the connection (\<open>unique\<close>) it is also closed. Without a connection the connector is
  stopped.\<close>

definition TcpClient_delete :: "bool \<Rightarrow> client \<Rightarrow> tcpconn option \<times> connector" where
  "TcpClient_delete unique cl =
     (case cl_connection cl of
        Some (nm, conn) \<Rightarrow> (Some (if unique then forceClose conn else conn), cl_connector cl)
      | None \<Rightarrow> (None, cn_stop (cl_connector cl)))"

definition detail_removeConnection :: "tcpconn \<Rightarrow> tcpconn" where
  "detail_removeConnection conn = queue_task TConnectDestroyed conn"

text \<open>The connection of a destroyed client, if it was the only owner and nothing else is queued, closes in the next turn of the loop;
  its close callback is called once, and the destruction that callback queues succeeds.\<close>

lemma deleted_client_closes:
  assumes inv: "client_inv cl" and conn: "cl_connection cl = Some (nm, conn)" and idle: "todo conn = []"
  shows "\<exists>c c1 c2. fst (TcpClient_delete True cl) = Some c \<and> conn_step (EvRunTask w) c = Inr c1 \<and> closes c1 = closes conn + 1 \<and>
    run_task w TConnectDestroyed c1 = Inr c2 \<and> TcpConnection_dtor c2 = Inr () \<and> todo (detail_removeConnection c1) = [TConnectDestroyed]"
proof -
  have i: "tc_inv conn" "tc_state conn \<noteq> kDisconnected" using inv conn by (auto simp: client_inv_def)
  then have st: "tc_state conn = kConnected \<or> tc_state conn = kDisconnecting"
    using tc_invD(4) [OF i(1)] by (cases "tc_state conn") auto
  let ?c = "queue_task TForceClose (conn\<lparr>tc_state := kDisconnecting\<rparr>)"
  have del: "fst (TcpClient_delete True cl) = Some ?c" using st conn by (simp add: TcpClient_delete_def forceClose_def)
  have "tc_inv ?c" using conn_step_ok [OF i(1), of EvForceClose] st by (simp add: forceClose_def)
  then obtain c1 where c1: "conn_step (EvRunTask w) ?c = Inr c1" "tc_inv c1"
    using conn_step_ok [of ?c "EvRunTask w"] idle by (auto simp: queue_task_def reads_when_down_def destroys_half_closed_def)
  have "handleClose (conn\<lparr>tc_state := kDisconnecting, todo := []\<rparr>) = Inr c1"
    using c1(1) idle by (simp add: queue_task_def forceCloseInLoop_def)
  then have "tc_state c1 = kDisconnected" "closes c1 = closes conn + 1" "todo c1 = []" "\<not> reads_when_down c1"
    by (auto simp: handleClose_def ch_interest_def call_user_def closes_def reads_when_down_def isReading_def kNoneEvent_def Let_def)
  moreover from this(1) obtain c2 where "connectDestroyed c1 = Inr c2" "TcpConnection_dtor c2 = Inr ()"
    using closed_can_be_destroyed [OF c1(2)] \<open>\<not> reads_when_down c1\<close> by blast
  ultimately show ?thesis using del c1(1) by (auto simp: detail_removeConnection_def queue_task_def)
qed

end
