(* ===== verification/ThreadPool.thy ===== *)
theory ThreadPool
  imports Thread "HOL-Library.Multiset"
begin

section \<open>The thread pool (\<open>base/ThreadPool.cc\<close>)\<close>

text \<open>
  A pool runs tasks in its worker threads. As for the queues, a critical section is one step. Any number of other threads
  (producers) call \<open>run\<close>. A worker first runs the initialisation callback, if there is one. The outcome of the callback and
  of each task is a parameter of the steps. The history fields record how often the callback has returned and the
  tasks accepted into the queue, taken from it and finished.
\<close>

datatype 'a worker = WInit | WLoop | WTake | WWaits | WRuns 'a | WExit

datatype 'a producer = PAway | PRuns 'a | PWaits 'a

record 'a tpool =
  tp_queue :: "'a list"
  maxQueueSize :: nat
  tp_running :: bool
  tp_initCallback :: bool
  tp_inits :: nat
  tp_workers :: "'a worker list"
  tp_producers :: "'a producer list"
  tp_accepted :: "'a list"
  tp_taken :: "'a list"
  tp_finished :: "'a list"

definition ThreadPool_new :: "nat \<Rightarrow> 'a tpool" where
  "ThreadPool_new others = \<lparr>tp_queue = [], maxQueueSize = 0, tp_running = False, tp_initCallback = False, tp_inits = 0, tp_workers = [],
     tp_producers = replicate others PAway, tp_accepted = [], tp_taken = [], tp_finished = []\<rparr>"

definition setMaxQueueSize :: "nat \<Rightarrow> 'a tpool \<Rightarrow> 'a tpool" where "setMaxQueueSize maxSize p = p\<lparr>maxQueueSize := maxSize\<rparr>"

definition setThreadInitCallback :: "'a tpool \<Rightarrow> 'a tpool" where "setThreadInitCallback p = p\<lparr>tp_initCallback := True\<rparr>"

text \<open>Without worker threads the callback runs in the thread that calls \<open>start\<close>.\<close>

definition ThreadPool_start :: "nat \<Rightarrow> 'a tpool \<Rightarrow> 'a tpool res" where
  "ThreadPool_start numThreads p =
     cassert (tp_workers p = []) (Inr (p\<lparr>tp_running := True, tp_workers := replicate numThreads WInit,
       tp_inits := (if numThreads = 0 \<and> tp_initCallback p then tp_inits p + 1 else tp_inits p)\<rparr>))"

text \<open>\<open>stop\<close> up to the joining of the workers, which returns when all of them have left \<open>runInThread\<close>.\<close>

definition ThreadPool_stop :: "'a tpool \<Rightarrow> 'a tpool" where
  "ThreadPool_stop p = p\<lparr>tp_running := False, tp_workers := map (\<lambda>w. if w = WWaits then WTake else w) (tp_workers p)\<rparr>"

definition stop_joined :: "'a tpool \<Rightarrow> bool" where "stop_joined p \<longleftrightarrow> list_all ((=) WExit) (tp_workers p)"

definition ThreadPool_delete :: "'a tpool \<Rightarrow> 'a tpool" where
  "ThreadPool_delete p = (if tp_running p then ThreadPool_stop p else p)"

definition isFull :: "'a tpool \<Rightarrow> bool" where
  "isFull p \<longleftrightarrow> 0 < maxQueueSize p \<and> maxQueueSize p \<le> length (tp_queue p)"

text \<open>One round of \<open>run\<close> under the mutex, when there are workers; \<open>None\<close>: wait for \<open>notFull\<close>.\<close>

definition ThreadPool_run :: "'a \<Rightarrow> 'a tpool \<Rightarrow> 'a tpool option res" where
  "ThreadPool_run task p =
     (if tp_workers p = [] then Inr (Some (p\<lparr>tp_finished := tp_finished p @ [task]\<rparr>))
      else if isFull p then Inr None
      else cassert (\<not> isFull p) (Inr (Some (p\<lparr>tp_queue := tp_queue p @ [task], tp_accepted := tp_accepted p @ [task]\<rparr>))))"

text \<open>One round of \<open>take\<close>: wait, or a task, or none when the pool is stopped.\<close>

definition ThreadPool_take :: "'a tpool \<Rightarrow> ('a option \<times> 'a tpool) option" where
  "ThreadPool_take p =
     (if tp_queue p = [] \<and> tp_running p then None
      else if tp_queue p \<noteq> []
      then Some (Some (hd (tp_queue p)), p\<lparr>tp_queue := tl (tp_queue p), tp_taken := tp_taken p @ [hd (tp_queue p)]\<rparr>)
      else Some (None, p))"

definition ThreadPool_queueSize :: "'a tpool \<Rightarrow> nat" where "ThreadPool_queueSize p = length (tp_queue p)"

definition put_worker :: "nat \<Rightarrow> 'a worker \<Rightarrow> 'a tpool \<Rightarrow> 'a tpool" where
  "put_worker i w p = p\<lparr>tp_workers := (tp_workers p)[i := w]\<rparr>"

definition put_producer :: "nat \<Rightarrow> 'a producer \<Rightarrow> 'a tpool \<Rightarrow> 'a tpool" where
  "put_producer i w p = p\<lparr>tp_producers := (tp_producers p)[i := w]\<rparr>"

abbreviation worker_at :: "nat \<Rightarrow> 'a worker \<Rightarrow> 'a tpool \<Rightarrow> bool" where
  "worker_at i w p \<equiv> i < length (tp_workers p) \<and> tp_workers p ! i = w"

abbreviation producer_at :: "nat \<Rightarrow> 'a producer \<Rightarrow> 'a tpool \<Rightarrow> bool" where
  "producer_at i w p \<equiv> i < length (tp_producers p) \<and> tp_producers p ! i = w"

fun prod_waits :: "'a producer \<Rightarrow> bool" where "prod_waits (PWaits x) = True" | "prod_waits _ = False"

fun prod_runs :: "'a producer \<Rightarrow> bool" where "prod_runs (PRuns x) = True" | "prod_runs _ = False"

fun prod_wakes :: "'a producer \<Rightarrow> 'a producer" where "prod_wakes (PWaits x) = PRuns x" | "prod_wakes p = p"

text \<open>\<open>runInThread\<close>: test \<open>running_\<close>, take, run the task, again. \<open>take\<close> notifies \<open>notFull\<close> only when the queue is bounded.\<close>

definition notFull :: "'a tpool \<Rightarrow> 'a producer list \<Rightarrow> bool" where
  "notFull p ps \<longleftrightarrow> (if 0 < maxQueueSize p then notified prod_waits prod_wakes (tp_producers p) ps else ps = tp_producers p)"

text \<open>\<open>runInThread\<close> catches what the callback or a task throws: it aborts on the two known kinds of exception, and what it
  throws on leaves the thread function, which ends the program too.\<close>

definition caught :: "outcome \<Rightarrow> 'a tpool \<Rightarrow> 'a tpool res" where
  "caught out p = (case out of Returns \<Rightarrow> Inr p | ThrowsException \<Rightarrow> Inl Abort | ThrowsStdException \<Rightarrow> Inl Abort
     | ThrowsOther \<Rightarrow> Inl Abort)"

definition runInThread_init :: "outcome \<Rightarrow> nat \<Rightarrow> 'a tpool \<Rightarrow> 'a tpool res" where
  "runInThread_init out i p =
     (if tp_initCallback p then caught out (put_worker i WLoop (p\<lparr>tp_inits := tp_inits p + 1\<rparr>)) else Inr (put_worker i WLoop p))"

definition runInThread_task :: "outcome \<Rightarrow> nat \<Rightarrow> 'a \<Rightarrow> 'a tpool \<Rightarrow> 'a tpool res" where
  "runInThread_task out i x p = caught out (put_worker i WLoop (p\<lparr>tp_finished := tp_finished p @ [x]\<rparr>))"

inductive tp_step :: "('a option \<Rightarrow> outcome) \<Rightarrow> 'a tpool \<Rightarrow> 'a tpool res \<Rightarrow> bool" for out where
  CallRun: "producer_at i PAway p \<Longrightarrow> tp_step out p (Inr (put_producer i (PRuns x) p))"
| RunFails: "producer_at i (PRuns x) p \<Longrightarrow> ThreadPool_run x p = Inl e \<Longrightarrow> tp_step out p (Inl e)"
| RunWaits: "producer_at i (PRuns x) p \<Longrightarrow> ThreadPool_run x p = Inr None \<Longrightarrow> tp_step out p (Inr (put_producer i (PWaits x) p))"
| Run: "producer_at i (PRuns x) p \<Longrightarrow> ThreadPool_run x p = Inr (Some p') \<Longrightarrow>
    notified ((=) WWaits) (\<lambda>_. WTake) (tp_workers p) ws \<Longrightarrow>
    tp_step out p (Inr ((put_producer i PAway p')\<lparr>tp_workers := ws\<rparr>))"
| RunWakes: "producer_at i (PWaits x) p \<Longrightarrow> tp_step out p (Inr (put_producer i (PRuns x) p))"
| Loop: "worker_at i WLoop p \<Longrightarrow> tp_step out p (Inr (put_worker i (if tp_running p then WTake else WExit) p))"
| TakeWaits: "worker_at i WTake p \<Longrightarrow> ThreadPool_take p = None \<Longrightarrow> tp_step out p (Inr (put_worker i WWaits p))"
| TakeNone: "worker_at i WTake p \<Longrightarrow> ThreadPool_take p = Some (None, p') \<Longrightarrow> tp_step out p (Inr (put_worker i WLoop p'))"
| Take: "worker_at i WTake p \<Longrightarrow> ThreadPool_take p = Some (Some x, p') \<Longrightarrow> notFull p ps \<Longrightarrow>
    tp_step out p (Inr ((put_worker i (WRuns x) p')\<lparr>tp_producers := ps\<rparr>))"
| TakeWakes: "worker_at i WWaits p \<Longrightarrow> tp_step out p (Inr (put_worker i WTake p))"
| Finish: "worker_at i (WRuns x) p \<Longrightarrow> tp_step out p (runInThread_task (out (Some x)) i x p)"
| Init: "worker_at i WInit p \<Longrightarrow> tp_step out p (runInThread_init (out None) i p)"
| Stop: "tp_step out p (Inr (ThreadPool_stop p))"


subsection \<open>Tasks run exactly once\<close>

fun task_in :: "'a worker \<Rightarrow> 'a multiset" where "task_in (WRuns x) = {#x#}" | "task_in _ = {#}"

definition in_work :: "'a worker list \<Rightarrow> 'a multiset" where "in_work ws = sum_list (map task_in ws)"

definition tp_inv :: "'a tpool \<Rightarrow> bool" where
  "tp_inv p \<longleftrightarrow> tp_workers p \<noteq> [] \<and> tp_accepted p = tp_taken p @ tp_queue p \<and>
     mset (tp_taken p) = mset (tp_finished p) + in_work (tp_workers p) \<and>
     (0 < maxQueueSize p \<longrightarrow> length (tp_queue p) \<le> maxQueueSize p) \<and>
     (0 < how_many ((=) WWaits) (tp_workers p) \<longrightarrow>
        tp_running p \<and> length (tp_queue p) \<le> how_many ((=) WTake) (tp_workers p)) \<and>
     (0 < how_many prod_waits (tp_producers p) \<longrightarrow>
        0 < maxQueueSize p \<and> maxQueueSize p \<le> length (tp_queue p) + how_many prod_runs (tp_producers p))"

lemma in_work_update: "i < length ws \<Longrightarrow> in_work (ws[i := w]) + task_in (ws ! i) = in_work ws + task_in w"
proof (induction ws arbitrary: i)
  case (Cons a ws)
  then show ?case by (cases i) (auto simp: in_work_def ac_simps)
qed simp

lemma worker_counts:
  fixes ws :: "'a worker list"
  assumes "i < length ws"
  shows "how_many ((=) WWaits) (ws[i := w]) + (if ws ! i = WWaits then 1 else 0) = how_many ((=) WWaits) ws + (if w = WWaits then 1 else 0)"
    "how_many ((=) WTake) (ws[i := w]) + (if ws ! i = WTake then 1 else 0) = how_many ((=) WTake) ws + (if w = WTake then 1 else 0)"
  using how_many_update [OF assms, of "(=) WWaits" w] how_many_update [OF assms, of "(=) WTake" w]
  by (simp_all add: eq_commute)

lemma producer_counts:
  fixes ps :: "'a producer list"
  assumes "i < length ps"
  shows "how_many prod_waits (ps[i := w]) + (if prod_waits (ps ! i) then 1 else 0) = how_many prod_waits ps + (if prod_waits w then 1 else 0)"
    "how_many prod_runs (ps[i := w]) + (if prod_runs (ps ! i) then 1 else 0) = how_many prod_runs ps + (if prod_runs w then 1 else 0)"
  using how_many_update [OF assms] by blast+

lemma notify_worker:
  assumes "notified ((=) WWaits) (\<lambda>_. WTake) ws ws'"
  shows "how_many ((=) WWaits) ws = 0 \<and> ws' = ws \<or>
      how_many ((=) WWaits) ws = Suc (how_many ((=) WWaits) ws') \<and> how_many ((=) WTake) ws' = Suc (how_many ((=) WTake) ws)"
    and "in_work ws' = in_work ws" "ws' = [] \<longleftrightarrow> ws = []"
proof -
  show "how_many ((=) WWaits) ws = 0 \<and> ws' = ws \<or>
      how_many ((=) WWaits) ws = Suc (how_many ((=) WWaits) ws') \<and> how_many ((=) WTake) ws' = Suc (how_many ((=) WTake) ws)"
    using notified_counts [OF assms, of "(=) WTake"] by auto
  show "in_work ws' = in_work ws" "ws' = [] \<longleftrightarrow> ws = []"
    using assms in_work_update [of _ ws WTake] by (cases rule: notified.cases; force)+
qed

lemma notify_producer:
  assumes "notified prod_waits prod_wakes ps ps'"
  shows "how_many prod_waits ps = 0 \<and> ps' = ps \<or>
    how_many prod_waits ps = Suc (how_many prod_waits ps') \<and> how_many prod_runs ps' = Suc (how_many prod_runs ps)"
  by (rule notified_counts [OF assms]) (erule prod_waits.elims(2), simp)

lemma stop_counts:
  "how_many ((=) WWaits) (map (\<lambda>w. if w = WWaits then WTake else w) ws) = 0"
  "in_work (map (\<lambda>w. if w = WWaits then WTake else w) ws) = in_work ws"
proof -
  show "how_many ((=) WWaits) (map (\<lambda>w. if w = WWaits then WTake else w) ws) = 0" by (auto simp: how_many_zero)
  have "map (task_in \<circ> (\<lambda>w. if w = WWaits then WTake else w)) ws = map task_in ws" by simp
  then show "in_work (map (\<lambda>w. if w = WWaits then WTake else w) ws) = in_work ws" by (simp only: in_work_def map_map)
qed

lemma run_cases:
  assumes "tp_workers p \<noteq> []"
  shows "ThreadPool_run x p = (if isFull p then Inr None
    else Inr (Some (p\<lparr>tp_queue := tp_queue p @ [x], tp_accepted := tp_accepted p @ [x]\<rparr>)))"
  using assms by (simp add: ThreadPool_run_def)

lemma run_inv:
  assumes inv: "tp_inv p" and i: "producer_at i (PRuns x) p" and free: "\<not> isFull p"
    and n: "notified ((=) WWaits) (\<lambda>_. WTake) (tp_workers p) ws"
  shows "tp_inv ((put_producer i PAway (p\<lparr>tp_queue := tp_queue p @ [x], tp_accepted := tp_accepted p @ [x]\<rparr>))\<lparr>tp_workers := ws\<rparr>)"
    (is "tp_inv ?p")
proof -
  note w = notify_worker [OF n]
  have c: "how_many prod_waits (tp_producers ?p) = how_many prod_waits (tp_producers p)"
      "Suc (how_many prod_runs (tp_producers ?p)) = how_many prod_runs (tp_producers p)"
    using producer_counts [of i "tp_producers p" PAway] i by (simp_all add: put_producer_def)
  have l: "0 < how_many ((=) WWaits) ws \<longrightarrow> tp_running p \<and> length (tp_queue p) < how_many ((=) WTake) ws"
    using inv w(1) by (auto simp: tp_inv_def)
  show ?thesis
    using inv c l w(2,3) free by (auto simp: tp_inv_def put_producer_def isFull_def)
qed

lemma take_inv:
  assumes inv: "tp_inv p" and i: "worker_at i WTake p" and q: "tp_queue p = x # q" and n: "notFull p ps"
  shows "tp_inv ((put_worker i (WRuns x) (p\<lparr>tp_queue := q, tp_taken := tp_taken p @ [x]\<rparr>))\<lparr>tp_producers := ps\<rparr>)"
    (is "tp_inv ?p")
proof -
  have c: "how_many ((=) WWaits) (tp_workers ?p) = how_many ((=) WWaits) (tp_workers p)"
      "Suc (how_many ((=) WTake) (tp_workers ?p)) = how_many ((=) WTake) (tp_workers p)"
    using worker_counts [of i "tp_workers p" "WRuns x"] i by (simp_all add: put_worker_def)
  have t: "in_work (tp_workers ?p) = in_work (tp_workers p) + {#x#}"
    using in_work_update [of i "tp_workers p" "WRuns x"] i by (simp add: put_worker_def)
  have l: "0 < how_many prod_waits ps \<longrightarrow> 0 < maxQueueSize p \<and> maxQueueSize p \<le> length q + how_many prod_runs ps"
    using inv n q notify_producer [of "tp_producers p" ps] by (auto simp: tp_inv_def notFull_def split: if_splits)
  have "mset (tp_taken p @ [x]) = mset (tp_finished p) + in_work (tp_workers ?p)"
    using inv t by (simp add: tp_inv_def)
  with inv c l q i show ?thesis by (auto simp: tp_inv_def put_worker_def)
qed

lemma tp_step_inv:
  assumes "tp_step (\<lambda>_. Returns) p r" and inv: "tp_inv p"
  shows "\<exists>p'. r = Inr p' \<and> tp_inv p'"
  using assms(1)
proof (cases rule: tp_step.cases)
  case (CallRun i x)
  with inv producer_counts [of i "tp_producers p" "PRuns x"] show ?thesis by (auto simp: tp_inv_def put_producer_def)
next
  case (RunFails i x e)
  with inv show ?thesis by (simp add: tp_inv_def run_cases split: if_splits)
next
  case (RunWaits i x)
  then have "isFull p" using inv by (auto simp: tp_inv_def run_cases split: if_splits)
  with RunWaits inv producer_counts [of i "tp_producers p" "PWaits x"] show ?thesis
    by (auto simp: tp_inv_def put_producer_def isFull_def)
next
  case (Run i x p' ws)
  then have "\<not> isFull p" "p' = p\<lparr>tp_queue := tp_queue p @ [x], tp_accepted := tp_accepted p @ [x]\<rparr>"
    using inv by (auto simp: tp_inv_def run_cases split: if_splits)
  with run_inv [OF inv Run(2) _ Run(4)] Run(1) show ?thesis by simp
next
  case (RunWakes i x)
  with inv producer_counts [of i "tp_producers p" "PRuns x"] show ?thesis by (auto simp: tp_inv_def put_producer_def)
next
  case (Loop i)
  with inv worker_counts [of i "tp_workers p" WTake] worker_counts [of i "tp_workers p" WExit]
    in_work_update [of i "tp_workers p" WTake] in_work_update [of i "tp_workers p" WExit]
  show ?thesis by (auto simp: tp_inv_def put_worker_def)
next
  case (TakeWaits i)
  then have "tp_queue p = []" "tp_running p" by (auto simp: ThreadPool_take_def split: if_splits)
  with TakeWaits inv worker_counts [of i "tp_workers p" WWaits] in_work_update [of i "tp_workers p" WWaits] show ?thesis
    by (auto simp: tp_inv_def put_worker_def)
next
  case (TakeNone i p')
  then have "p' = p" "tp_queue p = []" by (auto simp: ThreadPool_take_def split: if_splits)
  with TakeNone inv worker_counts [of i "tp_workers p" WLoop] in_work_update [of i "tp_workers p" WLoop] show ?thesis
    by (auto simp: tp_inv_def put_worker_def)
next
  case (Take i x p' ps)
  then obtain q where q: "tp_queue p = x # q" "p' = p\<lparr>tp_queue := q, tp_taken := tp_taken p @ [x]\<rparr>"
    by (cases "tp_queue p") (auto simp: ThreadPool_take_def split: if_splits)
  with take_inv [OF inv Take(2) q(1) Take(4)] Take(1) show ?thesis by simp
next
  case (TakeWakes i)
  with inv worker_counts [of i "tp_workers p" WTake] in_work_update [of i "tp_workers p" WTake] show ?thesis
    by (auto simp: tp_inv_def put_worker_def)
next
  case (Finish i x)
  with inv worker_counts [of i "tp_workers p" WLoop] in_work_update [of i "tp_workers p" WLoop] show ?thesis
    by (auto simp: tp_inv_def put_worker_def runInThread_task_def caught_def)
next
  case (Init i)
  with inv worker_counts [of i "tp_workers p" WLoop] in_work_update [of i "tp_workers p" WLoop] show ?thesis
    by (auto simp: tp_inv_def put_worker_def runInThread_init_def caught_def)
next
  case Stop
  with inv show ?thesis by (simp add: tp_inv_def ThreadPool_stop_def stop_counts)
qed

lemma tp_step_max: "tp_step (\<lambda>_. Returns) p (Inr p') \<Longrightarrow> maxQueueSize p' = maxQueueSize p"
  by (cases rule: tp_step.cases, assumption)
    (auto simp: put_producer_def put_worker_def ThreadPool_stop_def ThreadPool_run_def ThreadPool_take_def
      runInThread_task_def runInThread_init_def caught_def split: if_splits)

lemma started_inv:
  assumes "0 < n" and "ThreadPool_start n (setMaxQueueSize m (ThreadPool_new k)) = Inr p"
  shows "tp_inv p \<and> maxQueueSize p = m"
proof -
  have "in_work (replicate n WInit) = {#}" by (induction n) (simp_all add: in_work_def)
  with assms show ?thesis
    by (auto simp: ThreadPool_start_def setMaxQueueSize_def ThreadPool_new_def tp_inv_def how_many_def)
qed

interpretation tps: safe_steps "tp_step (\<lambda>_. Returns)" "\<lambda>p. tp_inv p \<and> maxQueueSize p = m"
proof
  fix p r
  assume "tp_step (\<lambda>_. Returns) p r" and "tp_inv p \<and> maxQueueSize p = m"
  with tp_step_inv tp_step_max show "\<exists>p'. r = Inr p' \<and> tp_inv p' \<and> maxQueueSize p' = m" by fastforce
qed

text \<open>C26: A pool with at least one worker, whose tasks do not throw, takes each accepted task at most once and in the order of acceptance, and loses none:
  those not taken are in the queue, where those that \<open>stop\<close> finds stay for ever.
  In every interleaving of producers, workers, spurious wakeups and \<open>stop\<close> no assertion fails; the tasks accepted are those
  taken followed by those in the queue; each task taken is either finished or in work in one worker; a bounded queue keeps
  its bound. After \<open>stop\<close> no worker is asleep, and a worker sleeps while tasks wait only if another is about to take one.\<close>

theorem thread_pool_correct:
  assumes "0 < n" and "ThreadPool_start n (setMaxQueueSize m (ThreadPool_new k)) = Inr p0" and "runs (tp_step (\<lambda>_. Returns)) p0 r"
  shows "\<exists>p. r = Inr p \<and> tp_accepted p = tp_taken p @ tp_queue p \<and>
    mset (tp_taken p) = mset (tp_finished p) + in_work (tp_workers p) \<and>
    (0 < m \<longrightarrow> length (tp_queue p) \<le> m) \<and>
    (WWaits \<in> set (tp_workers p) \<longrightarrow> tp_running p \<and> (tp_queue p = [] \<or> WTake \<in> set (tp_workers p)))"
proof -
  obtain p where p: "r = Inr p" "tp_inv p" "maxQueueSize p = m"
    using tps.runs_safe [OF assms(3), of m] started_inv [OF assms(1,2)] by auto
  have "tp_running p \<and> (tp_queue p = [] \<or> WTake \<in> set (tp_workers p))" if "WWaits \<in> set (tp_workers p)"
  proof -
    have "0 < how_many ((=) WWaits) (tp_workers p)" by (rule how_many_pos [OF that]) simp
    then have "tp_running p" "length (tp_queue p) \<le> how_many ((=) WTake) (tp_workers p)"
      using p(2) by (simp_all add: tp_inv_def)
    then show ?thesis using how_many_zero [of "(=) WTake" "tp_workers p"] by (cases "tp_queue p") auto
  qed
  with p show ?thesis by (simp add: tp_inv_def)
qed

theorem thread_pool_correct_witness:
  "\<exists>p. runs (tp_step (\<lambda>_. Returns)) p (Inr (ThreadPool_stop p)) \<and> tp_workers p = [WInit, WInit] \<and>
    WWaits \<notin> set (tp_workers (ThreadPool_stop (p :: nat tpool)))"
proof -
  let ?p = "(setMaxQueueSize 5 (ThreadPool_new 3) :: nat tpool)\<lparr>tp_running := True, tp_workers := [WInit, WInit]\<rparr>"
  have start: "ThreadPool_start 2 (setMaxQueueSize 5 (ThreadPool_new 3)) = Inr ?p"
    by (simp add: ThreadPool_start_def setMaxQueueSize_def ThreadPool_new_def numeral_2_eq_2)
  have reach: "runs (tp_step (\<lambda>_. Returns)) ?p (Inr (ThreadPool_stop ?p))" by (rule runs_one) (rule tp_step.Stop)
  from thread_pool_correct [OF _ start reach] have "WWaits \<notin> set (tp_workers (ThreadPool_stop ?p))"
    by (auto simp: ThreadPool_stop_def)
  with reach show ?thesis by auto
qed


subsection \<open>Stopping a pool\<close>

lemma throwing_task_aborts: "worker_at i (WRuns x) p \<Longrightarrow> out (Some x) \<noteq> Returns \<Longrightarrow> tp_step out p (Inl Abort)"
  using tp_step.Finish [of i p x out] by (simp add: runInThread_task_def caught_def split: outcome.splits)

text \<open>How many steps a worker is away from leaving.\<close>

fun worker_rank :: "'a worker \<Rightarrow> nat" where
  "worker_rank WExit = 0" | "worker_rank WLoop = 1" | "worker_rank WInit = 2" | "worker_rank (WRuns x) = 2" |
  "worker_rank WTake = 3" | "worker_rank WWaits = 4"

definition pool_rank :: "'a tpool \<Rightarrow> nat" where "pool_rank p = sum_list (map worker_rank (tp_workers p))"

lemma rank_update:
  "i < length ws \<Longrightarrow> sum_list (map worker_rank (ws[i := w])) + worker_rank (ws ! i) = sum_list (map worker_rank ws) + worker_rank w"
proof (induction ws arbitrary: i)
  case (Cons a ws)
  then show ?case by (cases i) auto
qed simp

lemma put_worker_rank: "worker_at i w p \<Longrightarrow> worker_rank v < worker_rank w \<Longrightarrow> pool_rank (put_worker i v p) < pool_rank p"
  using rank_update [of i "tp_workers p" v] by (simp add: pool_rank_def put_worker_def)

lemma stopped_awake: "tp_inv p \<Longrightarrow> \<not> tp_running p \<Longrightarrow> WWaits \<notin> set (tp_workers p)"
  by (auto simp: tp_inv_def how_many_zero)

lemma stopped_step:
  assumes "tp_step (\<lambda>_. Returns) p (Inr q)" and inv: "tp_inv p" and stopped: "\<not> tp_running p"
  shows "\<not> tp_running q \<and> (tp_workers q = tp_workers p \<or> pool_rank q < pool_rank p)"
  using assms(1)
proof (cases rule: tp_step.cases)
  case (Run i x p' ws)
  have "how_many ((=) WWaits) (tp_workers p) = 0" using stopped_awake [OF inv stopped] by (auto simp: how_many_zero)
  then have "ws = tp_workers p" using notify_worker(1) [OF Run(4)] by simp
  with Run inv stopped show ?thesis by (auto simp: tp_inv_def run_cases put_producer_def split: if_splits)
next
  case (Loop i)
  with stopped put_worker_rank [of i p WLoop WExit] show ?thesis by (simp add: put_worker_def)
next
  case (TakeNone i p')
  then have "p' = p" by (auto simp: ThreadPool_take_def split: if_splits)
  with TakeNone stopped put_worker_rank [of i p WTake WLoop] show ?thesis by (simp add: put_worker_def)
next
  case (Take i x p' ps)
  then have "tp_workers p' = tp_workers p" "tp_running p' = tp_running p" by (auto simp: ThreadPool_take_def split: if_splits)
  with Take stopped rank_update [of i "tp_workers p" "WRuns x"] show ?thesis by (simp add: put_worker_def pool_rank_def)
next
  case (TakeWakes i)
  with stopped_awake [OF inv stopped] show ?thesis using nth_mem [of i "tp_workers p"] by auto
next
  case (Finish i x)
  with stopped rank_update [of i "tp_workers p" WLoop] show ?thesis
    by (simp add: put_worker_def pool_rank_def runInThread_task_def caught_def)
next
  case (Init i)
  with stopped rank_update [of i "tp_workers p" WLoop] show ?thesis
    by (auto simp add: put_worker_def pool_rank_def runInThread_init_def caught_def split: if_splits)
next
  case Stop
  have "map (\<lambda>w. if w = WWaits then WTake else w) (tp_workers p) = tp_workers p"
    by (rule map_idI) (use stopped_awake [OF inv stopped] in auto)
  with Stop show ?thesis by (simp add: ThreadPool_stop_def)
qed (use stopped in \<open>simp_all add: put_producer_def put_worker_def ThreadPool_take_def split: if_splits\<close>)

lemma stopped_moves:
  assumes inv: "tp_inv p" and stopped: "\<not> tp_running p" and "\<not> stop_joined p"
  shows "\<exists>q. tp_step (\<lambda>_. Returns) p (Inr q) \<and> tp_workers q \<noteq> tp_workers p"
proof -
  obtain i where i: "i < length (tp_workers p)" "tp_workers p ! i \<noteq> WExit"
    using assms(3) by (auto simp: stop_joined_def list_all_length)
  have ne: "tp_workers (put_worker i w q) \<noteq> tp_workers p" if "tp_workers q = tp_workers p" "w \<noteq> tp_workers p ! i" for w q
    using i(1) that by (metis nth_list_update_eq put_worker_def tpool.select_convs(6) tpool.surjective tpool.update_convs(6))
  show ?thesis
  proof (cases "tp_workers p ! i")
    case WInit
    with i tp_step.Init [of i p "\<lambda>_. Returns"] ne [of _ WLoop] show ?thesis
      by (cases "tp_initCallback p") (force simp: runInThread_init_def caught_def)+
  next
    case WLoop
    with i stopped tp_step.Loop [of i p "\<lambda>_. Returns"] ne [of p WExit] show ?thesis by auto
  next
    case WTake
    show ?thesis
    proof (cases "tp_queue p")
      case Nil
      with i WTake stopped tp_step.TakeNone [of i p p "\<lambda>_. Returns"] ne [of p WLoop] show ?thesis by (auto simp: ThreadPool_take_def)
    next
      case (Cons x xs)
      obtain ps where ps: "notFull p ps"
        using notified_exists [of prod_waits prod_wakes "tp_producers p"] by (cases "0 < maxQueueSize p") (auto simp: notFull_def)
      let ?p = "p\<lparr>tp_queue := xs, tp_taken := tp_taken p @ [x]\<rparr>"
      from tp_step.Take [of i p x ?p ps "\<lambda>_. Returns"] i WTake Cons ps
      have "tp_step (\<lambda>_. Returns) p (Inr ((put_worker i (WRuns x) ?p)\<lparr>tp_producers := ps\<rparr>))"
        by (simp add: ThreadPool_take_def)
      moreover have "tp_workers ((put_worker i (WRuns x) ?p)\<lparr>tp_producers := ps\<rparr>) \<noteq> tp_workers p"
        using ne [of ?p "WRuns x"] WTake by simp
      ultimately show ?thesis by blast
    qed
  next
    case WWaits
    with i stopped_awake [OF inv stopped] nth_mem [OF i(1)] show ?thesis by simp
  next
    case (WRuns x)
    with i tp_step.Finish [of i p x "\<lambda>_. Returns"] ne [of "p\<lparr>tp_finished := tp_finished p @ [x]\<rparr>" WLoop] show ?thesis
      by (auto simp: runInThread_task_def caught_def)
  qed (use i in simp)
qed

lemma stopped_reaches_end:
  assumes "tp_inv p" and "\<not> tp_running p"
  shows "\<exists>q. runs (tp_step (\<lambda>_. Returns)) p (Inr q) \<and> (tp_inv q \<and> \<not> tp_running q) \<and> stop_joined q"
proof (rule runs_progress [where P = "\<lambda>p. tp_inv p \<and> \<not> tp_running p" and rank = pool_rank])
  fix s :: "'a tpool"
  assume s: "tp_inv s \<and> \<not> tp_running s" "\<not> stop_joined s"
  then obtain q where q: "tp_step (\<lambda>_. Returns) s (Inr q)" "tp_workers q \<noteq> tp_workers s" using stopped_moves by blast
  with s stopped_step [OF q(1)] tp_step_inv [OF q(1)]
  show "\<exists>s'. tp_step (\<lambda>_. Returns) s (Inr s') \<and> (tp_inv s' \<and> \<not> tp_running s') \<and> pool_rank s' < pool_rank s" by auto
qed (use assms in simp)

text \<open>C27: \<open>stop\<close> returns. In whatever state a pool with workers is stopped, its workers can finish and leave, so that joining
  them ends; and no interleaving prevents it: from then on no step of any thread sends a worker back, and each step
  of a worker brings the pool nearer to its end.\<close>

theorem stop_joins:
  assumes "0 < n" and "ThreadPool_start n (setMaxQueueSize m (ThreadPool_new k)) = Inr p0"
    and "runs (tp_step (\<lambda>_. Returns)) p0 (Inr p)" and "\<not> tp_running p"
  shows "(\<exists>q. runs (tp_step (\<lambda>_. Returns)) p (Inr q) \<and> stop_joined q) \<and>
    (\<forall>q. tp_step (\<lambda>_. Returns) p (Inr q) \<longrightarrow> \<not> tp_running q \<and> (tp_workers q = tp_workers p \<or> pool_rank q < pool_rank p))"
proof -
  have inv: "tp_inv p" using tps.runs_safe [OF assms(3), of m] started_inv [OF assms(1,2)] by auto
  from stopped_reaches_end [OF inv assms(4)] stopped_step [OF _ inv assms(4)] show ?thesis by blast
qed

theorem stop_joins_witness:
  "\<exists>p q. ThreadPool_start 2 (setMaxQueueSize 5 (ThreadPool_new 3)) = (Inr p :: nat tpool res) \<and>
    runs (tp_step (\<lambda>_. Returns)) (ThreadPool_stop p) (Inr q) \<and> stop_joined q"
proof -
  let ?p = "(setMaxQueueSize 5 (ThreadPool_new 3) :: nat tpool)\<lparr>tp_running := True, tp_workers := [WInit, WInit]\<rparr>"
  have start: "ThreadPool_start 2 (setMaxQueueSize 5 (ThreadPool_new 3)) = Inr ?p"
    by (simp add: ThreadPool_start_def setMaxQueueSize_def ThreadPool_new_def numeral_2_eq_2)
  have reach: "runs (tp_step (\<lambda>_. Returns)) ?p (Inr (ThreadPool_stop ?p))" by (rule runs_one) (rule tp_step.Stop)
  have "\<not> tp_running (ThreadPool_stop ?p)" by (simp add: ThreadPool_stop_def)
  from stop_joins [OF _ start reach this] start show ?thesis by auto
qed


subsection \<open>Stopping a pool whose queue is full\<close>

definition stranded :: "nat \<Rightarrow> 'a \<Rightarrow> 'a tpool \<Rightarrow> bool" where
  "stranded i x p \<longleftrightarrow> \<not> tp_running p \<and> tp_workers p \<noteq> [] \<and> set (tp_workers p) = {WExit} \<and> isFull p \<and>
     i < length (tp_producers p) \<and> tp_producers p ! i \<in> {PWaits x, PRuns x}"

lemma stranded_put_producer:
  assumes "stranded i x p" and "j = i \<longrightarrow> w \<in> {PWaits x, PRuns x}"
  shows "stranded i x (put_producer j w p) \<and> tp_accepted (put_producer j w p) = tp_accepted p \<and>
    tp_finished (put_producer j w p) = tp_finished p"
  using assms by (cases "j = i") (simp_all add: stranded_def put_producer_def isFull_def)

lemma stranded_worker: "stranded i x p \<Longrightarrow> j < length (tp_workers p) \<Longrightarrow> tp_workers p ! j = WExit"
  using nth_mem [of j "tp_workers p"] by (simp add: stranded_def)

lemma stranded_producer: "stranded i x p \<Longrightarrow> tp_producers p ! i = PWaits x \<or> tp_producers p ! i = PRuns x"
  by (simp add: stranded_def)

lemma stranded_step:
  assumes "tp_step out p r" and st: "stranded i x p"
  shows "\<exists>p'. r = Inr p' \<and> stranded i x p' \<and> tp_accepted p' = tp_accepted p \<and> tp_finished p' = tp_finished p"
  using assms(1)
proof (cases rule: tp_step.cases)
  case Stop
  have "map (\<lambda>w. if w = WWaits then WTake else w) (tp_workers p) = tp_workers p"
    by (rule map_idI) (use st in \<open>simp add: stranded_def\<close>)
  with Stop st show ?thesis by (simp add: ThreadPool_stop_def stranded_def isFull_def)
next
  case (CallRun j y)
  then have "j \<noteq> i" using stranded_producer [OF st] by fastforce
  with CallRun(1) stranded_put_producer [OF st, of j "PRuns y"] show ?thesis by simp
next
  case (RunWaits j y)
  then have "j = i \<longrightarrow> y = x" using stranded_producer [OF st] by fastforce
  with RunWaits(1) stranded_put_producer [OF st, of j "PWaits y"] show ?thesis by simp
next
  case (RunWakes j y)
  then have "j = i \<longrightarrow> y = x" using stranded_producer [OF st] by fastforce
  with RunWakes(1) stranded_put_producer [OF st, of j "PRuns y"] show ?thesis by simp
next
  case (RunFails j y e)
  then show ?thesis using st by (simp add: stranded_def run_cases)
next
  case (Run j y p' ws)
  then show ?thesis using st by (simp add: stranded_def run_cases)
qed (use stranded_worker [OF st] in auto)

text \<open>\<open>stop\<close> does not wake a producer that is blocked in \<open>run\<close>. Once the pool is stopped with a full queue and its
  workers have left, such a producer stays in \<open>run\<close> for ever, its task is never accepted, and the tasks left
  in the queue are never run.\<close>

theorem stop_strands_producer:
  assumes "stranded i x p" and "runs (tp_step out) p r"
  shows "\<exists>p'. r = Inr p' \<and> tp_producers p' ! i \<in> {PWaits x, PRuns x} \<and> tp_accepted p' = tp_accepted p \<and>
    tp_finished p' = tp_finished p \<and> isFull p'"
proof -
  have "\<exists>p'. r = Inr p' \<and> stranded i x p' \<and> tp_accepted p' = tp_accepted p \<and> tp_finished p' = tp_finished p"
    using assms(2)
  proof (induction rule: runs.induct)
    case (Step q r)
    then show ?case using stranded_step [of out q r i x] by auto
  qed (use assms(1) in simp)
  then show ?thesis by (auto simp: stranded_def)
qed

text \<open>Such a state is reached with one worker and a queue of one place: two tasks are submitted before the worker has
  started, and the pool is stopped.\<close>

definition full_pool :: "nat tpool" where
  "full_pool = \<lparr>tp_queue = [1], maxQueueSize = 1, tp_running = False, tp_initCallback = False, tp_inits = 0, tp_workers = [WExit],
     tp_producers = [PWaits 2], tp_accepted = [1], tp_taken = [], tp_finished = []\<rparr>"

definition pool0 :: "nat tpool" where
  "pool0 = \<lparr>tp_queue = [], maxQueueSize = 1, tp_running = True, tp_initCallback = False, tp_inits = 0, tp_workers = [WInit],
     tp_producers = [PAway], tp_accepted = [], tp_taken = [], tp_finished = []\<rparr>"

lemma full_pool_reach: "runs (tp_step out) pool0 (Inr full_pool)"
proof -
  let ?p1 = "pool0\<lparr>tp_producers := [PRuns 1]\<rparr>"
  let ?p2 = "pool0\<lparr>tp_queue := [1], tp_accepted := [1]\<rparr>"
  let ?p3 = "?p2\<lparr>tp_producers := [PRuns 2]\<rparr>"
  let ?p4 = "?p2\<lparr>tp_producers := [PWaits 2]\<rparr>"
  let ?p5 = "?p4\<lparr>tp_running := False\<rparr>"
  let ?p6 = "?p5\<lparr>tp_workers := [WLoop]\<rparr>"
  have 1: "tp_step out pool0 (Inr ?p1)" using tp_step.CallRun [of 0 pool0 out 1] by (simp add: pool0_def put_producer_def)
  have n: "notified ((=) WWaits) (\<lambda>_. WTake) (tp_workers ?p1) [WInit]"
    using notified.Nobody [of "[WInit]" "(=) WWaits" "\<lambda>_. WTake"] by (simp add: pool0_def)
  have 2: "tp_step out ?p1 (Inr ?p2)"
    using tp_step.Run [OF _ _ n, of 0 1 "?p1\<lparr>tp_queue := [1], tp_accepted := [1]\<rparr>" out] by (simp add: pool0_def put_producer_def ThreadPool_run_def isFull_def)
  have 3: "tp_step out ?p2 (Inr ?p3)" using tp_step.CallRun [of 0 ?p2 out 2] by (simp add: pool0_def put_producer_def)
  have 4: "tp_step out ?p3 (Inr ?p4)"
    using tp_step.RunWaits [of 0 ?p3 2] by (simp add: pool0_def put_producer_def ThreadPool_run_def isFull_def)
  have 5: "tp_step out ?p4 (Inr ?p5)" using tp_step.Stop [of out ?p4] by (simp add: ThreadPool_stop_def pool0_def)
  have 6: "tp_step out ?p5 (Inr ?p6)" using tp_step.Init [of 0 ?p5 out] by (simp add: pool0_def put_worker_def runInThread_init_def)
  have 7: "tp_step out ?p6 (Inr full_pool)" using tp_step.Loop [of 0 ?p6] by (simp add: pool0_def put_worker_def full_pool_def)
  from runs.Start 1 2 3 4 5 6 7 show ?thesis by (meson runs.Step)
qed

theorem stop_strands_producer_witness:
  "runs (tp_step (\<lambda>_. Returns)) pool0 (Inr full_pool) \<and> ThreadPool_start 1 (setMaxQueueSize 1 (ThreadPool_new 1)) = Inr pool0 \<and>
    (\<exists>p'. Inr (ThreadPool_stop full_pool) = (Inr p' :: nat tpool res) \<and> tp_producers p' ! 0 \<in> {PWaits 2, PRuns 2})"
proof -
  have "stranded 0 2 full_pool" by (simp add: stranded_def full_pool_def isFull_def)
  then have "\<exists>p'. Inr (ThreadPool_stop full_pool) = (Inr p' :: nat tpool res) \<and> tp_producers p' ! 0 \<in> {PWaits 2, PRuns 2}"
    using stop_strands_producer [OF _ runs_one [of "tp_step (\<lambda>_. Returns)", OF tp_step.Stop], of 0 2 full_pool] by fast
  then show ?thesis
    using full_pool_reach
    by (simp add: ThreadPool_start_def setMaxQueueSize_def ThreadPool_new_def pool0_def)
qed

end
