(* ===== verification/Mutex.thy ===== *)
theory Mutex
  imports Runs
begin

section \<open>Mutexes and condition variables (\<open>base/Mutex.h\<close>, \<open>base/Condition.h\<close>, \<open>base/Condition.cc\<close>, \<open>base/Atomic.h\<close>)\<close>

text \<open>
  A \<open>MutexLock\<close> is a pthread mutex together with the thread that holds it, kept for assertions. Threads are named by their
  kernel thread id, which is positive; \<open>holder = 0\<close> means nobody. The pthread functions are modelled by their
  specification: locking blocks while the mutex is owned (also by the caller), unlocking or waiting without owning it is
  undefined, waiting on a condition releases the mutex and blocks in one step, destroying an owned mutex fails.
  \<open>mx_step\<close> interleaves any number of threads at the points between the pthread call and the
  update of \<open>holder_\<close>.
\<close>

record mutexlock =
  owner :: "nat option"   \<comment> \<open>the state of the pthread mutex\<close>
  holder :: nat

definition MutexLock_new :: mutexlock where
  "MutexLock_new = \<lparr>owner = None, holder = 0\<rparr>"

definition MutexLock_delete :: "mutexlock \<Rightarrow> unit res" where
  "MutexLock_delete m = cassert (holder m = 0) (cassert (owner m = None) (Inr ()))"

definition isLockedByThisThread :: "nat \<Rightarrow> mutexlock \<Rightarrow> bool" where
  "isLockedByThisThread tid m \<longleftrightarrow> holder m = tid"

definition assertLocked :: "nat \<Rightarrow> mutexlock \<Rightarrow> unit res" where
  "assertLocked tid m = cassert (isLockedByThisThread tid m) (Inr ())"

definition unassignHolder :: "mutexlock \<Rightarrow> mutexlock" where
  "unassignHolder m = m\<lparr>holder := 0\<rparr>"

definition assignHolder :: "nat \<Rightarrow> mutexlock \<Rightarrow> mutexlock" where
  "assignHolder tid m = m\<lparr>holder := tid\<rparr>"

definition pthread_mutex_lock :: "nat \<Rightarrow> mutexlock \<Rightarrow> mutexlock option" where
  "pthread_mutex_lock tid m = (if owner m = None then Some (m\<lparr>owner := Some tid\<rparr>) else None)"

definition pthread_mutex_unlock :: "nat \<Rightarrow> mutexlock \<Rightarrow> mutexlock res" where
  "pthread_mutex_unlock tid m = (if owner m = Some tid then Inr (m\<lparr>owner := None\<rparr>) else Inl UndefinedBehaviour)"

text \<open>Where a thread is: outside; in \<open>lock\<close> before and after the pthread call; in the critical section; in
  \<open>unlock\<close> before the pthread call; in \<open>wait\<close> before the pthread call, asleep, woken and competing for the mutex, and
  after the pthread call.\<close>

datatype mx_pc = Outside | Locking | Locked | Inside | Unlocking | WaitCalled | Asleep | Woken | WaitReturned

record mx_state =
  mx_lock :: mutexlock
  mx_at :: "nat \<Rightarrow> mx_pc"

definition goto_pc :: "nat \<Rightarrow> mx_pc \<Rightarrow> mx_state \<Rightarrow> mx_state" where
  "goto_pc t pc s = s\<lparr>mx_at := (mx_at s)(t := pc)\<rparr>"

text \<open>\<open>lock\<close> and \<open>unlock\<close>, which the constructor and the destructor of \<open>MutexLockGuard\<close> call.\<close>

definition lock_acquire :: "nat \<Rightarrow> mx_state \<Rightarrow> mx_state option" where
  "lock_acquire t s = map_option (\<lambda>m. goto_pc t Locked (s\<lparr>mx_lock := m\<rparr>)) (pthread_mutex_lock t (mx_lock s))"

definition lock_assign :: "nat \<Rightarrow> mx_state \<Rightarrow> mx_state" where
  "lock_assign t s = goto_pc t Inside (s\<lparr>mx_lock := assignHolder t (mx_lock s)\<rparr>)"

definition unlock_unassign :: "nat \<Rightarrow> mx_state \<Rightarrow> mx_state" where
  "unlock_unassign t s = goto_pc t Unlocking (s\<lparr>mx_lock := unassignHolder (mx_lock s)\<rparr>)"

definition unlock_release :: "nat \<Rightarrow> mx_state \<Rightarrow> mx_state res" where
  "unlock_release t s =
     rbind (pthread_mutex_unlock t (mx_lock s)) (\<lambda>m. Inr (goto_pc t Outside (s\<lparr>mx_lock := m\<rparr>)))"

text \<open>\<open>Condition::wait\<close>: the \<open>UnassignGuard\<close> clears the holder before the pthread call and sets it after.\<close>

definition wait_guard :: "nat \<Rightarrow> mx_state \<Rightarrow> mx_state" where
  "wait_guard t s = goto_pc t WaitCalled (s\<lparr>mx_lock := unassignHolder (mx_lock s)\<rparr>)"

definition wait_sleep :: "nat \<Rightarrow> mx_state \<Rightarrow> mx_state res" where
  "wait_sleep t s =
     rbind (pthread_mutex_unlock t (mx_lock s)) (\<lambda>m. Inr (goto_pc t Asleep (s\<lparr>mx_lock := m\<rparr>)))"

definition wait_reacquire :: "nat \<Rightarrow> mx_state \<Rightarrow> mx_state option" where
  "wait_reacquire t s = map_option (\<lambda>m. goto_pc t WaitReturned (s\<lparr>mx_lock := m\<rparr>)) (pthread_mutex_lock t (mx_lock s))"

definition wait_reassign :: "nat \<Rightarrow> mx_state \<Rightarrow> mx_state" where
  "wait_reassign t s = goto_pc t Inside (s\<lparr>mx_lock := assignHolder t (mx_lock s)\<rparr>)"

definition cond_notifyAll :: "mx_state \<Rightarrow> mx_state" where
  "cond_notifyAll s = s\<lparr>mx_at := \<lambda>t. if mx_at s t = Asleep then Woken else mx_at s t\<rparr>"

text \<open>\<open>Wake\<close> is a signal of \<open>notify\<close>, a time-out or a spurious wakeup; \<open>Check\<close> is a call of \<open>assertLocked\<close> in the
  critical section, \<open>Delete\<close> the destructor once no thread uses the mutex.\<close>

inductive mx_step :: "mx_state \<Rightarrow> mx_state res \<Rightarrow> bool" where
  Call: "0 < t \<Longrightarrow> mx_at s t = Outside \<Longrightarrow> mx_step s (Inr (goto_pc t Locking s))"
| Acquire: "mx_at s t = Locking \<Longrightarrow> lock_acquire t s = Some s' \<Longrightarrow> mx_step s (Inr s')"
| Assign: "mx_at s t = Locked \<Longrightarrow> mx_step s (Inr (lock_assign t s))"
| Check: "mx_at s t = Inside \<Longrightarrow> mx_step s (rbind (assertLocked t (mx_lock s)) (\<lambda>_. Inr s))"
| Unassign: "mx_at s t = Inside \<Longrightarrow> mx_step s (Inr (unlock_unassign t s))"
| Release: "mx_at s t = Unlocking \<Longrightarrow> mx_step s (unlock_release t s)"
| Wait: "mx_at s t = Inside \<Longrightarrow> mx_step s (Inr (wait_guard t s))"
| Sleep: "mx_at s t = WaitCalled \<Longrightarrow> mx_step s (wait_sleep t s)"
| Wake: "mx_at s t = Asleep \<Longrightarrow> mx_step s (Inr (goto_pc t Woken s))"
| NotifyAll: "mx_step s (Inr (cond_notifyAll s))"
| Reacquire: "mx_at s t = Woken \<Longrightarrow> wait_reacquire t s = Some s' \<Longrightarrow> mx_step s (Inr s')"
| Reassign: "mx_at s t = WaitReturned \<Longrightarrow> mx_step s (Inr (wait_reassign t s))"
| Delete: "(\<And>t. mx_at s t = Outside) \<Longrightarrow> mx_step s (rbind (MutexLock_delete (mx_lock s)) (\<lambda>_. Inr s))"

definition mx_init :: mx_state where
  "mx_init = \<lparr>mx_lock = MutexLock_new, mx_at = \<lambda>_. Outside\<rparr>"


subsection \<open>Mutual exclusion\<close>

definition owning :: "mx_pc \<Rightarrow> bool" where
  "owning pc \<longleftrightarrow> pc \<in> {Locked, Inside, Unlocking, WaitCalled, WaitReturned}"

text \<open>Exactly the owner is at a point where the mutex is owned, and \<open>holder\<close> names it while it is inside.\<close>

definition mx_inv :: "mx_state \<Rightarrow> bool" where
  "mx_inv s \<longleftrightarrow> mx_at s 0 = Outside \<and> (\<forall>t. owning (mx_at s t) \<longleftrightarrow> owner (mx_lock s) = Some t) \<and>
     (\<forall>t. 0 < t \<longrightarrow> (holder (mx_lock s) = t \<longleftrightarrow> mx_at s t = Inside))"

lemma mx_invD:
  assumes "mx_inv s"
  shows "mx_at s 0 = Outside" "owning (mx_at s t) \<longleftrightarrow> owner (mx_lock s) = Some t"
    "0 < t \<Longrightarrow> holder (mx_lock s) = t \<longleftrightarrow> mx_at s t = Inside"
  using assms unfolding mx_inv_def by blast+

lemma holder_owner:
  assumes "mx_inv s" and "0 < holder (mx_lock s)"
  shows "owner (mx_lock s) = Some (holder (mx_lock s))"
  using mx_invD(2,3) [OF assms(1), of "holder (mx_lock s)"] assms(2) by (simp add: owning_def)

lemmas mx_ops = lock_acquire_def lock_assign_def unlock_unassign_def unlock_release_def wait_guard_def wait_sleep_def
  wait_reacquire_def wait_reassign_def cond_notifyAll_def goto_pc_def pthread_mutex_lock_def pthread_mutex_unlock_def
  assignHolder_def unassignHolder_def

text \<open>A thread that moves between two points that both own the mutex, or both do not, keeps the invariant
  as long as \<open>holder\<close> follows it.\<close>

lemma mx_inv_move:
  assumes inv: "mx_inv s" and t: "0 < t" and o': "o' = (if owning pc then Some t else if owning (mx_at s t) then None else owner (mx_lock s))"
    and free: "owning pc \<longrightarrow> owning (mx_at s t) \<or> owner (mx_lock s) = None"
    and h': "h' = (if pc = Inside then t else if mx_at s t = Inside then 0 else holder (mx_lock s))"
  shows "mx_inv (s\<lparr>mx_lock := (mx_lock s)\<lparr>owner := o', holder := h'\<rparr>, mx_at := (mx_at s)(t := pc)\<rparr>)"
proof -
  let ?s = "s\<lparr>mx_lock := (mx_lock s)\<lparr>owner := o', holder := h'\<rparr>, mx_at := (mx_at s)(t := pc)\<rparr>"
  have own: "owning (mx_at ?s u) \<longleftrightarrow> owner (mx_lock ?s) = Some u" for u
  proof (cases "u = t")
    case True
    then show ?thesis using mx_invD(2) [OF inv, of t] by (simp add: o')
  next
    case False
    have "\<not> owning (mx_at s u) \<or> \<not> owning (mx_at s t)" using mx_invD(2) [OF inv] False by force
    then show ?thesis using mx_invD(2) [OF inv, of u] False free by (auto simp: o')
  qed
  have hold: "holder (mx_lock ?s) = u \<longleftrightarrow> mx_at ?s u = Inside" if u: "0 < u" for u
  proof (cases "u = t")
    case True
    then show ?thesis using mx_invD(3) [OF inv t] t by (simp add: h')
  next
    case False
    have "mx_at s u \<noteq> Inside" if "pc = Inside \<or> mx_at s t = Inside"
    proof
      assume "mx_at s u = Inside"
      then have "owner (mx_lock s) = Some u" using mx_invD(2) [OF inv, of u] by (simp add: owning_def)
      moreover have "owning (mx_at s t) \<or> owner (mx_lock s) = None"
        using that free by (auto simp: owning_def)
      ultimately show False using mx_invD(2) [OF inv, of t] False by simp
    qed
    then show ?thesis using mx_invD(3) [OF inv u] False u by (simp add: h')
  qed
  show ?thesis unfolding mx_inv_def using own hold mx_invD(1) [OF inv] t by (intro conjI allI impI) (simp_all only:, simp)
qed

lemma mx_pos: "mx_inv s \<Longrightarrow> mx_at s t \<noteq> Outside \<Longrightarrow> 0 < t"
  using mx_invD(1) by (cases t) auto

lemmas mx_move = mx_inv_move [OF _ _ refl _ refl]

lemma mx_owner: "mx_inv s \<Longrightarrow> owning (mx_at s t) \<Longrightarrow> owner (mx_lock s) = Some t"
  using mx_invD(2) by blast

lemma mx_holder: "mx_inv s \<Longrightarrow> mx_at s t = Inside \<Longrightarrow> holder (mx_lock s) = t"
  using mx_invD(3) [of s t] mx_pos [of s t] by simp

lemma same_owner: "owner m = own \<Longrightarrow> m\<lparr>owner := own, holder := h\<rparr> = m\<lparr>holder := h\<rparr>"
  by (cases m) simp

lemma mx_step_safe:
  assumes "mx_step s r" and inv: "mx_inv s"
  shows "\<exists>s'. r = Inr s' \<and> mx_inv s'"
  using assms(1)
proof (cases rule: mx_step.cases)
  case (Call t)
  then show ?thesis using mx_move [OF inv, of t Locking] by (simp add: mx_ops owning_def)
next
  case (Acquire t s')
  then show ?thesis
    using mx_move [OF inv mx_pos [OF inv], of t Locked] by (auto simp: mx_ops owning_def split: if_splits)
next
  case (Assign t)
  then show ?thesis
    using mx_move [OF inv mx_pos [OF inv], of t Inside] mx_owner [OF inv, of t] by (simp add: mx_ops owning_def same_owner)
next
  case (Check t)
  then show ?thesis using mx_holder [OF inv] inv by (simp add: assertLocked_def isLockedByThisThread_def)
next
  case (Unassign t)
  then show ?thesis
    using mx_move [OF inv mx_pos [OF inv], of t Unlocking] mx_owner [OF inv, of t] by (simp add: mx_ops owning_def same_owner)
next
  case (Release t)
  then show ?thesis
    using mx_move [OF inv mx_pos [OF inv], of t Outside] mx_owner [OF inv, of t] by (simp add: mx_ops owning_def)
next
  case (Wait t)
  then show ?thesis
    using mx_move [OF inv mx_pos [OF inv], of t WaitCalled] mx_owner [OF inv, of t] by (simp add: mx_ops owning_def same_owner)
next
  case (Sleep t)
  then show ?thesis
    using mx_move [OF inv mx_pos [OF inv], of t Asleep] mx_owner [OF inv, of t] by (simp add: mx_ops owning_def)
next
  case (Wake t)
  then show ?thesis using mx_move [OF inv mx_pos [OF inv], of t Woken] by (simp add: mx_ops owning_def)
next
  case NotifyAll
  have "owning (mx_at (cond_notifyAll s) t) = owning (mx_at s t)" "mx_at (cond_notifyAll s) t = Inside \<longleftrightarrow> mx_at s t = Inside" for t
    by (simp_all add: cond_notifyAll_def owning_def)
  moreover have "mx_at (cond_notifyAll s) 0 = Outside" "mx_lock (cond_notifyAll s) = mx_lock s"
    using mx_invD(1) [OF inv] by (simp_all add: cond_notifyAll_def)
  ultimately have "mx_inv (cond_notifyAll s)" using inv unfolding mx_inv_def by (simp del: all_simps)
  then show ?thesis using NotifyAll by simp
next
  case (Reacquire t s')
  then show ?thesis
    using mx_move [OF inv mx_pos [OF inv], of t WaitReturned] by (auto simp: mx_ops owning_def split: if_splits)
next
  case (Reassign t)
  then show ?thesis
    using mx_move [OF inv mx_pos [OF inv], of t Inside] mx_owner [OF inv, of t] by (simp add: mx_ops owning_def same_owner)
next
  case Delete
  have "owner (mx_lock s) = None"
    using mx_invD(2) [OF inv, of "the (owner (mx_lock s))"] Delete(2) by (cases "owner (mx_lock s)") (auto simp: owning_def)
  moreover have "holder (mx_lock s) = 0"
    using mx_invD(3) [OF inv, of "holder (mx_lock s)"] Delete(2) by (cases "holder (mx_lock s)") auto
  ultimately show ?thesis using Delete(1) inv by (simp add: MutexLock_delete_def)
qed

interpretation mx: safe_steps mx_step mx_inv
  by unfold_locales (rule mx_step_safe)

lemma mx_inv_init: "mx_inv mx_init"
  by (simp add: mx_inv_def mx_init_def MutexLock_new_def owning_def)

text \<open>C24: The mutex excludes, and its bookkeeping is right: in every interleaving of threads that lock, unlock, wait
  and notify, no assertion fails and no pthread function is called on a mutex the caller does not own;
  \<open>isLockedByThisThread\<close> is true exactly for the thread in the critical section, also around \<open>wait\<close>; two threads
  are never inside at once; and once every thread is outside the destructor's assertions hold.\<close>

theorem mutex_correct:
  assumes "runs mx_step mx_init r"
  shows "\<exists>s. r = Inr s \<and> (\<forall>t. 0 < t \<longrightarrow> (isLockedByThisThread t (mx_lock s) \<longleftrightarrow> mx_at s t = Inside)) \<and>
    (\<forall>t u. mx_at s t = Inside \<and> mx_at s u = Inside \<longrightarrow> t = u) \<and>
    ((\<forall>t. mx_at s t = Outside) \<longrightarrow> MutexLock_delete (mx_lock s) = Inr ())"
proof -
  obtain s where s: "r = Inr s" "mx_inv s" using mx.runs_safe [OF assms mx_inv_init] by blast
  have "t = u" if "mx_at s t = Inside" "mx_at s u = Inside" for t u
    using mx_holder [OF s(2) that(1)] mx_holder [OF s(2) that(2)] by simp
  moreover have "MutexLock_delete (mx_lock s) = Inr ()" if "\<forall>t. mx_at s t = Outside"
    using mx_step_safe [OF mx_step.Delete [of s] s(2)] that by (auto simp: rbind_def split: sum.splits)
  ultimately show ?thesis using s mx_invD(3) [OF s(2)] by (auto simp: isLockedByThisThread_def)
qed

text \<open>Thread 5 enters the critical section.\<close>

lemma five_enters:
  "runs mx_step mx_init (Inr \<lparr>mx_lock = \<lparr>owner = Some 5, holder = 5\<rparr>, mx_at = (\<lambda>_. Outside)(5 := Inside)\<rparr>)"
proof -
  let ?a = "goto_pc 5 Locking mx_init"
  let ?b = "goto_pc 5 Locked (?a\<lparr>mx_lock := \<lparr>owner = Some 5, holder = 0\<rparr>\<rparr>)"
  have "runs mx_step mx_init (Inr ?a)" by (rule runs_one) (rule mx_step.Call, simp_all add: mx_init_def)
  moreover have "mx_step ?a (Inr ?b)"
    by (rule mx_step.Acquire [of _ 5]) (simp_all add: mx_ops mx_init_def MutexLock_new_def)
  moreover have "mx_step ?b (Inr (lock_assign 5 ?b))" by (rule mx_step.Assign) (simp add: goto_pc_def)
  ultimately have "runs mx_step mx_init (Inr (lock_assign 5 ?b))" using runs.Step by metis
  then show ?thesis by (simp add: mx_ops mx_init_def)
qed

theorem mutex_correct_witness:
  "\<exists>s. runs mx_step mx_init (Inr s) \<and> mx_at s 5 = Inside \<and> isLockedByThisThread 5 (mx_lock s) \<and> \<not> isLockedByThisThread 6 (mx_lock s)"
proof -
  let ?s = "\<lparr>mx_lock = \<lparr>owner = Some 5, holder = 5\<rparr>, mx_at = (\<lambda>_. Outside)(5 := Inside)\<rparr>"
  have "0 < t \<longrightarrow> (isLockedByThisThread t (mx_lock ?s) \<longleftrightarrow> mx_at ?s t = Inside)" for t
    using mutex_correct [OF five_enters] by blast
  from this [of 5] this [of 6] five_enters show ?thesis by (intro exI [of _ ?s]) simp
qed

text \<open>A thread that locks the mutex a second time blocks for ever: the mutex is not recursive.\<close>

lemma relock_blocks: "owner (mx_lock s) = Some t \<Longrightarrow> lock_acquire t s = None"
  by (simp add: mx_ops)


subsection \<open>Timed waits\<close>

text \<open>\<open>waitForSeconds\<close> computes the absolute time at which the wait ends from the current time, seconds and
  nanoseconds, and the length of the wait in nanoseconds.\<close>

definition waitForSeconds_deadline :: "int \<times> int \<Rightarrow> int \<Rightarrow> int \<times> int" where
  "waitForSeconds_deadline now nanoseconds =
     (fst now + (snd now + nanoseconds) sdiv 1000000000, (snd now + nanoseconds) smod 1000000000)"

text \<open>\<open>pthread_cond_timedwait\<close> refuses a deadline whose nanoseconds are not in range.\<close>

definition timespec_ok :: "int \<times> int \<Rightarrow> bool" where
  "timespec_ok ts \<longleftrightarrow> 0 \<le> snd ts \<and> snd ts < 1000000000"

lemma deadline_exact:
  assumes "timespec_ok now" and "0 \<le> ns"
  shows "timespec_ok (waitForSeconds_deadline now ns) \<and>
    fst (waitForSeconds_deadline now ns) * 1000000000 + snd (waitForSeconds_deadline now ns) =
    fst now * 1000000000 + snd now + ns"
proof -
  have nn: "0 \<le> snd now + ns" using assms by (simp add: timespec_ok_def)
  have "(snd now + ns) div 1000000000 * 1000000000 + (snd now + ns) mod 1000000000 = snd now + ns"
    by (rule div_mult_mod_eq)
  then show ?thesis
    using nn by (simp add: waitForSeconds_deadline_def timespec_ok_def sdiv_nonneg smod_nonneg distrib_right)
qed

text \<open>A negative length can give a deadline that is refused, so that the call returns at once and reports no time-out.\<close>

lemma negative_wait_refused: "\<not> timespec_ok (waitForSeconds_deadline (5, 0) (- 1))"
  by (simp add: waitForSeconds_deadline_def timespec_ok_def signed_modulo_int_def)


subsection \<open>Atomic integers\<close>

text \<open>The operations of \<open>AtomicIntegerT\<close>, each one indivisible step on a machine integer: they return the
  old or the new value together with the new contents.\<close>

definition getAndAdd :: "'w::len word \<Rightarrow> 'w word \<Rightarrow> 'w word \<times> 'w word" where
  "getAndAdd x v = (v, v + x)"

definition addAndGet :: "'w::len word \<Rightarrow> 'w word \<Rightarrow> 'w word \<times> 'w word" where
  "addAndGet x v = (let (old, v) = getAndAdd x v in (old + x, v))"

definition incrementAndGet :: "'w::len word \<Rightarrow> 'w word \<times> 'w word" where
  "incrementAndGet v = addAndGet 1 v"

definition decrementAndGet :: "'w::len word \<Rightarrow> 'w word \<times> 'w word" where
  "decrementAndGet v = addAndGet (- 1) v"

definition getAndSet :: "'w::len word \<Rightarrow> 'w word \<Rightarrow> 'w word \<times> 'w word" where
  "getAndSet new v = (v, new)"

text \<open>Numbers drawn from a counter by \<open>incrementAndGet\<close>, in any order of the threads.\<close>

fun draw :: "nat \<Rightarrow> 'w::len word \<Rightarrow> 'w word list" where
  "draw 0 v = []"
| "draw (Suc n) v = (let (x, v) = incrementAndGet v in x # draw n v)"

lemma draw_eq: "draw n v = map (\<lambda>i. v + word_of_nat i) [1..<Suc n]"
proof (induction n arbitrary: v)
  case (Suc n)
  have "map (\<lambda>i. v + word_of_nat i) [1..<Suc (Suc n)] = (v + 1) # map (\<lambda>i. v + 1 + word_of_nat i) [1..<Suc n]"
    by (simp only: upt_conv_Cons [of 1 "Suc (Suc n)"] map_Suc_upt [symmetric] list.map map_map) (simp add: o_def add.assoc)
  then show ?case using Suc by (simp add: incrementAndGet_def addAndGet_def getAndAdd_def)
qed simp

lemma draw_distinct:
  fixes v :: "'w::len word"
  assumes "n < 2 ^ LENGTH('w)"
  shows "distinct (draw n v)"
proof -
  have "i = j" if "i \<le> n" "j \<le> n" "word_of_nat i = (word_of_nat j :: 'w word)" for i j
  proof -
    have "i mod 2 ^ LENGTH('w) = j mod 2 ^ LENGTH('w)" using that(3) by (metis unat_of_nat)
    then show ?thesis using that(1,2) assms by simp
  qed
  then show ?thesis unfolding draw_eq distinct_map inj_on_def by auto
qed

end
