(* ===== verification/EventLoopThread.thy ===== *)
theory EventLoopThread
  imports Runs
begin

section \<open>A thread with an event loop (\<open>net/EventLoopThread.cc\<close>)\<close>

text \<open>
  An \<open>EventLoopThread\<close> starts a thread that makes an event loop on its stack, publishes its address in \<open>loop_\<close> and runs it;
  \<open>startLoop\<close> waits for the address. The destructor asks the loop to quit and joins the thread. The
  state joins the object, the thread that owns it and the thread it starts; \<open>elt_step\<close> interleaves the
  two. The loop itself is reduced to what matters here: whether it exists and its flag \<open>quit_\<close>, which \<open>loop()\<close> clears on
  entry and which ends it. \<open>others\<close> tells whether anybody but the destructor may ask the loop to quit, \<open>patient\<close> that the
  object is destroyed only after the loop was entered.
\<close>

datatype owner_pc =
    OReady                   \<comment> \<open>constructed\<close>
  | OStarting                \<comment> \<open>in \<open>thread_.start()\<close>\<close>
  | OTesting                 \<comment> \<open>at \<open>while (loop_ == NULL)\<close>\<close>
  | OWaiting                 \<comment> \<open>in \<open>cond_.wait()\<close>\<close>
  | OReturned                \<comment> \<open>\<open>startLoop\<close> has returned\<close>
  | OQuits                   \<comment> \<open>in the destructor, about to call \<open>loop_->quit()\<close>\<close>
  | OWakes                   \<comment> \<open>in \<open>quit()\<close>, \<open>quit_\<close> is set, about to call \<open>wakeup()\<close>\<close>
  | OJoins                   \<comment> \<open>in \<open>thread_.join()\<close>\<close>
  | ODestroys                \<comment> \<open>about to destroy the members\<close>
  | ODestroyed

datatype loop_pc =
    LNone | LConstructs | LCallsBack | LPublishes | LEnters | LLoops | LEnds | LHoldsLock | LUnlocked | LFinished

record elthread =
  elt_loop :: bool           \<comment> \<open>\<open>loop_\<close> is the address of the child's loop, not \<open>NULL\<close>\<close>
  elt_exiting :: bool
  elt_started :: bool
  elt_alive :: bool          \<comment> \<open>the loop on the child's stack exists\<close>
  elt_quit :: bool           \<comment> \<open>\<open>quit_\<close> of that loop\<close>
  elt_owner :: owner_pc
  elt_child :: loop_pc

definition EventLoopThread_new :: elthread where
  "EventLoopThread_new = \<lparr>elt_loop = False, elt_exiting = False, elt_started = False, elt_alive = False,
     elt_quit = False, elt_owner = OReady, elt_child = LNone\<rparr>"

text \<open>\<open>startLoop\<close>: starting the thread, and one round of the wait under the mutex.\<close>

definition startLoop_start :: "elthread \<Rightarrow> elthread res" where
  "startLoop_start s =
     cassert (\<not> elt_started s) (Inr (s\<lparr>elt_started := True, elt_owner := OStarting, elt_child := LConstructs\<rparr>))"

definition startLoop_test :: "elthread \<Rightarrow> elthread" where
  "startLoop_test s = s\<lparr>elt_owner := if elt_loop s then OReturned else OWaiting\<rparr>"

text \<open>The destructor: the test of \<open>loop_\<close>, which takes no lock, the call of \<open>quit\<close>, which reads \<open>loop_\<close> again, and the
  destruction of the members, where the mutex asserts that nobody holds it. \<open>quit\<close> has two halves: it sets \<open>quit_\<close>, and then, being
  in another thread than the loop's, calls \<open>wakeup()\<close>, which uses the loop once more. The loop may end in between, at the end of any turn.\<close>

definition dtor_test :: "elthread \<Rightarrow> elthread" where
  "dtor_test s = s\<lparr>elt_exiting := True, elt_owner := if elt_loop s then OQuits else ODestroys\<rparr>"

definition dtor_quit :: "elthread \<Rightarrow> elthread res" where
  "dtor_quit s =
     (if \<not> elt_loop s \<or> \<not> elt_alive s then Inl UndefinedBehaviour
      else Inr (s\<lparr>elt_quit := True, elt_owner := OWakes\<rparr>))"

definition dtor_wakeup :: "elthread \<Rightarrow> elthread res" where
  "dtor_wakeup s = (if \<not> elt_alive s then Inl UndefinedBehaviour else Inr (s\<lparr>elt_owner := OJoins\<rparr>))"

definition dtor_members :: "elthread \<Rightarrow> elthread res" where
  "dtor_members s = cassert (elt_child s \<noteq> LHoldsLock) (Inr (s\<lparr>elt_owner := ODestroyed\<rparr>))"

text \<open>\<open>threadFunc\<close>. Its uses of \<open>callback_\<close>, \<open>mutex_\<close> and \<open>loop_\<close> are undefined once the object is destroyed.\<close>

definition with_object :: "elthread \<Rightarrow> elthread \<Rightarrow> elthread res" where
  "with_object s s' = (if elt_owner s = ODestroyed then Inl UndefinedBehaviour else Inr s')"

definition thread_construct :: "elthread \<Rightarrow> elthread" where
  "thread_construct s = s\<lparr>elt_alive := True, elt_quit := False, elt_child := LCallsBack\<rparr>"

definition thread_callback :: "elthread \<Rightarrow> elthread res" where
  "thread_callback s = with_object s (s\<lparr>elt_child := LPublishes\<rparr>)"

definition thread_publish :: "elthread \<Rightarrow> elthread res" where
  "thread_publish s =
     with_object s (s\<lparr>elt_loop := True, elt_child := LEnters,
       elt_owner := if elt_owner s = OWaiting then OTesting else elt_owner s\<rparr>)"

definition thread_enter :: "elthread \<Rightarrow> elthread" where
  "thread_enter s = s\<lparr>elt_quit := False, elt_child := LLoops\<rparr>"

definition thread_clear :: "elthread \<Rightarrow> elthread res" where
  "thread_clear s = with_object s (s\<lparr>elt_loop := False, elt_child := LHoldsLock\<rparr>)"

definition thread_unlock :: "elthread \<Rightarrow> elthread res" where
  "thread_unlock s = with_object s (s\<lparr>elt_child := LUnlocked\<rparr>)"

definition thread_finish :: "elthread \<Rightarrow> elthread" where
  "thread_finish s = s\<lparr>elt_alive := False, elt_child := LFinished\<rparr>"

inductive elt_step :: "bool \<Rightarrow> bool \<Rightarrow> elthread \<Rightarrow> elthread res \<Rightarrow> bool" for others patient where
  StartLoop: "elt_owner s = OReady \<Longrightarrow> elt_step others patient s (startLoop_start s)"
| Started: "elt_owner s = OStarting \<Longrightarrow> elt_step others patient s (Inr (s\<lparr>elt_owner := OTesting\<rparr>))"
| TestLoop: "elt_owner s = OTesting \<Longrightarrow> elt_child s \<noteq> LHoldsLock \<Longrightarrow> elt_step others patient s (Inr (startLoop_test s))"
| Spurious: "elt_owner s = OWaiting \<Longrightarrow> elt_step others patient s (Inr (s\<lparr>elt_owner := OTesting\<rparr>))"
| Destroy: "elt_owner s = OReady \<or> elt_owner s = OReturned \<and> (patient \<longrightarrow> elt_child s = LLoops) \<Longrightarrow>
    elt_step others patient s (Inr (dtor_test s))"
| Quit: "elt_owner s = OQuits \<Longrightarrow> elt_step others patient s (dtor_quit s)"
| Wake: "elt_owner s = OWakes \<Longrightarrow> elt_step others patient s (dtor_wakeup s)"
| Join: "elt_owner s = OJoins \<Longrightarrow> elt_child s = LFinished \<Longrightarrow> elt_step others patient s (Inr (s\<lparr>elt_owner := ODestroys\<rparr>))"
| Members: "elt_owner s = ODestroys \<Longrightarrow> elt_step others patient s (dtor_members s)"
| Construct: "elt_child s = LConstructs \<Longrightarrow> elt_step others patient s (Inr (thread_construct s))"
| Callback: "elt_child s = LCallsBack \<Longrightarrow> elt_step others patient s (thread_callback s)"
| Publish: "elt_child s = LPublishes \<Longrightarrow> elt_step others patient s (thread_publish s)"
| Enter: "elt_child s = LEnters \<Longrightarrow> elt_step others patient s (Inr (thread_enter s))"
| LoopEnds: "elt_child s = LLoops \<Longrightarrow> elt_quit s \<Longrightarrow> elt_step others patient s (Inr (s\<lparr>elt_child := LEnds\<rparr>))"
| Clear: "elt_child s = LEnds \<Longrightarrow> elt_step others patient s (thread_clear s)"
| Unlock: "elt_child s = LHoldsLock \<Longrightarrow> elt_step others patient s (thread_unlock s)"
| Finish: "elt_child s = LUnlocked \<Longrightarrow> elt_step others patient s (Inr (thread_finish s))"
| OtherQuits: "others \<Longrightarrow> elt_alive s \<Longrightarrow> elt_step others patient s (Inr (s\<lparr>elt_quit := True\<rparr>))"

lemmas elt_ops = startLoop_start_def startLoop_test_def dtor_test_def dtor_quit_def dtor_wakeup_def dtor_members_def with_object_def
  thread_construct_def thread_callback_def thread_publish_def thread_enter_def thread_clear_def thread_unlock_def
  thread_finish_def


subsection \<open>Safety when only the destructor ends the loop\<close>

text \<open>How far the child can be when the owner is at a given point.\<close>

fun owner_allows :: "owner_pc \<Rightarrow> loop_pc \<Rightarrow> bool" where
  "owner_allows OReady c \<longleftrightarrow> c = LNone"
| "owner_allows OStarting c \<longleftrightarrow> c \<in> {LConstructs, LCallsBack, LPublishes, LEnters, LLoops}"
| "owner_allows OTesting c \<longleftrightarrow> c \<in> {LConstructs, LCallsBack, LPublishes, LEnters, LLoops}"
| "owner_allows OWaiting c \<longleftrightarrow> c \<in> {LConstructs, LCallsBack, LPublishes}"
| "owner_allows OReturned c \<longleftrightarrow> c \<in> {LEnters, LLoops}"
| "owner_allows OQuits c \<longleftrightarrow> c \<in> {LEnters, LLoops}"
| "owner_allows OWakes c \<longleftrightarrow> c \<in> {LEnters, LLoops, LEnds, LHoldsLock, LUnlocked, LFinished}"
| "owner_allows OJoins c \<longleftrightarrow> c \<in> {LEnters, LLoops, LEnds, LHoldsLock, LUnlocked, LFinished}"
| "owner_allows ODestroys c \<longleftrightarrow> c \<in> {LNone, LFinished}"
| "owner_allows ODestroyed c \<longleftrightarrow> c \<in> {LNone, LFinished}"

definition elt_inv :: "elthread \<Rightarrow> bool" where
  "elt_inv s \<longleftrightarrow> owner_allows (elt_owner s) (elt_child s) \<and>
     (elt_loop s \<longleftrightarrow> elt_child s \<in> {LEnters, LLoops, LEnds}) \<and>
     (elt_alive s \<longleftrightarrow> elt_child s \<notin> {LNone, LConstructs, LFinished}) \<and>
     (elt_started s \<longleftrightarrow> elt_child s \<noteq> LNone) \<and>
     (elt_quit s \<longrightarrow> elt_owner s \<in> {OWakes, OJoins, ODestroys, ODestroyed})"

text \<open>The one thing that goes wrong: \<open>quit()\<close> calls \<open>wakeup()\<close> on a loop that is gone.\<close>

definition too_late :: "elthread \<Rightarrow> bool" where
  "too_late s \<longleftrightarrow> elt_owner s = OWakes \<and> \<not> elt_alive s"

lemma elt_step_checked:
  assumes "elt_step False patient s r" and "elt_inv s"
  shows "(\<exists>s'. r = Inr s' \<and> elt_inv s') \<or> (\<exists>e. r = Inl e \<and> e = UndefinedBehaviour \<and> too_late s)"
  using assms by (cases rule: elt_step.cases) (cases "elt_owner s"; auto simp: elt_inv_def elt_ops too_late_def)+

interpretation elt: checked_steps "elt_step False patient" elt_inv "\<lambda>s e. e = UndefinedBehaviour \<and> too_late s" for patient
  by unfold_locales (rule elt_step_checked)

lemma elt_inv_new: "elt_inv EventLoopThread_new"
  by (simp add: elt_inv_def EventLoopThread_new_def)

text \<open>C29: Safety of a loop thread whose loop only the destructor asks to quit. In every interleaving no assertion
  fails; when \<open>startLoop\<close> has returned, the loop it returned exists and goes on existing until the destructor has set its flag; and a
  destroyed object leaves no thread behind. Something that is gone is used in one case only: the destructor has set \<open>quit_\<close>, the loop has noticed the
  flag by itself, ended and been destroyed, and only then \<open>quit()\<close> calls \<open>wakeup()\<close> on it.\<close>

theorem loop_thread_safe:
  assumes "runs (elt_step False patient) EventLoopThread_new r"
  shows "(\<exists>s. r = Inr s \<and> (elt_owner s \<in> {OReturned, OQuits} \<longrightarrow> elt_loop s \<and> elt_alive s) \<and>
    (elt_owner s = ODestroyed \<longrightarrow> \<not> elt_alive s \<and> elt_child s \<in> {LNone, LFinished})) \<or>
    (\<exists>s. runs (elt_step False patient) EventLoopThread_new (Inr s) \<and> elt_owner s = OWakes \<and> elt_child s = LFinished \<and>
      r = dtor_wakeup s \<and> r = Inl UndefinedBehaviour)"
proof -
  from elt.runs_checked [OF assms elt_inv_new] show ?thesis
  proof
    assume "\<exists>s. r = Inr s \<and> elt_inv s"
    then obtain s where "r = Inr s" "elt_inv s" by blast
    then show ?thesis by (cases "elt_owner s") (auto simp: elt_inv_def)
  next
    assume "\<exists>s e. runs (elt_step False patient) EventLoopThread_new (Inr s) \<and> elt_inv s \<and> r = Inl e \<and> e = UndefinedBehaviour \<and> too_late s"
    then show ?thesis by (auto simp: too_late_def elt_inv_def dtor_wakeup_def)
  qed
qed

text \<open>A run that starts the thread and gets the loop back, with the child about to enter it.\<close>

definition elt_published :: elthread where
  "elt_published = \<lparr>elt_loop = True, elt_exiting = False, elt_started = True, elt_alive = True, elt_quit = False,
     elt_owner = OReturned, elt_child = LEnters\<rparr>"

lemma published_run: "runs (elt_step others patient) EventLoopThread_new (Inr elt_published)"
proof -
  let ?S = "elt_step others patient"
  let ?s = "\<lambda>lp al ow ch. \<lparr>elt_loop = lp, elt_exiting = False, elt_started = True, elt_alive = al, elt_quit = False,
     elt_owner = ow, elt_child = ch\<rparr>"
  note [simp] = elt_ops EventLoopThread_new_def and step = runs_next [of ?S EventLoopThread_new]
  have "runs ?S EventLoopThread_new (Inr (?s False False OStarting LConstructs))"
    by (rule step [OF runs.Start elt_step.StartLoop]) simp_all
  then have "runs ?S EventLoopThread_new (Inr (?s False True OStarting LCallsBack))"
    by (rule step [OF _ elt_step.Construct]) simp_all
  then have "runs ?S EventLoopThread_new (Inr (?s False True OStarting LPublishes))"
    by (rule step [OF _ elt_step.Callback]) simp_all
  then have "runs ?S EventLoopThread_new (Inr (?s True True OStarting LEnters))"
    by (rule step [OF _ elt_step.Publish]) simp_all
  then have "runs ?S EventLoopThread_new (Inr (?s True True OTesting LEnters))"
    by (rule step [OF _ elt_step.Started]) simp_all
  then have "runs ?S EventLoopThread_new (Inr (?s True True OReturned LEnters))"
    by (rule step [OF _ elt_step.TestLoop]) simp_all
  then show ?thesis by (simp add: elt_published_def)
qed

text \<open>The loop of a patient owner ends between the two halves of \<open>quit()\<close>.\<close>

definition quit_raced :: elthread where
  "quit_raced = \<lparr>elt_loop = False, elt_exiting = True, elt_started = True, elt_alive = False, elt_quit = True,
     elt_owner = OWakes, elt_child = LFinished\<rparr>"

lemma quit_raced_run: "runs (elt_step others patient) EventLoopThread_new (Inr quit_raced)"
proof -
  let ?S = "elt_step others patient"
  let ?s = "\<lambda>lp qu ow ch. \<lparr>elt_loop = lp, elt_exiting = True, elt_started = True, elt_alive = True, elt_quit = qu,
     elt_owner = ow, elt_child = ch\<rparr>"
  note [simp] = elt_ops elt_published_def and step = runs_next [of ?S EventLoopThread_new]
  have "runs ?S EventLoopThread_new (Inr (elt_published\<lparr>elt_child := LLoops\<rparr>))"
    by (rule step [OF published_run elt_step.Enter]) simp_all
  then have "runs ?S EventLoopThread_new (Inr (?s True False OQuits LLoops))"
    by (rule step [OF _ elt_step.Destroy]) simp_all
  then have "runs ?S EventLoopThread_new (Inr (?s True True OWakes LLoops))"
    by (rule step [OF _ elt_step.Quit]) simp_all
  then have "runs ?S EventLoopThread_new (Inr (?s True True OWakes LEnds))"
    by (rule step [OF _ elt_step.LoopEnds]) simp_all
  then have "runs ?S EventLoopThread_new (Inr (?s False True OWakes LHoldsLock))"
    by (rule step [OF _ elt_step.Clear]) simp_all
  then have "runs ?S EventLoopThread_new (Inr (?s False True OWakes LUnlocked))"
    by (rule step [OF _ elt_step.Unlock]) simp_all
  then show ?thesis by (rule step [OF _ elt_step.Finish]) (simp_all add: quit_raced_def)
qed

theorem loop_thread_safe_witness:
  "elt_loop elt_published \<and> elt_alive elt_published \<and>
   (\<exists>s. runs (elt_step False True) EventLoopThread_new (Inr s) \<and> elt_owner s = OWakes \<and> dtor_wakeup s = Inl UndefinedBehaviour)"
proof -
  have "runs (elt_step False True) EventLoopThread_new (dtor_wakeup quit_raced)"
    by (rule runs.Step [OF quit_raced_run elt_step.Wake]) (simp add: quit_raced_def)
  from loop_thread_safe [OF this] loop_thread_safe [OF published_run [of False]] show ?thesis
    by (auto simp: elt_published_def quit_raced_def dtor_wakeup_def)
qed


subsection \<open>Completion\<close>

text \<open>With a patient owner the flag the destructor sets is not cleared again.\<close>

definition elt_patient_inv :: "elthread \<Rightarrow> bool" where
  "elt_patient_inv s \<longleftrightarrow> elt_inv s \<and> (elt_owner s \<in> {OQuits, OWakes, OJoins} \<longrightarrow> elt_child s \<noteq> LEnters) \<and>
     (elt_owner s \<in> {OWakes, OJoins} \<and> elt_child s = LLoops \<longrightarrow> elt_quit s)"

lemma elt_patient_step:
  assumes "elt_step False True s r" and "elt_patient_inv s" and "r = Inr s'"
  shows "elt_patient_inv s'"
proof -
  have inv: "elt_inv s" using assms(2) by (simp add: elt_patient_inv_def)
  have inv': "elt_inv s'" using elt_step_checked [OF assms(1) inv] assms(3) by simp
  have a: "elt_owner s \<in> {OQuits, OWakes, OJoins} \<longrightarrow> elt_child s \<noteq> LEnters"
      "elt_owner s \<in> {OWakes, OJoins} \<and> elt_child s = LLoops \<longrightarrow> elt_quit s"
    using assms(2) by (simp_all add: elt_patient_inv_def)
  have "elt_owner s = OReady \<longrightarrow> \<not> elt_loop s" "elt_child s = LPublishes \<longrightarrow> elt_owner s \<notin> {OQuits, OWakes, OJoins}"
    using inv by (auto simp: elt_inv_def)
  with a assms(1,3) have "(elt_owner s' \<in> {OQuits, OWakes, OJoins} \<longrightarrow> elt_child s' \<noteq> LEnters) \<and>
      (elt_owner s' \<in> {OWakes, OJoins} \<and> elt_child s' = LLoops \<longrightarrow> elt_quit s')"
    by (elim elt_step.cases) (auto simp: elt_ops cassert_def split: if_splits)
  with inv' show ?thesis unfolding elt_patient_inv_def by blast
qed

interpretation eltp: checked_steps "elt_step False True" elt_patient_inv "\<lambda>s e. e = UndefinedBehaviour \<and> too_late s"
proof
  fix s r
  assume a: "elt_step False True s r" "elt_patient_inv s"
  then have "elt_inv s" by (simp add: elt_patient_inv_def)
  from elt_step_checked [OF a(1) this] elt_patient_step [OF a]
  show "(\<exists>s'. r = Inr s' \<and> elt_patient_inv s') \<or> (\<exists>e. r = Inl e \<and> e = UndefinedBehaviour \<and> too_late s)" by auto
qed

fun owner_rank :: "owner_pc \<Rightarrow> nat" where
  "owner_rank OReady = 9" | "owner_rank OStarting = 8" | "owner_rank OTesting = 7" | "owner_rank OWaiting = 6"
| "owner_rank OReturned = 5" | "owner_rank OQuits = 4" | "owner_rank OWakes = 3" | "owner_rank OJoins = 2" | "owner_rank ODestroys = 1"
| "owner_rank ODestroyed = 0"

fun child_rank :: "loop_pc \<Rightarrow> nat" where
  "child_rank LNone = 9" | "child_rank LConstructs = 8" | "child_rank LCallsBack = 7" | "child_rank LPublishes = 6"
| "child_rank LEnters = 5" | "child_rank LLoops = 4" | "child_rank LEnds = 3" | "child_rank LHoldsLock = 2"
| "child_rank LUnlocked = 1" | "child_rank LFinished = 0"

definition elt_rank :: "elthread \<Rightarrow> nat" where
  "elt_rank s = 10 * child_rank (elt_child s) + owner_rank (elt_owner s)"

text \<open>The steps without spurious wakeups of the owner.\<close>

definition elt_prompt :: "bool \<Rightarrow> bool \<Rightarrow> elthread \<Rightarrow> elthread res \<Rightarrow> bool" where
  "elt_prompt others patient s r \<longleftrightarrow> elt_step others patient s r \<and>
     \<not> (elt_owner s = OWaiting \<and> r = Inr (s\<lparr>elt_owner := OTesting\<rparr>))"

lemma elt_prompt_rank: "elt_step others patient s (Inr s') \<Longrightarrow> elt_rank s' < elt_rank s \<Longrightarrow> elt_prompt others patient s (Inr s')"
  by (auto simp: elt_prompt_def elt_rank_def)

text \<open>As long as the object is not destroyed, the owner or else the child can do a step that leads towards it.\<close>

lemma elt_owner_moves:
  assumes "elt_inv s" and "elt_owner s \<in> {OReady, OStarting, OTesting, OQuits, ODestroys} \<or>
    elt_owner s = OWakes \<and> elt_alive s \<or> elt_owner s = OReturned \<and> elt_child s = LLoops \<or> elt_owner s = OJoins \<and> elt_child s = LFinished"
  shows "\<exists>s'. elt_step False True s (Inr s') \<and> elt_rank s' < elt_rank s \<and> \<not> too_late s'"
proof -
  have step: "elt_step False True s (Inr s') \<Longrightarrow> elt_rank s' < elt_rank s \<Longrightarrow> \<not> too_late s' \<Longrightarrow> ?thesis" for s' by blast
  show ?thesis
  proof (cases "elt_owner s")
    case OReady
    then show ?thesis
      using assms elt_step.Destroy [of s True False] by (intro step) (auto simp: elt_rank_def too_late_def elt_inv_def elt_ops)
  next
    case OStarting
    then show ?thesis using elt_step.Started [of s False True] by (intro step) (auto simp: elt_rank_def too_late_def)
  next
    case OTesting
    then show ?thesis
      using assms elt_step.TestLoop [of s False True]
      by (intro step [of "startLoop_test s"]) (auto simp: elt_rank_def too_late_def elt_inv_def startLoop_test_def)
  next
    case OReturned
    then show ?thesis
      using assms elt_step.Destroy [of s True False] by (intro step) (auto simp: elt_rank_def too_late_def elt_inv_def elt_ops)
  next
    case OQuits
    then have "dtor_quit s = Inr (s\<lparr>elt_quit := True, elt_owner := OWakes\<rparr>)" "elt_alive s"
      using assms by (auto simp: elt_inv_def elt_ops)
    then show ?thesis using OQuits elt_step.Quit [of s False True] by (intro step) (auto simp: elt_rank_def too_late_def)
  next
    case OWakes
    then show ?thesis
      using assms elt_step.Wake [of s False True] by (intro step [of "s\<lparr>elt_owner := OJoins\<rparr>"]) (auto simp: elt_rank_def too_late_def dtor_wakeup_def)
  next
    case OJoins
    then show ?thesis
      using assms elt_step.Join [of s False True] by (intro step) (auto simp: elt_rank_def too_late_def)
  next
    case ODestroys
    then have "dtor_members s = Inr (s\<lparr>elt_owner := ODestroyed\<rparr>)" using assms by (auto simp: elt_inv_def elt_ops)
    then show ?thesis using ODestroys elt_step.Members [of s False True] by (intro step) (auto simp: elt_rank_def too_late_def)
  qed (use assms in auto)
qed

lemma elt_child_moves:
  assumes "elt_inv s" and "elt_child s \<notin> {LNone, LFinished}" and "elt_child s = LLoops \<longrightarrow> elt_quit s" and "elt_owner s \<noteq> OWakes"
  shows "\<exists>s'. elt_step False True s (Inr s') \<and> elt_rank s' < elt_rank s \<and> \<not> too_late s'"
proof -
  have step: "elt_step False True s (Inr s') \<Longrightarrow> elt_rank s' < elt_rank s \<Longrightarrow> \<not> too_late s' \<Longrightarrow> ?thesis" for s' by blast
  have obj: "with_object s s' = Inr s'" for s' using assms(1,2) by (auto simp: elt_inv_def with_object_def)
  show ?thesis
  proof (cases "elt_child s")
    case LConstructs
    then show ?thesis
      using assms(4) elt_step.Construct [of s False True] by (intro step) (auto simp: elt_rank_def too_late_def thread_construct_def)
  next
    case LCallsBack
    then show ?thesis
      using assms(4) elt_step.Callback [of s False True] by (intro step) (auto simp: elt_rank_def too_late_def thread_callback_def obj)
  next
    case LPublishes
    then show ?thesis
      using assms(4) elt_step.Publish [of s False True] by (intro step) (auto simp: elt_rank_def too_late_def thread_publish_def obj split: if_splits)
  next
    case LEnters
    then show ?thesis
      using assms(4) elt_step.Enter [of s False True] by (intro step) (auto simp: elt_rank_def too_late_def thread_enter_def)
  next
    case LLoops
    then show ?thesis using assms(3,4) elt_step.LoopEnds [of s False True] by (intro step) (auto simp: elt_rank_def too_late_def)
  next
    case LEnds
    then show ?thesis
      using assms(4) elt_step.Clear [of s False True] by (intro step) (auto simp: elt_rank_def too_late_def thread_clear_def obj)
  next
    case LHoldsLock
    then show ?thesis
      using assms(4) elt_step.Unlock [of s False True] by (intro step) (auto simp: elt_rank_def too_late_def thread_unlock_def obj)
  next
    case LUnlocked
    then show ?thesis
      using assms(4) elt_step.Finish [of s False True] by (intro step) (auto simp: elt_rank_def too_late_def thread_finish_def)
  qed (use assms in auto)
qed

lemma elt_progress:
  assumes "elt_patient_inv s \<and> \<not> too_late s" and "elt_owner s \<noteq> ODestroyed"
  shows "\<exists>s'. elt_prompt False True s (Inr s') \<and> (elt_patient_inv s' \<and> \<not> too_late s') \<and> elt_rank s' < elt_rank s"
proof -
  have inv: "elt_inv s" using assms(1) by (simp add: elt_patient_inv_def)
  have "\<exists>s'. elt_step False True s (Inr s') \<and> elt_rank s' < elt_rank s \<and> \<not> too_late s'"
  proof (cases "elt_owner s \<in> {OReady, OStarting, OTesting, OQuits, ODestroys} \<or>
      elt_owner s = OWakes \<and> elt_alive s \<or> elt_owner s = OReturned \<and> elt_child s = LLoops \<or> elt_owner s = OJoins \<and> elt_child s = LFinished")
    case True
    then show ?thesis by (rule elt_owner_moves [OF inv])
  next
    case False
    have al: "owner_allows (elt_owner s) (elt_child s)" and q: "elt_owner s = OJoins \<and> elt_child s = LLoops \<longrightarrow> elt_quit s"
      using assms(1) by (simp_all add: elt_patient_inv_def elt_inv_def)
    have nw: "elt_owner s \<noteq> OWakes" using False assms(1) unfolding too_late_def by blast
    with al False assms(2) have "elt_child s \<notin> {LNone, LFinished}" by (cases "elt_owner s") auto
    moreover note nw
    moreover from nw q False assms(2) al have "elt_child s = LLoops \<longrightarrow> elt_quit s" by (cases "elt_owner s") auto
    ultimately show ?thesis using elt_child_moves [OF inv] by blast
  qed
  then obtain s' where s': "elt_step False True s (Inr s')" "elt_rank s' < elt_rank s" "\<not> too_late s'" by blast
  with elt_patient_step [OF s'(1) _ refl] elt_prompt_rank [OF s'(1,2)] assms(1) show ?thesis by auto
qed

text \<open>C30: A loop thread can be finished: when only the destructor asks the loop to quit, and it runs only after the loop was
  entered, then from every reachable state but one kind the two threads can run until \<open>startLoop\<close> has returned, the loop has
  ended, the thread has been joined and the object is destroyed, and no spurious wakeup is needed for it. The exception are the states in which
  the destructor has set the flag, has not yet called \<open>wakeup()\<close>, and the loop is already gone.\<close>

theorem loop_thread_completes:
  assumes "runs (elt_step False True) EventLoopThread_new (Inr s)" and "\<not> (elt_owner s = OWakes \<and> elt_child s = LFinished)"
  shows "\<exists>s'. runs (elt_prompt False True) s (Inr s') \<and> elt_owner s' = ODestroyed \<and> elt_child s' \<in> {LNone, LFinished}"
proof -
  have "elt_patient_inv EventLoopThread_new"
    using elt_inv_new by (simp add: elt_patient_inv_def EventLoopThread_new_def)
  then have "elt_patient_inv s" by (rule eltp.runs_inv [OF assms(1)])
  then have "elt_patient_inv s \<and> \<not> too_late s" using assms(2) by (auto simp: too_late_def elt_patient_inv_def elt_inv_def)
  then have "\<exists>s'. runs (elt_prompt False True) s (Inr s') \<and> (elt_patient_inv s' \<and> \<not> too_late s') \<and> elt_owner s' = ODestroyed"
    by (rule runs_progress [where rank = elt_rank]) (rule elt_progress)
  then obtain s' where "runs (elt_prompt False True) s (Inr s')" "elt_patient_inv s'" "elt_owner s' = ODestroyed"
    by (elim exE conjE)
  moreover from this(2,3) have "elt_child s' \<in> {LNone, LFinished}" by (simp add: elt_patient_inv_def elt_inv_def)
  ultimately show ?thesis by blast
qed

theorem loop_thread_completes_witness:
  "\<exists>s'. runs (elt_prompt False True) elt_published (Inr s') \<and> elt_owner s' = ODestroyed"
  using loop_thread_completes [OF published_run] by (auto simp: elt_published_def)


subsection \<open>What goes wrong otherwise\<close>

definition quit_lost :: elthread where
  "quit_lost = elt_published\<lparr>elt_exiting := True, elt_owner := OJoins, elt_child := LLoops\<rparr>"

text \<open>C31: Destroying a loop thread right after \<open>startLoop\<close> can block for ever: the destructor may set \<open>quit_\<close> before the
  new thread enters \<open>loop()\<close>, which clears the flag; then the destructor waits in \<open>join\<close> for a loop that
  nobody will end. The state is reachable and no step is possible in it.\<close>

theorem loop_thread_quit_lost:
  "runs (elt_step False False) EventLoopThread_new (Inr quit_lost) \<and> elt_owner quit_lost = OJoins \<and>
   elt_child quit_lost = LLoops \<and> \<not> (\<exists>r. elt_step False patient quit_lost r)"
proof -
  note step = runs_next [of "elt_step False False" EventLoopThread_new]
  let ?a = "elt_published\<lparr>elt_exiting := True, elt_owner := OQuits\<rparr>"
  let ?w = "?a\<lparr>elt_quit := True, elt_owner := OWakes\<rparr>"
  let ?b = "?w\<lparr>elt_owner := OJoins\<rparr>"
  have "runs (elt_step False False) EventLoopThread_new (Inr ?a)"
    by (rule step [OF published_run elt_step.Destroy]) (simp_all add: elt_published_def dtor_test_def)
  then have "runs (elt_step False False) EventLoopThread_new (Inr ?w)"
    by (rule step [OF _ elt_step.Quit]) (simp_all add: elt_published_def dtor_quit_def)
  then have "runs (elt_step False False) EventLoopThread_new (Inr ?b)"
    by (rule step [OF _ elt_step.Wake]) (simp_all add: elt_published_def dtor_wakeup_def)
  then have "runs (elt_step False False) EventLoopThread_new (Inr (thread_enter ?b))"
    by (rule step [OF _ elt_step.Enter]) (simp_all add: elt_published_def)
  then have "runs (elt_step False False) EventLoopThread_new (Inr quit_lost)"
    by (simp add: thread_enter_def quit_lost_def elt_published_def)
  moreover have "\<not> elt_step False patient quit_lost r" for r
    by (auto simp: quit_lost_def elt_published_def elim: elt_step.cases)
  ultimately show ?thesis by (simp add: quit_lost_def)
qed

text \<open>C34: The race of \<open>quit()\<close>. Even when nobody but the destructor asks the loop to quit and it does so long after the loop
  was entered, there is an execution without any failure up to a state from which the only step left is the
  call of \<open>wakeup()\<close> on the destroyed loop.\<close>

theorem quit_wakes_dead_loop:
  "\<exists>s. runs (elt_step False True) EventLoopThread_new (Inr s) \<and> (\<forall>r. elt_step False True s r \<longleftrightarrow> r = dtor_wakeup s) \<and>
     dtor_wakeup s = Inl UndefinedBehaviour"
proof -
  have "elt_step False True quit_raced r \<longleftrightarrow> r = dtor_wakeup quit_raced" for r
  proof
    assume "elt_step False True quit_raced r"
    then show "r = dtor_wakeup quit_raced" by (cases rule: elt_step.cases) (auto simp: quit_raced_def)
  next
    assume "r = dtor_wakeup quit_raced"
    then show "elt_step False True quit_raced r" using elt_step.Wake [of quit_raced] by (simp add: quit_raced_def)
  qed
  moreover have "dtor_wakeup quit_raced = Inl UndefinedBehaviour" by (simp add: quit_raced_def dtor_wakeup_def)
  ultimately show ?thesis using quit_raced_run by blast
qed

text \<open>When others may end the loop, the destructor can find \<open>loop_\<close> set, and the loop gone when it calls \<open>quit\<close>; the comments in the
  destructor warn of it.\<close>

lemma destructor_race: "runs (elt_step True False) EventLoopThread_new (Inl UndefinedBehaviour)"
proof -
  let ?S = "elt_step True False"
  note step = runs_next [of ?S EventLoopThread_new] and [simp] = elt_published_def elt_ops
  let ?a = "thread_enter elt_published"
  let ?b = "dtor_test ?a"
  let ?c = "?b\<lparr>elt_quit := True\<rparr>"
  let ?d = "?c\<lparr>elt_child := LEnds\<rparr>"
  let ?e = "?d\<lparr>elt_loop := False, elt_child := LHoldsLock\<rparr>"
  have "runs ?S EventLoopThread_new (Inr ?a)" by (rule step [OF published_run elt_step.Enter]) simp_all
  then have "runs ?S EventLoopThread_new (Inr ?b)" by (rule step [OF _ elt_step.Destroy]) simp_all
  then have "runs ?S EventLoopThread_new (Inr ?c)" by (rule step [OF _ elt_step.OtherQuits]) simp_all
  then have "runs ?S EventLoopThread_new (Inr ?d)" by (rule step [OF _ elt_step.LoopEnds]) simp_all
  then have "runs ?S EventLoopThread_new (Inr ?e)" by (rule step [OF _ elt_step.Clear]) simp_all
  moreover have "?S ?e (dtor_quit ?e)" by (rule elt_step.Quit) simp
  ultimately have "runs ?S EventLoopThread_new (dtor_quit ?e)" by (rule runs.Step)
  then show ?thesis by simp
qed

text \<open>And a loop that ends before the owner has looked leaves \<open>startLoop\<close> waiting for ever.\<close>

lemma startLoop_stranded:
  "elt_owner s = OWaiting \<Longrightarrow> elt_child s = LFinished \<Longrightarrow> \<not> elt_loop s \<Longrightarrow> \<not> elt_alive s \<Longrightarrow>
   runs (elt_step others patient) s r \<Longrightarrow>
   \<exists>s'. r = Inr s' \<and> elt_owner s' \<in> {OWaiting, OTesting} \<and> elt_child s' = LFinished \<and> \<not> elt_loop s' \<and> \<not> elt_alive s'"
proof (rotate_tac -1, induction rule: runs.induct)
  case (Step t r)
  then obtain t: "elt_owner t \<in> {OWaiting, OTesting}" "elt_child t = LFinished" "\<not> elt_loop t" "\<not> elt_alive t" by auto
  from Step(2) t show ?case by (cases rule: elt_step.cases) (auto simp: startLoop_test_def)
qed simp

end
