(* ===== verification/Singletons.thy ===== *)
theory Singletons
  imports Runs
begin

section \<open>Singletons and thread-local objects (\<open>base/Singleton.h\<close>, \<open>ThreadLocal.h\<close>, \<open>ThreadLocalSingleton.h\<close>)\<close>

text \<open>
  Objects are numbers, given in the order of their creation. \<open>pthread_once\<close>, \<open>atexit\<close> and the keys of thread-specific data
  follow their specification: the first thread to arrive runs the initialisation while the others wait; handlers
  registered with \<open>atexit\<close> run when the process ends; the destructor of a key is called when a thread ends, with the
  value the thread had for it, which is null from then on.
\<close>

subsection \<open>One object for all threads\<close>

datatype once_state = NotRun | Initialising | OnceDone

datatype sg_thread = SgAway | SgInit | SgChecks | SgHas nat

record singleton =
  ponce :: once_state
  sg_value :: "nat option"
  sg_made :: nat
  sg_atexit :: bool
  sg_threads :: "sg_thread list"

definition Singleton_start :: "nat \<Rightarrow> singleton" where
  "Singleton_start n = \<lparr>ponce = NotRun, sg_value = None, sg_made = 0, sg_atexit = False, sg_threads = replicate n SgAway\<rparr>"

definition sg_put :: "nat \<Rightarrow> sg_thread \<Rightarrow> singleton \<Rightarrow> singleton" where
  "sg_put i t s = s\<lparr>sg_threads := (sg_threads s)[i := t]\<rparr>"

text \<open>\<open>instance\<close> in three parts: entering \<open>pthread_once\<close>, \<open>None\<close> while another thread initialises; \<open>init\<close>; the rest.\<close>

definition instance_once :: "nat \<Rightarrow> singleton \<Rightarrow> singleton option" where
  "instance_once i s =
     (case ponce s of
        NotRun \<Rightarrow> Some (sg_put i SgInit (s\<lparr>ponce := Initialising\<rparr>))
      | Initialising \<Rightarrow> None
      | OnceDone \<Rightarrow> Some (sg_put i SgChecks s))"

definition Singleton_init :: "bool \<Rightarrow> nat \<Rightarrow> singleton \<Rightarrow> singleton" where
  "Singleton_init no_destroy i s =
     sg_put i SgChecks (s\<lparr>sg_value := Some (sg_made s), sg_made := sg_made s + 1,
       sg_atexit := (if \<not> no_destroy then True else sg_atexit s), ponce := OnceDone\<rparr>)"

definition instance_value :: "nat \<Rightarrow> singleton \<Rightarrow> singleton res" where
  "instance_value i s = (case sg_value s of None \<Rightarrow> Inl AssertFail | Some v \<Rightarrow> Inr (sg_put i (SgHas v) s))"

definition Singleton_destroy :: "singleton \<Rightarrow> singleton" where
  "Singleton_destroy s = (if sg_atexit s then s\<lparr>sg_value := None, sg_atexit := False\<rparr> else s)"

abbreviation sg_at :: "nat \<Rightarrow> sg_thread \<Rightarrow> singleton \<Rightarrow> bool" where
  "sg_at i t s \<equiv> i < length (sg_threads s) \<and> sg_threads s ! i = t"

inductive sg_step :: "bool \<Rightarrow> singleton \<Rightarrow> singleton res \<Rightarrow> bool" for no_destroy where
  Once: "sg_at i SgAway s \<Longrightarrow> instance_once i s = Some s' \<Longrightarrow> sg_step no_destroy s (Inr s')"
| Init: "sg_at i SgInit s \<Longrightarrow> sg_step no_destroy s (Inr (Singleton_init no_destroy i s))"
| Value: "sg_at i SgChecks s \<Longrightarrow> sg_step no_destroy s (instance_value i s)"
| Again: "sg_at i (SgHas v) s \<Longrightarrow> sg_step no_destroy s (Inr (sg_put i SgAway s))"

definition sg_inv :: "singleton \<Rightarrow> bool" where
  "sg_inv s \<longleftrightarrow>
     (case ponce s of
        NotRun \<Rightarrow> sg_value s = None \<and> sg_made s = 0 \<and> set (sg_threads s) \<subseteq> {SgAway}
      | Initialising \<Rightarrow> sg_value s = None \<and> sg_made s = 0 \<and> set (sg_threads s) \<subseteq> {SgAway, SgInit} \<and>
          (\<exists>i < length (sg_threads s). \<forall>j < length (sg_threads s). (sg_threads s ! j = SgInit) = (j = i))
      | OnceDone \<Rightarrow> sg_value s = Some 0 \<and> sg_made s = 1 \<and> set (sg_threads s) \<subseteq> {SgAway, SgChecks, SgHas 0})"

lemma sg_put_set: "set (sg_threads s) \<subseteq> A \<Longrightarrow> t \<in> A \<Longrightarrow> set ((sg_threads s)[i := t]) \<subseteq> A"
  using set_update_subset_insert [of "sg_threads s" i t] by blast

lemma sg_init_done:
  assumes "sg_inv s" and "sg_at i SgInit s"
  shows "sg_inv (Singleton_init no_destroy i s)"
proof -
  have "SgInit \<in> set (sg_threads s)" using assms(2) nth_mem [of i "sg_threads s"] by simp
  then have p: "ponce s = Initialising" using assms(1) by (auto simp: sg_inv_def split: once_state.splits)
  with assms(1) obtain k where k: "\<forall>j < length (sg_threads s). (sg_threads s ! j = SgInit) = (j = k)"
    and t: "set (sg_threads s) \<subseteq> {SgAway, SgInit}" "sg_made s = 0"
    by (auto simp: sg_inv_def)
  have others: "sg_threads s ! j = SgAway" if "j < length (sg_threads s)" "j \<noteq> i" for j
  proof -
    have "sg_threads s ! j \<noteq> SgInit" using k assms(2) that by auto
    with t(1) nth_mem [OF that(1)] show ?thesis by blast
  qed
  have "set ((sg_threads s)[i := SgChecks]) \<subseteq> {SgAway, SgChecks, SgHas 0}"
  proof
    fix x assume "x \<in> set ((sg_threads s)[i := SgChecks])"
    then obtain j where j: "j < length (sg_threads s)" "x = (sg_threads s)[i := SgChecks] ! j" by (auto simp: in_set_conv_nth)
    then show "x \<in> {SgAway, SgChecks, SgHas 0}" using others [of j] by (cases "j = i") simp_all
  qed
  with t(2) show ?thesis by (simp add: sg_inv_def Singleton_init_def sg_put_def)
qed

lemma sg_step_safe:
  assumes "sg_step no_destroy s r" and "sg_inv s"
  shows "\<exists>s'. r = Inr s' \<and> sg_inv s'"
  using assms(1)
proof (cases rule: sg_step.cases)
  case (Once i s')
  show ?thesis
  proof (cases "ponce s")
    case NotRun
    then have t: "set (sg_threads s) \<subseteq> {SgAway}" "sg_made s = 0" "sg_value s = None" using assms(2) by (simp_all add: sg_inv_def)
    have "(sg_threads s)[i := SgInit] ! j = SgInit \<longleftrightarrow> j = i" if "j < length (sg_threads s)" for j
    proof -
      have "sg_threads s ! j = SgAway" using subsetD [OF t(1) nth_mem [OF that]] by simp
      with that show ?thesis by (cases "j = i") simp_all
    qed
    moreover have "set ((sg_threads s)[i := SgInit]) \<subseteq> {SgAway, SgInit}" by (rule sg_put_set) (use t(1) in auto)
    ultimately show ?thesis using Once NotRun t(2,3) by (auto simp: instance_once_def sg_inv_def sg_put_def intro!: exI [of _ i])
  next
    case OnceDone
    then have "set ((sg_threads s)[i := SgChecks]) \<subseteq> {SgAway, SgChecks, SgHas 0}"
      by (intro sg_put_set) (use assms(2) in \<open>simp_all add: sg_inv_def\<close>)
    with Once OnceDone assms(2) show ?thesis by (auto simp: instance_once_def sg_inv_def sg_put_def)
  qed (use Once in \<open>simp add: instance_once_def\<close>)
next
  case (Init i)
  with sg_init_done [OF assms(2)] show ?thesis by simp
next
  case (Value i)
  have "SgChecks \<in> set (sg_threads s)" using Value(2) nth_mem [of i "sg_threads s"] by simp
  then have p: "ponce s = OnceDone" using assms(2) by (auto simp: sg_inv_def split: once_state.splits)
  then have "set ((sg_threads s)[i := SgHas 0]) \<subseteq> {SgAway, SgChecks, SgHas 0}"
    by (intro sg_put_set) (use assms(2) in \<open>simp_all add: sg_inv_def\<close>)
  with Value(1) p assms(2) show ?thesis by (auto simp: instance_value_def sg_inv_def sg_put_def)
next
  case (Again i v)
  have "SgHas v \<in> set (sg_threads s)" using Again(2) nth_mem [of i "sg_threads s"] by simp
  then have p: "ponce s = OnceDone" using assms(2) by (auto simp: sg_inv_def split: once_state.splits)
  then have "set ((sg_threads s)[i := SgAway]) \<subseteq> {SgAway, SgChecks, SgHas 0}"
    by (intro sg_put_set) (use assms(2) in \<open>simp_all add: sg_inv_def\<close>)
  with Again(1) p assms(2) show ?thesis by (auto simp: sg_inv_def sg_put_def)
qed

interpretation sg: safe_steps "sg_step no_destroy" sg_inv for no_destroy
  by unfold_locales (rule sg_step_safe)

text \<open>Until the process ends, every thread gets the same object, which is made once, and no assertion fails. After \<open>destroy\<close> has
  run, \<open>instance\<close> fails its assertion, since \<open>pthread_once\<close> does not initialise again.\<close>

lemma singleton_unique:
  assumes "runs (sg_step no_destroy) (Singleton_start n) r"
  shows "\<exists>s. r = Inr s \<and> sg_made s \<le> 1 \<and> (\<forall>i < n. \<forall>v. sg_at i (SgHas v) s \<longrightarrow> v = 0 \<and> sg_value s = Some 0 \<and> sg_made s = 1)"
proof -
  have "sg_inv (Singleton_start n)" by (auto simp: sg_inv_def Singleton_start_def)
  from sg.runs_safe [OF assms this] obtain s where s: "r = Inr s" "sg_inv s" by blast
  have "v = 0 \<and> sg_value s = Some 0 \<and> sg_made s = 1" if "sg_at i (SgHas v) s" for i v
  proof -
    have "SgHas v \<in> set (sg_threads s)" using that nth_mem [of i "sg_threads s"] by simp
    then show ?thesis using s(2) by (auto simp: sg_inv_def split: once_state.splits)
  qed
  moreover have "sg_made s \<le> 1" using s(2) by (auto simp: sg_inv_def split: once_state.splits)
  ultimately show ?thesis using s(1) by blast
qed

lemma instance_after_destroy:
  assumes "sg_inv s" and "ponce s = OnceDone" and "sg_atexit s" and "sg_at i SgAway s"
  shows "\<exists>s'. instance_once i (Singleton_destroy s) = Some s' \<and> instance_value i s' = Inl AssertFail"
  using assms by (auto simp: Singleton_destroy_def instance_once_def instance_value_def sg_put_def)


subsection \<open>One object per thread\<close>

record thread_local =
  tl_specific :: "nat \<Rightarrow> nat option"
  tl_value :: "nat \<Rightarrow> nat option"
  tl_next :: nat
  tl_deleted :: "nat list"

definition thread_local_start :: thread_local where
  "thread_local_start = \<lparr>tl_specific = (\<lambda>_. None), tl_value = (\<lambda>_. None), tl_next = 0, tl_deleted = []\<rparr>"

text \<open>\<open>ThreadLocal\<close> uses the key alone. \<open>ThreadLocalSingleton\<close> keeps the pointer in a thread-local variable, which
  its destructor clears, and uses the key to be told when the thread ends.\<close>

definition ThreadLocal_value :: "nat \<Rightarrow> thread_local \<Rightarrow> nat \<times> thread_local" where
  "ThreadLocal_value t s =
     (case tl_specific s t of
        Some v \<Rightarrow> (v, s)
      | None \<Rightarrow> (tl_next s, s\<lparr>tl_specific := (tl_specific s)(t \<mapsto> tl_next s), tl_next := tl_next s + 1\<rparr>))"

definition ThreadLocal_destructor :: "nat \<Rightarrow> thread_local \<Rightarrow> thread_local" where
  "ThreadLocal_destructor t s =
     (case tl_specific s t of None \<Rightarrow> s
      | Some v \<Rightarrow> s\<lparr>tl_specific := (tl_specific s)(t := None), tl_deleted := tl_deleted s @ [v]\<rparr>)"

definition Deleter_set :: "nat \<Rightarrow> nat \<Rightarrow> thread_local \<Rightarrow> thread_local res" where
  "Deleter_set t v s = cassert (tl_specific s t = None) (Inr (s\<lparr>tl_specific := (tl_specific s)(t \<mapsto> v)\<rparr>))"

definition tls_instance :: "nat \<Rightarrow> thread_local \<Rightarrow> (nat \<times> thread_local) res" where
  "tls_instance t s =
     (case tl_value s t of
        Some v \<Rightarrow> Inr (v, s)
      | None \<Rightarrow> (let v = tl_next s; s = s\<lparr>tl_value := (tl_value s)(t \<mapsto> v), tl_next := v + 1\<rparr>
                 in rbind (Deleter_set t v s) (\<lambda>s. Inr (v, s))))"

definition tls_destructor :: "nat \<Rightarrow> thread_local \<Rightarrow> thread_local res" where
  "tls_destructor t s =
     (case tl_specific s t of None \<Rightarrow> Inr s
      | Some obj \<Rightarrow> (let s = s\<lparr>tl_specific := (tl_specific s)(t := None)\<rparr> in
          cassert (tl_value s t = Some obj)
            (Inr (s\<lparr>tl_value := (tl_value s)(t := None), tl_deleted := tl_deleted s @ [obj]\<rparr>))))"

inductive tls_step :: "thread_local \<Rightarrow> thread_local res \<Rightarrow> bool" where
  Fails: "tls_instance t s = Inl e \<Longrightarrow> tls_step s (Inl e)"
| Instance: "tls_instance t s = Inr (v, s') \<Longrightarrow> tls_step s (Inr s')"
| ThreadEnds: "tls_step s (tls_destructor t s)"

text \<open>The variable and the key agree, no two threads share an object, and each object that was made is alive in one
  thread or deleted, once.\<close>

definition tls_inv :: "thread_local \<Rightarrow> bool" where
  "tls_inv s \<longleftrightarrow> tl_specific s = tl_value s \<and> inj_on (tl_value s) (dom (tl_value s)) \<and> distinct (tl_deleted s) \<and>
     ran (tl_value s) \<inter> set (tl_deleted s) = {} \<and> ran (tl_value s) \<union> set (tl_deleted s) = {..< tl_next s}"

lemma ran_remove:
  assumes "inj_on m (dom m)" and "m t = Some v"
  shows "ran (m(t := None)) = ran m - {v}"
proof -
  have only: "u = t" if "m u = Some v" for u
    by (rule inj_onD [OF assms(1)]) (use that assms(2) in auto)
  have "x \<in> ran (m(t := None)) \<longleftrightarrow> x \<in> ran m - {v}" for x
  proof
    assume "x \<in> ran (m(t := None))"
    then obtain u where u: "u \<noteq> t" "m u = Some x" by (auto simp: ran_def split: if_splits)
    then show "x \<in> ran m - {v}" using only [of u] ranI [of m u x] by auto
  next
    assume x: "x \<in> ran m - {v}"
    then obtain u where u: "m u = Some x" by (auto simp: ran_def)
    then have "u \<noteq> t" using x assms(2) by auto
    with u show "x \<in> ran (m(t := None))" using ranI [of "m(t := None)" u x] by simp
  qed
  then show ?thesis by (rule set_eqI)
qed

lemma tls_instance_ok:
  assumes inv: "tls_inv s"
  shows "\<exists>v s'. tls_instance t s = Inr (v, s') \<and> tls_inv s' \<and> tl_value s' t = Some v"
proof (cases "tl_value s t")
  case None
  let ?m = "(tl_value s)(t \<mapsto> tl_next s)"
  have r: "ran ?m = insert (tl_next s) (ran (tl_value s))" using None by (rule ran_map_upd)
  have f: "tl_next s \<notin> ran (tl_value s)" "tl_next s \<notin> set (tl_deleted s)" using inv by (auto simp: tls_inv_def)
  have "inj_on ?m (dom ?m)"
  proof (rule inj_onI)
    fix x y assume xy: "x \<in> dom ?m" "y \<in> dom ?m" "?m x = ?m y"
    have other: "tl_value s u \<noteq> Some (tl_next s)" for u using f(1) ranI [of "tl_value s" u] by auto
    show "x = y"
    proof (cases "x = t \<or> y = t")
      case True
      with xy(3) other [of x] other [of y] show ?thesis by (simp split: if_splits)
    next
      case False
      then have "tl_value s x = tl_value s y" "x \<in> dom (tl_value s)" "y \<in> dom (tl_value s)" using xy by simp_all
      moreover have "inj_on (tl_value s) (dom (tl_value s))" using inv by (simp add: tls_inv_def)
      ultimately show ?thesis by (simp add: inj_onD)
    qed
  qed
  moreover have "(insert (tl_next s) (ran (tl_value s))) \<inter> set (tl_deleted s) = {}" using inv f(2) by (simp add: tls_inv_def)
  moreover have "insert (tl_next s) (ran (tl_value s)) \<union> set (tl_deleted s) = {..< Suc (tl_next s)}"
    using inv by (simp add: tls_inv_def lessThan_Suc)
  ultimately show ?thesis
    using inv None by (simp add: tls_instance_def Let_def Deleter_set_def tls_inv_def r)
next
  case (Some v)
  with inv show ?thesis by (auto simp: tls_instance_def)
qed

lemma tls_destructor_ok:
  assumes inv: "tls_inv s"
  shows "\<exists>s'. tls_destructor t s = Inr s' \<and> tls_inv s' \<and> tl_value s' t = None \<and> (\<forall>v. tl_value s t = Some v \<longrightarrow> tl_deleted s' = tl_deleted s @ [v])"
proof (cases "tl_value s t")
  case (Some v)
  let ?m = "(tl_value s)(t := None)"
  have r: "ran ?m = ran (tl_value s) - {v}" by (rule ran_remove) (use inv Some in \<open>auto simp: tls_inv_def\<close>)
  have v: "v \<in> ran (tl_value s)" using Some by (rule ranI)
  have inj: "inj_on (tl_value s) (dom (tl_value s))" using inv by (simp add: tls_inv_def)
  have "inj_on ?m (dom ?m)"
  proof (rule inj_onI)
    fix x y assume "x \<in> dom ?m" "y \<in> dom ?m" "?m x = ?m y"
    then have "x \<noteq> t" "y \<noteq> t" "x \<in> dom (tl_value s)" "y \<in> dom (tl_value s)" by (auto split: if_splits)
    with inj \<open>?m x = ?m y\<close> show "x = y" by (simp add: inj_onD)
  qed
  moreover have "v \<notin> set (tl_deleted s)" using inv v by (auto simp: tls_inv_def)
  moreover have "ran ?m \<union> set (tl_deleted s @ [v]) = {..< tl_next s}"
    using inv v unfolding r by (auto simp: tls_inv_def)
  ultimately show ?thesis
    using inv Some by (simp add: tls_destructor_def tls_inv_def Let_def r) blast
qed (use inv in \<open>auto simp: tls_destructor_def tls_inv_def\<close>)

lemma tls_step_safe:
  assumes "tls_step s r" and "tls_inv s"
  shows "\<exists>s'. r = Inr s' \<and> tls_inv s'"
  using assms(1)
proof (cases rule: tls_step.cases)
  case (Fails t e)
  with tls_instance_ok [OF assms(2), of t] show ?thesis by simp
next
  case (Instance t v s')
  with tls_instance_ok [OF assms(2), of t] show ?thesis by simp
next
  case (ThreadEnds t)
  with tls_destructor_ok [OF assms(2), of t] show ?thesis by auto
qed

interpretation tls: safe_steps tls_step tls_inv
  by unfold_locales (rule tls_step_safe)

lemma thread_local_singleton_safe:
  assumes "runs tls_step thread_local_start r"
  shows "\<exists>s. r = Inr s \<and> (\<forall>t u v. tl_value s t = Some v \<longrightarrow> tl_value s u = Some v \<longrightarrow> t = u) \<and>
    distinct (tl_deleted s) \<and> (\<forall>t v. tl_value s t = Some v \<longrightarrow> v \<notin> set (tl_deleted s))"
proof -
  have "tls_inv thread_local_start" by (simp add: tls_inv_def thread_local_start_def)
  from tls.runs_safe [OF assms this] obtain s where s: "r = Inr s" "tls_inv s" by blast
  have "t = u" if "tl_value s t = Some v" "tl_value s u = Some v" for t u v
    by (rule inj_onD [of "tl_value s" "dom (tl_value s)"]) (use s(2) that in \<open>auto simp: tls_inv_def\<close>)
  with s show ?thesis by (auto simp: tls_inv_def intro: ranI)
qed

end
