(* ===== verification/ZlibStream.thy ===== *)
theory ZlibStream
  imports Buffer
begin

section \<open>Compressed streams (\<open>net/ZlibStream.h\<close>)\<close>

text \<open>
  \<open>ZlibOutputStream\<close> compresses what is written to it into a \<open>Buffer\<close>. \<open>deflate\<close> and \<open>deflateEnd\<close> belong to zlib and are
  parameters: \<open>deflate z finish input room\<close> returns the code, the new state, how much of the input it used and the bytes it
  produced. \<open>next_in\<close> is the input not yet used, \<open>None\<close> for the null pointer; \<open>avail_in\<close> and \<open>avail_out\<close> are
  32-bit counts. The loops may not end: they are functions to \<open>option\<close>. \<open>ZlibInputStream\<close> is only declared in the repository.
\<close>

datatype z_code = Z_OK | Z_STREAM_END | Z_ERR int

type_synonym 'z deflate_fn = "'z \<Rightarrow> bool \<Rightarrow> bytes \<Rightarrow> nat \<Rightarrow> z_code \<times> 'z \<times> nat \<times> bytes"

record 'z zlib_out =
  zstream :: 'z
  next_in :: "bytes option"
  zerror :: z_code
  bufferSize :: nat
  z_output :: buffer

definition ZlibOutputStream_new :: "z_code \<Rightarrow> 'z \<Rightarrow> buffer \<Rightarrow> 'z zlib_out" where
  "ZlibOutputStream_new init z output =
     \<lparr>zstream = z, next_in = None, zerror = init, bufferSize = 1024, z_output = output\<rparr>"

definition avail_bytes :: "'z zlib_out \<Rightarrow> bytes" where
  "avail_bytes s = (case next_in s of None \<Rightarrow> [] | Some d \<Rightarrow> d)"

definition z_compress :: "'z deflate_fn \<Rightarrow> bool \<Rightarrow> 'z zlib_out \<Rightarrow> (z_code \<times> 'z zlib_out) res" where
  "z_compress deflate fin s =
     rbind (ensureWritableBytes (bufferSize s) (z_output s)) (\<lambda>out.
     let avail_out = writableBytes out mod 2 ^ 32;
         (err, z, used, produced) = deflate (zstream s) fin (avail_bytes s) avail_out;
         written = out\<lparr>buf_data := overwrite (buf_data out) (beginWrite out) produced\<rparr>
     in rbind (hasWritten (writableBytes out - (avail_out - length produced)) written) (\<lambda>out.
        Inr (err, s\<lparr>zstream := z, next_in := map_option (drop used) (next_in s), z_output := out,
          bufferSize := if writableBytes out = 0 \<and> bufferSize s < 65536 then bufferSize s * 2 else bufferSize s\<rparr>)))"

partial_function (option) z_write_loop :: "'z deflate_fn \<Rightarrow> 'z zlib_out \<Rightarrow> 'z zlib_out res option" where
  "z_write_loop deflate s =
     (if avail_bytes s \<noteq> [] \<and> zerror s = Z_OK
      then case z_compress deflate False s of
          Inl e \<Rightarrow> Some (Inl e)
        | Inr es \<Rightarrow> z_write_loop deflate ((snd es)\<lparr>zerror := fst es\<rparr>)
      else Some (Inr s))"

definition z_write :: "'z deflate_fn \<Rightarrow> bytes \<Rightarrow> 'z zlib_out \<Rightarrow> (bool \<times> 'z zlib_out) res option" where
  "z_write deflate buf s =
     (if zerror s \<noteq> Z_OK then Some (Inr (False, s))
      else if next_in s \<noteq> None then Some (Inl AssertFail)
      else case z_write_loop deflate (s\<lparr>next_in := Some (take (length buf mod 2 ^ 32) buf)\<rparr>) of
          None \<Rightarrow> None
        | Some (Inl e) \<Rightarrow> Some (Inl e)
        | Some (Inr s) \<Rightarrow>
            if avail_bytes s = []
            then Some (cassert (length buf mod 2 ^ 32 = length buf) (Inr (zerror s = Z_OK, s\<lparr>next_in := None\<rparr>)))
            else Some (Inr (zerror s = Z_OK, s)))"

text \<open>\<open>write(Buffer *)\<close> compresses once and retrieves what was used from the buffer.\<close>

definition z_write_buffer :: "'z deflate_fn \<Rightarrow> buffer \<Rightarrow> 'z zlib_out \<Rightarrow> (bool \<times> buffer \<times> 'z zlib_out) res" where
  "z_write_buffer deflate input s =
     (if zerror s \<noteq> Z_OK then Inr (False, input, s)
      else let s = s\<lparr>next_in := Some (take (readableBytes input mod 2 ^ 32) (content input))\<rparr> in
        rbind (if avail_bytes s \<noteq> [] then rbind (z_compress deflate False s) (\<lambda>(err, s). Inr (s\<lparr>zerror := err\<rparr>)) else Inr s) (\<lambda>s.
        rbind (retrieve (readableBytes input - length (avail_bytes s)) input) (\<lambda>input.
        Inr (zerror s = Z_OK, input, s))))"

partial_function (option) z_finish_loop :: "'z deflate_fn \<Rightarrow> 'z zlib_out \<Rightarrow> 'z zlib_out res option" where
  "z_finish_loop deflate s =
     (if zerror s = Z_OK
      then case z_compress deflate True s of
          Inl e \<Rightarrow> Some (Inl e)
        | Inr es \<Rightarrow> z_finish_loop deflate ((snd es)\<lparr>zerror := fst es\<rparr>)
      else Some (Inr s))"

definition z_finish :: "'z deflate_fn \<Rightarrow> ('z \<Rightarrow> z_code) \<Rightarrow> 'z zlib_out \<Rightarrow> (bool \<times> 'z zlib_out) res option" where
  "z_finish deflate deflateEnd s =
     (if zerror s \<noteq> Z_OK then Some (Inr (False, s))
      else case z_finish_loop deflate s of
          None \<Rightarrow> None
        | Some (Inl e) \<Rightarrow> Some (Inl e)
        | Some (Inr s) \<Rightarrow> Some (Inr (deflateEnd (zstream s) = Z_OK, s\<lparr>zerror := Z_STREAM_END\<rparr>)))"

text \<open>A sequence of calls of the two overloads of \<open>write\<close>, up to the first that fails or reports an error. It returns what each call left of its
  input: nothing for a string, the bytes that are still in the buffer for a buffer.\<close>

datatype z_op = WritePiece bytes | WriteBuffer buffer

fun input_of :: "z_op \<Rightarrow> bytes" where
  "input_of (WritePiece d) = d"
| "input_of (WriteBuffer b) = content b"

fun z_op_step :: "'z deflate_fn \<Rightarrow> z_op \<Rightarrow> 'z zlib_out \<Rightarrow> (bool \<times> bytes \<times> 'z zlib_out) res option" where
  "z_op_step deflate (WritePiece d) s =
     (case z_write deflate d s of None \<Rightarrow> None | Some r \<Rightarrow> Some (rbind r (\<lambda>(ok, s). Inr (ok, [], s))))"
| "z_op_step deflate (WriteBuffer b) s = Some (rbind (z_write_buffer deflate b s) (\<lambda>(ok, b, s). Inr (ok, content b, s)))"

fun z_write_all :: "'z deflate_fn \<Rightarrow> z_op list \<Rightarrow> 'z zlib_out \<Rightarrow> (bool \<times> bytes list \<times> 'z zlib_out) res option" where
  "z_write_all deflate [] s = Some (Inr (True, [], s))"
| "z_write_all deflate (w # ws) s =
     (case z_op_step deflate w s of
        None \<Rightarrow> None
      | Some (Inl e) \<Rightarrow> Some (Inl e)
      | Some (Inr (ok, rest, s)) \<Rightarrow>
          if ok then (case z_write_all deflate ws s of None \<Rightarrow> None
            | Some r \<Rightarrow> Some (rbind r (\<lambda>(ok, rests, s). Inr (ok, rest # rests, s))))
          else Some (Inr (False, [rest], s)))"


subsection \<open>The contract of \<open>deflate\<close>\<close>

text \<open>What zlib documents: it uses input and fills the room from their beginnings; called with room, on a stream that is
  not finished and with input or the request to finish, it makes progress and returns \<open>Z_OK\<close>, or finishes, when asked to and
  when all input is used, with \<open>Z_STREAM_END\<close>; a finished stream inflates to its input; the output never exceeds a bound that depends on the length of
  the input (\<open>deflateBound\<close>). \<open>zin\<close> and \<open>zout\<close> are all that went in and came out of a stream so far.\<close>

definition deflate_contract :: "'z deflate_fn \<Rightarrow> ('z \<Rightarrow> z_code) \<Rightarrow> (bytes \<Rightarrow> bytes) \<Rightarrow> ('z \<Rightarrow> bool) \<Rightarrow> ('z \<Rightarrow> bytes) \<Rightarrow> ('z \<Rightarrow> bytes) \<Rightarrow>
    (nat \<Rightarrow> nat) \<Rightarrow> bool" where
  "deflate_contract deflate deflateEnd inflate live zin zout bound \<longleftrightarrow> mono bound \<and>
     (\<forall>z fin d n err z' used produced.
        live z \<longrightarrow> 0 < n \<longrightarrow> d \<noteq> [] \<or> fin \<longrightarrow> deflate z fin d n = (err, z', used, produced) \<longrightarrow>
        used \<le> length d \<and> length produced \<le> n \<and> zin z' = zin z @ take used d \<and> zout z' = zout z @ produced \<and>
        length (zout z') \<le> bound (length (zin z')) \<and>
        (err = Z_OK \<and> live z' \<and> (0 < used \<or> produced \<noteq> []) \<or>
         err = Z_STREAM_END \<and> fin \<and> used = length d \<and> inflate (zout z') = zin z' \<and> deflateEnd z' = Z_OK))"

lemma contractD:
  assumes "deflate_contract deflate deflateEnd inflate live zin zout bound" and "live z" and "0 < n" and "d \<noteq> [] \<or> fin"
    and "deflate z fin d n = (err, z', used, produced)"
  shows "used \<le> length d" "length produced \<le> n" "zin z' = zin z @ take used d" "zout z' = zout z @ produced"
    "length (zout z') \<le> bound (length (zin z'))"
    "err = Z_OK \<and> live z' \<and> (0 < used \<or> produced \<noteq> []) \<or>
     err = Z_STREAM_END \<and> fin \<and> used = length d \<and> inflate (zout z') = zin z' \<and> deflateEnd z' = Z_OK"
  using assms unfolding deflate_contract_def by blast+

text \<open>The output buffer is one nothing was retrieved from; its free space is less than four gigabytes.\<close>

definition z_inv :: "bytes \<Rightarrow> ('z \<Rightarrow> bytes) \<Rightarrow> 'z zlib_out \<Rightarrow> bool" where
  "z_inv pre zout s \<longleftrightarrow> buffer_inv (z_output s) \<and> prependableBytes (z_output s) = kCheapPrepend \<and>
     writableBytes (z_output s) < 2 ^ 32 \<and> 0 < bufferSize s \<and> bufferSize s \<le> 65536 * 2 \<and>
     content (z_output s) = pre @ zout (zstream s)"

lemma ensureWritable_room:
  assumes "buffer_inv b" and "prependableBytes b = kCheapPrepend" and "writableBytes b < 2 ^ 32" and "0 < n" and "n \<le> 65536 * 2"
  shows "\<exists>b'. ensureWritableBytes n b = Inr b' \<and> buffer_inv b' \<and> content b' = content b \<and> 0 < writableBytes b' \<and>
    writableBytes b' < 2 ^ 32 \<and> prependableBytes b' = kCheapPrepend"
proof -
  obtain b' where b': "ensureWritableBytes n b = Inr b'" "buffer_inv b'" "content b' = content b" "n \<le> writableBytes b'"
    using ensureWritableBytes_ok [OF assms(1)] by blast
  have "writableBytes b' < 2 ^ 32 \<and> prependableBytes b' = kCheapPrepend"
    using b'(1) assms
    by (auto simp: ensureWritableBytes_def makeSpace_def prependableBytes_def writableBytes_def buffer_inv_def
      vec_resize_def split: if_splits)
  with b' assms(4) show ?thesis by auto
qed

lemma z_compress_ok:
  assumes con: "deflate_contract deflate deflateEnd inflate live zin zout bound" and inv: "z_inv pre zout s"
    and live: "live (zstream s)" and more: "avail_bytes s \<noteq> [] \<or> fin"
  shows "\<exists>err s' used. z_compress deflate fin s = Inr (err, s') \<and> z_inv pre zout s' \<and> zerror s' = zerror s \<and>
    next_in s' = map_option (drop used) (next_in s) \<and> used \<le> length (avail_bytes s) \<and>
    zin (zstream s') = zin (zstream s) @ take used (avail_bytes s) \<and>
    length (zout (zstream s')) \<le> bound (length (zin (zstream s'))) \<and>
    length (zout (zstream s)) \<le> length (zout (zstream s')) \<and>
    (err = Z_OK \<and> live (zstream s') \<and> (0 < used \<or> length (zout (zstream s)) < length (zout (zstream s'))) \<or>
     err = Z_STREAM_END \<and> fin \<and> used = length (avail_bytes s) \<and> inflate (zout (zstream s')) = zin (zstream s') \<and>
       deflateEnd (zstream s') = Z_OK)"
proof -
  obtain out where out: "ensureWritableBytes (bufferSize s) (z_output s) = Inr out" "buffer_inv out"
      "content out = content (z_output s)" "0 < writableBytes out" "writableBytes out < 2 ^ 32"
      "prependableBytes out = kCheapPrepend"
  proof -
    have "\<exists>b'. ensureWritableBytes (bufferSize s) (z_output s) = Inr b' \<and> buffer_inv b' \<and> content b' = content (z_output s) \<and>
        0 < writableBytes b' \<and> writableBytes b' < 2 ^ 32 \<and> prependableBytes b' = kCheapPrepend"
      by (rule ensureWritable_room) (use inv in \<open>simp_all add: z_inv_def\<close>)
    with that show ?thesis by (elim exE conjE)
  qed
  obtain err z used produced where d: "deflate (zstream s) fin (avail_bytes s) (writableBytes out) = (err, z, used, produced)"
    by (cases "deflate (zstream s) fin (avail_bytes s) (writableBytes out)") auto
  note c = contractD [OF con live out(4) more d]
  let ?b = "out\<lparr>buf_data := overwrite (buf_data out) (writerIndex out) produced, writerIndex := writerIndex out + length produced\<rparr>"
  have fits: "writerIndex out + length produced \<le> length (buf_data out)"
    using c(2) out(2) unfolding writableBytes_def buffer_inv_def by linarith
  have b: "buffer_inv ?b" "content ?b = content out @ produced" "prependableBytes ?b = kCheapPrepend"
    using write_at_end [OF out(2) c(2)] out(6) by simp_all
  have wb: "writableBytes ?b < 2 ^ 32" using out(5) fits by (simp add: writableBytes_def)
  let ?s = "s\<lparr>zstream := z, next_in := map_option (drop used) (next_in s), z_output := ?b,
      bufferSize := if writableBytes ?b = 0 \<and> bufferSize s < 65536 then bufferSize s * 2 else bufferSize s\<rparr>"
  have room: "writableBytes out - (writableBytes out - length produced) = length produced" using c(2) by simp
  have "hasWritten (length produced) (out\<lparr>buf_data := overwrite (buf_data out) (writerIndex out) produced\<rparr>) = Inr ?b"
    using c(2) fits by (simp add: hasWritten_def writableBytes_def)
  then have "z_compress deflate fin s = Inr (err, ?s)"
    using out(1,5) d room by (simp add: z_compress_def Let_def beginWrite_def del: writableBytes_def)
  moreover have "z_inv pre zout ?s" using inv b wb c(4) out(3) by (simp add: z_inv_def)
  moreover have "length (zout (zstream s)) \<le> length (zout z)" using c(4) by simp
  moreover have "err = Z_OK \<and> live z \<and> (0 < used \<or> length (zout (zstream s)) < length (zout z)) \<or>
      err = Z_STREAM_END \<and> fin \<and> used = length (avail_bytes s) \<and> inflate (zout z) = zin z \<and> deflateEnd z = Z_OK"
    using c(4,6) by (elim disjE conjE) simp_all
  ultimately show ?thesis
    using c(1,3,5) by (intro exI [of _ err] exI [of _ ?s] exI [of _ used] conjI) (assumption | simp)+
qed

text \<open>What is left to do: input, and output that may still come.\<close>

definition z_rank :: "(nat \<Rightarrow> nat) \<Rightarrow> ('z \<Rightarrow> bytes) \<Rightarrow> ('z \<Rightarrow> bytes) \<Rightarrow> 'z zlib_out \<Rightarrow> nat" where
  "z_rank bound zin zout s = length (avail_bytes s) +
     (bound (length (zin (zstream s)) + length (avail_bytes s)) - length (zout (zstream s)))"

lemma z_rank_less:
  assumes "mono bound" and "avail_bytes s' = drop used (avail_bytes s)" and "used \<le> length (avail_bytes s)"
    and "zin (zstream s') = zin (zstream s) @ take used (avail_bytes s)"
    and "length (zout (zstream s')) \<le> bound (length (zin (zstream s')))"
    and "length (zout (zstream s)) \<le> length (zout (zstream s'))"
    and "0 < used \<or> length (zout (zstream s)) < length (zout (zstream s'))"
  shows "z_rank bound zin zout s' < z_rank bound zin zout s"
proof -
  let ?t = "length (zin (zstream s)) + length (avail_bytes s)"
  have t: "length (zin (zstream s')) + length (avail_bytes s') = ?t" using assms(2-4) by simp
  have "bound (length (zin (zstream s'))) \<le> bound ?t" by (rule monoD [OF assms(1)]) (use assms(3,4) in simp)
  then have "length (zout (zstream s')) \<le> bound ?t" using assms(5) by simp
  moreover have "z_rank bound zin zout s' = length (avail_bytes s') + (bound ?t - length (zout (zstream s')))"
    "z_rank bound zin zout s = length (avail_bytes s) + (bound ?t - length (zout (zstream s)))"
    "length (avail_bytes s') = length (avail_bytes s) - used"
    using t assms(2) by (simp_all add: z_rank_def)
  ultimately show ?thesis using assms(3,6,7) by linarith
qed

lemma contract_mono: "deflate_contract deflate deflateEnd inflate live zin zout bound \<Longrightarrow> mono bound"
  unfolding deflate_contract_def by (rule conjunct1)

lemma avail_drop: "next_in s' = map_option (drop used) (next_in s) \<Longrightarrow> avail_bytes s' = drop used (avail_bytes s)"
  by (simp add: avail_bytes_def split: option.splits)

lemma avail_zerror [simp]: "avail_bytes (s\<lparr>zerror := e\<rparr>) = avail_bytes s" "z_inv pre zout (s\<lparr>zerror := e\<rparr>) = z_inv pre zout s"
  "z_rank bound zin zout (s\<lparr>zerror := e\<rparr>) = z_rank bound zin zout s"
  by (simp_all add: avail_bytes_def z_inv_def z_rank_def)

lemma z_write_loop_ok:
  assumes con: "deflate_contract deflate deflateEnd inflate live zin zout bound"
  shows "z_inv pre zout s \<Longrightarrow> live (zstream s) \<Longrightarrow> zerror s = Z_OK \<Longrightarrow>
    \<exists>s'. z_write_loop deflate s = Some (Inr s') \<and> z_inv pre zout s' \<and> live (zstream s') \<and> zerror s' = Z_OK \<and>
      avail_bytes s' = [] \<and> zin (zstream s') = zin (zstream s) @ avail_bytes s"
proof (induction "z_rank bound zin zout s" arbitrary: s rule: less_induct)
  case less
  show ?case
  proof (cases "avail_bytes s = []")
    case True
    then have "z_write_loop deflate s = Some (Inr s)" by (subst z_write_loop.simps) simp
    with True less.prems show ?thesis by auto
  next
    case False
    obtain err s1 used where c: "z_compress deflate False s = Inr (err, s1)" "z_inv pre zout s1"
        "next_in s1 = map_option (drop used) (next_in s)" "used \<le> length (avail_bytes s)"
        "zin (zstream s1) = zin (zstream s) @ take used (avail_bytes s)"
        "length (zout (zstream s1)) \<le> bound (length (zin (zstream s1)))" "length (zout (zstream s)) \<le> length (zout (zstream s1))"
        "err = Z_OK" "live (zstream s1)" "0 < used \<or> length (zout (zstream s)) < length (zout (zstream s1))"
      using z_compress_ok [OF con less.prems(1,2) disjI1 [OF False], of False] by blast
    note av = avail_drop [OF c(3)]
    note rank = z_rank_less [OF contract_mono [OF con] av c(4-7,10)]
    let ?s = "s1\<lparr>zerror := Z_OK\<rparr>"
    have "z_write_loop deflate s = z_write_loop deflate ?s"
      using False less.prems(3) c(1,8) by (subst z_write_loop.simps) simp
    moreover have "\<exists>s'. z_write_loop deflate ?s = Some (Inr s') \<and> z_inv pre zout s' \<and> live (zstream s') \<and> zerror s' = Z_OK \<and>
      avail_bytes s' = [] \<and> zin (zstream s') = zin (zstream ?s) @ avail_bytes ?s"
      by (rule less.hyps) (use rank c(2,9) in simp_all)
    ultimately show ?thesis using c(5) av by (simp del: append_assoc add: append_assoc [symmetric]) auto
  qed
qed

lemma z_finish_loop_ok:
  assumes con: "deflate_contract deflate deflateEnd inflate live zin zout bound"
  shows "z_inv pre zout s \<Longrightarrow> live (zstream s) \<Longrightarrow> zerror s = Z_OK \<Longrightarrow>
    \<exists>s'. z_finish_loop deflate s = Some (Inr s') \<and> z_inv pre zout s' \<and> deflateEnd (zstream s') = Z_OK \<and>
      inflate (zout (zstream s')) = zin (zstream s') \<and> zin (zstream s') = zin (zstream s) @ avail_bytes s"
proof (induction "z_rank bound zin zout s" arbitrary: s rule: less_induct)
  case less
  obtain err s1 used where c: "z_compress deflate True s = Inr (err, s1)" "z_inv pre zout s1"
      "next_in s1 = map_option (drop used) (next_in s)" "used \<le> length (avail_bytes s)"
      "zin (zstream s1) = zin (zstream s) @ take used (avail_bytes s)"
      "length (zout (zstream s1)) \<le> bound (length (zin (zstream s1)))" "length (zout (zstream s)) \<le> length (zout (zstream s1))"
    and r: "err = Z_OK \<and> live (zstream s1) \<and> (0 < used \<or> length (zout (zstream s)) < length (zout (zstream s1))) \<or>
      err = Z_STREAM_END \<and> used = length (avail_bytes s) \<and> inflate (zout (zstream s1)) = zin (zstream s1) \<and> deflateEnd (zstream s1) = Z_OK"
    using z_compress_ok [OF con less.prems(1,2), of True] by blast
  let ?s = "s1\<lparr>zerror := err\<rparr>"
  have unfold: "z_finish_loop deflate s = z_finish_loop deflate ?s"
    using less.prems(3) c(1) by (subst z_finish_loop.simps) simp
  note av = avail_drop [OF c(3)]
  show ?case
  proof (cases "err = Z_OK")
    case True
    with r have ok: "err = Z_OK" "live (zstream s1)" and p: "0 < used \<or> length (zout (zstream s)) < length (zout (zstream s1))" by auto
    note rank = z_rank_less [OF contract_mono [OF con] av c(4-7) p]
    have "\<exists>s'. z_finish_loop deflate ?s = Some (Inr s') \<and> z_inv pre zout s' \<and> deflateEnd (zstream s') = Z_OK \<and>
        inflate (zout (zstream s')) = zin (zstream s') \<and> zin (zstream s') = zin (zstream ?s) @ avail_bytes ?s"
      by (rule less.hyps) (use rank c(2) ok in simp_all)
    then show ?thesis using unfold c(5) av by (simp del: append_assoc add: append_assoc [symmetric]) auto
  next
    case False
    with r have "err = Z_STREAM_END" and f: "used = length (avail_bytes s)" "inflate (zout (zstream s1)) = zin (zstream s1)" "deflateEnd (zstream s1) = Z_OK" by auto
    then have "z_finish_loop deflate ?s = Some (Inr ?s)" by (subst z_finish_loop.simps) simp
    then show ?thesis using unfold c(2,5) f by (intro exI [of _ ?s]) simp
  qed
qed

lemma z_write_ok:
  assumes con: "deflate_contract deflate deflateEnd inflate live zin zout bound" and inv: "z_inv pre zout s"
    and s: "live (zstream s)" "zerror s = Z_OK" "next_in s = None" and d: "length d < 2 ^ 32"
  shows "\<exists>s'. z_write deflate d s = Some (Inr (True, s')) \<and> z_inv pre zout s' \<and> live (zstream s') \<and> zerror s' = Z_OK \<and>
    next_in s' = None \<and> zin (zstream s') = zin (zstream s) @ d"
proof -
  let ?s = "s\<lparr>next_in := Some d\<rparr>"
  have "z_inv pre zout ?s" "avail_bytes ?s = d" using inv by (simp_all add: z_inv_def avail_bytes_def)
  with z_write_loop_ok [OF con, of pre ?s] s obtain s' where s': "z_write_loop deflate ?s = Some (Inr s')" "z_inv pre zout s'"
      "live (zstream s')" "zerror s' = Z_OK" "avail_bytes s' = []" "zin (zstream s') = zin (zstream s) @ d" by auto
  have m: "length d mod 2 ^ 32 = length d" by (rule mod_less [OF d])
  have "z_write deflate d s = Some (Inr (True, s'\<lparr>next_in := None\<rparr>))"
    unfolding z_write_def m using s s'(1,4,5) by simp
  moreover have "z_inv pre zout (s'\<lparr>next_in := None\<rparr>)" using s'(2) by (simp add: z_inv_def)
  ultimately show ?thesis using s' by auto
qed

lemma z_write_buffer_ok:
  assumes con: "deflate_contract deflate deflateEnd inflate live zin zout bound" and inv: "z_inv pre zout s"
    and s: "live (zstream s)" "zerror s = Z_OK" and b: "buffer_inv b" "readableBytes b < 2 ^ 32"
  shows "\<exists>b' s' used. z_write_buffer deflate b s = Inr (True, b', s') \<and> z_inv pre zout s' \<and> live (zstream s') \<and> zerror s' = Z_OK \<and>
    next_in s' = Some (content b') \<and> content b = take used (content b) @ content b' \<and>
    zin (zstream s') = zin (zstream s) @ take used (content b)"
proof -
  let ?s = "s\<lparr>next_in := Some (content b)\<rparr>"
  have len: "length (content b) = readableBytes b" using b(1) by (simp add: content_def readableBytes_def buffer_inv_def)
  then have nx: "take (readableBytes b mod 2 ^ 32) (content b) = content b" using b(2) by simp
  have a: "avail_bytes ?s = content b" "z_inv pre zout ?s" using inv by (simp_all add: avail_bytes_def z_inv_def)
  obtain s' used where s': "(if avail_bytes ?s \<noteq> [] then rbind (z_compress deflate False ?s) (\<lambda>(err, s). Inr (s\<lparr>zerror := err\<rparr>)) else Inr ?s) = Inr s'"
      "z_inv pre zout s'" "live (zstream s')" "zerror s' = Z_OK" "next_in s' = Some (drop used (content b))" "used \<le> length (content b)"
      "zin (zstream s') = zin (zstream s) @ take used (content b)"
  proof (cases "content b = []")
    case True
    with that [of ?s 0] a s show ?thesis by simp
  next
    case False
    then obtain err s1 used where c: "z_compress deflate False ?s = Inr (err, s1)" "z_inv pre zout s1"
        "next_in s1 = map_option (drop used) (next_in ?s)" "used \<le> length (avail_bytes ?s)"
        "zin (zstream s1) = zin (zstream ?s) @ take used (avail_bytes ?s)" "err = Z_OK" "live (zstream s1)"
      using z_compress_ok [OF con a(2), of False] s(1) a(1) by auto
    with that [of "s1\<lparr>zerror := Z_OK\<rparr>" used] False a(1) show ?thesis by simp
  qed
  have av: "length (avail_bytes s') = readableBytes b - used" using s'(5) len by (simp add: avail_bytes_def)
  obtain b' where b': "retrieve (readableBytes b - length (avail_bytes s')) b = Inr b'" "content b' = drop used (content b)"
    using retrieve_ok [OF b(1), of used] av s'(6) len by auto
  have "z_write_buffer deflate b s = Inr (True, b', s')"
    using s(2) s'(1,4) b'(1) unfolding z_write_buffer_def nx by (simp only: Let_def) simp
  with s' b'(2) show ?thesis by (intro exI [of _ b'] exI [of _ s'] exI [of _ used]) simp
qed

text \<open>No string is written after a buffer; \<open>seen\<close> tells whether a buffer was written before.\<close>

fun strings_first :: "bool \<Rightarrow> z_op list \<Rightarrow> bool" where
  "strings_first seen [] = True"
| "strings_first seen (WritePiece d # ws) = (\<not> seen \<and> strings_first seen ws)"
| "strings_first seen (WriteBuffer b # ws) = strings_first True ws"

fun op_ok :: "z_op \<Rightarrow> bool" where
  "op_ok (WritePiece d) = (length d < 2 ^ 32)"
| "op_ok (WriteBuffer b) = (buffer_inv b \<and> readableBytes b < 2 ^ 32)"

text \<open>How the inputs split into what was compressed and what was left.\<close>

definition splits_inputs :: "z_op list \<Rightarrow> bytes list \<Rightarrow> bytes list \<Rightarrow> bool" where
  "splits_inputs ws used rests \<longleftrightarrow> length used = length ws \<and> length rests = length ws \<and> map input_of ws = map2 (@) used rests \<and>
     (\<forall>k < length ws. \<forall>d. ws ! k = WritePiece d \<longrightarrow> rests ! k = [])"

lemma splits_inputs_simps [simp]:
  "splits_inputs [] [] []"
  "splits_inputs (w # ws) (u # us) (r # rs) \<longleftrightarrow> input_of w = u @ r \<and> (\<forall>d. w = WritePiece d \<longrightarrow> r = []) \<and> splits_inputs ws us rs"
  by (auto simp: splits_inputs_def All_less_Suc2)

lemma z_write_all_ok:
  assumes con: "deflate_contract deflate deflateEnd inflate live zin zout bound"
  shows "z_inv pre zout s \<Longrightarrow> live (zstream s) \<Longrightarrow> zerror s = Z_OK \<Longrightarrow> (next_in s \<noteq> None) = seen \<Longrightarrow> \<forall>w \<in> set ws. op_ok w \<Longrightarrow>
    if strings_first seen ws
    then \<exists>s' used rests. z_write_all deflate ws s = Some (Inr (True, rests, s')) \<and> z_inv pre zout s' \<and> live (zstream s') \<and> zerror s' = Z_OK \<and>
      splits_inputs ws used rests \<and> avail_bytes s' = (if ws = [] then avail_bytes s else last rests) \<and> zin (zstream s') = zin (zstream s) @ concat used
    else z_write_all deflate ws s = Some (Inl AssertFail)"
proof (induction ws arbitrary: s seen)
  case (Cons w ws)
  have nxt: ?case if w: "z_op_step deflate w s = Some (Inr (True, rest, s1))" "z_inv pre zout s1" "live (zstream s1)" "zerror s1 = Z_OK"
      "input_of w = u @ rest" "\<forall>d. w = WritePiece d \<longrightarrow> rest = []" "avail_bytes s1 = rest" "zin (zstream s1) = zin (zstream s) @ u"
      "strings_first seen (w # ws) = strings_first (next_in s1 \<noteq> None) ws" for rest s1 u
  proof (cases "strings_first (next_in s1 \<noteq> None) ws")
    case True
    with Cons.IH [OF w(2-4) refl] Cons.prems(5) obtain s' used rests where
      s': "z_write_all deflate ws s1 = Some (Inr (True, rests, s'))" "z_inv pre zout s'" "live (zstream s')" "zerror s' = Z_OK"
      "splits_inputs ws used rests" "avail_bytes s' = (if ws = [] then avail_bytes s1 else last rests)"
      "zin (zstream s') = zin (zstream s1) @ concat used" by auto
    moreover have "(rests = []) = (ws = [])" using s'(5) by (auto simp: splits_inputs_def)
    ultimately show ?thesis using True w
      by (simp del: strings_first.simps) (cases "ws = []", (intro impI conjI exI [of _ "u # used"], simp_all)+)
  next
    case False
    with Cons.IH [OF w(2-4) refl] Cons.prems(5) w(1,9) show ?thesis by (simp del: strings_first.simps)
  qed
  show ?case
  proof (cases w)
    case (WritePiece d)
    show ?thesis
    proof (cases seen)
      case True
      with WritePiece Cons.prems(3,4) show ?thesis by (simp add: z_write_def)
    next
      case False
      with Cons.prems WritePiece obtain s1 where "z_write deflate d s = Some (Inr (True, s1))" "z_inv pre zout s1" "live (zstream s1)" "zerror s1 = Z_OK"
          "next_in s1 = None" "zin (zstream s1) = zin (zstream s) @ d"
        using z_write_ok [OF con Cons.prems(1-3), of d] by auto
      with WritePiece False show ?thesis by (intro nxt [of "[]" s1 d]) (simp_all add: avail_bytes_def)
    qed
  next
    case (WriteBuffer b)
    with Cons.prems(5) z_write_buffer_ok [OF con Cons.prems(1-3), of b] obtain b' s1 used where
      "z_write_buffer deflate b s = Inr (True, b', s1)" "z_inv pre zout s1" "live (zstream s1)" "zerror s1 = Z_OK"
      "next_in s1 = Some (content b')" "content b = take used (content b) @ content b'"
      "zin (zstream s1) = zin (zstream s) @ take used (content b)" by auto
    with WriteBuffer show ?thesis by (intro nxt [of "content b'" s1 "take used (content b)"]) (simp_all add: avail_bytes_def)
  qed
qed (auto intro!: exI [of _ "[]"])

text \<open>C25: Compression is lossless and ends. For a zlib that keeps its documented contract, a fresh stream on a buffer with the
  bytes \<open>pre\<close> in it takes any sequence of calls of the two overloads of \<open>write\<close> (each with an input under four gigabytes) and then \<open>finish\<close>.
  When no \<open>write(StringPiece)\<close> comes after a \<open>write(Buffer *)\<close>, every loop ends, no assertion fails and all calls report
  success; a string is compressed as a whole, of a buffer some beginning is compressed and retrieved; and what was
  appended to the output inflates to what the calls compressed, in order, followed by what the last call left in its buffer,
  which \<open>finish\<close> compresses too. In all other sequences the first \<open>write(StringPiece)\<close> after a \<open>write(Buffer *)\<close> fails its assertion.\<close>

theorem zlib_stream_roundtrip:
  assumes "deflate_contract deflate deflateEnd inflate live zin zout bound"
    and "live z" and "zin z = []" and "zout z = []"
    and "buffer_inv output" and "prependableBytes output = kCheapPrepend" and "writableBytes output < 2 ^ 32"
    and "content output = pre" and "\<forall>w \<in> set ws. op_ok w"
  shows "if strings_first False ws
    then \<exists>s s' used rests data. z_write_all deflate ws (ZlibOutputStream_new Z_OK z output) = Some (Inr (True, rests, s)) \<and>
      splits_inputs ws used rests \<and> z_finish deflate deflateEnd s = Some (Inr (True, s')) \<and>
      content (z_output s') = pre @ data \<and> inflate data = concat used @ (if ws = [] then [] else last rests)
    else z_write_all deflate ws (ZlibOutputStream_new Z_OK z output) = Some (Inl AssertFail)"
proof (cases "strings_first False ws")
  case True
  let ?s = "ZlibOutputStream_new Z_OK z output"
  have "z_inv pre zout ?s" using assms by (simp add: z_inv_def ZlibOutputStream_new_def)
  with z_write_all_ok [OF assms(1), of pre ?s False ws] True assms(2,3,9) obtain s used rests where
      s: "z_write_all deflate ws ?s = Some (Inr (True, rests, s))" "z_inv pre zout s" "live (zstream s)" "zerror s = Z_OK"
      "splits_inputs ws used rests" "avail_bytes s = (if ws = [] then [] else last rests)" "zin (zstream s) = concat used"
    by (auto simp: ZlibOutputStream_new_def avail_bytes_def)
  obtain s' where s': "z_finish_loop deflate s = Some (Inr s')" "z_inv pre zout s'" "deflateEnd (zstream s') = Z_OK"
      "inflate (zout (zstream s')) = zin (zstream s')" "zin (zstream s') = zin (zstream s) @ avail_bytes s"
    using z_finish_loop_ok [OF assms(1) s(2-4)] by blast
  have "z_finish deflate deflateEnd s = Some (Inr (True, s'\<lparr>zerror := Z_STREAM_END\<rparr>))" using s(4) s'(1,3) by (simp add: z_finish_def)
  moreover have "content (z_output s') = pre @ zout (zstream s')" using s'(2) by (simp add: z_inv_def)
  moreover have "inflate (zout (zstream s')) = concat used @ (if ws = [] then [] else last rests)" using s'(4,5) s(6,7) by simp
  ultimately show ?thesis using s(1,5) True by auto
next
  case False
  moreover have "z_inv pre zout (ZlibOutputStream_new Z_OK z output)" using assms by (simp add: z_inv_def ZlibOutputStream_new_def)
  ultimately show ?thesis
    using z_write_all_ok [OF assms(1), of pre "ZlibOutputStream_new Z_OK z output" False ws] assms by (simp add: ZlibOutputStream_new_def)
qed

text \<open>A compressor that stores its input keeps the contract.\<close>

definition stored :: "(bytes \<times> bytes) deflate_fn" where
  "stored z fin d n = (let u = min n (length d) in
     (if fin \<and> u = length d then Z_STREAM_END else Z_OK, (fst z @ take u d, snd z @ take u d), u, take u d))"

lemma stored_contract: "deflate_contract stored (\<lambda>_. Z_OK) id (\<lambda>z. fst z = snd z) fst snd id"
  unfolding deflate_contract_def
  by (intro conjI allI impI) (auto simp: stored_def mono_def Let_def min_def split: if_splits)

theorem zlib_stream_roundtrip_witness:
  "(\<exists>s s' used rests data. z_write_all stored [WritePiece ''hello '', WriteBuffer (empty_buffer 8)]
      (ZlibOutputStream_new Z_OK ([], []) (empty_buffer kInitialSize)) = Some (Inr (True, rests, s)) \<and>
    z_finish stored (\<lambda>_. Z_OK) s = Some (Inr (True, s')) \<and> content (z_output s') = data \<and> id data = concat used @ last rests \<and>
    hd used = ''hello '') \<and>
   z_write_all stored [WriteBuffer (empty_buffer 8), WritePiece ''x''] (ZlibOutputStream_new Z_OK ([], []) (empty_buffer kInitialSize)) =
     Some (Inl AssertFail)"
proof -
  note rt = zlib_stream_roundtrip [OF stored_contract, of "([], [])" "empty_buffer kInitialSize" "[]"]
  have out: "buffer_inv (empty_buffer kInitialSize)" "prependableBytes (empty_buffer kInitialSize) = kCheapPrepend"
      "writableBytes (empty_buffer kInitialSize) < 2 ^ 32" "content (empty_buffer kInitialSize) = []"
    and inp: "buffer_inv (empty_buffer 8)" "readableBytes (empty_buffer 8) < 2 ^ 32"
    by (simp_all add: empty_buffer_def buffer_inv_def prependableBytes_def writableBytes_def readableBytes_def content_def kInitialSize_def kCheapPrepend_def)
  obtain s s' used rests data where
    r: "z_write_all stored [WritePiece ''hello '', WriteBuffer (empty_buffer 8)] (ZlibOutputStream_new Z_OK ([], []) (empty_buffer kInitialSize)) =
        Some (Inr (True, rests, s))" "splits_inputs [WritePiece ''hello '', WriteBuffer (empty_buffer 8)] used rests"
      "z_finish stored (\<lambda>_. Z_OK) s = Some (Inr (True, s'))" "content (z_output s') = [] @ data" "id data = concat used @ last rests"
    using rt [of "[WritePiece ''hello '', WriteBuffer (empty_buffer 8)]"] out inp by auto
  moreover have "hd used = ''hello ''" using r(2) by (auto simp: splits_inputs_def length_Suc_conv numeral_2_eq_2)
  moreover have "z_write_all stored [WriteBuffer (empty_buffer 8), WritePiece ''x'']
      (ZlibOutputStream_new Z_OK ([], []) (empty_buffer kInitialSize)) = Some (Inl AssertFail)"
    using rt [of "[WriteBuffer (empty_buffer 8), WritePiece ''x'']"] out inp by simp
  ultimately show ?thesis by auto
qed

text \<open>After a finished stream nothing more is written, and the destructor's second \<open>finish\<close> does nothing.\<close>

lemma finish_twice: "z_finish deflate dend s = Some (Inr (ok, s')) \<Longrightarrow> zerror s = Z_OK \<Longrightarrow> z_finish deflate dend s' = Some (Inr (False, s'))"
  by (auto simp: z_finish_def split: option.splits sum.splits)

end
