(* ===== verification/BufferStream.thy ===== *)
theory BufferStream
  imports Buffer
begin

section \<open>Zero-copy output (\<open>net/protobuf/BufferStream.h\<close>)\<close>

text \<open>
  \<open>BufferOutputStream\<close> lets protobuf write into a \<open>Buffer\<close> without a copy. \<open>Next\<close> hands out the whole writable area as if it
  were written; the caller fills a part of it and gives the rest back with \<open>BackUp\<close>. The area is an index into the
  storage of the buffer and a 32-bit size, which is cast from and to \<open>size_t\<close>.
\<close>

record out_stream =
  os_buffer :: buffer
  originalSize :: nat

definition BufferOutputStream_new :: "buffer \<Rightarrow> out_stream" where
  "BufferOutputStream_new b = \<lparr>os_buffer = b, originalSize = readableBytes b\<rparr>"

definition os_Next :: "out_stream \<Rightarrow> ((nat \<times> 32 word) \<times> out_stream) res" where
  "os_Next s =
     rbind (ensureWritableBytes 4096 (os_buffer s)) (\<lambda>b.
     let data = beginWrite b; size = (of_nat (writableBytes b) :: 32 word) in
     rbind (hasWritten (unat (scast size :: 64 word)) b) (\<lambda>b. Inr ((data, size), s\<lparr>os_buffer := b\<rparr>)))"

definition os_BackUp :: "32 word \<Rightarrow> out_stream \<Rightarrow> out_stream res" where
  "os_BackUp count s = rbind (unwrite (unat (scast count :: 64 word)) (os_buffer s)) (\<lambda>b. Inr (s\<lparr>os_buffer := b\<rparr>))"

definition os_ByteCount :: "out_stream \<Rightarrow> int" where
  "os_ByteCount s = sint (of_nat (readableBytes (os_buffer s)) - of_nat (originalSize s) :: 64 word)"

text \<open>What a caller of the interface does: it takes an area, fills the beginning of it and gives the rest back.\<close>

definition os_fill :: "bytes \<Rightarrow> out_stream \<Rightarrow> out_stream res" where
  "os_fill d s =
     rbind (os_Next s) (\<lambda>((data, size), s).
     let b = os_buffer s in
     os_BackUp (size - of_nat (length d)) (s\<lparr>os_buffer := b\<lparr>buf_data := overwrite (buf_data b) data d\<rparr>\<rparr>))"

lemma unat_scast_small:
  assumes "n < 2 ^ 31"
  shows "unat (scast (of_nat n :: 32 word) :: 64 word) = n"
proof -
  have "sint (of_nat n :: 32 word) = int n"
    using assms by (simp add: signed_of_nat signed_take_bit_int_eq_self)
  then have "(scast (of_nat n :: 32 word) :: 64 word) = of_nat n" by (simp add: scast_eq)
  then show ?thesis using assms by (simp add: unat_of_nat)
qed

lemma ensureWritableBytes_size:
  assumes "ensureWritableBytes len b = Inr b'" and "buffer_inv b"
  shows "length (buf_data b') \<le> length (buf_data b) + len"
  using assms
  by (auto simp: ensureWritableBytes_def makeSpace_def vec_resize_def Let_def overwrite_def window_def buffer_defs split: if_splits)

text \<open>The bytes filled in are appended to the buffer, exactly as by \<open>append\<close>, as long as the storage stays below 2 GB.\<close>

lemma os_fill_appends:
  assumes "buffer_inv (os_buffer s)" and "length (buf_data (os_buffer s)) + 4096 < 2 ^ 31" and "length d \<le> 4096"
  shows "\<exists>s'. os_fill d s = Inr s' \<and> buffer_inv (os_buffer s') \<and> content (os_buffer s') = content (os_buffer s) @ d \<and>
    originalSize s' = originalSize s"
proof -
  obtain c where c: "ensureWritableBytes 4096 (os_buffer s) = Inr c" "buffer_inv c"
    "content c = content (os_buffer s)" "4096 \<le> writableBytes c"
    using ensureWritableBytes_ok [OF assms(1)] by blast
  let ?n = "writableBytes c"
  have n: "?n < 2 ^ 31"
    using ensureWritableBytes_size [OF c(1) assms(1)] assms(2) by (simp add: writableBytes_def)
  have "(of_nat ?n :: 32 word) - of_nat (length d) = of_nat (?n - length d)"
    using assms(3) c(4) by (simp add: of_nat_diff)
  moreover have "unat (scast (of_nat (?n - length d) :: 32 word) :: 64 word) = ?n - length d"
    using n by (intro unat_scast_small) simp
  moreover have "writerIndex c + ?n - (?n - length d) = writerIndex c + length d"
    using assms(3) c(4) by simp
  moreover have "?n - length d \<le> writerIndex c + ?n - readerIndex c"
    using c(2) by (auto simp: buffer_defs)
  ultimately have "os_fill d s = Inr (s\<lparr>os_buffer := c\<lparr>buf_data := overwrite (buf_data c) (writerIndex c) d,
      writerIndex := writerIndex c + length d\<rparr>\<rparr>)"
    using c(1) n
    by (simp add: os_fill_def os_Next_def os_BackUp_def unat_scast_small hasWritten_def unwrite_def beginWrite_def readableBytes_def)
  then show ?thesis
    using write_at_end [OF c(2), of d] c(3,4) assms(3) by simp
qed

lemma os_ByteCount_fill:
  assumes "os_fill d (BufferOutputStream_new b) = Inr s" and "buffer_inv b" and "length (buf_data b) + 4096 < 2 ^ 31"
    and "length d \<le> 4096"
  shows "os_ByteCount s = int (length d)"
proof -
  from os_fill_appends [of "BufferOutputStream_new b" d] assms
  have s: "buffer_inv (os_buffer s)" "content (os_buffer s) = content b @ d" "originalSize s = readableBytes b"
    by (auto simp: BufferOutputStream_new_def)
  have "readableBytes (os_buffer s) = readableBytes b + length d"
    using length_content [OF s(1)] length_content [OF assms(2)] s(2) by simp
  then show ?thesis
    using s(3) assms(4) by (simp add: os_ByteCount_def signed_of_nat signed_take_bit_int_eq_self)
qed

end
