(* ===== verification/GzipFile.thy ===== *)
theory GzipFile
  imports Runs
begin

section \<open>Ownership of compressed files (\<open>base/GzipFile.h\<close>)\<close>

text \<open>
  A \<open>GzipFile\<close> owns a handle of zlib or none. It cannot be copied; it is moved, swapped and destroyed. The state has the objects of the program,
  numbered, each with its \<open>file_\<close>, and the handles that are open. Closing a handle that is not open is undefined. What is read and written is
  zlib's affair; an answer of \<open>gzread\<close> or \<open>gzwrite\<close> is passed on.
\<close>

record gz_state =
  gz_objs :: "nat \<rightharpoonup> nat option"
  gz_handles :: "nat set"

text \<open>The four ways to open a file differ in the mode; the answer of \<open>gzopen\<close> is a new handle or \<open>NULL\<close>.\<close>

datatype gz_mode = ForRead | ForAppend | ForWriteExclusive | ForWriteTruncate

fun gz_mode_text :: "gz_mode \<Rightarrow> string" where
  "gz_mode_text ForRead = ''rbe''"
| "gz_mode_text ForAppend = ''abe''"
| "gz_mode_text ForWriteExclusive = ''wbxe''"
| "gz_mode_text ForWriteTruncate = ''wbe''"

definition gz_openFile :: "nat option \<Rightarrow> nat \<Rightarrow> gz_state \<Rightarrow> gz_state" where
  "gz_openFile answer x s =
     s\<lparr>gz_objs := (gz_objs s)(x \<mapsto> answer), gz_handles := gz_handles s \<union> set_option answer\<rparr>"

definition gz_moveNew :: "nat \<Rightarrow> nat \<Rightarrow> gz_state \<Rightarrow> gz_state" where
  "gz_moveNew x rhs s = s\<lparr>gz_objs := (gz_objs s)(x := gz_objs s rhs, rhs \<mapsto> None)\<rparr>"

definition gz_swap :: "nat \<Rightarrow> nat \<Rightarrow> gz_state \<Rightarrow> gz_state" where
  "gz_swap x rhs s = s\<lparr>gz_objs := (gz_objs s)(x := gz_objs s rhs, rhs := gz_objs s x)\<rparr>"

definition gz_assign :: "nat \<Rightarrow> nat \<Rightarrow> gz_state \<Rightarrow> gz_state" where "gz_assign x rhs s = gz_swap x rhs s"

definition gz_valid :: "nat \<Rightarrow> gz_state \<Rightarrow> bool" where
  "gz_valid x s \<longleftrightarrow> (case gz_objs s x of Some (Some h) \<Rightarrow> True | _ \<Rightarrow> False)"

definition gz_dtor :: "nat \<Rightarrow> gz_state \<Rightarrow> gz_state res" where
  "gz_dtor x s =
     (case gz_objs s x of
        Some (Some h) \<Rightarrow>
          if h \<in> gz_handles s
          then Inr (s\<lparr>gz_objs := (gz_objs s)(x := None), gz_handles := gz_handles s - {h}\<rparr>)
          else Inl UndefinedBehaviour
      | _ \<Rightarrow> Inr (s\<lparr>gz_objs := (gz_objs s)(x := None)\<rparr>))"

inductive gz_step :: "gz_state \<Rightarrow> gz_state res \<Rightarrow> bool" where
  Open: "gz_objs s x = None \<Longrightarrow> set_option answer \<inter> gz_handles s = {} \<Longrightarrow> gz_step s (Inr (gz_openFile answer x s))"
| Move: "gz_objs s x = None \<Longrightarrow> gz_objs s rhs \<noteq> None \<Longrightarrow> gz_step s (Inr (gz_moveNew x rhs s))"
| Assign: "gz_objs s x \<noteq> None \<Longrightarrow> gz_objs s rhs \<noteq> None \<Longrightarrow> gz_step s (Inr (gz_assign x rhs s))"
| Destroy: "gz_objs s x \<noteq> None \<Longrightarrow> gz_step s (gz_dtor x s)"

text \<open>Every open handle belongs to exactly one object, and no object has a closed one.\<close>

definition gz_inv :: "gz_state \<Rightarrow> bool" where
  "gz_inv s \<longleftrightarrow> (\<forall>h. h \<in> gz_handles s \<longleftrightarrow> (\<exists>x. gz_objs s x = Some (Some h))) \<and>
     (\<forall>x y h. gz_objs s x = Some (Some h) \<longrightarrow> gz_objs s y = Some (Some h) \<longrightarrow> x = y)"

lemma gz_invI:
  assumes "\<And>h x. gz_objs s x = Some (Some h) \<Longrightarrow> h \<in> gz_handles s" and "\<And>h. h \<in> gz_handles s \<Longrightarrow> \<exists>x. gz_objs s x = Some (Some h)"
    and "\<And>x y h. gz_objs s x = Some (Some h) \<Longrightarrow> gz_objs s y = Some (Some h) \<Longrightarrow> x = y"
  shows "gz_inv s"
  using assms unfolding gz_inv_def by blast

lemma gz_invD:
  assumes "gz_inv s"
  shows "gz_objs s x = Some (Some h) \<Longrightarrow> h \<in> gz_handles s" and "h \<in> gz_handles s \<Longrightarrow> \<exists>x. gz_objs s x = Some (Some h)"
    and "gz_objs s x = Some (Some h) \<Longrightarrow> gz_objs s y = Some (Some h) \<Longrightarrow> x = y"
  using assms unfolding gz_inv_def by blast+

lemma gz_open_inv:
  assumes "gz_inv s" and "gz_objs s x = None" and "set_option answer \<inter> gz_handles s = {}"
  shows "gz_inv (gz_openFile answer x s)"
proof (rule gz_invI)
  fix h assume "h \<in> gz_handles (gz_openFile answer x s)"
  then consider "answer = Some h" | "h \<in> gz_handles s" by (auto simp: gz_openFile_def)
  then show "\<exists>y. gz_objs (gz_openFile answer x s) y = Some (Some h)"
  proof cases
    case 2
    with gz_invD(2) [OF assms(1)] obtain y where "gz_objs s y = Some (Some h)" by blast
    with assms(2) show ?thesis by (intro exI [of _ y]) (auto simp: gz_openFile_def)
  qed (auto simp: gz_openFile_def)
qed (use gz_invD(1,3) [OF assms(1)] assms(2,3) in \<open>auto simp: gz_openFile_def split: if_splits\<close>)

text \<open>Moving and swapping give the objects other owners' handles along a permutation of the objects.\<close>

lemma gz_permute:
  assumes "gz_inv s" and "bij p" and "gz_handles s' = gz_handles s"
    and "\<And>x h. gz_objs s' x = Some (Some h) \<longleftrightarrow> gz_objs s (p x) = Some (Some h)"
  shows "gz_inv s'"
proof (rule gz_invI)
  fix h assume "h \<in> gz_handles s'"
  with gz_invD(2) [OF assms(1)] assms(3) obtain y where "gz_objs s y = Some (Some h)" by auto
  moreover obtain x where "p x = y" using assms(2) by (metis bij_pointE)
  ultimately show "\<exists>x. gz_objs s' x = Some (Some h)" using assms(4) by blast
next
  fix x y h assume "gz_objs s' x = Some (Some h)" "gz_objs s' y = Some (Some h)"
  with gz_invD(3) [OF assms(1)] assms(4) have "p x = p y" by blast
  with assms(2) show "x = y" by (metis bij_pointE)
qed (use gz_invD(1) [OF assms(1)] assms(3,4) in auto)

lemma bij_exchange: "bij (id(x := y, y := x))"
  by (rule involuntory_imp_bij) auto

lemma gz_dtor_inv:
  assumes "gz_inv s"
  shows "\<exists>s'. gz_dtor x s = Inr s' \<and> gz_inv s'"
proof (cases "\<exists>h. gz_objs s x = Some (Some h)")
  case True
  then obtain h where h: "gz_objs s x = Some (Some h)" by blast
  let ?s = "s\<lparr>gz_objs := (gz_objs s)(x := None), gz_handles := gz_handles s - {h}\<rparr>"
  have "gz_inv ?s"
  proof (rule gz_invI)
    fix g assume "g \<in> gz_handles ?s"
    with gz_invD(2) [OF assms, of g] obtain y where y: "gz_objs s y = Some (Some g)" "g \<noteq> h" by auto
    with h show "\<exists>y. gz_objs ?s y = Some (Some g)" by (intro exI [of _ y]) auto
  qed (use gz_invD(1,3) [OF assms] h in \<open>auto split: if_splits\<close>)
  with h gz_invD(1) [OF assms h] show ?thesis by (simp add: gz_dtor_def)
next
  case False
  let ?s = "s\<lparr>gz_objs := (gz_objs s)(x := None)\<rparr>"
  have "gz_inv ?s" by (rule gz_permute [OF assms bij_id]) (use False in auto)
  with False show ?thesis by (auto simp: gz_dtor_def split: option.splits)
qed

lemma gz_step_safe: "gz_step s r \<Longrightarrow> gz_inv s \<Longrightarrow> \<exists>s'. r = Inr s' \<and> gz_inv s'"
proof (induction rule: gz_step.induct)
  case (Open s x answer)
  with gz_open_inv show ?case by blast
next
  case (Move s x rhs)
  have "gz_inv (gz_moveNew x rhs s)"
    by (rule gz_permute [OF Move(3) bij_exchange [of x rhs]]) (use Move(1,2) in \<open>auto simp: gz_moveNew_def\<close>)
  then show ?case by blast
next
  case (Assign s x rhs)
  have "gz_inv (gz_assign x rhs s)"
    by (rule gz_permute [OF Assign(3) bij_exchange [of x rhs]]) (auto simp: gz_assign_def gz_swap_def)
  then show ?case by blast
next
  case (Destroy s x)
  with gz_dtor_inv show ?case by blast
qed

interpretation gz: safe_steps gz_step gz_inv
  by unfold_locales (rule gz_step_safe)

text \<open>However files are opened, moved, assigned and destroyed, no handle is closed twice or used after it was closed, and when the last
  object is gone every handle has been closed.\<close>

lemma gzip_no_leak:
  assumes "runs gz_step \<lparr>gz_objs = Map.empty, gz_handles = {}\<rparr> r"
  shows "\<exists>s. r = Inr s \<and> (\<forall>x h. gz_objs s x = Some (Some h) \<longrightarrow> h \<in> gz_handles s) \<and> (gz_objs s = Map.empty \<longrightarrow> gz_handles s = {})"
proof -
  have "gz_inv \<lparr>gz_objs = Map.empty, gz_handles = {}\<rparr>" by (simp add: gz_inv_def)
  from gz.runs_safe [OF assms this] obtain s where "r = Inr s" "gz_inv s" by blast
  moreover from this(2) have "gz_objs s = Map.empty \<Longrightarrow> gz_handles s = {}" using gz_invD(2) by fastforce
  ultimately show ?thesis using gz_invD(1) by blast
qed

end
