(* ===== verification/WeakCallback.thy ===== *)
theory WeakCallback
  imports TcpConnection Runs
begin

section \<open>Weak callbacks and the delayed close (\<open>base/WeakCallback.h\<close>, \<open>net/TcpConnection.cc\<close>)\<close>

text \<open>
  A weak callback names an object without keeping it alive: called after the object is gone it does nothing. \<open>forceCloseWithDelay\<close> gives one
  to a timer. The state has the connections that exist, by number, and the callbacks that timers hold. A connection that is
  down is destroyed by \<open>connectDestroyed\<close> when the tasks queued before have run; its timers stay.
\<close>

definition makeWeakCallback :: "'i \<Rightarrow> ('o \<Rightarrow> 'o res) \<Rightarrow> 'i \<times> ('o \<Rightarrow> 'o res)" where "makeWeakCallback x f = (x, f)"

definition weak_call :: "'i \<times> ('o \<Rightarrow> 'o res) \<Rightarrow> ('i \<rightharpoonup> 'o) \<Rightarrow> ('i \<rightharpoonup> 'o) res" where
  "weak_call w h = (case w of (x, f) \<Rightarrow> (case h x of None \<Rightarrow> Inr h | Some v \<Rightarrow> rbind (f v) (\<lambda>v. Inr (h(x \<mapsto> v)))))"

record delayed =
  dc_conns :: "nat \<rightharpoonup> tcpconn"
  dc_timers :: "(nat \<times> (tcpconn \<Rightarrow> tcpconn res)) list"

definition dc_request :: "nat \<Rightarrow> tcpconn \<Rightarrow> delayed \<Rightarrow> delayed" where
  "dc_request x c d =
     (if tc_state c = kConnected \<or> tc_state c = kDisconnecting
      then d\<lparr>dc_conns := (dc_conns d)(x \<mapsto> forceCloseWithDelay c),
             dc_timers := dc_timers d @ [makeWeakCallback x (\<lambda>c. Inr (forceClose c))]\<rparr>
      else d)"

definition dc_expire :: "nat \<Rightarrow> delayed \<Rightarrow> delayed res" where
  "dc_expire k d =
     rbind (weak_call (dc_timers d ! k) (dc_conns d)) (\<lambda>h.
     Inr (d\<lparr>dc_conns := h, dc_timers := take k (dc_timers d) @ drop (Suc k) (dc_timers d)\<rparr>))"

inductive dc_step :: "delayed \<Rightarrow> delayed res \<Rightarrow> bool" where
  New: "dc_conns d x = None \<Longrightarrow> x \<notin> fst ` set (dc_timers d) \<Longrightarrow> connectEstablished (TcpConnection_new fd) = Inr c \<Longrightarrow>
    dc_step d (Inr (d\<lparr>dc_conns := (dc_conns d)(x \<mapsto> c)\<rparr>))"
| Event: "dc_conns d x = Some c \<Longrightarrow> ev_legal e c \<Longrightarrow>
    dc_step d (rbind (conn_step e c) (\<lambda>c. Inr (d\<lparr>dc_conns := (dc_conns d)(x \<mapsto> c)\<rparr>)))"
| Request: "dc_conns d x = Some c \<Longrightarrow> dc_step d (Inr (dc_request x c d))"
| Expire: "k < length (dc_timers d) \<Longrightarrow> dc_step d (dc_expire k d)"
| Destroy: "dc_conns d x = Some c \<Longrightarrow> tc_state c = kDisconnected \<Longrightarrow> todo c = [] \<Longrightarrow>
    dc_step d (rbind (rbind (connectDestroyed c) TcpConnection_dtor) (\<lambda>_. Inr (d\<lparr>dc_conns := (dc_conns d)(x := None)\<rparr>)))"

definition dc_inv :: "delayed \<Rightarrow> bool" where
  "dc_inv d \<longleftrightarrow> (\<forall>x c. dc_conns d x = Some c \<longrightarrow> tc_inv c \<and> staying c) \<and> (\<forall>w \<in> set (dc_timers d). snd w = (\<lambda>c. Inr (forceClose c)))"

definition dc_bad :: "delayed \<Rightarrow> cpp_error \<Rightarrow> bool" where
  "dc_bad d e \<longleftrightarrow> e = AssertFail \<and> (\<exists>x c. dc_conns d x = Some c \<and> reads_when_down c)"

lemma forceClose_inv: "tc_inv c \<Longrightarrow> staying c \<Longrightarrow> tc_inv (forceClose c) \<and> staying (forceClose c)"
  by (auto simp: forceClose_def queue_task_def tc_inv_def staying_def)

lemma forceCloseWithDelay_inv: "tc_inv c \<Longrightarrow> staying c \<Longrightarrow> tc_inv (forceCloseWithDelay c) \<and> staying (forceCloseWithDelay c)"
  by (auto simp: forceCloseWithDelay_def tc_inv_def staying_def)

lemma weak_call_gone: "h x = None \<Longrightarrow> weak_call (makeWeakCallback x f) h = Inr h"
  by (simp add: weak_call_def makeWeakCallback_def)

lemma dc_expire_ok:
  assumes "dc_inv d" and "k < length (dc_timers d)"
  shows "\<exists>d'. dc_expire k d = Inr d' \<and> dc_inv d'"
proof -
  obtain x f where w: "dc_timers d ! k = (x, f)" by force
  have "(x, f) \<in> set (dc_timers d)" using w assms(2) nth_mem by metis
  with assms(1) have f: "f = (\<lambda>c. Inr (forceClose c))" by (auto simp: dc_inv_def)
  have sub: "set (take k (dc_timers d) @ drop (Suc k) (dc_timers d)) \<subseteq> set (dc_timers d)"
    using set_take_subset [of k "dc_timers d"] set_drop_subset [of "Suc k" "dc_timers d"] by auto
  show ?thesis
  proof (cases "dc_conns d x")
    case None
    with w assms(1) sub show ?thesis by (auto simp: dc_expire_def weak_call_def dc_inv_def)
  next
    case (Some c)
    with assms(1) have "tc_inv (forceClose c) \<and> staying (forceClose c)" using forceClose_inv by (auto simp: dc_inv_def)
    with Some w f assms(1) sub show ?thesis by (auto simp: dc_expire_def weak_call_def dc_inv_def)
  qed
qed

lemma dc_step_checked: "dc_step d r \<Longrightarrow> dc_inv d \<Longrightarrow> (\<exists>d'. r = Inr d' \<and> dc_inv d') \<or> (\<exists>e. r = Inl e \<and> dc_bad d e)"
proof (induction rule: dc_step.induct)
  case (New d x fd c)
  then have "tc_inv c" "staying c"
    using established_inv by (auto simp: staying_def connectEstablished_def TcpConnection_new_def call_user_def ch_interest_def)
  with New show ?case by (auto simp: dc_inv_def)
next
  case (Event d x c e)
  then have i: "tc_inv c" "staying c" by (auto simp: dc_inv_def)
  then have "\<not> destroys_half_closed e c" by (auto simp: destroys_half_closed_def staying_def)
  with conn_step_ok [OF i(1) Event(2)] consider c' where "conn_step e c = Inr c'" "tc_inv c'"
    | "conn_step e c = Inl AssertFail" "reads_when_down c" by blast
  then show ?case
  proof cases
    case 1
    with Event staying_step [OF 1(1) i] show ?thesis by (auto simp: dc_inv_def)
  next
    case 2
    with Event(1) show ?thesis by (auto simp: dc_bad_def)
  qed
next
  case (Request d x c)
  then have "tc_inv (forceCloseWithDelay c) \<and> staying (forceCloseWithDelay c)"
    using forceCloseWithDelay_inv by (auto simp: dc_inv_def)
  with Request show ?case by (auto simp: dc_request_def dc_inv_def makeWeakCallback_def)
next
  case (Expire k d)
  then show ?case using dc_expire_ok by blast
next
  case (Destroy d x c)
  then have i: "tc_inv c" by (auto simp: dc_inv_def)
  show ?case
  proof (cases "reads_when_down c")
    case True
    then have "connectDestroyed c = Inl AssertFail" using connectDestroyed_ok [OF i] Destroy(2) by auto
    with True Destroy(1) show ?thesis by (auto simp: dc_bad_def)
  next
    case False
    then obtain c' where "connectDestroyed c = Inr c'" "TcpConnection_dtor c' = Inr ()"
      using closed_can_be_destroyed [OF i Destroy(2)] by blast
    with Destroy(4) show ?thesis by (auto simp: dc_inv_def)
  qed
qed

interpretation dc: checked_steps dc_step dc_inv dc_bad
  by unfold_locales (rule dc_step_checked)

text \<open>However connections come and go while delayed closes are pending, no timer touches a connection that is gone. An assertion
  fails only on a connection that is down and on which reading was started.\<close>

lemma delayed_close_safe:
  assumes "runs dc_step \<lparr>dc_conns = Map.empty, dc_timers = []\<rparr> r"
  shows "(\<exists>d. r = Inr d \<and> (\<forall>x c. dc_conns d x = Some c \<longrightarrow> tc_inv c)) \<or>
    (\<exists>d x c. runs dc_step \<lparr>dc_conns = Map.empty, dc_timers = []\<rparr> (Inr d) \<and> dc_conns d x = Some c \<and> reads_when_down c \<and> r = Inl AssertFail)"
proof -
  have "dc_inv \<lparr>dc_conns = Map.empty, dc_timers = []\<rparr>" by (simp add: dc_inv_def)
  from dc.runs_checked [OF assms this] show ?thesis
  proof
    assume "\<exists>s. r = Inr s \<and> dc_inv s"
    then show ?thesis by (intro disjI1) (auto simp: dc_inv_def)
  next
    assume "\<exists>s e. runs dc_step \<lparr>dc_conns = Map.empty, dc_timers = []\<rparr> (Inr s) \<and> dc_inv s \<and> r = Inl e \<and> dc_bad s e"
    then show ?thesis by (intro disjI2) (auto simp: dc_bad_def)
  qed
qed

text \<open>A timer that finds its connection up leads to its close: it queues the task, and whenever the loop runs the task the connection is down.\<close>

lemma delayed_close_works:
  assumes "tc_inv c" and "tc_state c \<noteq> kDisconnected"
  shows "weak_call (makeWeakCallback x (\<lambda>c. Inr (forceClose c))) (h(x \<mapsto> c)) = Inr (h(x \<mapsto> forceClose c))"
    and "todo (forceClose c) = todo c @ [TForceClose]"
    and "tc_inv c' \<Longrightarrow> \<exists>c''. run_task w TForceClose c' = Inr c'' \<and> tc_state c'' = kDisconnected"
proof -
  have st: "tc_state c = kConnected \<or> tc_state c = kDisconnecting"
    using assms tc_invD(4) by (cases "tc_state c") auto
  show "weak_call (makeWeakCallback x (\<lambda>c. Inr (forceClose c))) (h(x \<mapsto> c)) = Inr (h(x \<mapsto> forceClose c))"
    by (simp add: weak_call_def makeWeakCallback_def)
  show "todo (forceClose c) = todo c @ [TForceClose]" using st by (simp add: forceClose_def queue_task_def)
  assume inv: "tc_inv c'"
  then show "\<exists>c''. run_task w TForceClose c' = Inr c'' \<and> tc_state c'' = kDisconnected"
    using handleClose_ok [OF inv] tc_invD(4) [OF inv] by (cases "tc_state c'") (auto simp: forceCloseInLoop_def)
qed

end
