(* ===== verification/Spec2Isabelle.thy ===== *)
theory Spec2Isabelle
  imports Buffer DbServer PpMaster RWLock PollPoller TimerQueue EventLoop TcpConnection SocketOps LogConfig PerfInspector RpcSystem
    TcpClient ThreadPool Mutex EventLoopThread Singletons ZlibStream BufferStream GzipFile WeakCallback
begin

text \<open>
  Verification of a distributed cache: the data server (\<open>src/server\<close>), its master (\<open>src/master\<close>) and the
  network library both are built on (\<open>src/master/base\<close>, \<open>src/master/net\<close>).

  \<^bold>\<open>The program.\<close> A \<open>DbServer\<close> keeps \<open>Db\<close> objects, least-recently-used stores of
  keys and values divided into 16384 slots, and answers requests of fixed-width fields. A \<open>PpMaster\<close> knows which server owns
  which slot. The network library runs one \<open>EventLoop\<close> per thread: it waits in a \<open>Poller\<close>, lets \<open>Channel\<close>s
  call their owners, runs timers (\<open>TimerQueue\<close>) and functors queued by other threads. \<open>TcpServer\<close>
  accepts connections (\<open>Acceptor\<close>) and spreads them over a pool of loops, \<open>TcpClient\<close> makes one (\<open>Connector\<close>),
  \<open>TcpConnection\<close> moves bytes between the socket and a \<open>Buffer\<close>. On top are an HTTP server, a protobuf codec
  and an RPC channel, and pages that show the state of the process. Below are logging, dates and time zones, mutexes, threads,
  queues and a thread pool.

  \<^bold>\<open>How it is modelled.\<close> Every function of the source is a HOL function on a record with the fields of its class, with the same
  branches and early returns. A failed \<open>assert\<close>, an exception, \<open>abort\<close> and undefined behaviour are
  values of the error type of \<open>Prelude\<close>; a function that can fail returns a sum. Pointers and iterators are
  numbers, so that a dangling one is visible. Answers of the kernel and clock readings are arguments. Concurrency is a step relation
  whose steps are the critical sections of the source, and theorems hold for every interleaving. Fields named in a theory's
  opening text as history only record what happened and never influence a step.

  \<^bold>\<open>The theories.\<close>
  \<^item> \<open>Prelude\<close>, \<open>Text\<close>, \<open>Runs\<close>: results and errors, lemmas on lists and words; text conversions of the C library
    with a decimal reference; runs of step relations with the locale \<open>checked_steps\<close>, interpreted by every concurrent
    component below that can fail: its invariant carries over to all runs, and a run that fails does so in a way that is named; and the locale
    \<open>safe_steps\<close>, which extends it, for components that cannot fail.
  \<^item> \<open>LruCache\<close>, \<open>DbServer\<close> (\<open>server/Db.cc\<close>, \<open>lruMap.cc\<close>, \<open>DbServer.cc\<close>): the stores with their linked containers and
    the request handler. The locale \<open>kv_store\<close> is what both stores promise for get and delete; both are
    interpretations. The lemmas show which calls are defined, that the containers stay consistent, that the stores
    behave as finite maps, what is evicted, and the exact requests that fail.
  \<^item> \<open>PpMaster\<close>, \<open>RWLock\<close> (\<open>master/PpMaster.cc\<close>, \<open>RWLock.h\<close>): routing and slot arithmetic at 32 and 64 bits; the
    reader-writer lock as a transition system, with its deadlock.
  \<^item> \<open>Endian\<close>, \<open>Buffer\<close> (\<open>net/Endian.h\<close>, \<open>Buffer.h\<close>, \<open>Buffer.cc\<close>): the growing byte buffer with prepend space, integers
    in network order, \<open>readv\<close>. The locale \<open>byte_queue\<close> is the abstract queue it refines.
  \<^item> \<open>Sockets\<close>, \<open>SocketOps\<close> (\<open>net/InetAddress.cc\<close>, \<open>SocketsOps.cc\<close>, \<open>Socket.cc\<close>): addresses and system call wrappers; options, pending
    errors and the text of the statistics of a connection, which is never cut.
  \<^item> \<open>Channel\<close>, \<open>Poller\<close>, \<open>EPollPoller\<close>, \<open>PollPoller\<close> (\<open>net/Channel.cc\<close>, \<open>net/poller\<close>): event masks, dispatch, and the
    two pollers as interpretations of the locale \<open>poller\<close>: the kernel watches exactly what the channels ask for.
  \<^item> \<open>TimerQueue\<close> (\<open>net/TimerQueue.cc\<close>, \<open>Timer.cc\<close>): timers as heap objects, cancelling from inside a callback, the
    timer descriptor.
  \<^item> \<open>EventLoop\<close> (\<open>net/EventLoop.cc\<close>): one loop per thread, polling, the queue of functors, wakeups through the eventfd, timers
    on behalf of the user, quitting. \<open>EventLoopThread\<close> (\<open>net/EventLoopThread.cc\<close>): the thread that runs a loop, how it hands out its
    address and how it is ended, with the race between the two halves of \<open>quit()\<close>.
  \<^item> \<open>TcpConnection\<close> (\<open>net/TcpConnection.cc\<close>): sending with partial writes, shutdown, closing, destruction; every byte accepted
    reaches the wire once and in order, and all of them do when the kernel keeps taking bytes. The functors a connection gives to its loop are
    in its state, with those that keep it alive; the theorems name the situations in which an assertion can fail.
    \<open>WeakCallback\<close> (\<open>base/WeakCallback.h\<close>): delayed closes that may find their connection gone.
  \<^item> \<open>Acceptor\<close>, \<open>TcpServer\<close> (\<open>net/Acceptor.cc\<close>, \<open>TcpServer.cc\<close>, \<open>EventLoopThreadPool.cc\<close>): accepting with every descriptor
    accounted for; connections shared between loops, removed and destroyed exactly once, as long as nobody starts or stops reading on one that is down.
  \<^item> \<open>Connector\<close>, \<open>TcpClient\<close> (\<open>net/Connector.cc\<close>, \<open>TcpClient.cc\<close>): attempts with growing delays, every socket accounted for,
    the composition with a connection, destruction of the client before its connection.
  \<^item> \<open>Http\<close> (\<open>net/http\<close>): the request parser as a partial function, insensitive to how bytes arrive until it refuses a line, inverse to printing, and
    the handler composed with a connection. \<open>HttpSession\<close> runs whole sessions of a client: reading pieces of requests from the socket, parsing,
    answering in order. \<open>Inspector\<close> (\<open>net/inspect/Inspector.cc\<close>) is the callback of one such server: paths
    split into commands and arguments, registration and removal. \<open>ProcessInfo\<close> (\<open>base/ProcessInfo.cc\<close>, \<open>net/inspect/ProcessInspector.cc\<close>,
    \<open>SystemInspector.cc\<close>) has the pages it serves, as functions of the files the kernel shows; \<open>PerfInspector\<close>
    (\<open>PerformanceInspector.cc\<close>) those of the allocator, as functions of what gperftools answers.
  \<^item> \<open>Codec\<close>, \<open>Rpc\<close>, \<open>RpcSystem\<close> (\<open>net/protobuf/ProtobufCodecLite.cc\<close>, \<open>net/protorpc\<close>): frames with checksums; calls
    that complete at most once; a client and a server joined by two byte streams that are cut anywhere, where each completed call has
    the result of its own request. Serialisation and \<open>adler32\<close> are parameters; the round trip assumes only that parsing inverts
    serialising.
  \<^item> \<open>ZlibStream\<close>, \<open>BufferStream\<close> (\<open>net/ZlibStream.h\<close>, \<open>net/protobuf/BufferStream.h\<close>): streams that write into a \<open>Buffer\<close>. zlib is a
    parameter whose contract (input is consumed, output appended, finishing ends) is the hypothesis of the round trip.
  \<^item> \<open>Date\<close>, \<open>TimeZone\<close> (\<open>base/Date.cc\<close>, \<open>TimeZone.cc\<close>): Julian day numbers against the calendar, conversion of times, zone files.
  \<^item> \<open>LogStream\<close>, \<open>Logging\<close>, \<open>LogFile\<close>, \<open>AsyncLogging\<close> (\<open>base\<close>): formatting into fixed buffers, log statements, files that
    roll over, the logging thread. \<open>LogPipeline\<close> joins them: whatever the interleaving, unless more than 25 buffers pile up or a write fails, a line logged by any
    thread ends up whole in one file or is still in memory. \<open>LogConfig\<close> has the macros, their levels and the global hooks.
  \<^item> \<open>GzipFile\<close> (\<open>base/GzipFile.h\<close>): objects that own a handle of zlib; no handle is closed twice or leaked.
  \<^item> \<open>Mutex\<close>, \<open>Thread\<close>, \<open>Singletons\<close> (\<open>base/Mutex.h\<close>, \<open>Condition.h\<close>, \<open>Atomic.h\<close>, \<open>Thread.cc\<close>, \<open>CurrentThread.h\<close>, \<open>Singleton.h\<close>,
    \<open>ThreadLocal.h\<close>, \<open>ThreadLocalSingleton.h\<close>): the wrappers of pthread over its specification: the holder of a mutex, the handshake
    of starting a thread, objects made once.
  \<^item> \<open>Queues\<close>, \<open>ThreadPool\<close> (\<open>base/BlockingQueue.h\<close>, \<open>BoundedBlockingQueue.h\<close>, \<open>CountDownLatch.cc\<close>, \<open>ThreadPool.cc\<close>): monitors with
    waiting, notification and spurious wakeups; order, bounds, the absence of lost wakeups, and that \<open>stop\<close> returns.

  \<^bold>\<open>Bounds and loops.\<close> Sizes of containers are natural numbers: memory ends long before \<open>size_t\<close> does. Where the width matters
  (slot shifts, integers on the wire, time casts, counters) it is kept: words, or an explicit overflow branch. Server connections and
  RPC calls are counted below \<open>2 ^ 31\<close> and \<open>2 ^ 63\<close>, which the step relations state as guards. No function uses fuel: loops are
  structural or have a termination proof. The loops that may not end are partial functions: for the HTTP parser a theorem says exactly
  when it returns, for the loops around \<open>deflate\<close> one says that they return when zlib keeps its contract.

  \<^bold>\<open>Not modelled.\<close> The arithmetic of floating point numbers (delays are microseconds, printed numbers are given as texts); generated
  protobuf classes; user callbacks, whose calls are recorded but which are not run, except in the HTTP sessions; reference counts, except where
  the life of an object depends on them (connections owned by queued functors, the destructor of \<open>TcpClient\<close>); type aliases, tests and drafts.
\<close>

end
